(* ===== verification/Prelude.thy ===== *)
theory Prelude
  imports Main "HOL-Library.Word"
begin

text \<open>
  Shared vocabulary of the development: the ways a kernel routine can fail to return
  (a failed \<open>assert\<close>, a call of \<open>panic\<close>, an access the C program may not make, a loop that
  does not end within its fuel), results that carry such a fault, the sequencing of
  routines, and the facts about words and lists that the components share.
\<close>

unbundle bit_operations_syntax

subsection \<open>Faults and results\<close>

datatype fault = Assert_Failed | Panicked | Bad_Access | Out_Of_Fuel

type_synonym 'a res = "fault + 'a"

definition kassert :: "bool \<Rightarrow> 'a res \<Rightarrow> 'a res" where
  "kassert P r = (if P then r else Inl Assert_Failed)"

definition kbind :: "'a res \<Rightarrow> ('a \<Rightarrow> 'b res) \<Rightarrow> 'b res" where
  "kbind r f = (case r of Inl e \<Rightarrow> Inl e | Inr a \<Rightarrow> f a)"

lemma kassert_simps [simp]:
  "kassert True r = r"
  "kassert False r = Inl Assert_Failed"
  by (simp_all add: kassert_def)

lemma kassert_eq_Inr_iff [simp]: "kassert P r = Inr x \<longleftrightarrow> P \<and> r = Inr x"
  by (simp add: kassert_def)

lemma kassert_eq_Inl_iff:
  "kassert P r = Inl e \<longleftrightarrow> (if P then r = Inl e else e = Assert_Failed)"
  by (auto simp: kassert_def)

lemma kbind_simps [simp]:
  "kbind (Inr a) f = f a"
  "kbind (Inl e) f = Inl e"
  by (simp_all add: kbind_def)

lemma kbind_eq_Inr_iff: "kbind r f = Inr b \<longleftrightarrow> (\<exists>a. r = Inr a \<and> f a = Inr b)"
  by (cases r) auto

text \<open>A computation returns (or panics) unless it runs out of fuel.\<close>

definition returns :: "'a res \<Rightarrow> bool" where
  "returns r \<longleftrightarrow> r \<noteq> Inl Out_Of_Fuel"

lemma returns_simps [simp]:
  "returns (Inr a)" "returns (Inl e) \<longleftrightarrow> e \<noteq> Out_Of_Fuel"
  "returns (kassert P r) \<longleftrightarrow> \<not> P \<or> returns r"
  by (auto simp: returns_def kassert_def)

lemma returns_kbind [intro]:
  "returns r \<Longrightarrow> (\<And>a. r = Inr a \<Longrightarrow> returns (f a)) \<Longrightarrow> returns (kbind r f)"
  by (cases r) (auto simp: returns_def)

text \<open>Partial correctness: what holds of the result if there is one.\<close>

definition ensures :: "'a res \<Rightarrow> ('a \<Rightarrow> bool) \<Rightarrow> bool" where
  "ensures r P \<longleftrightarrow> (\<forall>a. r = Inr a \<longrightarrow> P a)"

lemma ensures_simps [simp]:
  "ensures (Inr a) P \<longleftrightarrow> P a" "ensures (Inl e) P"
  "ensures (kassert Q r) P \<longleftrightarrow> (Q \<longrightarrow> ensures r P)"
  by (auto simp: ensures_def kassert_def)

lemma ensures_kbind [intro]:
  "ensures r Q \<Longrightarrow> (\<And>a. Q a \<Longrightarrow> ensures (f a) P) \<Longrightarrow> ensures (kbind r f) P"
  by (cases r) (auto simp: ensures_def)

lemma ensuresD: "ensures r P \<Longrightarrow> r = Inr a \<Longrightarrow> P a"
  by (simp add: ensures_def)

lemma kbind_assoc: "kbind (kbind r f) g = kbind r (\<lambda>a. kbind (f a) g)"
  by (cases r) auto

subsection \<open>Collections of hints\<close>

named_theorems ring_simps \<open>how the list operations act on a ring\<close>
named_theorems flag_simps \<open>reading a page flag after writing one\<close>

subsection \<open>Words\<close>

lemma unat_ucast_32_64 [simp]: "unat (ucast (x :: 32 word) :: 64 word) = unat x"
proof -
  have "unat x < 2 ^ LENGTH(32)" by (rule unsigned_less)
  then have "unat x < 2 ^ 64" by simp
  then show ?thesis by (simp add: unsigned_ucast_eq take_bit_nat_eq_self_iff)
qed

lemma unat_ucast_64_32: "unat (x :: 64 word) < 2 ^ 32 \<Longrightarrow> unat (ucast x :: 32 word) = unat x"
  by (simp add: unsigned_ucast_eq take_bit_nat_eq_self_iff)

lemma unat_add_less:
  fixes x y :: "'a::len word"
  assumes "unat x + unat y < 2 ^ LENGTH('a)"
  shows "unat (x + y) = unat x + unat y"
  using assms by (simp add: unat_word_ariths)

lemma unat_sub_le:
  fixes x y :: "'a::len word"
  assumes "unat y \<le> unat x"
  shows "unat (x - y) = unat x - unat y"
  using assms by (simp add: unat_sub word_le_nat_alt)

lemma unat_of_nat_small: "n < 2 ^ LENGTH('a) \<Longrightarrow> unat (of_nat n :: 'a::len word) = n"
  by (simp add: unat_of_nat take_bit_nat_eq_self)

subsection \<open>Lists\<close>

lemma sorted_wrt_less_append:
  fixes xs ys :: "'a::linorder list"
  shows "sorted_wrt (<) (xs @ ys) \<longleftrightarrow>
    sorted_wrt (<) xs \<and> sorted_wrt (<) ys \<and> (\<forall>x\<in>set xs. \<forall>y\<in>set ys. x < y)"
  by (auto simp: sorted_wrt_append)

lemma sum_list_map_fun_upd_notin:
  "x \<notin> set xs \<Longrightarrow> (\<Sum>y\<leftarrow>xs. (f(x := v)) y) = (\<Sum>y\<leftarrow>xs. f y)"
  by (induction xs) auto

end
