(* ===== verification/KList.thy ===== *)
theory KList
  imports Prelude
begin

text \<open>
  The intrusive circular doubly linked list of \<open>libs/list.h\<close> (the same file in every lab).
  A \<open>list_entry_t\<close> is an address of type \<open>'a\<close>; the two fields of all entries are one
  store with a next and a prev map, so aliasing between entries is the aliasing of the C
  code. \<open>ring s h xs\<close> says that the entries reached from the head \<open>h\<close> are \<open>xs\<close>, in both
  directions; the lemmas in \<open>ring_simps\<close> are the refinement of the pointer operations to
  insertion and deletion in \<open>xs\<close>.
\<close>

subsection \<open>The store and the operations\<close>

record 'a links =
  lprev :: "'a \<Rightarrow> 'a"
  lnext :: "'a \<Rightarrow> 'a"

definition set_next :: "'a \<Rightarrow> 'a \<Rightarrow> 'a links \<Rightarrow> 'a links" where
  "set_next p v s = s\<lparr>lnext := (lnext s)(p := v)\<rparr>"

definition set_prev :: "'a \<Rightarrow> 'a \<Rightarrow> 'a links \<Rightarrow> 'a links" where
  "set_prev p v s = s\<lparr>lprev := (lprev s)(p := v)\<rparr>"

definition list_init :: "'a \<Rightarrow> 'a links \<Rightarrow> 'a links" where
  "list_init elm s = set_prev elm elm (set_next elm elm s)"

text \<open>\<open>__list_add\<close>: the four writes in the order of the C assignments.\<close>

definition list_add_between :: "'a \<Rightarrow> 'a \<Rightarrow> 'a \<Rightarrow> 'a links \<Rightarrow> 'a links" where
  "list_add_between elm prv nxt s =
     set_prev elm prv (set_next elm nxt (set_next prv elm (set_prev nxt elm s)))"

text \<open>\<open>__list_del\<close>.\<close>

definition list_del_between :: "'a \<Rightarrow> 'a \<Rightarrow> 'a links \<Rightarrow> 'a links" where
  "list_del_between prv nxt s = set_prev nxt prv (set_next prv nxt s)"

definition list_add_after :: "'a \<Rightarrow> 'a \<Rightarrow> 'a links \<Rightarrow> 'a links" where
  "list_add_after listelm elm s = list_add_between elm listelm (lnext s listelm) s"

definition list_add_before :: "'a \<Rightarrow> 'a \<Rightarrow> 'a links \<Rightarrow> 'a links" where
  "list_add_before listelm elm s = list_add_between elm (lprev s listelm) listelm s"

definition list_add :: "'a \<Rightarrow> 'a \<Rightarrow> 'a links \<Rightarrow> 'a links" where
  "list_add listelm elm s = list_add_after listelm elm s"

definition list_del :: "'a \<Rightarrow> 'a links \<Rightarrow> 'a links" where
  "list_del listelm s = list_del_between (lprev s listelm) (lnext s listelm) s"

definition list_del_init :: "'a \<Rightarrow> 'a links \<Rightarrow> 'a links" where
  "list_del_init listelm s = list_init listelm (list_del listelm s)"

definition list_empty :: "'a links \<Rightarrow> 'a \<Rightarrow> bool" where
  "list_empty s lst \<longleftrightarrow> lnext s lst = lst"

definition list_next :: "'a links \<Rightarrow> 'a \<Rightarrow> 'a" where
  "list_next s listelm = lnext s listelm"

definition list_prev :: "'a links \<Rightarrow> 'a \<Rightarrow> 'a" where
  "list_prev s listelm = lprev s listelm"

lemmas list_write_defs = set_next_def set_prev_def list_init_def list_add_between_def
  list_del_between_def list_add_after_def list_add_before_def list_add_def list_del_def
  list_del_init_def

lemmas list_read_defs = list_empty_def list_next_def list_prev_def

subsection \<open>Chains and rings\<close>

fun chain :: "'a links \<Rightarrow> 'a \<Rightarrow> 'a list \<Rightarrow> 'a \<Rightarrow> bool" where
  "chain s a [] b \<longleftrightarrow> lnext s a = b \<and> lprev s b = a"
| "chain s a (x # xs) b \<longleftrightarrow> lnext s a = x \<and> lprev s x = a \<and> chain s x xs b"

definition ring :: "'a links \<Rightarrow> 'a \<Rightarrow> 'a list \<Rightarrow> bool" where
  "ring s h xs \<longleftrightarrow> distinct (h # xs) \<and> chain s h xs h"

lemma chain_append [simp]:
  "chain s a (xs @ y # ys) b \<longleftrightarrow> chain s a xs y \<and> chain s y ys b"
  by (induction xs arbitrary: a) auto

lemma chain_cong:
  assumes "\<forall>p\<in>set (a # xs). lnext t p = lnext s p" and "\<forall>p\<in>set (xs @ [b]). lprev t p = lprev s p"
  shows "chain t a xs b = chain s a xs b"
  using assms by (induction xs arbitrary: a) auto

lemma chain_next_hd: "chain s a xs b \<Longrightarrow> lnext s a = hd (xs @ [b])"
  by (cases xs) auto

lemma chain_prev_last: "chain s a xs b \<Longrightarrow> lprev s b = last (a # xs)"
  by (induction xs arbitrary: a) auto

lemma ring_distinct: "ring s h xs \<Longrightarrow> distinct xs \<and> h \<notin> set xs"
  by (simp add: ring_def)

text \<open>Any entry of a ring can serve as its head.\<close>

lemma ring_rotate: "ring s h (xs @ y # ys) \<longleftrightarrow> ring s y (ys @ h # xs)"
  by (auto simp: ring_def)

lemma ring_frame:
  assumes "\<forall>p\<in>set (h # xs). lnext t p = lnext s p \<and> lprev t p = lprev s p"
  shows "ring t h xs = ring s h xs"
proof -
  have "chain t h xs h = chain s h xs h"
    by (rule chain_cong) (use assms in auto)
  then show ?thesis by (simp add: ring_def)
qed

subsection \<open>What the operations do to a ring\<close>

lemma ring_next_head: "ring s h xs \<Longrightarrow> lnext s h = hd (xs @ [h])"
  by (simp add: ring_def chain_next_hd)

lemma ring_prev_head: "ring s h xs \<Longrightarrow> lprev s h = last (h # xs)"
  unfolding ring_def by (blast intro: chain_prev_last)

lemma ring_next: "ring s h (xs @ y # ys) \<Longrightarrow> lnext s y = hd (ys @ [h])"
  by (simp add: ring_def chain_next_hd)

lemma ring_prev: "ring s h (xs @ y # ys) \<Longrightarrow> lprev s y = last (h # xs)"
  unfolding ring_def chain_append by (blast intro: chain_prev_last)

lemma ring_empty_iff: "ring s h xs \<Longrightarrow> list_empty s h \<longleftrightarrow> xs = []"
  by (cases xs) (auto simp: ring_def list_empty_def)

lemma ring_list_init [ring_simps]: "ring (list_init h s) h []"
  by (simp add: ring_def list_write_defs)

lemma ring_add_after_head [ring_simps]:
  assumes r: "ring s h xs" and e: "e \<notin> set (h # xs)"
  shows "ring (list_add_after h e s) h (e # xs)"
proof -
  let ?t = "list_add_after h e s" and ?b = "hd (xs @ [h])"
  have nxt: "lnext s h = ?b" using r by (rule ring_next_head)
  have d: "distinct (h # xs)" using r by (simp add: ring_def)
  show ?thesis
  proof (cases xs)
    case Nil
    then show ?thesis using e nxt by (auto simp: ring_def list_write_defs)
  next
    case (Cons y ys)
    have "chain ?t y ys h = chain s y ys h"
      by (rule chain_cong) (use d e nxt Cons in \<open>auto simp: list_write_defs\<close>)
    then show ?thesis using r d e nxt Cons by (auto simp: ring_def list_write_defs)
  qed
qed

lemma ring_add_after [ring_simps]:
  assumes r: "ring s h (xs @ y # ys)" and e: "e \<notin> set (h # xs @ y # ys)"
  shows "ring (list_add_after y e s) h (xs @ y # e # ys)"
proof -
  have "ring s y (ys @ h # xs)" using r by (simp add: ring_rotate)
  then have "ring (list_add_after y e s) y ((e # ys) @ h # xs)"
    using e by (simp add: ring_add_after_head)
  then show ?thesis by (subst ring_rotate) simp
qed

lemma list_add_before_after:
  assumes "ring s h xs"
  shows "list_add_before h e s = list_add_after (last (h # xs)) e s"
proof (cases xs rule: rev_cases)
  case Nil
  then show ?thesis
    using assms by (simp add: list_add_before_def list_add_after_def ring_def)
next
  case (snoc zs z)
  with assms have "lprev s h = z" and "lnext s z = h"
    using ring_prev_head [OF assms] by (auto simp: ring_def)
  then show ?thesis
    using snoc by (simp add: list_add_before_def list_add_after_def)
qed

lemma ring_add_before_head [ring_simps]:
  assumes r: "ring s h xs" and e: "e \<notin> set (h # xs)"
  shows "ring (list_add_before h e s) h (xs @ [e])"
proof (cases xs rule: rev_cases)
  case Nil
  then show ?thesis
    using r e ring_add_after_head [OF r e] by (simp add: list_add_before_after [OF r])
next
  case (snoc zs z)
  then show ?thesis
    using r e ring_add_after [of s h zs z "[]" e]
    by (simp add: list_add_before_after [OF r])
qed

lemma ring_add_before [ring_simps]:
  assumes r: "ring s h (xs @ y # ys)" and e: "e \<notin> set (h # xs @ y # ys)"
  shows "ring (list_add_before y e s) h (xs @ e # y # ys)"
proof -
  have "ring s y (ys @ h # xs)" using r by (simp add: ring_rotate)
  then have "ring (list_add_before y e s) y (ys @ h # (xs @ [e]))"
    using e ring_add_before_head [of s y "ys @ h # xs" e] by auto
  then show ?thesis using ring_rotate [of _ h "xs @ [e]" y ys] by simp
qed

lemma ring_del_first:
  assumes r: "ring s h (y # ys)"
  shows "ring (list_del y s) h ys"
proof -
  let ?t = "list_del y s"
  have d: "distinct (h # y # ys)" using r by (simp add: ring_def)
  have p: "lprev s y = h" using r by (simp add: ring_def)
  show ?thesis
  proof (cases ys)
    case Nil
    then show ?thesis using r p by (auto simp: ring_def list_write_defs)
  next
    case (Cons z zs)
    then have n: "lnext s y = z" using r by (simp add: ring_def)
    have "chain ?t z zs h = chain s z zs h"
      by (rule chain_cong) (use d n p Cons in \<open>auto simp: list_write_defs\<close>)
    then show ?thesis using r d n p Cons by (auto simp: ring_def list_write_defs)
  qed
qed

lemma ring_del [ring_simps]:
  assumes r: "ring s h (xs @ y # ys)"
  shows "ring (list_del y s) h (xs @ ys)"
proof (cases xs rule: rev_cases)
  case Nil
  then show ?thesis using r ring_del_first [of s h y ys] by simp
next
  case (snoc zs z)
  have "ring s z ((y # ys) @ h # zs)"
    using r snoc ring_rotate [of s h zs z "y # ys"] by simp
  then have "ring (list_del y s) z (ys @ h # zs)"
    using ring_del_first [of s z y "ys @ h # zs"] by simp
  then show ?thesis using snoc ring_rotate [of _ h zs z ys] by simp
qed

text \<open>A cursor in the middle of a walk: the entry after the prefix \<open>xs\<close> that has been passed.\<close>

lemma ring_next_at: "ring s h (xs @ ys) \<Longrightarrow> lnext s (last (h # xs)) = hd (ys @ [h])"
proof (cases xs rule: rev_cases)
  case Nil
  assume "ring s h (xs @ ys)"
  then show ?thesis using Nil ring_next_head [of s h ys] by simp
next
  case (snoc zs z)
  assume "ring s h (xs @ ys)"
  then show ?thesis using snoc ring_next [of s h zs z ys] by simp
qed

lemma ring_prev_at: "ring s h (xs @ ys) \<Longrightarrow> lprev s (hd (ys @ [h])) = last (h # xs)"
  using ring_prev_head [of s h xs] ring_prev [of s h xs "hd ys" "tl ys"] by (cases ys) auto

lemma ring_add_after_at [ring_simps]:
  assumes r: "ring s h (xs @ ys)" and e: "e \<notin> set (h # xs @ ys)"
  shows "ring (list_add_after (last (h # xs)) e s) h (xs @ e # ys)"
proof (cases xs rule: rev_cases)
  case Nil
  then show ?thesis using r e ring_add_after_head [of s h ys e] by simp
next
  case (snoc zs z)
  then show ?thesis using r e ring_add_after [of s h zs z ys e] by simp
qed

text \<open>The entries of a ring, collected by walking it; at most \<open>fuel\<close> of them.\<close>

fun walk :: "nat \<Rightarrow> 'a links \<Rightarrow> 'a \<Rightarrow> 'a \<Rightarrow> 'a list" where
  "walk 0 s h le = []"
| "walk (Suc fuel) s h le =
     (if lnext s le = h then [] else lnext s le # walk fuel s h (lnext s le))"

lemma walk_ring_at:
  "ring s h (xs @ ys) \<Longrightarrow> length ys \<le> fuel \<Longrightarrow> walk fuel s h (last (h # xs)) = ys"
proof (induction ys arbitrary: xs fuel)
  case Nil
  then show ?case using ring_next_at [of s h xs "[]"] by (cases fuel) simp_all
next
  case (Cons y ys)
  then obtain f where f: "fuel = Suc f" by (cases fuel) auto
  have "lnext s (last (h # xs)) = y" using Cons.prems(1) ring_next_at [of s h xs "y # ys"] by simp
  moreover have "y \<noteq> h" using Cons.prems(1) by (auto simp: ring_def)
  moreover have "walk f s h y = ys" using Cons.IH [of "xs @ [y]" f] Cons.prems f by simp
  ultimately show ?case using f by simp
qed

lemma walk_ring: "ring s h xs \<Longrightarrow> length xs \<le> fuel \<Longrightarrow> walk fuel s h h = xs"
  using walk_ring_at [of s h "[]" xs fuel] by simp

text \<open>A deleted entry keeps its own pointers; only \<open>list_del_init\<close> makes it a ring again.\<close>

lemma list_del_keeps_entry:
  assumes "ring s h (xs @ y # ys)"
  shows "lnext (list_del y s) y = lnext s y" and "lprev (list_del y s) y = lprev s y"
proof -
  have "lnext s y \<noteq> y" using assms ring_next [OF assms] by (cases ys) (auto simp: ring_def)
  moreover have "lprev s y \<noteq> y"
    using assms ring_prev [OF assms] by (cases xs rule: rev_cases) (auto simp: ring_def)
  ultimately show "lnext (list_del y s) y = lnext s y" and "lprev (list_del y s) y = lprev s y"
    by (auto simp: list_write_defs)
qed

lemma ring_del_init:
  assumes r: "ring s h (xs @ y # ys)"
  shows "ring (list_del_init y s) h (xs @ ys)" and "ring (list_del_init y s) y []"
proof -
  have d: "ring (list_del y s) h (xs @ ys)" using r by (rule ring_del)
  have y: "y \<notin> set (h # xs @ ys)" using r by (auto simp: ring_def)
  have "ring (list_del_init y s) h (xs @ ys) = ring (list_del y s) h (xs @ ys)"
    unfolding list_del_init_def
    by (rule ring_frame) (use y in \<open>auto simp: list_init_def set_next_def set_prev_def\<close>)
  then show "ring (list_del_init y s) h (xs @ ys)" using d by simp
  show "ring (list_del_init y s) y []"
    by (simp add: list_del_init_def ring_list_init)
qed

subsection \<open>Independent rings\<close>

lemma ring_nbrs:
  assumes r: "ring s h xs" and y: "y \<in> set (h # xs)"
  shows "lnext s y \<in> set (h # xs)" and "lprev s y \<in> set (h # xs)"
proof -
  have "lnext s y \<in> set (h # xs) \<and> lprev s y \<in> set (h # xs)"
  proof (cases "y = h")
    case True
    moreover have "last (h # xs) \<in> set (h # xs)" by (rule last_in_set) simp
    ultimately show ?thesis
      using ring_next_head [OF r] ring_prev_head [OF r] by (cases xs) auto
  next
    case False
    with y obtain as bs where xs: "xs = as @ y # bs" by (auto dest: split_list)
    have "lnext s y = hd (bs @ [h])" and "lprev s y = last (h # as)"
      using r unfolding xs by (rule ring_next, rule ring_prev)
    moreover have "last (h # as) \<in> set (h # as)" by (rule last_in_set) simp
    moreover have "hd (bs @ [h]) \<in> set (h # bs)" by (cases bs) auto
    ultimately show ?thesis unfolding xs by auto
  qed
  then show "lnext s y \<in> set (h # xs)" and "lprev s y \<in> set (h # xs)" by blast+
qed

lemma ring_frame_add_after:
  assumes "ring s k zs" and "l \<in> set (k # zs)"
    and "set (k # zs) \<inter> set (h # xs) = {}" and "e \<notin> set (h # xs)"
  shows "ring (list_add_after l e s) h xs = ring s h xs"
proof -
  have "lnext s l \<in> set (k # zs)" using assms(1,2) by (rule ring_nbrs)
  with assms(2-4) have "l \<notin> set (h # xs)" "lnext s l \<notin> set (h # xs)" by blast+
  then show ?thesis
    by (intro ring_frame) (use assms(4) in \<open>auto simp: list_write_defs\<close>)
qed

lemma ring_frame_del:
  assumes "ring s k zs" and "e \<in> set (k # zs)" and "set (k # zs) \<inter> set (h # xs) = {}"
  shows "ring (list_del e s) h xs = ring s h xs"
proof -
  have "lnext s e \<in> set (k # zs)" "lprev s e \<in> set (k # zs)" using assms(1,2) by (rule ring_nbrs)+
  with assms(3) have "lnext s e \<notin> set (h # xs)" "lprev s e \<notin> set (h # xs)" by blast+
  then show ?thesis by (intro ring_frame) (auto simp: list_write_defs)
qed

end
