(* ===== verification/Pmm_Page.thy ===== *)
theory Pmm_Page
  imports KList
begin

text \<open>
  Page descriptors of lab2 (\<open>kern/mm/memlayout.h\<close>), the bit operations of \<open>libs/atomic.h\<close>
  through which their flags are read and written, and the state that the page allocators
  of lab2 share. A \<open>struct Page *\<close> is its index in the \<open>pages\<close> array; a \<open>page_link\<close> is
  an entry of the list store, whose other entries are the list heads.
\<close>

subsection \<open>Bits of a word array (libs/atomic.h)\<close>

definition BIT_MASK :: "nat \<Rightarrow> 64 word" where
  "BIT_MASK nr = push_bit (nr mod 64) 1"

definition BIT_WORD :: "nat \<Rightarrow> nat" where
  "BIT_WORD nr = nr div 64"

definition set_bit :: "nat \<Rightarrow> (nat \<Rightarrow> 64 word) \<Rightarrow> (nat \<Rightarrow> 64 word)" where
  "set_bit nr addr = addr(BIT_WORD nr := addr (BIT_WORD nr) OR BIT_MASK nr)"

definition clear_bit :: "nat \<Rightarrow> (nat \<Rightarrow> 64 word) \<Rightarrow> (nat \<Rightarrow> 64 word)" where
  "clear_bit nr addr = addr(BIT_WORD nr := addr (BIT_WORD nr) AND NOT (BIT_MASK nr))"

definition change_bit :: "nat \<Rightarrow> (nat \<Rightarrow> 64 word) \<Rightarrow> (nat \<Rightarrow> 64 word)" where
  "change_bit nr addr = addr(BIT_WORD nr := addr (BIT_WORD nr) XOR BIT_MASK nr)"

text \<open>\<open>test_bit\<close> shifts the first word of the array only.\<close>

definition test_bit :: "nat \<Rightarrow> (nat \<Rightarrow> 64 word) \<Rightarrow> bool" where
  "test_bit nr addr \<longleftrightarrow> drop_bit nr (addr 0) AND 1 \<noteq> 0"

definition test_and_set_bit :: "nat \<Rightarrow> (nat \<Rightarrow> 64 word) \<Rightarrow> bool \<times> (nat \<Rightarrow> 64 word)" where
  "test_and_set_bit nr addr =
     (addr (BIT_WORD nr) AND BIT_MASK nr \<noteq> 0, set_bit nr addr)"

definition test_and_clear_bit :: "nat \<Rightarrow> (nat \<Rightarrow> 64 word) \<Rightarrow> bool \<times> (nat \<Rightarrow> 64 word)" where
  "test_and_clear_bit nr addr =
     (addr (BIT_WORD nr) AND BIT_MASK nr \<noteq> 0, clear_bit nr addr)"

lemma BIT_MASK_bit: "bit (BIT_MASK nr) k \<longleftrightarrow> k = nr mod 64"
  by (auto simp: BIT_MASK_def bit_simps)

lemma and_mask_nonzero: "(w AND BIT_MASK nr \<noteq> 0) \<longleftrightarrow> bit w (nr mod 64)"
proof -
  have "w AND BIT_MASK nr = (if bit w (nr mod 64) then BIT_MASK nr else 0)"
    by (rule bit_eqI) (auto simp: bit_and_iff BIT_MASK_bit)
  moreover have "BIT_MASK nr \<noteq> 0"
    using BIT_MASK_bit [of nr "nr mod 64"] by (metis bit_0_eq bot_apply bot_bool_def)
  ultimately show ?thesis by auto
qed

lemma test_bit_iff: "test_bit nr addr \<longleftrightarrow> bit (addr 0) nr"
  by (simp add: test_bit_def and_one_eq bit_iff_odd_drop_bit odd_iff_mod_2_eq_one)

text \<open>What the operations do to the bit they name and to the others of its word.\<close>

lemma bit_after_update:
  assumes "k < 64"
  shows "bit (set_bit nr a (BIT_WORD nr)) k \<longleftrightarrow> k = nr mod 64 \<or> bit (a (BIT_WORD nr)) k"
    and "bit (clear_bit nr a (BIT_WORD nr)) k \<longleftrightarrow> k \<noteq> nr mod 64 \<and> bit (a (BIT_WORD nr)) k"
    and "bit (change_bit nr a (BIT_WORD nr)) k \<longleftrightarrow>
      (if k = nr mod 64 then \<not> bit (a (BIT_WORD nr)) k else bit (a (BIT_WORD nr)) k)"
  using assms
  by (auto simp: set_bit_def clear_bit_def change_bit_def bit_simps BIT_MASK_bit)

subsection \<open>Page descriptors\<close>

record page =
  ref :: "32 word"
  flags :: "64 word"
  property :: "32 word"

definition PG_reserved :: nat where "PG_reserved = 0"
definition PG_property :: nat where "PG_property = 1"

text \<open>The word array that starts at \<open>&(page->flags)\<close> has the field as its word 0.\<close>

definition SetPageReserved :: "page \<Rightarrow> page" where
  "SetPageReserved p = p\<lparr>flags := set_bit PG_reserved (\<lambda>_. flags p) 0\<rparr>"

definition ClearPageReserved :: "page \<Rightarrow> page" where
  "ClearPageReserved p = p\<lparr>flags := clear_bit PG_reserved (\<lambda>_. flags p) 0\<rparr>"

definition PageReserved :: "page \<Rightarrow> bool" where
  "PageReserved p = test_bit PG_reserved (\<lambda>_. flags p)"

definition SetPageProperty :: "page \<Rightarrow> page" where
  "SetPageProperty p = p\<lparr>flags := set_bit PG_property (\<lambda>_. flags p) 0\<rparr>"

definition ClearPageProperty :: "page \<Rightarrow> page" where
  "ClearPageProperty p = p\<lparr>flags := clear_bit PG_property (\<lambda>_. flags p) 0\<rparr>"

definition PageProperty :: "page \<Rightarrow> bool" where
  "PageProperty p = test_bit PG_property (\<lambda>_. flags p)"

definition set_page_ref :: "page \<Rightarrow> 32 word \<Rightarrow> page" where
  "set_page_ref p val = p\<lparr>ref := val\<rparr>"

lemma PageReserved_bit: "PageReserved p \<longleftrightarrow> bit (flags p) 0"
  and PageProperty_bit: "PageProperty p \<longleftrightarrow> bit (flags p) 1"
  by (simp_all add: PageReserved_def PageProperty_def test_bit_iff PG_reserved_def PG_property_def)

lemma flags_update [simp]:
  "flags (SetPageReserved p) = flags p OR 1"
  "flags (ClearPageReserved p) = flags p AND NOT 1"
  "flags (SetPageProperty p) = flags p OR 2"
  "flags (ClearPageProperty p) = flags p AND NOT 2"
  "flags (set_page_ref p v) = flags p"
  by (simp_all add: SetPageReserved_def ClearPageReserved_def SetPageProperty_def
      ClearPageProperty_def set_page_ref_def set_bit_def clear_bit_def BIT_WORD_def BIT_MASK_def
      PG_reserved_def PG_property_def)

lemma property_update [simp]:
  "property (SetPageReserved p) = property p"
  "property (ClearPageReserved p) = property p"
  "property (SetPageProperty p) = property p"
  "property (ClearPageProperty p) = property p"
  "property (set_page_ref p v) = property p"
  by (simp_all add: SetPageReserved_def ClearPageReserved_def SetPageProperty_def
      ClearPageProperty_def set_page_ref_def)

lemma bit_2_word: "bit (2 :: 64 word) k \<longleftrightarrow> k = 1"
  using bit_exp_iff [of 1 k, where 'a = "64 word"] by auto

lemma flag_simps [flag_simps]:
  "PageReserved (SetPageReserved p)"
  "\<not> PageReserved (ClearPageReserved p)"
  "PageProperty (SetPageProperty p)"
  "\<not> PageProperty (ClearPageProperty p)"
  "PageReserved (SetPageProperty p) = PageReserved p"
  "PageReserved (ClearPageProperty p) = PageReserved p"
  "PageProperty (SetPageReserved p) = PageProperty p"
  "PageProperty (ClearPageReserved p) = PageProperty p"
  by (auto simp: PageReserved_bit PageProperty_bit bit_simps bit_2_word bit_1_iff)

lemma flags_const [simp]:
  "flags p = 0 \<Longrightarrow> \<not> PageReserved p"
  "flags p = 0 \<Longrightarrow> \<not> PageProperty p"
  "flags p = 2 \<Longrightarrow> PageProperty p"
  "flags p = 2 \<Longrightarrow> \<not> PageReserved p"
  by (simp_all add: PageReserved_bit PageProperty_bit bit_2_word)

subsection \<open>The state of a page allocator\<close>

datatype 'h plink = Free_Head 'h | Page_Link nat

text \<open>
  \<open>npages\<close> is the length of the \<open>pages\<close> array (\<open>npage - nbase\<close>); the allocators never read
  it, the model takes from it the fuel of the loops that walk a free list.
\<close>

record 'h frames =
  pages :: "nat \<Rightarrow> page"
  links :: "'h plink links"
  nr_free :: "32 word"
  npages :: nat

text \<open>\<open>free_area_t\<close> has one list head.\<close>

type_synonym free_area = "unit frames"

abbreviation free_list :: "unit plink" where
  "free_list \<equiv> Free_Head ()"

definition upd_page :: "nat \<Rightarrow> (page \<Rightarrow> page) \<Rightarrow> 'h frames \<Rightarrow> 'h frames" where
  "upd_page i f s = s\<lparr>pages := (pages s)(i := f (pages s i))\<rparr>"

definition upd_links :: "('h plink links \<Rightarrow> 'h plink links) \<Rightarrow> 'h frames \<Rightarrow> 'h frames" where
  "upd_links f s = s\<lparr>links := f (links s)\<rparr>"

lemma upd_page_simps [simp]:
  "pages (upd_page i f s) = (pages s)(i := f (pages s i))"
  "links (upd_page i f s) = links s"
  "nr_free (upd_page i f s) = nr_free s"
  "npages (upd_page i f s) = npages s"
  by (simp_all add: upd_page_def)

lemma upd_links_simps [simp]:
  "pages (upd_links g s) = pages s"
  "links (upd_links g s) = g (links s)"
  "nr_free (upd_links g s) = nr_free s"
  "npages (upd_links g s) = npages s"
  by (simp_all add: upd_links_def)

subsection \<open>Blocks of pages\<close>

text \<open>
  The abstract free list: blocks \<open>(base, size)\<close> in address order. \<open>sep lo bs hi\<close> says that
  they are nonempty, in order, disjoint and within the indices \<open>lo\<close> to \<open>hi\<close>.
\<close>

type_synonym block = "nat \<times> nat"

fun sep :: "nat \<Rightarrow> block list \<Rightarrow> nat \<Rightarrow> bool" where
  "sep lo [] hi \<longleftrightarrow> lo \<le> hi"
| "sep lo ((b, k) # bs) hi \<longleftrightarrow> lo \<le> b \<and> 0 < k \<and> sep (b + k) bs hi"

definition block_pages :: "block \<Rightarrow> nat set" where
  "block_pages bk = {fst bk ..< fst bk + snd bk}"

definition covered :: "block list \<Rightarrow> nat set" where
  "covered bs = (\<Union>bk\<in>set bs. block_pages bk)"

lemma sep_append: "sep lo (xs @ (b, k) # ys) hi \<longleftrightarrow> sep lo xs b \<and> 0 < k \<and> sep (b + k) ys hi"
  by (induction xs arbitrary: lo) auto

lemma sep_le: "sep lo bs hi \<Longrightarrow> lo \<le> hi"
  by (induction lo bs hi rule: sep.induct) auto

lemma sep_mono: "sep lo bs hi \<Longrightarrow> lo' \<le> lo \<Longrightarrow> hi \<le> hi' \<Longrightarrow> sep lo' bs hi'"
  by (induction lo bs hi arbitrary: lo' rule: sep.induct) auto

lemma sep_join: "sep lo xs m \<Longrightarrow> sep m' ys hi \<Longrightarrow> m \<le> m' \<Longrightarrow> sep lo (xs @ ys) hi"
proof (cases ys)
  case Nil
  assume "sep lo xs m" "sep m' ys hi" "m \<le> m'"
  then show ?thesis using Nil by (auto intro: sep_mono)
next
  case (Cons bk zs)
  assume "sep lo xs m" "sep m' ys hi" "m \<le> m'"
  then show ?thesis using Cons sep_mono [of lo xs m lo "fst bk"]
    by (cases bk) (auto simp: sep_append)
qed

lemma sep_bounds: "sep lo bs hi \<Longrightarrow> (b, k) \<in> set bs \<Longrightarrow> lo \<le> b \<and> 0 < k \<and> b + k \<le> hi"
proof (induction lo bs hi rule: sep.induct)
  case (2 lo c j bs hi)
  then show ?case using sep_le [of "c + j" bs hi] by auto
qed simp

lemma sep_shrink:
  "sep lo bs hi \<Longrightarrow> \<forall>bk\<in>set bs. fst bk + snd bk \<le> m \<Longrightarrow> lo \<le> m \<Longrightarrow> sep lo bs m"
  by (induction lo bs hi rule: sep.induct) auto

lemma sep_raise:
  "sep lo bs hi \<Longrightarrow> \<forall>bk\<in>set bs. m \<le> fst bk \<Longrightarrow> m \<le> hi \<Longrightarrow> sep m bs hi"
  by (cases bs) auto

lemma sep_prefix: "sep lo (as @ cs) hi \<Longrightarrow> sep lo as hi"
proof (induction lo as hi rule: sep.induct)
  case (1 lo hi)
  then show ?case using sep_le [of lo cs hi] by simp
qed simp

lemma sep_insert:
  assumes s: "sep lo (as @ cs) hi" and n: "0 < n" "lo \<le> base" "base + n \<le> hi"
    and a: "\<forall>bk\<in>set as. fst bk < base" and c: "\<forall>bk\<in>set cs. base < fst bk"
    and dis: "{base ..< base + n} \<inter> covered (as @ cs) = {}"
  shows "sep lo (as @ (base, n) # cs) hi"
proof -
  have pos: "0 < snd bk" if "bk \<in> set (as @ cs)" for bk
    using sep_bounds [OF s, of "fst bk" "snd bk"] that by simp
  have "fst bk + snd bk \<le> base" if "bk \<in> set as" for bk
  proof (rule ccontr)
    assume "\<not> fst bk + snd bk \<le> base"
    then have "base \<in> block_pages bk" using a that by (auto simp: block_pages_def)
    moreover have "base \<in> {base ..< base + n}" using n by simp
    ultimately show False using dis that by (fastforce simp: covered_def disjoint_iff)
  qed
  moreover have "sep lo as hi" using s by (rule sep_prefix)
  ultimately have 1: "sep lo as base" using n by (auto intro: sep_shrink)
  have "base + n \<le> fst bk" if "bk \<in> set cs" for bk
  proof (rule ccontr)
    assume "\<not> base + n \<le> fst bk"
    then have "fst bk \<in> {base ..< base + n}" using c that by auto
    moreover have "fst bk \<in> block_pages bk" using pos [of bk] that by (auto simp: block_pages_def)
    ultimately show False using dis that by (fastforce simp: covered_def disjoint_iff)
  qed
  moreover have "\<exists>m. sep m cs hi" using s by (cases cs) (auto simp: sep_append)
  ultimately have 2: "sep (base + n) cs hi" using n by (auto intro: sep_raise)
  from 1 2 n show ?thesis by (simp add: sep_append)
qed

lemma sep_covered: "sep lo bs hi \<Longrightarrow> covered bs \<subseteq> {lo ..< hi}"
  using sep_bounds by (fastforce simp: covered_def block_pages_def)

lemma covered_simps [simp]:
  "covered [] = {}"
  "covered (bk # bs) = block_pages bk \<union> covered bs"
  "covered (xs @ ys) = covered xs \<union> covered ys"
  by (auto simp: covered_def)

lemma finite_covered [simp]: "finite (covered bs)"
  by (simp add: covered_def block_pages_def)

lemma sep_card: "sep lo bs hi \<Longrightarrow> card (covered bs) = sum_list (map snd bs)"
proof (induction lo bs hi rule: sep.induct)
  case (2 lo b k bs hi)
  then have "{b ..< b + k} \<inter> covered bs = {}"
    using sep_covered [of "b + k" bs hi] by fastforce
  then have "card ({b ..< b + k} \<union> covered bs) = k + card (covered bs)"
    by (simp add: card_Un_disjoint)
  with 2 show ?case by (simp add: block_pages_def)
qed simp

lemma sep_sum: "sep lo bs hi \<Longrightarrow> lo + sum_list (map snd bs) \<le> hi"
  by (induction lo bs hi rule: sep.induct) auto

lemma sep_length: "sep lo bs hi \<Longrightarrow> lo + length bs \<le> hi"
  by (induction lo bs hi rule: sep.induct) auto

lemma sep_sorted: "sep lo bs hi \<Longrightarrow> sorted_wrt (<) (map fst bs)"
proof (induction lo bs hi rule: sep.induct)
  case (2 lo b k bs hi)
  then show ?case using sep_bounds [of "b + k" bs hi] by fastforce
qed simp

lemma sep_distinct: "sep lo bs hi \<Longrightarrow> distinct (map fst bs)"
  using sep_sorted strict_sorted_iff by blast

end
