(* ===== verification/First_Fit.thy ===== *)
theory First_Fit
  imports Pmm_Page
begin

text \<open>
  The first fit allocator \<open>lab2/kern/mm/default_pmm.c\<close>: its routines over the page array
  and the free list, the invariant that ties the free list to a list of disjoint blocks,
  and the refinement of every routine to an operation on that list.
\<close>

subsection \<open>The routines\<close>

definition default_init :: "free_area \<Rightarrow> free_area" where
  "default_init s = (upd_links (list_init free_list) s)\<lparr>nr_free := 0\<rparr>"

text \<open>The loop \<open>for (; p != base + n; p++)\<close> of \<open>default_init_memmap\<close>; \<open>k\<close> pages are left.\<close>

fun memmap_pages :: "nat \<Rightarrow> nat \<Rightarrow> (nat \<Rightarrow> page) \<Rightarrow> (nat \<Rightarrow> page) res" where
  "memmap_pages 0 p ps = Inr ps"
| "memmap_pages (Suc k) p ps =
     kassert (PageReserved (ps p))
       (memmap_pages k (Suc p) (ps(p := set_page_ref ((ps p)\<lparr>property := 0, flags := 0\<rparr>) 0)))"

text \<open>
  The search loop that links \<open>base\<close> into the free list. It has no \<open>break\<close> after
  the insertion at the tail, so it goes on from the entry it has just linked.
\<close>

fun insert_loop :: "nat \<Rightarrow> unit plink \<Rightarrow> nat \<Rightarrow> unit plink links \<Rightarrow> unit plink links res" where
  "insert_loop 0 le base ls = Inl Out_Of_Fuel"
| "insert_loop (Suc fuel) le base ls =
     (case list_next ls le of
        Free_Head _ \<Rightarrow> Inr ls
      | Page_Link page \<Rightarrow>
          if base < page then Inr (list_add_before (Page_Link page) (Page_Link base) ls)
          else if list_next ls (Page_Link page) = free_list
          then insert_loop fuel (Page_Link page) base (list_add (Page_Link page) (Page_Link base) ls)
          else insert_loop fuel (Page_Link page) base ls)"

definition link_block :: "nat \<Rightarrow> free_area \<Rightarrow> free_area res" where
  "link_block base s =
     (if list_empty (links s) free_list
      then Inr (upd_links (list_add free_list (Page_Link base)) s)
      else kbind (insert_loop (npages s + 2) free_list base (links s)) (\<lambda>ls. Inr (s\<lparr>links := ls\<rparr>)))"

definition default_init_memmap :: "nat \<Rightarrow> 64 word \<Rightarrow> free_area \<Rightarrow> free_area res" where
  "default_init_memmap base n s =
     kassert (n > 0)
       (kbind (memmap_pages (unat n) base (pages s)) (\<lambda>ps.
          link_block base
            ((upd_page base (\<lambda>p. SetPageProperty (p\<lparr>property := ucast n\<rparr>)) (s\<lparr>pages := ps\<rparr>))
               \<lparr>nr_free := nr_free s + ucast n\<rparr>)))"

fun find_first :: "nat \<Rightarrow> unit plink \<Rightarrow> 64 word \<Rightarrow> free_area \<Rightarrow> nat option res" where
  "find_first 0 le n s = Inl Out_Of_Fuel"
| "find_first (Suc fuel) le n s =
     (case list_next (links s) le of
        Free_Head _ \<Rightarrow> Inr None
      | Page_Link p \<Rightarrow>
          if ucast (property (pages s p)) \<ge> n then Inr (Some p)
          else find_first fuel (Page_Link p) n s)"

text \<open>The branch \<open>if (page != NULL)\<close>: unlink \<open>page\<close>, give the rest of the block back.\<close>

definition take_block :: "nat \<Rightarrow> 64 word \<Rightarrow> free_area \<Rightarrow> free_area" where
  "take_block page n s =
     (let prv = list_prev (links s) (Page_Link page);
          s1 = upd_links (list_del (Page_Link page)) s;
          s2 = (if ucast (property (pages s1 page)) > n
                then let p = page + unat n;
                         m = ucast (ucast (property (pages s1 page)) - n) in
                     upd_links (list_add prv (Page_Link p))
                       (upd_page p SetPageProperty (upd_page p (\<lambda>q. q\<lparr>property := m\<rparr>) s1))
                else s1)
      in upd_page page ClearPageProperty (s2\<lparr>nr_free := nr_free s2 - ucast n\<rparr>))"

definition default_alloc_pages :: "64 word \<Rightarrow> free_area \<Rightarrow> (nat option \<times> free_area) res" where
  "default_alloc_pages n s =
     kassert (n > 0)
       (if n > ucast (nr_free s) then Inr (None, s)
        else kbind (find_first (npages s + 1) free_list n s) (\<lambda>page.
               case page of None \<Rightarrow> Inr (None, s) | Some p \<Rightarrow> Inr (Some p, take_block p n s)))"

fun release_pages :: "nat \<Rightarrow> nat \<Rightarrow> (nat \<Rightarrow> page) \<Rightarrow> (nat \<Rightarrow> page) res" where
  "release_pages 0 p ps = Inr ps"
| "release_pages (Suc k) p ps =
     kassert (\<not> PageReserved (ps p) \<and> \<not> PageProperty (ps p))
       (release_pages k (Suc p) (ps(p := set_page_ref ((ps p)\<lparr>flags := 0\<rparr>) 0)))"

text \<open>Merging with the block before; the result is the page that heads the block now.\<close>

definition merge_prev :: "nat \<Rightarrow> free_area \<Rightarrow> nat \<times> free_area" where
  "merge_prev base s =
     (case list_prev (links s) (Page_Link base) of
        Free_Head _ \<Rightarrow> (base, s)
      | Page_Link p \<Rightarrow>
          if p + unat (property (pages s p)) = base
          then (p, upd_links (list_del (Page_Link base))
                     (upd_page base ClearPageProperty
                       (upd_page p (\<lambda>q. q\<lparr>property := property q + property (pages s base)\<rparr>) s)))
          else (base, s))"

definition merge_next :: "nat \<Rightarrow> free_area \<Rightarrow> free_area" where
  "merge_next base s =
     (case list_next (links s) (Page_Link base) of
        Free_Head _ \<Rightarrow> s
      | Page_Link p \<Rightarrow>
          if base + unat (property (pages s base)) = p
          then upd_links (list_del (Page_Link p))
                 (upd_page p ClearPageProperty
                   (upd_page base (\<lambda>q. q\<lparr>property := property q + property (pages s p)\<rparr>) s))
          else s)"

definition default_free_pages :: "nat \<Rightarrow> 64 word \<Rightarrow> free_area \<Rightarrow> free_area res" where
  "default_free_pages base n s =
     kassert (n > 0)
       (kbind (release_pages (unat n) base (pages s)) (\<lambda>ps.
          kbind (link_block base
            ((upd_page base (\<lambda>p. SetPageProperty (p\<lparr>property := ucast n\<rparr>)) (s\<lparr>pages := ps\<rparr>))
               \<lparr>nr_free := nr_free s + ucast n\<rparr>)) (\<lambda>s1.
          case merge_prev base s1 of (b, s2) \<Rightarrow> Inr (merge_next b s2))))"

definition default_nr_free_pages :: "free_area \<Rightarrow> 64 word" where
  "default_nr_free_pages s = ucast (nr_free s)"

subsection \<open>The invariant\<close>

text \<open>
  A free block: its first page holds the size and has only \<open>PG_property\<close> set, the other
  pages have no flag. \<open>free_rel s bs\<close> relates a state to its list of free blocks.
\<close>

definition block_ok :: "(nat \<Rightarrow> page) \<Rightarrow> block \<Rightarrow> bool" where
  "block_ok ps bk \<longleftrightarrow> unat (property (ps (fst bk))) = snd bk \<and> flags (ps (fst bk)) = 2 \<and>
     (\<forall>q. fst bk < q \<and> q < fst bk + snd bk \<longrightarrow> flags (ps q) = 0)"

definition free_links :: "block list \<Rightarrow> unit plink list" where
  "free_links bs = map (\<lambda>bk. Page_Link (fst bk)) bs"

definition free_rel :: "free_area \<Rightarrow> block list \<Rightarrow> bool" where
  "free_rel s bs \<longleftrightarrow>
     npages s < 2 ^ 31 \<and>
     ring (links s) free_list (free_links bs) \<and>
     sep 0 bs (npages s) \<and>
     (\<forall>bk\<in>set bs. block_ok (pages s) bk) \<and>
     unat (nr_free s) = sum_list (map snd bs)"

lemma free_links_simps [simp]:
  "free_links [] = []"
  "free_links (bk # bs) = Page_Link (fst bk) # free_links bs"
  "free_links (xs @ ys) = free_links xs @ free_links ys"
  "length (free_links bs) = length bs"
  "Free_Head h \<notin> set (free_links bs)"
  "Page_Link p \<in> set (free_links bs) \<longleftrightarrow> p \<in> fst ` set bs"
  by (auto simp: free_links_def)

lemma block_ok_cong:
  assumes "\<forall>q\<in>block_pages bk. ps' q = ps q" and "0 < snd bk"
  shows "block_ok ps' bk = block_ok ps bk"
proof -
  have "fst bk \<in> block_pages bk" using assms(2) by (simp add: block_pages_def)
  with assms(1) show ?thesis by (auto simp: block_ok_def block_pages_def)
qed

lemma blocks_ok_cong:
  assumes "sep lo bs hi" and "\<forall>q\<in>{lo ..< hi}. ps' q = ps q"
  shows "(\<forall>bk\<in>set bs. block_ok ps' bk) = (\<forall>bk\<in>set bs. block_ok ps bk)"
proof -
  have "block_ok ps' bk = block_ok ps bk" if "bk \<in> set bs" for bk
  proof (rule block_ok_cong)
    have *: "lo \<le> fst bk \<and> 0 < snd bk \<and> fst bk + snd bk \<le> hi"
      using assms(1) that sep_bounds [of lo bs hi "fst bk" "snd bk"] by simp
    then show "0 < snd bk" by simp
    show "\<forall>q\<in>block_pages bk. ps' q = ps q" using * assms(2) by (auto simp: block_pages_def)
  qed
  then show ?thesis by simp
qed

lemma free_relI:
  assumes "npages s < 2 ^ 31" "ring (links s) free_list (free_links bs)" "sep 0 bs (npages s)"
    "\<forall>bk\<in>set bs. block_ok (pages s) bk" "unat (nr_free s) = sum_list (map snd bs)"
  shows "free_rel s bs"
  using assms by (simp add: free_rel_def)

lemma free_relD:
  assumes "free_rel s bs"
  shows "npages s < 2 ^ 31" "ring (links s) free_list (free_links bs)" "sep 0 bs (npages s)"
    "\<forall>bk\<in>set bs. block_ok (pages s) bk" "unat (nr_free s) = sum_list (map snd bs)"
  using assms by (simp_all add: free_rel_def)

lemma free_rel_nr: "free_rel s bs \<Longrightarrow> unat (default_nr_free_pages s) = card (covered bs)"
  using sep_card [of 0 bs "npages s"] by (simp add: free_rel_def default_nr_free_pages_def)



subsection \<open>Allocation\<close>

definition carve :: "nat \<Rightarrow> block \<Rightarrow> block list" where
  "carve n bk = (if n < snd bk then [(fst bk + n, snd bk - n)] else [])"

fun ff_alloc :: "nat \<Rightarrow> block list \<Rightarrow> nat option \<times> block list" where
  "ff_alloc n [] = (None, [])"
| "ff_alloc n (bk # bs) =
     (if n \<le> snd bk then (Some (fst bk), carve n bk @ bs)
      else case ff_alloc n bs of (r, bs') \<Rightarrow> (r, bk # bs'))"

lemma covered_carve:
  "n \<le> k \<Longrightarrow> covered (carve n (p, k)) = {p + n ..< p + k}"
  by (auto simp: carve_def block_pages_def)

lemma find_first_ok:
  assumes "ring (links s) free_list (free_links (pre @ suf))" and "length suf < fuel"
    and "\<forall>bk\<in>set suf. unat (property (pages s (fst bk))) = snd bk"
  shows "find_first fuel (last (free_list # free_links pre)) n s =
    Inr (map_option fst (List.find (\<lambda>bk. unat n \<le> snd bk) suf))"
  using assms
proof (induction suf arbitrary: pre fuel)
  case Nil
  then obtain f where "fuel = Suc f" by (cases fuel) auto
  with Nil.prems(1) ring_next_at [of "links s" free_list "free_links pre" "[]"] show ?case
    by (simp add: list_next_def)
next
  case (Cons bk suf)
  obtain f where f: "fuel = Suc f" using Cons.prems(2) by (cases fuel) auto
  have nxt: "lnext (links s) (last (free_list # free_links pre)) = Page_Link (fst bk)"
    using Cons.prems(1) ring_next_at [of "links s" free_list "free_links pre" "free_links (bk # suf)"]
    by simp
  have rest: "find_first f (Page_Link (fst bk)) n s =
      Inr (map_option fst (List.find (\<lambda>bk. unat n \<le> snd bk) suf))"
    using Cons.IH [of "pre @ [bk]" f] Cons.prems f by simp
  show ?case
    using f nxt rest Cons.prems(3) by (simp add: list_next_def word_le_nat_alt)
qed

lemma ring_take:
  assumes r: "ring ls h (xs @ y # ys)" and e: "e \<notin> set (h # xs @ ys)"
  shows "ring (list_add (lprev ls y) e (list_del y ls)) h (xs @ e # ys)"
  using ring_add_after_at [OF ring_del [OF r] e] ring_prev [OF r]
  by (simp add: list_add_def)

lemma take_block_rel:
  assumes rel: "free_rel s (pre @ (p, k) # suf)" and n: "0 < unat n" "unat n \<le> k"
  shows "free_rel (take_block p n s) (pre @ carve (unat n) (p, k) @ suf)"
    and "\<forall>q. p \<le> q \<and> q < p + unat n \<longrightarrow> flags (pages (take_block p n s) q) = 0"
    and "\<forall>q. q \<notin> {p ..< p + k} \<longrightarrow> pages (take_block p n s) q = pages s q"
    and "npages (take_block p n s) = npages s"
proof -
  let ?t = "take_block p n s" and ?L = "links s"
  note R = free_relD [OF rel]
  have bk: "block_ok (pages s) (p, k)" using R(4) by simp
  then have pk: "unat (property (pages s p)) = k" by (simp add: block_ok_def)
  have sp: "sep 0 pre p" "0 < k" "sep (p + k) suf (npages s)" using R(3) by (auto simp: sep_append)
  have frag: "ucast (property (pages s p)) > n \<longleftrightarrow> unat n < k"
    using pk by (simp add: word_less_nat_alt)
  have k32: "k < 2 ^ 31" using sp sep_le [OF sp(3)] R(1) by simp
  have m: "unat (ucast (ucast (property (pages s p)) - n :: 64 word) :: 32 word) = k - unat n"
    using pk n k32 by (simp add: unat_ucast_64_32 unat_sub_le)
  have nr: "unat (nr_free s - ucast n) = unat (nr_free s) - unat n"
    using n k32 R(5) by (subst unat_sub_le) (auto simp: unat_ucast_64_32)
  show "npages ?t = npages s" by (simp add: take_block_def Let_def)
  show out: "\<forall>q. q \<notin> {p ..< p + k} \<longrightarrow> pages ?t q = pages s q"
    using n frag by (auto simp: take_block_def Let_def)
  show fl: "\<forall>q. p \<le> q \<and> q < p + unat n \<longrightarrow> flags (pages ?t q) = 0"
    using n bk by (auto simp: take_block_def Let_def block_ok_def)
  have lnk: "ring (links ?t) free_list (free_links (pre @ carve (unat n) (p, k) @ suf))"
  proof (cases "unat n < k")
    case True
    have "p + unat n \<notin> fst ` set (pre @ suf)"
      using sep_bounds [OF sp(1)] sep_bounds [OF sp(3)] True by force
    then have "Page_Link (p + unat n) \<notin> set (free_list # free_links pre @ free_links suf)" by auto
    with R(2) True frag show ?thesis
      using ring_take [of ?L free_list "free_links pre" "Page_Link p" "free_links suf" "Page_Link (p + unat n)"]
      by (simp add: take_block_def Let_def carve_def list_prev_def)
  next
    case False
    with R(2) frag show ?thesis
      using ring_del [of ?L free_list "free_links pre" "Page_Link p" "free_links suf"]
      by (simp add: take_block_def Let_def carve_def)
  qed
  have "\<forall>bk\<in>set (pre @ suf). block_ok (pages ?t) bk"
    using blocks_ok_cong [OF sp(1), of "pages ?t" "pages s"]
      blocks_ok_cong [OF sp(3), of "pages ?t" "pages s"] out R(4) by auto
  moreover have "\<forall>bk\<in>set (carve (unat n) (p, k)). block_ok (pages ?t) bk"
    using bk m n frag by (auto simp: take_block_def Let_def carve_def block_ok_def)
  ultimately have ok: "\<forall>bk\<in>set (pre @ carve (unat n) (p, k) @ suf). block_ok (pages ?t) bk" by auto
  have sep: "sep 0 (pre @ carve (unat n) (p, k) @ suf) (npages s)"
  proof (cases "unat n < k")
    case True
    then show ?thesis using sp n sep_mono [OF sp(1), of 0 "p + unat n"]
      by (simp add: carve_def sep_append)
  next
    case False
    then show ?thesis using sp n by (auto simp: carve_def intro: sep_join)
  qed
  have "nr_free ?t = nr_free s - ucast n" by (simp add: take_block_def Let_def)
  then have "unat (nr_free ?t) = sum_list (map snd (pre @ carve (unat n) (p, k) @ suf))"
    using nr R(5) n by (auto simp: carve_def)
  with R(1) lnk ok sep show "free_rel ?t (pre @ carve (unat n) (p, k) @ suf)"
    by (simp add: free_rel_def take_block_def Let_def)
qed


lemma ff_alloc_find:
  "ff_alloc n bs = (case List.find (\<lambda>bk. n \<le> snd bk) bs of
     None \<Rightarrow> (None, bs)
   | Some bk \<Rightarrow> (Some (fst bk), takeWhile (\<lambda>bk. snd bk < n) bs @ carve n bk @
       tl (dropWhile (\<lambda>bk. snd bk < n) bs)))"
  by (induction bs) (auto split: option.splits)

lemma find_split:
  assumes "List.find P xs = Some x"
  obtains pre suf where "xs = pre @ x # suf" and "\<forall>y\<in>set pre. \<not> P y" and "P x"
proof -
  from assms obtain i where "i < length xs" "P (xs ! i)" "x = xs ! i" "\<forall>j<i. \<not> P (xs ! j)"
    by (auto simp: find_Some_iff)
  then have "xs = take i xs @ x # drop (Suc i) xs" "\<forall>y\<in>set (take i xs). \<not> P y" "P x"
    by (auto simp: id_take_nth_drop [symmetric] in_set_conv_nth)
  then show thesis using that by blast
qed

lemma ff_alloc_split:
  "\<forall>bk\<in>set pre. snd bk < n \<Longrightarrow> n \<le> snd bk \<Longrightarrow>
   ff_alloc n (pre @ bk # suf) = (Some (fst bk), pre @ carve n bk @ suf)"
  by (induction pre) auto

lemma ff_alloc_None: "\<forall>bk\<in>set bs. snd bk < n \<Longrightarrow> ff_alloc n bs = (None, bs)"
  by (induction bs) auto

lemma member_le_sum: "(b, k) \<in> set bs \<Longrightarrow> k \<le> sum_list (map snd bs)" for k :: nat
  by (induction bs) auto

lemma default_alloc_cases:
  assumes rel: "free_rel s bs" and n: "0 < n"
  obtains (none) "default_alloc_pages n s = Inr (None, s)" "ff_alloc (unat n) bs = (None, bs)"
      "\<forall>bk\<in>set bs. snd bk < unat n"
  | (some) pre p k suf where "bs = pre @ (p, k) # suf" "\<forall>bk\<in>set pre. snd bk < unat n"
      "unat n \<le> k" "default_alloc_pages n s = Inr (Some p, take_block p n s)"
      "ff_alloc (unat n) bs = (Some p, pre @ carve (unat n) (p, k) @ suf)"
      "free_rel (take_block p n s) (pre @ carve (unat n) (p, k) @ suf)"
proof -
  note R = free_relD [OF rel]
  have n0: "0 < unat n" using n by (simp add: word_greater_zero_iff unat_gt_0)
  have len: "length bs < npages s + 1" using sep_length [OF R(3)] by simp
  have find: "find_first (npages s + 1) free_list n s =
      Inr (map_option fst (List.find (\<lambda>bk. unat n \<le> snd bk) bs))"
    using find_first_ok [of s "[]" bs "npages s + 1" n] R(2,4) len by (auto simp: block_ok_def)
  show thesis
  proof (cases "List.find (\<lambda>bk. unat n \<le> snd bk) bs")
    case None
    then have "\<forall>bk\<in>set bs. snd bk < unat n" by (auto simp: find_None_iff not_le)
    moreover have "default_alloc_pages n s = Inr (None, s)"
      using find None n by (simp add: default_alloc_pages_def)
    ultimately show thesis by (intro none ff_alloc_None)
  next
    case (Some bk)
    then obtain pre suf where bs: "bs = pre @ bk # suf" and
      pre: "\<forall>y\<in>set pre. \<not> unat n \<le> snd y" and bk: "unat n \<le> snd bk"
      by (rule find_split)
    have "unat n \<le> unat (nr_free s)"
      using bk member_le_sum [of "fst bk" "snd bk" bs] R(5) by (simp add: bs)
    then have "\<not> n > ucast (nr_free s)" by (simp add: word_less_nat_alt)
    then have run: "default_alloc_pages n s = Inr (Some (fst bk), take_block (fst bk) n s)"
      using find Some n by (simp add: default_alloc_pages_def)
    have rel': "free_rel s (pre @ (fst bk, snd bk) # suf)" using rel bs by simp
    show thesis
      by (rule some [of pre "fst bk" "snd bk" suf])
        (use bs pre bk run take_block_rel(1) [OF rel' n0 bk] ff_alloc_split [of pre "unat n" bk suf]
          in \<open>auto simp: not_le\<close>)
  qed
qed

text \<open>
  The refinement of \<open>default_alloc_pages\<close>: on every state that stands for a block list it
  returns, with the result and the block list of \<open>ff_alloc\<close>.
\<close>

lemma default_alloc_refines:
  assumes rel: "free_rel s bs" and n: "0 < n"
  shows "\<exists>s'. default_alloc_pages n s = Inr (fst (ff_alloc (unat n) bs), s') \<and>
    free_rel s' (snd (ff_alloc (unat n) bs))"
  using rel n by (cases rule: default_alloc_cases) (use rel in auto)

subsection \<open>Linking a block\<close>

lemma memmap_pages_ok:
  "\<forall>q. p \<le> q \<and> q < p + k \<longrightarrow> PageReserved (ps q) \<Longrightarrow>
   memmap_pages k p ps = Inr (\<lambda>q. if p \<le> q \<and> q < p + k
     then set_page_ref ((ps q)\<lparr>property := 0, flags := 0\<rparr>) 0 else ps q)"
proof (induction k arbitrary: p ps)
  case (Suc k)
  then show ?case by (auto simp: fun_eq_iff)
qed (auto simp: fun_eq_iff)

lemma release_pages_ok:
  "\<forall>q. p \<le> q \<and> q < p + k \<longrightarrow> \<not> PageReserved (ps q) \<and> \<not> PageProperty (ps q) \<Longrightarrow>
   release_pages k p ps = Inr (\<lambda>q. if p \<le> q \<and> q < p + k
     then set_page_ref ((ps q)\<lparr>flags := 0\<rparr>) 0 else ps q)"
proof (induction k arbitrary: p ps)
  case (Suc k)
  then show ?case by (auto simp: fun_eq_iff)
qed (auto simp: fun_eq_iff)

lemma release_pages_faults:
  "\<lbrakk>p \<le> q; q < p + k; PageReserved (ps q) \<or> PageProperty (ps q)\<rbrakk> \<Longrightarrow>
   release_pages k p ps = Inl Assert_Failed"
proof (induction k arbitrary: p ps)
  case (Suc k)
  then show ?case by (cases "p = q") (auto simp: kassert_def)
qed simp

lemma insert_loop_ok:
  assumes "ring ls free_list (free_links (pre @ as @ bk # suf))"
    and "\<forall>x\<in>set as. \<not> base < fst x" and "base < fst bk" and "length as < fuel"
  shows "insert_loop fuel (last (free_list # free_links pre)) base ls =
    Inr (list_add_before (Page_Link (fst bk)) (Page_Link base) ls)"
  using assms
proof (induction as arbitrary: pre fuel)
  case Nil
  then obtain f where "fuel = Suc f" by (cases fuel) auto
  moreover have "lnext ls (last (free_list # free_links pre)) = Page_Link (fst bk)"
    using Nil.prems(1) ring_next_at [of ls free_list "free_links pre" "free_links (bk # suf)"] by simp
  ultimately show ?case using Nil.prems(3) by (simp add: list_next_def)
next
  case (Cons a as)
  obtain f where f: "fuel = Suc f" using Cons.prems(4) by (cases fuel) auto
  have nxt: "lnext ls (last (free_list # free_links pre)) = Page_Link (fst a)"
    using Cons.prems(1)
      ring_next_at [of ls free_list "free_links pre" "free_links (a # as @ bk # suf)"] by simp
  have "lnext ls (Page_Link (fst a)) = hd (free_links (as @ bk # suf) @ [free_list])"
    using Cons.prems(1)
      ring_next [of ls free_list "free_links pre" "Page_Link (fst a)" "free_links (as @ bk # suf)"] by simp
  then have more: "lnext ls (Page_Link (fst a)) \<noteq> free_list" by (cases as) auto
  have "insert_loop f (Page_Link (fst a)) base ls =
      Inr (list_add_before (Page_Link (fst bk)) (Page_Link base) ls)"
    using Cons.IH [of "pre @ [a]" f] Cons.prems f by simp
  then show ?case using f nxt more Cons.prems(2) by (simp add: list_next_def)
qed

text \<open>
  Where a block may be linked: into an empty free list, or below some free block.
  \<open>tail_double_alloc\<close> of theory Pmm_Manager shows what happens otherwise.
\<close>

definition linkable :: "nat \<Rightarrow> block list \<Rightarrow> bool" where
  "linkable base bs \<longleftrightarrow> bs = [] \<or> (\<exists>bk\<in>set bs. base < fst bk)"

definition below :: "nat \<Rightarrow> block list \<Rightarrow> block list" where
  "below base bs = takeWhile (\<lambda>bk. fst bk < base) bs"

definition above :: "nat \<Rightarrow> block list \<Rightarrow> block list" where
  "above base bs = dropWhile (\<lambda>bk. fst bk < base) bs"

lemma below_above: "below base bs @ above base bs = bs"
  by (simp add: below_def above_def)

lemma below_less: "bk \<in> set (below base bs) \<Longrightarrow> fst bk < base"
  unfolding below_def by (drule set_takeWhileD) simp

lemma above_greater:
  "sep lo bs hi \<Longrightarrow> base \<notin> fst ` set bs \<Longrightarrow> bk \<in> set (above base bs) \<Longrightarrow> base < fst bk"
proof (induction lo bs hi rule: sep.induct)
  case (2 lo b k bs hi)
  show ?case
  proof (cases "b < base")
    case True
    with 2 show ?thesis by (simp add: above_def)
  next
    case False
    then have "above base ((b, k) # bs) = (b, k) # bs" by (simp add: above_def)
    moreover have "b < fst x" if "x \<in> set bs" for x
      using sep_bounds [of "b + k" bs hi "fst x" "snd x"] 2(2) that by simp
    ultimately show ?thesis using 2(3,4) False by fastforce
  qed
qed (simp add: above_def)

lemma linkable_above: "linkable base bs \<Longrightarrow> above base bs = [] \<Longrightarrow> bs = []"
  by (auto simp: linkable_def above_def dropWhile_eq_Nil_conv)

lemma link_block_ok:
  assumes r: "ring (links s) free_list (free_links (as @ cs))"
    and a: "\<forall>x\<in>set as. fst x < base" and c: "\<forall>x\<in>set cs. base < fst x"
    and l: "cs = [] \<longrightarrow> as = []" and len: "length as < npages s + 2"
  shows "\<exists>ls. link_block base s = Inr (s\<lparr>links := ls\<rparr>) \<and>
    ring ls free_list (free_links as @ Page_Link base # free_links cs)"
proof (cases cs)
  case Nil
  then have "as = []" using l by simp
  then have "list_empty (links s) free_list"
    using r Nil ring_empty_iff [OF r] by simp
  moreover have "ring (list_add free_list (Page_Link base) (links s)) free_list [Page_Link base]"
    using r Nil \<open>as = []\<close> ring_add_after_head [of "links s" free_list "[]" "Page_Link base"]
    by (simp add: list_add_def)
  ultimately show ?thesis
    using Nil \<open>as = []\<close> by (auto simp: link_block_def upd_links_def)
next
  case (Cons bk suf)
  have ne: "\<not> list_empty (links s) free_list"
    using ring_empty_iff [OF r] Cons by simp
  have "insert_loop (npages s + 2) free_list base (links s) =
      Inr (list_add_before (Page_Link (fst bk)) (Page_Link base) (links s))"
  proof -
    have "ring (links s) free_list (free_links ([] @ as @ bk # suf))" using r Cons by simp
    then show ?thesis
      using insert_loop_ok [of "links s" "[]" as bk suf base "npages s + 2"] a c len Cons
      by (simp del: insert_loop.simps) (metis less_asym)
  qed
  moreover have "Page_Link base \<notin> set (free_list # free_links as @ Page_Link (fst bk) # free_links suf)"
    using a c Cons by auto
  then have "ring (list_add_before (Page_Link (fst bk)) (Page_Link base) (links s)) free_list
      (free_links as @ Page_Link base # free_links cs)"
    using r Cons ring_add_before [of "links s" free_list "free_links as" "Page_Link (fst bk)" "free_links suf"]
    by simp
  ultimately show ?thesis using ne by (auto simp: link_block_def simp del: insert_loop.simps)
qed


text \<open>
  Filling the descriptors of a range with cleared flags, setting up its first page and
  linking it: the common tail of \<open>default_init_memmap\<close> and \<open>default_free_pages\<close>.
\<close>

definition setup_block :: "nat \<Rightarrow> 64 word \<Rightarrow> (nat \<Rightarrow> page) \<Rightarrow> free_area \<Rightarrow> free_area" where
  "setup_block base n ps s =
     (upd_page base (\<lambda>p. SetPageProperty (p\<lparr>property := ucast n\<rparr>)) (s\<lparr>pages := ps\<rparr>))
       \<lparr>nr_free := nr_free s + ucast n\<rparr>"

definition fresh_range :: "nat \<Rightarrow> 64 word \<Rightarrow> block list \<Rightarrow> nat \<Rightarrow> bool" where
  "fresh_range base n bs hi \<longleftrightarrow>
     0 < n \<and> base + unat n \<le> hi \<and> {base ..< base + unat n} \<inter> covered bs = {}"

lemma fresh_range_base:
  assumes "fresh_range base n bs hi" and "sep lo bs hi'"
  shows "base \<notin> fst ` set bs"
proof
  assume "base \<in> fst ` set bs"
  then obtain bk where bk: "bk \<in> set bs" "base = fst bk" by auto
  then have "0 < snd bk" using sep_bounds [OF assms(2), of "fst bk" "snd bk"] by simp
  with bk have "base \<in> covered bs" by (auto simp: covered_def block_pages_def)
  moreover have "0 < unat n" using assms(1) by (simp add: fresh_range_def unat_gt_0 word_greater_zero_iff)
  ultimately show False using assms(1) by (auto simp: fresh_range_def disjoint_iff)
qed

lemma fresh_sep:
  assumes "sep 0 bs hi" and fr: "fresh_range base n bs hi"
  shows "sep 0 (below base bs @ (base, unat n) # above base bs) hi"
proof -
  have n0: "0 < unat n" using fr by (simp add: fresh_range_def unat_gt_0 word_greater_zero_iff)
  have nb: "base \<notin> fst ` set bs" using fr assms(1) by (rule fresh_range_base)
  have a: "\<forall>x\<in>set (below base bs). fst x < base" by (simp add: below_less)
  have c: "\<forall>x\<in>set (above base bs). base < fst x" using above_greater [OF assms(1) nb] by blast
  show ?thesis
    using assms(1) n0 fr a c below_above [of base bs] by (intro sep_insert) (auto simp: fresh_range_def)
qed

lemma link_block_rel:
  assumes rel: "free_rel s bs" and fr: "fresh_range base n bs (npages s)" and l: "linkable base bs"
    and out: "\<forall>q. q \<notin> {base ..< base + unat n} \<longrightarrow> ps q = pages s q"
    and clr: "\<forall>q\<in>{base ..< base + unat n}. flags (ps q) = 0"
  shows "\<exists>ls. link_block base (setup_block base n ps s) = Inr ((setup_block base n ps s)\<lparr>links := ls\<rparr>) \<and>
    free_rel ((setup_block base n ps s)\<lparr>links := ls\<rparr>) (below base bs @ (base, unat n) # above base bs)"
proof -
  let ?s = "setup_block base n ps s" and ?as = "below base bs" and ?cs = "above base bs"
  note R = free_relD [OF rel]
  have n0: "0 < unat n" using fr by (simp add: fresh_range_def unat_gt_0 word_greater_zero_iff)
  have n31: "unat n < 2 ^ 31" using fr R(1) by (simp add: fresh_range_def)
  have bs: "?as @ ?cs = bs" by (rule below_above)
  have nb: "base \<notin> fst ` set bs" using fr R(3) by (rule fresh_range_base)
  have a: "\<forall>x\<in>set ?as. fst x < base" by (simp add: below_less)
  have c: "\<forall>x\<in>set ?cs. base < fst x" using above_greater [OF R(3) nb] by blast
  have sep: "sep 0 (?as @ (base, unat n) # ?cs) (npages s)"
    using R(3) fr by (rule fresh_sep)
  have len: "length ?as < npages s + 2"
    using sep_length [OF R(3)] bs by (metis length_append add.commute add_lessD1 le_imp_less_Suc add_2_eq_Suc less_Suc_eq trans_le_add1 le_add_same_cancel1 zero_le add_0)
  have links: "links ?s = links s" "npages ?s = npages s" by (simp_all add: setup_block_def)
  obtain ls where ls: "link_block base ?s = Inr (?s\<lparr>links := ls\<rparr>)"
    "ring ls free_list (free_links ?as @ Page_Link base # free_links ?cs)"
    using link_block_ok [of ?s ?as ?cs base] R(2) a c len bs linkable_above [OF l] links
    by (metis append_is_Nil_conv)
  have sp: "sep 0 ?as base" "sep (base + unat n) ?cs (npages s)" using sep by (auto simp: sep_append)
  have same: "\<forall>q. q \<notin> {base ..< base + unat n} \<longrightarrow> pages ?s q = pages s q"
    using out n0 by (auto simp: setup_block_def)
  have "\<forall>bk\<in>set (?as @ ?cs). block_ok (pages s) bk" using R(4) bs by simp
  then have "\<forall>bk\<in>set (?as @ ?cs). block_ok (pages ?s) bk"
    using blocks_ok_cong [OF sp(1), of "pages ?s" "pages s"]
      blocks_ok_cong [OF sp(2), of "pages ?s" "pages s"] same by auto
  moreover have "block_ok (pages ?s) (base, unat n)"
    using clr n0 n31 by (auto simp: setup_block_def block_ok_def unat_ucast_64_32)
  moreover have "unat (nr_free ?s) = sum_list (map snd (?as @ (base, unat n) # ?cs))"
  proof -
    have tot: "sum_list (map snd bs) = sum_list (map snd ?as) + sum_list (map snd ?cs)"
      using bs by (metis map_append sum_list_append)
    then have "unat n + sum_list (map snd bs) \<le> npages s" using sep_sum [OF sep] by simp
    then have "unat (nr_free s + ucast n) = unat (nr_free s) + unat n"
      using R(1,5) n31 by (subst unat_add_less) (auto simp: unat_ucast_64_32)
    then show ?thesis using R(5) tot by (simp add: setup_block_def)
  qed
  ultimately have "free_rel (?s\<lparr>links := ls\<rparr>) (?as @ (base, unat n) # ?cs)"
    using R(1) ls(2) sep links by (auto simp: free_rel_def)
  with ls(1) show ?thesis by blast
qed

subsection \<open>Merging\<close>

fun join_hd :: "block \<Rightarrow> block list \<Rightarrow> block list" where
  "join_hd bk [] = [bk]"
| "join_hd bk (c # cs) =
     (if fst bk + snd bk = fst c then (fst bk, snd bk + snd c) # cs else bk # c # cs)"

lemma block_ok_join:
  assumes "block_ok ps (p, j)" "block_ok ps (p + j, k)" "0 < j" "j + k < 2 ^ 31"
    and "ps' = (ps(p := (ps p)\<lparr>property := property (ps p) + property (ps (p + j))\<rparr>))
                 (p + j := ClearPageProperty (ps (p + j)))"
  shows "block_ok ps' (p, j + k)"
proof -
  have "unat (property (ps p) + property (ps (p + j))) = j + k"
    using assms(1-4) by (subst unat_add_less) (auto simp: block_ok_def)
  moreover have "flags (ps' q) = 0" if "p < q" "q < p + (j + k)" for q
    using that assms(1-3) by (cases q "p + j" rule: linorder_cases) (auto simp: block_ok_def assms(5))
  ultimately show ?thesis using assms(1-3) by (auto simp: block_ok_def assms(5))
qed

lemma join_rel:
  assumes rel: "free_rel s (pre @ (p, j) # (p + j, k) # suf)"
  shows "free_rel (upd_links (list_del (Page_Link (p + j)))
           (upd_page (p + j) ClearPageProperty
             (upd_page p (\<lambda>q. q\<lparr>property := property q + property (pages s (p + j))\<rparr>) s)))
         (pre @ (p, j + k) # suf)"
    (is "free_rel ?t _")
proof -
  note R = free_relD [OF rel]
  have sp: "sep 0 pre p" "0 < j" "0 < k" "sep (p + j + k) suf (npages s)"
    using R(3) by (auto simp: sep_append)
  have lim: "j + k < 2 ^ 31" using sep_le [OF sp(4)] R(1) by simp
  have "\<forall>bk\<in>set (pre @ suf). block_ok (pages ?t) bk"
    using blocks_ok_cong [OF sp(1), of "pages ?t" "pages s"]
      blocks_ok_cong [OF sp(4), of "pages ?t" "pages s"] R(4) sp(2,3) by auto
  moreover have "block_ok (pages ?t) (p, j + k)"
    using R(4) sp(2) lim by (intro block_ok_join [of "pages s"]) auto
  moreover have "ring (links ?t) free_list (free_links (pre @ (p, j + k) # suf))"
    using R(2) ring_del [of "links s" free_list "free_links (pre @ [(p, j)])" "Page_Link (p + j)" "free_links suf"]
    by simp
  moreover have "sep 0 (pre @ (p, j + k) # suf) (npages s)"
    using sp by (auto simp: sep_append add.assoc)
  ultimately show ?thesis using R(1,5) by (auto simp: free_rel_def)
qed

lemma merge_next_rel:
  assumes rel: "free_rel s (pre @ (b, k) # suf)"
  shows "free_rel (merge_next b s) (pre @ join_hd (b, k) suf)"
proof -
  note R = free_relD [OF rel]
  have nxt: "lnext (links s) (Page_Link b) = hd (free_links suf @ [free_list])"
    using R(2) ring_next [of "links s" free_list "free_links pre" "Page_Link b" "free_links suf"] by simp
  have kb: "unat (property (pages s b)) = k" using R(4) by (simp add: block_ok_def)
  show ?thesis
  proof (cases suf)
    case Nil
    then show ?thesis using nxt rel by (simp add: merge_next_def list_next_def)
  next
    case (Cons c cs)
    show ?thesis
    proof (cases "b + k = fst c")
      case True
      then have "suf = (b + k, snd c) # cs" using Cons by simp
      then show ?thesis
        using nxt kb rel join_rel [of s pre b k "snd c" cs]
        by (simp add: merge_next_def list_next_def)
    next
      case False
      then show ?thesis using nxt kb rel Cons by (simp add: merge_next_def list_next_def)
    qed
  qed
qed

definition join_last :: "block list \<Rightarrow> block \<Rightarrow> block list \<times> block" where
  "join_last as bk =
     (if as \<noteq> [] \<and> fst (last as) + snd (last as) = fst bk
      then (butlast as, (fst (last as), snd (last as) + snd bk)) else (as, bk))"

lemma merge_prev_rel:
  assumes rel: "free_rel s (as @ (b, k) # suf)"
  shows "\<exists>s'. merge_prev b s = (fst (snd (join_last as (b, k))), s') \<and>
    free_rel s' (fst (join_last as (b, k)) @ snd (join_last as (b, k)) # suf)"
proof -
  note R = free_relD [OF rel]
  have prv: "lprev (links s) (Page_Link b) = last (free_list # free_links as)"
    using R(2) ring_prev [of "links s" free_list "free_links as" "Page_Link b" "free_links suf"] by simp
  show ?thesis
  proof (cases as rule: rev_cases)
    case Nil
    then show ?thesis using prv rel by (simp add: merge_prev_def list_prev_def join_last_def)
  next
    case (snoc zs z)
    have kz: "unat (property (pages s (fst z))) = snd z"
      using R(4) snoc by (simp add: block_ok_def)
    show ?thesis
    proof (cases "fst z + snd z = b")
      case True
      then have "free_rel s (zs @ (fst z, snd z) # (fst z + snd z, k) # suf)" using rel snoc by simp
      then show ?thesis
        using prv kz snoc True join_rel [of s zs "fst z" "snd z" k suf]
        by (auto simp: merge_prev_def list_prev_def join_last_def)
    next
      case False
      then show ?thesis using prv kz rel snoc by (simp add: merge_prev_def list_prev_def join_last_def)
    qed
  qed
qed


lemma base_covered: "sep lo bs hi \<Longrightarrow> bk \<in> set bs \<Longrightarrow> fst bk \<in> covered bs"
  using sep_bounds [of lo bs hi "fst bk" "snd bk"]
  by (auto simp: covered_def block_pages_def intro!: bexI [of _ bk])

lemma merge_next_frame:
  assumes "free_rel s (pre @ (b, k) # suf)" and "q \<notin> covered (pre @ (b, k) # suf)"
  shows "pages (merge_next b s) q = pages s q"
proof -
  note R = free_relD [OF assms(1)]
  have nxt: "lnext (links s) (Page_Link b) = hd (free_links suf @ [free_list])"
    using R(2) ring_next [of "links s" free_list "free_links pre" "Page_Link b" "free_links suf"] by simp
  have "\<forall>bk\<in>set (pre @ (b, k) # suf). q \<noteq> fst bk"
    using base_covered [OF R(3)] assms(2) by blast
  with nxt show ?thesis by (cases suf) (auto simp: merge_next_def list_next_def)
qed

lemma merge_prev_frame:
  assumes "free_rel s (as @ (b, k) # suf)" and "q \<notin> covered (as @ (b, k) # suf)"
  shows "pages (snd (merge_prev b s)) q = pages s q"
proof -
  note R = free_relD [OF assms(1)]
  have prv: "lprev (links s) (Page_Link b) = last (free_list # free_links as)"
    using R(2) ring_prev [of "links s" free_list "free_links as" "Page_Link b" "free_links suf"] by simp
  have "\<forall>bk\<in>set (as @ (b, k) # suf). q \<noteq> fst bk"
    using base_covered [OF R(3)] assms(2) by blast
  with prv show ?thesis
    by (cases as rule: rev_cases) (auto simp: merge_prev_def list_prev_def)
qed

lemma merge_prev_npages [simp]: "npages (snd (merge_prev b s)) = npages s"
  by (simp add: merge_prev_def split: plink.split)

lemma merge_next_npages [simp]: "npages (merge_next b s) = npages s"
  by (simp add: merge_next_def split: plink.split)

subsection \<open>Freeing\<close>

definition ff_free :: "nat \<Rightarrow> nat \<Rightarrow> block list \<Rightarrow> block list" where
  "ff_free base n bs =
     (case join_last (below base bs) (base, n) of (as, bk) \<Rightarrow> as @ join_hd bk (above base bs))"

text \<open>The asserts of the free loop: no page of the range is reserved or heads a free block.\<close>

definition owned :: "(nat \<Rightarrow> page) \<Rightarrow> nat \<Rightarrow> 64 word \<Rightarrow> bool" where
  "owned ps base n \<longleftrightarrow>
     (\<forall>q. base \<le> q \<and> q < base + unat n \<longrightarrow> \<not> PageReserved (ps q) \<and> \<not> PageProperty (ps q))"

lemma covered_join_hd: "covered (join_hd bk cs) = covered (bk # cs)"
  by (cases cs) (auto simp: block_pages_def)

lemma covered_join_last:
  "covered (fst (join_last as bk) @ [snd (join_last as bk)]) = covered (as @ [bk])"
proof (cases as rule: rev_cases)
  case (snoc zs z)
  then show ?thesis by (auto simp: join_last_def block_pages_def)
qed (simp add: join_last_def)

lemma covered_ff_free: "covered (ff_free base n bs) = covered bs \<union> {base ..< base + n}"
proof -
  have "covered (ff_free base n bs) =
      covered (fst (join_last (below base bs) (base, n)) @ [snd (join_last (below base bs) (base, n))])
        \<union> covered (above base bs)"
    by (simp add: ff_free_def covered_join_hd Un_assoc split: prod.split)
  also have "\<dots> = covered (below base bs @ above base bs) \<union> {base ..< base + n}"
    by (subst covered_join_last) (auto simp: block_pages_def)
  finally show ?thesis by (simp only: below_above)
qed

lemma setup_block_frame:
  assumes "0 < n" and "q \<notin> {base ..< base + unat n}" and "ps q = pages s q"
  shows "pages (setup_block base n ps s) q = pages s q"
proof -
  have "0 < unat n" using assms(1) by (simp add: unat_gt_0 word_greater_zero_iff)
  then show ?thesis using assms(2,3) by (auto simp: setup_block_def)
qed

text \<open>
  The refinement of \<open>default_free_pages\<close>, with its frame: descriptors outside the free
  blocks and outside the freed range keep their value.
\<close>

lemma default_free_refines:
  assumes rel: "free_rel s bs" and fr: "fresh_range base n bs (npages s)" and l: "linkable base bs"
    and own: "owned (pages s) base n"
  shows "\<exists>s'. default_free_pages base n s = Inr s' \<and> free_rel s' (ff_free base (unat n) bs) \<and>
    npages s' = npages s \<and>
    (\<forall>q. q \<notin> covered bs \<union> {base ..< base + unat n} \<longrightarrow> pages s' q = pages s q)"
proof -
  let ?as = "below base bs" and ?cs = "above base bs"
  define ps where "ps = (\<lambda>q. if base \<le> q \<and> q < base + unat n
    then set_page_ref ((pages s q)\<lparr>flags := 0\<rparr>) 0 else pages s q)"
  have n: "0 < n" using fr by (simp add: fresh_range_def)
  have rp: "release_pages (unat n) base (pages s) = Inr ps"
    using own release_pages_ok [of base "unat n" "pages s"] by (simp add: owned_def ps_def)
  let ?s0 = "setup_block base n ps s"
  have out: "\<forall>q. q \<notin> {base ..< base + unat n} \<longrightarrow> ps q = pages s q"
    and clr: "\<forall>q\<in>{base ..< base + unat n}. flags (ps q) = 0" by (auto simp: ps_def)
  obtain ls where ls: "link_block base ?s0 = Inr (?s0\<lparr>links := ls\<rparr>)"
    "free_rel (?s0\<lparr>links := ls\<rparr>) (?as @ (base, unat n) # ?cs)"
    using link_block_rel [OF rel fr l out clr] by blast
  let ?s1 = "?s0\<lparr>links := ls\<rparr>"
  obtain s2 where s2: "merge_prev base ?s1 = (fst (snd (join_last ?as (base, unat n))), s2)"
    "free_rel s2 (fst (join_last ?as (base, unat n)) @ snd (join_last ?as (base, unat n)) # ?cs)"
    using merge_prev_rel [OF ls(2)] by blast
  let ?b = "fst (snd (join_last ?as (base, unat n)))" and ?s3 = "merge_next (fst (snd (join_last ?as (base, unat n)))) s2"
  have rel2: "free_rel s2 (fst (join_last ?as (base, unat n)) @
      (?b, snd (snd (join_last ?as (base, unat n)))) # ?cs)" using s2(2) by simp
  have run: "default_free_pages base n s = Inr ?s3"
    using n rp ls(1) s2(1) by (simp add: default_free_pages_def setup_block_def)
  have rel3: "free_rel ?s3 (ff_free base (unat n) bs)"
    using merge_next_rel [OF rel2] by (simp add: ff_free_def case_prod_beta)
  have np: "npages ?s3 = npages s"
    using merge_prev_npages [of base ?s1] unfolding s2(1) by (simp add: setup_block_def)
  have "pages ?s3 q = pages s q" if q: "q \<notin> covered bs \<union> {base ..< base + unat n}" for q
  proof -
    have cov1: "covered (?as @ (base, unat n) # ?cs) = covered bs \<union> {base ..< base + unat n}"
      using below_above [of base bs] covered_simps(3) [of ?as ?cs] by (auto simp: block_pages_def)
    have cov2: "covered (fst (join_last ?as (base, unat n)) @ snd (join_last ?as (base, unat n)) # ?cs)
        = covered bs \<union> {base ..< base + unat n}"
      using covered_join_last [of ?as "(base, unat n)"] cov1 by (simp add: Un_assoc [symmetric])
    have "q \<notin> covered (fst (join_last ?as (base, unat n)) @ snd (join_last ?as (base, unat n)) # ?cs)"
      using q unfolding cov2 .
    then have "pages ?s3 q = pages s2 q" using merge_next_frame [OF rel2, of q] by simp
    also have "\<dots> = pages ?s1 q"
      using merge_prev_frame [OF ls(2), of q] q unfolding cov1 s2(1) by simp
    also have "\<dots> = pages s q"
      using setup_block_frame [OF n, of q base ps s] q by (auto simp: ps_def)
    finally show ?thesis .
  qed
  with run rel3 np show ?thesis by blast
qed


subsection \<open>Initialisation\<close>

lemma default_init_rel:
  assumes "npages s < 2 ^ 31"
  shows "free_rel (default_init s) []"
  using assms by (simp add: free_rel_def default_init_def ring_list_init)

text \<open>\<open>default_init_memmap\<close> links the new block without merging it.\<close>

lemma default_init_memmap_refines:
  assumes rel: "free_rel s bs" and fr: "fresh_range base n bs (npages s)" and l: "linkable base bs"
    and res: "\<forall>q. base \<le> q \<and> q < base + unat n \<longrightarrow> PageReserved (pages s q)"
  shows "\<exists>s'. default_init_memmap base n s = Inr s' \<and>
    free_rel s' (below base bs @ (base, unat n) # above base bs) \<and> npages s' = npages s"
proof -
  define ps where "ps = (\<lambda>q. if base \<le> q \<and> q < base + unat n
    then set_page_ref ((pages s q)\<lparr>property := 0, flags := 0\<rparr>) 0 else pages s q)"
  have n: "0 < n" using fr by (simp add: fresh_range_def)
  have mp: "memmap_pages (unat n) base (pages s) = Inr ps"
    using res memmap_pages_ok [of base "unat n" "pages s"] by (simp add: ps_def)
  have out: "\<forall>q. q \<notin> {base ..< base + unat n} \<longrightarrow> ps q = pages s q"
    and clr: "\<forall>q\<in>{base ..< base + unat n}. flags (ps q) = 0" by (auto simp: ps_def)
  obtain ls where "link_block base (setup_block base n ps s) = Inr ((setup_block base n ps s)\<lparr>links := ls\<rparr>)"
    "free_rel ((setup_block base n ps s)\<lparr>links := ls\<rparr>) (below base bs @ (base, unat n) # above base bs)"
    using link_block_rel [OF rel fr l out clr] by blast
  then show ?thesis
    using n mp by (auto simp: default_init_memmap_def setup_block_def)
qed

subsection \<open>The free list as a function of the state\<close>

definition free_blocks :: "free_area \<Rightarrow> block list" where
  "free_blocks s =
     map (\<lambda>l. case l of Page_Link p \<Rightarrow> (p, unat (property (pages s p))) | Free_Head _ \<Rightarrow> (0, 0))
       (walk (npages s) (links s) free_list free_list)"

definition free_inv :: "free_area \<Rightarrow> bool" where
  "free_inv s \<longleftrightarrow> free_rel s (free_blocks s)"

definition free_set :: "free_area \<Rightarrow> nat set" where
  "free_set s = covered (free_blocks s)"

lemma free_rel_blocks:
  assumes "free_rel s bs"
  shows "free_blocks s = bs"
proof -
  note R = free_relD [OF assms]
  have "walk (npages s) (links s) free_list free_list = free_links bs"
    using walk_ring [OF R(2)] sep_length [OF R(3)] by simp
  moreover have "map (\<lambda>l. case l of Page_Link p \<Rightarrow> (p, unat (property (pages s p))) | Free_Head _ \<Rightarrow> (0, 0))
      (free_links bs) = bs"
    using R(4) by (auto simp: free_links_def block_ok_def intro!: map_idI)
  ultimately show ?thesis by (simp add: free_blocks_def)
qed

lemma free_rel_inv: "free_rel s bs \<Longrightarrow> free_inv s \<and> free_set s = covered bs"
  using free_rel_blocks [of s bs] by (simp add: free_inv_def free_set_def)

lemma ff_alloc_covered:
  assumes "ff_alloc n bs = (Some p, bs')" "sep lo bs hi"
  shows "{p ..< p + n} \<subseteq> covered bs" and "covered bs' = covered bs - {p ..< p + n}"
proof -
  have "{p ..< p + n} \<subseteq> covered bs \<and> covered bs' = covered bs - {p ..< p + n}"
    using assms
  proof (induction n bs arbitrary: bs' lo rule: ff_alloc.induct)
    case (2 n bk bs)
    show ?case
    proof (cases "n \<le> snd bk")
      case True
      moreover have "sep (fst bk + snd bk) bs hi" using 2(3) by (cases bk) simp
      ultimately show ?thesis
        using 2(2) sep_covered [of "fst bk + snd bk" bs hi]
        by (cases bk) (auto simp: covered_carve block_pages_def)
    next
      case False
      obtain cs where cs: "ff_alloc n bs = (Some p, cs)" "bs' = bk # cs"
        using 2(2) False by (auto split: prod.splits)
      have sp: "sep (fst bk + snd bk) bs hi" using 2(3) by (cases bk) simp
      then have "{p ..< p + n} \<subseteq> covered bs" "covered cs = covered bs - {p ..< p + n}"
        using 2(1) [OF False cs(1)] by auto
      moreover have "block_pages bk \<inter> covered bs = {}"
        using sep_covered [OF sp] by (auto simp: block_pages_def)
      ultimately show ?thesis using cs(2) by auto
    qed
  qed simp
  then show "{p ..< p + n} \<subseteq> covered bs" and "covered bs' = covered bs - {p ..< p + n}" by auto
qed

lemma take_block_owned:
  assumes "free_rel s (pre @ (p, k) # suf)" and "0 < unat n" and "unat n \<le> k"
  shows "owned (pages (take_block p n s)) p n"
  using take_block_rel(2) [OF assms] by (simp add: owned_def)

text \<open>
  The effect of an allocation on the set of free pages: the run of \<open>n\<close> pages that is
  handed out was free, is no longer, and may be freed; no other descriptor outside the
  free blocks changes.
\<close>

lemma default_alloc_effect:
  assumes rel: "free_rel s bs" and n: "0 < n" and run: "default_alloc_pages n s = Inr (r, s')"
  shows "free_inv s' \<and> npages s' = npages s \<and>
    (case r of None \<Rightarrow> s' = s
     | Some p \<Rightarrow> {p ..< p + unat n} \<subseteq> covered bs \<and> free_set s' = covered bs - {p ..< p + unat n} \<and>
         owned (pages s') p n \<and> (\<forall>q. q \<notin> covered bs \<longrightarrow> pages s' q = pages s q))"
  using rel n
proof (cases rule: default_alloc_cases)
  case none
  then show ?thesis using run rel free_rel_inv [OF rel] by simp
next
  case (some pre p k suf)
  have n0: "0 < unat n" using n by (simp add: word_greater_zero_iff unat_gt_0)
  have r: "r = Some p" "s' = take_block p n s" using some(4) run by auto
  have rel': "free_rel s (pre @ (p, k) # suf)" using rel some(1) by simp
  note T = take_block_rel [OF rel' n0 some(3)]
  have "pages s' q = pages s q" if "q \<notin> covered bs" for q
    using T(3) that unfolding r(2) some(1) by (auto simp: block_pages_def)
  then show ?thesis
    using r free_rel_inv [OF some(6)] T(4) take_block_owned [OF rel' n0 some(3)]
      ff_alloc_covered [OF some(5) free_relD(3) [OF rel]] by simp
qed

subsection \<open>Coalescing\<close>

text \<open>No two free blocks touch.\<close>

definition gapped :: "block list \<Rightarrow> bool" where
  "gapped bs \<longleftrightarrow> sorted_wrt (\<lambda>x y. fst x + snd x < fst y) bs"

lemma gapped_simps [simp]:
  "gapped []"
  "gapped (bk # bs) \<longleftrightarrow> (\<forall>x\<in>set bs. fst bk + snd bk < fst x) \<and> gapped bs"
  "gapped (xs @ ys) \<longleftrightarrow> gapped xs \<and> gapped ys \<and> (\<forall>x\<in>set xs. \<forall>y\<in>set ys. fst x + snd x < fst y)"
  by (auto simp: gapped_def sorted_wrt_append)

lemma ff_alloc_gapped: "gapped (pre @ (p, k) # suf) \<Longrightarrow> gapped (pre @ carve n (p, k) @ suf)"
  by (auto simp: carve_def)

lemma sep_gapped_iff:
  assumes "sep lo (b # bs) hi" "gapped bs"
  shows "gapped (b # bs) \<longleftrightarrow> bs = [] \<or> fst b + snd b \<noteq> fst (hd bs)"
proof (cases bs)
  case (Cons c cs)
  have "fst b + snd b \<le> fst c" "sep (fst c + snd c) cs hi"
    using assms(1) Cons by (cases b; cases c; simp)+
  moreover have "fst c < fst x" if "x \<in> set cs" for x
    using that assms(2) Cons by auto
  ultimately show ?thesis using assms(2) Cons by auto
qed simp

lemma join_hd_gapped:
  assumes "sep lo (b # bs) hi" "gapped bs"
  shows "gapped (join_hd b bs)"
proof (cases bs)
  case (Cons c cs)
  show ?thesis
  proof (cases "fst b + snd b = fst c")
    case True
    then show ?thesis using assms Cons by (auto simp: add.assoc)
  next
    case False
    then show ?thesis using assms Cons sep_gapped_iff [OF assms] by simp
  qed
qed simp

lemma join_hd_ends:
  assumes "x \<in> set (join_hd b bs)"
  shows "fst b \<le> fst x \<or> x \<in> set bs"
  using assms by (cases bs) (auto split: if_splits)

lemma gapped_append_join:
  assumes "sep lo (as @ b # cs) hi" "gapped as" "gapped cs"
    and "\<forall>x\<in>set as. fst x + snd x < fst b"
  shows "gapped (as @ join_hd b cs)"
proof -
  obtain m where m: "sep m (b # cs) hi"
    using assms(1) by (cases b) (auto simp: sep_append)
  then have "gapped (join_hd b cs)" using assms(3) by (rule join_hd_gapped)
  moreover have "fst x + snd x < fst y" if x: "x \<in> set as" and y: "y \<in> set (join_hd b cs)" for x y
    using join_hd_ends [OF y]
  proof
    assume "fst b \<le> fst y"
    then show ?thesis using assms(4) x by fastforce
  next
    assume "y \<in> set cs"
    then have "fst b \<le> fst y"
      using m sep_bounds [of "fst b + snd b" cs hi "fst y" "snd y"] by (cases b) auto
    then show ?thesis using assms(4) x by fastforce
  qed
  ultimately show ?thesis using assms(2) by simp
qed

lemma ff_free_gapped:
  assumes sep: "sep lo (below base bs @ (base, n) # above base bs) hi" and g: "gapped bs"
  shows "gapped (ff_free base n bs)"
proof -
  let ?as = "below base bs" and ?cs = "above base bs"
  have gs: "gapped ?as" "gapped ?cs" using g below_above [of base bs] gapped_simps(3) by metis+
  show ?thesis
  proof (cases ?as rule: rev_cases)
    case Nil
    then show ?thesis using gapped_append_join [OF sep gs] by (simp add: ff_free_def join_last_def)
  next
    case (snoc zs z)
    have sz: "sep lo (zs @ (fst z, snd z) # (base, n) # ?cs) hi" using sep snoc by simp
    show ?thesis
    proof (cases "fst z + snd z = base")
      case True
      have "sep lo (zs @ (fst z, snd z + n) # ?cs) hi"
        using sz True by (cases z) (auto simp: sep_append add.assoc)
      then have "gapped (zs @ join_hd (fst z, snd z + n) ?cs)"
        using gs snoc by (intro gapped_append_join) auto
      then show ?thesis using snoc True by (simp add: ff_free_def join_last_def)
    next
      case False
      have "fst z + snd z < base" using sz False by (cases z) (auto simp: sep_append)
      moreover have "\<forall>x\<in>set zs. fst x + snd x < base" using gs(1) snoc calculation by fastforce
      ultimately have "gapped (?as @ join_hd (base, n) ?cs)"
        using sep gs snoc by (intro gapped_append_join) auto
      then show ?thesis using snoc False by (simp add: ff_free_def join_last_def)
    qed
  qed
qed

text \<open>Freeing what an allocation has just taken gives the block list back.\<close>

lemma below_at:
  assumes "\<forall>x\<in>set pre. fst x < p" "\<forall>x\<in>set suf. p \<le> fst x"
  shows "below p (pre @ suf) = pre" and "above p (pre @ suf) = suf"
proof -
  have "below p (pre @ suf) = pre @ below p suf" "above p (pre @ suf) = above p suf"
    using assms(1) by (auto simp: below_def above_def)
  moreover have "below p suf = []" "above p suf = suf"
    using assms(2) by (cases suf; auto simp: below_def above_def)+
  ultimately show "below p (pre @ suf) = pre" and "above p (pre @ suf) = suf" by auto
qed

lemma ff_free_carve:
  assumes sep: "sep lo (pre @ (p, k) # suf) hi" and g: "gapped (pre @ (p, k) # suf)"
    and n: "0 < n" "n \<le> k"
  shows "ff_free p n (pre @ carve n (p, k) @ suf) = pre @ (p, k) # suf"
proof -
  have "\<forall>x\<in>set pre. fst x < p" using g by (auto dest: add_lessD1)
  moreover have "\<forall>x\<in>set (carve n (p, k) @ suf). p \<le> fst x"
    using g n by (auto simp: carve_def split: if_splits)
  ultimately have ba: "below p (pre @ carve n (p, k) @ suf) = pre"
      "above p (pre @ carve n (p, k) @ suf) = carve n (p, k) @ suf"
    by (rule below_at)+
  have "join_last pre (p, n) = (pre, (p, n))"
    using g by (cases pre rule: rev_cases) (auto simp: join_last_def)
  moreover have "join_hd (p, n) (carve n (p, k) @ suf) = (p, k) # suf"
    using g n by (cases suf) (auto simp: carve_def)
  ultimately show ?thesis by (simp add: ff_free_def ba)
qed

end
