(* ===== verification/Best_Fit.thy ===== *)
theory Best_Fit
  imports First_Fit
begin

text \<open>
  The best fit allocator \<open>lab2/kern/mm/best_fit_pmm.c\<close>. Its free list, its invariant and
  the steps that link, split and merge blocks are those of the first fit allocator; what
  differs is the search of \<open>best_fit_alloc_pages\<close>, which keeps the smallest block that is
  large enough.
\<close>

subsection \<open>The routines\<close>

definition best_fit_init :: "free_area \<Rightarrow> free_area" where
  "best_fit_init s = (upd_links (list_init free_list) s)\<lparr>nr_free := 0\<rparr>"

definition best_fit_init_memmap :: "nat \<Rightarrow> 64 word \<Rightarrow> free_area \<Rightarrow> free_area res" where
  "best_fit_init_memmap base n s =
     kassert (n > 0)
       (kbind (memmap_pages (unat n) base (pages s)) (\<lambda>ps.
          link_block base
            ((upd_page base (\<lambda>p. SetPageProperty (p\<lparr>property := ucast n\<rparr>)) (s\<lparr>pages := ps\<rparr>))
               \<lparr>nr_free := nr_free s + ucast n\<rparr>)))"

fun find_best :: "nat \<Rightarrow> unit plink \<Rightarrow> 64 word \<Rightarrow> 64 word \<Rightarrow> nat option \<Rightarrow> free_area \<Rightarrow> nat option res"
  where
  "find_best 0 le n min_size page s = Inl Out_Of_Fuel"
| "find_best (Suc fuel) le n min_size page s =
     (case list_next (links s) le of
        Free_Head _ \<Rightarrow> Inr page
      | Page_Link p \<Rightarrow>
          (let sz = ucast (property (pages s p)) in
           if sz \<ge> n \<and> sz < min_size then find_best fuel (Page_Link p) n sz (Some p) s
           else find_best fuel (Page_Link p) n min_size page s))"

definition best_fit_alloc_pages :: "64 word \<Rightarrow> free_area \<Rightarrow> (nat option \<times> free_area) res" where
  "best_fit_alloc_pages n s =
     kassert (n > 0)
       (if n > ucast (nr_free s) then Inr (None, s)
        else kbind (find_best (npages s + 1) free_list n (ucast (nr_free s + 1)) None s) (\<lambda>page.
               case page of None \<Rightarrow> Inr (None, s) | Some p \<Rightarrow> Inr (Some p, take_block p n s)))"

definition best_fit_free_pages :: "nat \<Rightarrow> 64 word \<Rightarrow> free_area \<Rightarrow> free_area res" where
  "best_fit_free_pages base n s =
     kassert (n > 0)
       (kbind (release_pages (unat n) base (pages s)) (\<lambda>ps.
          kbind (link_block base
            ((upd_page base (\<lambda>p. SetPageProperty (p\<lparr>property := ucast n\<rparr>)) (s\<lparr>pages := ps\<rparr>))
               \<lparr>nr_free := nr_free s + ucast n\<rparr>)) (\<lambda>s1.
          case merge_prev base s1 of (b, s2) \<Rightarrow> Inr (merge_next b s2))))"

definition best_fit_nr_free_pages :: "free_area \<Rightarrow> 64 word" where
  "best_fit_nr_free_pages s = ucast (nr_free s)"

text \<open>Apart from the search the two allocators are the same program.\<close>

lemma best_fit_shared:
  "best_fit_init = default_init"
  "best_fit_init_memmap = default_init_memmap"
  "best_fit_free_pages = default_free_pages"
  "best_fit_nr_free_pages = default_nr_free_pages"
  by (auto simp: fun_eq_iff best_fit_init_def default_init_def best_fit_init_memmap_def
      default_init_memmap_def best_fit_free_pages_def default_free_pages_def
      best_fit_nr_free_pages_def default_nr_free_pages_def)

subsection \<open>The search on block lists\<close>

fun bf_pick :: "nat \<Rightarrow> nat \<Rightarrow> block option \<Rightarrow> block list \<Rightarrow> block option" where
  "bf_pick n m best [] = best"
| "bf_pick n m best (bk # bs) =
     (if n \<le> snd bk \<and> snd bk < m then bf_pick n (snd bk) (Some bk) bs else bf_pick n m best bs)"

lemma find_best_ok:
  assumes "ring (links s) free_list (free_links (pre @ suf))" and "length suf < fuel"
    and "\<forall>bk\<in>set suf. unat (property (pages s (fst bk))) = snd bk"
  shows "find_best fuel (last (free_list # free_links pre)) n m (map_option fst best) s =
    Inr (map_option fst (bf_pick (unat n) (unat m) best suf))"
  using assms
proof (induction suf arbitrary: pre fuel m best)
  case Nil
  then obtain f where "fuel = Suc f" by (cases fuel) auto
  with Nil.prems(1) ring_next_at [of "links s" free_list "free_links pre" "[]"] show ?case
    by (simp add: list_next_def)
next
  case (Cons bk suf)
  obtain f where f: "fuel = Suc f" using Cons.prems(2) by (cases fuel) auto
  have nxt: "lnext (links s) (last (free_list # free_links pre)) = Page_Link (fst bk)"
    using Cons.prems(1) ring_next_at [of "links s" free_list "free_links pre" "free_links (bk # suf)"]
    by simp
  have rest: "find_best f (Page_Link (fst bk)) n m' (map_option fst b) s =
      Inr (map_option fst (bf_pick (unat n) (unat m') b suf))" for m' b
    using Cons.IH [of "pre @ [bk]" f m' b] Cons.prems f by simp
  have sz: "unat (ucast (property (pages s (fst bk))) :: 64 word) = snd bk" using Cons.prems(3) by simp
  show ?case
    using f nxt rest [of m best] rest [of "ucast (property (pages s (fst bk)))" "Some bk"] sz
    by (simp add: list_next_def word_le_nat_alt word_less_nat_alt Let_def)
qed

text \<open>What the search returns is a block of the list that fits, and none that fits is smaller.\<close>

lemma bf_pick_best:
  assumes "bf_pick n m best bs = Some bk" and "best \<noteq> None \<longrightarrow> n \<le> snd (the best) \<and> snd (the best) = m"
  shows "n \<le> snd bk \<and> (Some bk = best \<or> bk \<in> set bs) \<and> snd bk \<le> m \<and>
    (\<forall>x\<in>set bs. n \<le> snd x \<longrightarrow> snd bk \<le> snd x)"
  using assms
proof (induction n m best bs rule: bf_pick.induct)
  case (2 n m best b bs)
  show ?case
  proof (cases "n \<le> snd b \<and> snd b < m")
    case True
    with 2 show ?thesis by fastforce
  next
    case False
    with 2 show ?thesis by fastforce
  qed
qed auto

lemma bf_pick_None:
  assumes "bf_pick n m None bs = None" and "x \<in> set bs" and "n \<le> snd x"
  shows "m \<le> snd x"
proof -
  have some: "bf_pick n m' (Some b) bs \<noteq> None" for m' b bs
    by (induction bs arbitrary: m' b) auto
  from assms show ?thesis
    by (induction bs) (auto simp: some split: if_splits)
qed

lemma best_fit_alloc_cases:
  assumes rel: "free_rel s bs" and n: "0 < n"
  obtains (none) "best_fit_alloc_pages n s = Inr (None, s)" "\<forall>bk\<in>set bs. snd bk < unat n"
  | (some) pre p k suf where "bs = pre @ (p, k) # suf" "unat n \<le> k"
      "\<forall>x\<in>set bs. unat n \<le> snd x \<longrightarrow> k \<le> snd x"
      "best_fit_alloc_pages n s = Inr (Some p, take_block p n s)"
      "free_rel (take_block p n s) (pre @ carve (unat n) (p, k) @ suf)"
proof -
  note R = free_relD [OF rel]
  have n0: "0 < unat n" using n by (simp add: word_greater_zero_iff unat_gt_0)
  let ?m = "ucast (nr_free s + 1) :: 64 word"
  have "unat (nr_free s) \<le> npages s" using sep_sum [OF R(3)] R(5) by simp
  then have m: "unat ?m = unat (nr_free s) + 1"
    using R(1) by (simp add: unat_add_less)
  have len: "length bs < npages s + 1" using sep_length [OF R(3)] by simp
  have find: "find_best (npages s + 1) free_list n ?m None s =
      Inr (map_option fst (bf_pick (unat n) (unat ?m) None bs))"
    using find_best_ok [of s "[]" bs "npages s + 1" n ?m None] R(2,4) len
    by (auto simp: block_ok_def simp del: find_best.simps)
  have le: "snd x \<le> unat (nr_free s)" if "x \<in> set bs" for x
    using member_le_sum [of "fst x" "snd x" bs] that R(5) by simp
  show thesis
  proof (cases "bf_pick (unat n) (unat ?m) None bs")
    case None
    have "\<forall>bk\<in>set bs. snd bk < unat n"
      using bf_pick_None [OF None] m le by (metis Suc_eq_plus1 not_less not_less_eq_eq)
    moreover have "best_fit_alloc_pages n s = Inr (None, s)"
      using find None n by (simp add: best_fit_alloc_pages_def del: find_best.simps)
    ultimately show thesis using none by blast
  next
    case (Some bk)
    have bk: "unat n \<le> snd bk" "bk \<in> set bs" "\<forall>x\<in>set bs. unat n \<le> snd x \<longrightarrow> snd bk \<le> snd x"
      using bf_pick_best [OF Some] by auto
    obtain pre suf where bs: "bs = pre @ bk # suf" using split_list [OF bk(2)] by blast
    have "\<not> n > ucast (nr_free s)" using bk(1) le [OF bk(2)] by (simp add: word_less_nat_alt)
    then have run: "best_fit_alloc_pages n s = Inr (Some (fst bk), take_block (fst bk) n s)"
      using find Some n by (simp add: best_fit_alloc_pages_def del: find_best.simps)
    have rel': "free_rel s (pre @ (fst bk, snd bk) # suf)" using rel bs by simp
    show thesis
      by (rule some [of pre "fst bk" "snd bk" suf])
        (use bs bk run take_block_rel(1) [OF rel' n0 bk(1)] in auto)
  qed
qed

lemma best_fit_alloc_effect:
  assumes rel: "free_rel s bs" and n: "0 < n" and run: "best_fit_alloc_pages n s = Inr (r, s')"
  shows "free_inv s' \<and> npages s' = npages s \<and>
    (case r of None \<Rightarrow> s' = s
     | Some p \<Rightarrow> {p ..< p + unat n} \<subseteq> covered bs \<and> free_set s' = covered bs - {p ..< p + unat n} \<and>
         owned (pages s') p n \<and> (\<forall>q. q \<notin> covered bs \<longrightarrow> pages s' q = pages s q))"
  using rel n
proof (cases rule: best_fit_alloc_cases)
  case none
  then show ?thesis using run rel free_rel_inv [OF rel] by simp
next
  case (some pre p k suf)
  have n0: "0 < unat n" using n by (simp add: word_greater_zero_iff unat_gt_0)
  have r: "r = Some p" "s' = take_block p n s" using some(4) run by auto
  have rel': "free_rel s (pre @ (p, k) # suf)" using rel some(1) by simp
  note T = take_block_rel [OF rel' n0 some(2)]
  have sp: "sep 0 pre p" "sep (p + k) suf (npages s)"
    using free_relD(3) [OF rel'] by (auto simp: sep_append)
  have "pages s' q = pages s q" if "q \<notin> covered bs" for q
    using T(3) that unfolding r(2) some(1) by (auto simp: block_pages_def)
  moreover have "covered (pre @ carve (unat n) (p, k) @ suf) = covered bs - {p ..< p + unat n}"
    using sep_covered [OF sp(1)] sep_covered [OF sp(2)] some(2) n0
    by (auto simp: some(1) covered_carve block_pages_def)
  moreover have "{p ..< p + unat n} \<subseteq> covered bs"
    using some(2) by (auto simp: some(1) block_pages_def)
  ultimately show ?thesis
    using r free_rel_inv [OF some(5)] T(4) take_block_owned [OF rel' n0 some(2)] by simp
qed

end
