(* ===== verification/Pmm_Manager.thy ===== *)
theory Pmm_Manager
  imports Best_Fit "HOL-Library.Disjoint_Sets"
begin

text \<open>
  \<open>lab2/kern/mm/pmm.c\<close> and \<open>kern/sync/sync.h\<close>: the interface \<open>struct pmm_manager\<close> through
  which the kernel uses a page allocator, its wrappers with interrupts disabled, and the
  contract of the interface as a locale. The client of the contract is the kernel as a
  whole: any sequence of calls that frees only what it was given.
\<close>

subsection \<open>The interface and its wrappers\<close>

record 's pmm_manager =
  pm_name :: string
  pm_init :: "'s \<Rightarrow> 's"
  pm_init_memmap :: "nat \<Rightarrow> 64 word \<Rightarrow> 's \<Rightarrow> 's res"
  pm_alloc_pages :: "64 word \<Rightarrow> 's \<Rightarrow> (nat option \<times> 's) res"
  pm_free_pages :: "nat \<Rightarrow> 64 word \<Rightarrow> 's \<Rightarrow> 's res"
  pm_nr_free_pages :: "'s \<Rightarrow> 64 word"

definition default_pmm_manager :: "free_area pmm_manager" where
  "default_pmm_manager =
     \<lparr>pm_name = ''default_pmm_manager'', pm_init = default_init,
      pm_init_memmap = default_init_memmap, pm_alloc_pages = default_alloc_pages,
      pm_free_pages = default_free_pages, pm_nr_free_pages = default_nr_free_pages\<rparr>"

definition best_fit_pmm_manager :: "free_area pmm_manager" where
  "best_fit_pmm_manager =
     \<lparr>pm_name = ''best_fit_pmm_manager'', pm_init = best_fit_init,
      pm_init_memmap = best_fit_init_memmap, pm_alloc_pages = best_fit_alloc_pages,
      pm_free_pages = best_fit_free_pages, pm_nr_free_pages = best_fit_nr_free_pages\<rparr>"

text \<open>The CPU as the wrappers see it: the \<open>sstatus\<close> register; the rest is the allocator.\<close>

record 's machine =
  sstatus :: "64 word"
  pmm :: 's

definition SSTATUS_SIE :: "64 word" where "SSTATUS_SIE = 2"

definition intr_enable :: "'s machine \<Rightarrow> 's machine" where
  "intr_enable m = m\<lparr>sstatus := sstatus m OR SSTATUS_SIE\<rparr>"

definition intr_disable :: "'s machine \<Rightarrow> 's machine" where
  "intr_disable m = m\<lparr>sstatus := sstatus m AND NOT SSTATUS_SIE\<rparr>"

definition intr_save :: "'s machine \<Rightarrow> bool \<times> 's machine" where
  "intr_save m = (if sstatus m AND SSTATUS_SIE \<noteq> 0 then (True, intr_disable m) else (False, m))"

definition intr_restore :: "bool \<Rightarrow> 's machine \<Rightarrow> 's machine" where
  "intr_restore flag m = (if flag then intr_enable m else m)"

definition alloc_pages :: "'s pmm_manager \<Rightarrow> 64 word \<Rightarrow> 's machine \<Rightarrow> (nat option \<times> 's machine) res" where
  "alloc_pages mgr n m =
     (case intr_save m of (intr_flag, m1) \<Rightarrow>
        kbind (pm_alloc_pages mgr n (pmm m1)) (\<lambda>(page, s).
          Inr (page, intr_restore intr_flag (m1\<lparr>pmm := s\<rparr>))))"

definition free_pages :: "'s pmm_manager \<Rightarrow> nat \<Rightarrow> 64 word \<Rightarrow> 's machine \<Rightarrow> 's machine res" where
  "free_pages mgr base n m =
     (case intr_save m of (intr_flag, m1) \<Rightarrow>
        kbind (pm_free_pages mgr base n (pmm m1)) (\<lambda>s.
          Inr (intr_restore intr_flag (m1\<lparr>pmm := s\<rparr>))))"

definition nr_free_pages :: "'s pmm_manager \<Rightarrow> 's machine \<Rightarrow> 64 word \<times> 's machine" where
  "nr_free_pages mgr m =
     (case intr_save m of (intr_flag, m1) \<Rightarrow>
        (pm_nr_free_pages mgr (pmm m1), intr_restore intr_flag m1))"

text \<open>Saving and restoring brackets: the register comes back as it was.\<close>

lemma intr_bracket:
  assumes "intr_save m = (flag, m1)" and "sstatus m2 = sstatus m1"
  shows "sstatus (intr_restore flag m2) = sstatus m" and "pmm m1 = pmm m"
    and "pmm (intr_restore flag m2) = pmm m2" and "sstatus m1 AND SSTATUS_SIE = 0"
proof -
  have on: "(w AND NOT 2) OR 2 = w" if "w AND 2 \<noteq> 0" for w :: "64 word"
  proof -
    have "w AND 2 = (if bit w 1 then 2 else 0)"
      by (rule bit_eqI) (auto simp: bit_and_iff bit_2_word bit_2_iff)
    with that have w: "bit w 1" by (auto split: if_splits)
    show ?thesis by (rule bit_eqI) (use w in \<open>auto simp: bit_simps bit_2_word bit_2_iff\<close>)
  qed
  have "(w AND NOT 2) AND 2 = 0" for w :: "64 word"
    by (rule bit_eqI) (auto simp: bit_simps bit_2_word bit_2_iff)
  with assms on [of "sstatus m"]
  show "sstatus (intr_restore flag m2) = sstatus m" and "pmm m1 = pmm m"
    and "pmm (intr_restore flag m2) = pmm m2" and "sstatus m1 AND SSTATUS_SIE = 0"
    by (auto simp: intr_save_def intr_restore_def intr_enable_def intr_disable_def
        SSTATUS_SIE_def split: if_splits)
qed

lemma alloc_pages_run:
  "alloc_pages mgr n m = Inr (r, m') \<Longrightarrow>
     pm_alloc_pages mgr n (pmm m) = Inr (r, pmm m') \<and> sstatus m' = sstatus m"
  by (cases "intr_save m")
    (auto simp: alloc_pages_def kbind_eq_Inr_iff intr_bracket dest: intr_bracket)

subsection \<open>Sequences of calls\<close>

text \<open>
  A kernel holds a set of live allocations \<open>(base, n)\<close>. It may allocate any number of
  pages, and free any block it holds where the allocator accepts it (\<open>ok\<close>).
\<close>

inductive pmm_step :: "'s pmm_manager \<Rightarrow> ('s \<Rightarrow> nat \<Rightarrow> bool) \<Rightarrow>
    's \<times> (nat \<times> 64 word) set \<Rightarrow> 's \<times> (nat \<times> 64 word) set \<Rightarrow> bool"
  for mgr :: "'s pmm_manager" and ok :: "'s \<Rightarrow> nat \<Rightarrow> bool" where
  alloc_step: "0 < n \<Longrightarrow> pm_alloc_pages mgr n s = Inr (Some p, s') \<Longrightarrow>
    pmm_step mgr ok (s, live) (s', insert (p, n) live)"
| alloc_fails: "0 < n \<Longrightarrow> pm_alloc_pages mgr n s = Inr (None, s') \<Longrightarrow>
    pmm_step mgr ok (s, live) (s', live)"
| free_step: "(p, n) \<in> live \<Longrightarrow> ok s p \<Longrightarrow> pm_free_pages mgr p n s = Inr s' \<Longrightarrow>
    pmm_step mgr ok (s, live) (s', live - {(p, n)})"

inductive_cases pmm_stepE: "pmm_step mgr ok (s, live) (s', live')"

definition run_pages :: "nat \<times> 64 word \<Rightarrow> nat set" where
  "run_pages pn = {fst pn ..< fst pn + unat (snd pn)}"

text \<open>
  The contract of \<open>struct pmm_manager\<close>. \<open>fset\<close> is the set of free pages, \<open>room\<close> the size
  of the page array, \<open>own\<close> what a caller must have kept of the pages it frees.
\<close>

locale page_allocator =
  fixes mgr :: "'s pmm_manager"
    and inv :: "'s \<Rightarrow> bool"
    and fset :: "'s \<Rightarrow> nat set"
    and room :: "'s \<Rightarrow> nat"
    and own :: "'s \<Rightarrow> nat \<Rightarrow> 64 word \<Rightarrow> bool"
    and ok :: "'s \<Rightarrow> nat \<Rightarrow> bool"
  assumes fset_room: "inv s \<Longrightarrow> fset s \<subseteq> {..< room s}"
    and nr_free: "inv s \<Longrightarrow> unat (pm_nr_free_pages mgr s) = card (fset s)"
    and alloc_returns: "inv s \<Longrightarrow> 0 < n \<Longrightarrow> \<exists>r s'. pm_alloc_pages mgr n s = Inr (r, s')"
    and alloc_none: "inv s \<Longrightarrow> 0 < n \<Longrightarrow> pm_alloc_pages mgr n s = Inr (None, s') \<Longrightarrow> s' = s"
    and alloc_some: "inv s \<Longrightarrow> 0 < n \<Longrightarrow> pm_alloc_pages mgr n s = Inr (Some p, s') \<Longrightarrow>
      inv s' \<and> room s' = room s \<and> run_pages (p, n) \<subseteq> fset s \<and>
      fset s' = fset s - run_pages (p, n) \<and> own s' p n"
    and alloc_frame: "inv s \<Longrightarrow> 0 < n \<Longrightarrow> pm_alloc_pages mgr n s = Inr (r, s') \<Longrightarrow>
      run_pages (q, k) \<inter> fset s = {} \<Longrightarrow> own s q k \<Longrightarrow> own s' q k"
    and free_returns: "inv s \<Longrightarrow> 0 < n \<Longrightarrow> run_pages (p, n) \<subseteq> {..< room s} \<Longrightarrow>
      run_pages (p, n) \<inter> fset s = {} \<Longrightarrow> own s p n \<Longrightarrow> ok s p \<Longrightarrow>
      \<exists>s'. pm_free_pages mgr p n s = Inr s' \<and> inv s' \<and> room s' = room s \<and>
        fset s' = fset s \<union> run_pages (p, n) \<and>
        (\<forall>q k. run_pages (q, k) \<inter> (fset s \<union> run_pages (p, n)) = {} \<longrightarrow> own s q k \<longrightarrow> own s' q k)"
begin

text \<open>The invariant of a kernel that uses the allocator.\<close>

definition kernel_inv :: "'s \<times> (nat \<times> 64 word) set \<Rightarrow> bool" where
  "kernel_inv c \<longleftrightarrow> inv (fst c) \<and>
     (\<forall>pn\<in>snd c. 0 < snd pn \<and> run_pages pn \<subseteq> {..< room (fst c)} \<and>
        run_pages pn \<inter> fset (fst c) = {} \<and> own (fst c) (fst pn) (snd pn)) \<and>
     disjoint_family_on run_pages (snd c)"

definition all_pages :: "'s \<times> (nat \<times> 64 word) set \<Rightarrow> nat set" where
  "all_pages c = fset (fst c) \<union> (\<Union>pn\<in>snd c. run_pages pn)"

lemma kernel_inv_start: "inv s \<Longrightarrow> kernel_inv (s, {})"
  by (simp add: kernel_inv_def disjoint_family_on_def)

lemma step_kernel_inv:
  assumes "pmm_step mgr ok c c'" and "kernel_inv c"
  shows "kernel_inv c' \<and> all_pages c' = all_pages c \<and> room (fst c') = room (fst c)"
  using assms
proof (induction rule: pmm_step.induct)
  case (alloc_step n s p s' live)
  have inv: "inv s" using alloc_step.prems by (simp add: kernel_inv_def)
  have A: "inv s'" "room s' = room s" "run_pages (p, n) \<subseteq> fset s" "fset s' = fset s - run_pages (p, n)"
    "own s' p n" using alloc_some [OF inv alloc_step.hyps] by auto
  have own: "own s' (fst q) (snd q)" if "q \<in> live" for q
    using alloc_frame [OF inv alloc_step.hyps, of "fst q" "snd q"] alloc_step.prems that
    by (simp add: kernel_inv_def)
  have "run_pages (p, n) \<subseteq> {..< room s}" using A(3) fset_room [OF inv] by blast
  moreover have "disjoint_family_on run_pages (insert (p, n) live)"
    using alloc_step.prems A(3) by (fastforce simp: kernel_inv_def disjoint_family_on_def)
  ultimately have "kernel_inv (s', insert (p, n) live)"
    using alloc_step.prems alloc_step.hyps(1) A own by (auto simp: kernel_inv_def)
  moreover have "all_pages (s', insert (p, n) live) = all_pages (s, live)"
    using A(3,4) by (auto simp: all_pages_def)
  ultimately show ?case using A(2) by simp
next
  case (alloc_fails n s s' live)
  then have "s' = s" using alloc_none by (simp add: kernel_inv_def)
  with alloc_fails.prems show ?case by simp
next
  case (free_step p n live s s')
  have P: "inv s" "0 < n" "run_pages (p, n) \<subseteq> {..< room s}" "run_pages (p, n) \<inter> fset s = {}" "own s p n"
    using free_step.prems free_step.hyps(1) by (auto simp: kernel_inv_def)
  have F: "inv s'" "room s' = room s" "fset s' = fset s \<union> run_pages (p, n)"
    "\<And>q k. run_pages (q, k) \<inter> (fset s \<union> run_pages (p, n)) = {} \<Longrightarrow> own s q k \<Longrightarrow> own s' q k"
    using free_returns [OF P free_step.hyps(2)] free_step.hyps(3) by auto
  have dis: "run_pages q \<inter> run_pages (p, n) = {}" if "q \<in> live - {(p, n)}" for q
    using free_step.prems that free_step.hyps(1) by (auto simp: kernel_inv_def disjoint_family_on_def)
  have "kernel_inv (s', live - {(p, n)})"
    unfolding kernel_inv_def
  proof (intro conjI ballI; simp)
    show "inv s'" by (rule F(1))
    show "disjoint_family_on run_pages (live - {(p, n)})"
      using free_step.prems by (auto simp: kernel_inv_def disjoint_family_on_def)
    fix q assume q: "q \<in> live \<and> q \<noteq> (p, n)"
    then have Q: "0 < snd q" "run_pages q \<subseteq> {..< room s}" "run_pages q \<inter> fset s = {}"
      "own s (fst q) (snd q)" "run_pages q \<inter> run_pages (p, n) = {}"
      using free_step.prems dis [of q] by (auto simp: kernel_inv_def)
    show "0 < snd q" by (rule Q(1))
    show "run_pages q \<subseteq> {..< room s'}" using Q(2) F(2) by simp
    show "run_pages q \<inter> fset s' = {}" using Q(3,5) F(3) by blast
    show "own s' (fst q) (snd q)" using F(4) [of "fst q" "snd q"] Q(3-5) by auto
  qed
  moreover have "all_pages (s', live - {(p, n)}) = all_pages (s, live)"
    using F(3) free_step.hyps(1) by (auto simp: all_pages_def)
  ultimately show ?case using F(2) by simp
qed

lemma steps_kernel_inv:
  assumes "(pmm_step mgr ok)\<^sup>*\<^sup>* c c'" and "kernel_inv c"
  shows "kernel_inv c' \<and> all_pages c' = all_pages c \<and> room (fst c') = room (fst c)"
  using assms by (induction rule: rtranclp_induct) (auto dest: step_kernel_inv)

text \<open>No block is handed out twice, no free page is in use, no page is lost.\<close>

lemma kernel_safety:
  assumes "(pmm_step mgr ok)\<^sup>*\<^sup>* (s, {}) (s', live)" and "inv s"
  shows "disjoint_family_on run_pages live" and "\<forall>pn\<in>live. run_pages pn \<inter> fset s' = {}"
    and "fset s' \<union> (\<Union>pn\<in>live. run_pages pn) = fset s"
proof -
  have *: "kernel_inv (s', live)" "all_pages (s', live) = all_pages (s, {})"
    using steps_kernel_inv [OF assms(1) kernel_inv_start [OF assms(2)]] by auto
  then show "disjoint_family_on run_pages live" and "\<forall>pn\<in>live. run_pages pn \<inter> fset s' = {}"
    by (auto simp: kernel_inv_def)
  show "fset s' \<union> (\<Union>pn\<in>live. run_pages pn) = fset s" using *(2) by (simp add: all_pages_def)
qed

text \<open>Freeing a held block that the allocator accepts never fails.\<close>

lemma kernel_free_returns:
  assumes "(pmm_step mgr ok)\<^sup>*\<^sup>* (s, {}) (s', live)" and "inv s" and "(p, n) \<in> live" and "ok s' p"
  shows "\<exists>s''. pm_free_pages mgr p n s' = Inr s'' \<and> fset s'' = fset s' \<union> run_pages (p, n)"
proof -
  have "kernel_inv (s', live)"
    using steps_kernel_inv [OF assms(1) kernel_inv_start [OF assms(2)]] by auto
  then have "inv s'" "0 < n" "run_pages (p, n) \<subseteq> {..< room s'}" "run_pages (p, n) \<inter> fset s' = {}" "own s' p n"
    using assms(3) by (auto simp: kernel_inv_def)
  from free_returns [OF this assms(4)] show ?thesis by blast
qed

lemma finite_live:
  assumes "(pmm_step mgr ok)\<^sup>*\<^sup>* c c'" and "finite (snd c)"
  shows "finite (snd c')"
  using assms by (induction rule: rtranclp_induct) (auto elim!: pmm_step.cases)

text \<open>The counter accounts for every page: free pages plus live pages stay the same.\<close>

lemma kernel_accounting:
  assumes "(pmm_step mgr ok)\<^sup>*\<^sup>* (s, {}) (s', live)" and "inv s"
  shows "unat (pm_nr_free_pages mgr s') + (\<Sum>pn\<in>live. unat (snd pn)) = unat (pm_nr_free_pages mgr s)"
proof -
  have inv: "inv s'" using steps_kernel_inv [OF assms(1) kernel_inv_start [OF assms(2)]]
    by (simp add: kernel_inv_def)
  have fin: "finite live" using finite_live [OF assms(1)] by simp
  have finf: "finite (fset s)" "finite (fset s')"
    using fset_room [OF assms(2)] fset_room [OF inv] by (auto intro: finite_subset)
  note S = kernel_safety [OF assms]
  have "card (\<Union>pn\<in>live. run_pages pn) = (\<Sum>pn\<in>live. card (run_pages pn))"
    using S(1) fin by (intro card_UN_disjoint) (auto simp: run_pages_def disjoint_family_on_def)
  then have "card (\<Union>pn\<in>live. run_pages pn) = (\<Sum>pn\<in>live. unat (snd pn))"
    by (simp add: run_pages_def)
  moreover have "card (fset s) = card (fset s') + card (\<Union>pn\<in>live. run_pages pn)"
    unfolding S(3) [symmetric]
    by (rule card_Un_disjoint) (use finf fin S(2) in \<open>auto simp: run_pages_def\<close>)
  ultimately show ?thesis using nr_free [OF assms(2)] nr_free [OF inv] by simp
qed

end


subsection \<open>The contract holds for both allocators\<close>

definition may_free :: "free_area \<Rightarrow> nat \<Rightarrow> bool" where
  "may_free s p \<longleftrightarrow> linkable p (free_blocks s)"

lemma owned_cong:
  "\<forall>q\<in>run_pages (p, n). ps' q = ps q \<Longrightarrow> owned ps' p n = owned ps p n"
  by (auto simp: owned_def run_pages_def)

lemma free_effect:
  assumes inv: "free_inv s" and n: "0 < n" and room: "run_pages (p, n) \<subseteq> {..< npages s}"
    and dis: "run_pages (p, n) \<inter> free_set s = {}" and own: "owned (pages s) p n" and ok: "may_free s p"
  shows "\<exists>s'. default_free_pages p n s = Inr s' \<and> free_inv s' \<and> npages s' = npages s \<and>
    free_set s' = free_set s \<union> run_pages (p, n) \<and>
    (\<forall>q k. run_pages (q, k) \<inter> (free_set s \<union> run_pages (p, n)) = {} \<longrightarrow>
       owned (pages s) q k \<longrightarrow> owned (pages s') q k)"
proof -
  have n0: "0 < unat n" using n by (simp add: word_greater_zero_iff unat_gt_0)
  have rel: "free_rel s (free_blocks s)" using inv by (simp add: free_inv_def)
  have "p + unat n \<le> npages s" using room n0
    by (auto simp: run_pages_def lessThan_atLeast0 atLeastLessThan_subset_iff)
  then have fr: "fresh_range p n (free_blocks s) (npages s)"
    using n n0 dis by (auto simp: fresh_range_def run_pages_def free_set_def)
  obtain s' where s': "default_free_pages p n s = Inr s'"
    "free_rel s' (ff_free p (unat n) (free_blocks s))" "npages s' = npages s"
    "\<forall>q. q \<notin> covered (free_blocks s) \<union> {p ..< p + unat n} \<longrightarrow> pages s' q = pages s q"
    using default_free_refines [OF rel fr _ own] ok by (auto simp: may_free_def)
  have fs: "free_set s' = free_set s \<union> run_pages (p, n)"
    using free_rel_inv [OF s'(2)] by (simp add: covered_ff_free free_set_def run_pages_def)
  have fr': "owned (pages s') q k"
    if "run_pages (q, k) \<inter> (free_set s \<union> run_pages (p, n)) = {}" "owned (pages s) q k" for q k
  proof -
    have "\<forall>i\<in>run_pages (q, k). pages s' i = pages s i"
      using s'(4) that(1) by (auto simp: run_pages_def free_set_def disjoint_iff)
    then show ?thesis using owned_cong [of q k "pages s'" "pages s"] that(2) by simp
  qed
  show ?thesis using s'(1,3) fs fr' free_rel_inv [OF s'(2)] by blast
qed

lemma free_set_room: "free_inv s \<Longrightarrow> free_set s \<subseteq> {..< npages s}"
  using sep_covered [of 0 "free_blocks s" "npages s"] free_relD(3) [of s "free_blocks s"]
  by (auto simp: free_inv_def free_set_def)

lemma free_inv_nr: "free_inv s \<Longrightarrow> unat (default_nr_free_pages s) = card (free_set s)"
  using free_rel_nr [of s "free_blocks s"] by (simp add: free_inv_def free_set_def)

text \<open>Both allocators keep the contract; the laws come from their refinement lemmas.\<close>

interpretation ff: page_allocator default_pmm_manager free_inv free_set npages
  "\<lambda>s. owned (pages s)" may_free
proof unfold_locales
  fix s :: free_area and n k :: "64 word" and p q s' r
  assume inv: "free_inv s"
  then have rel: "free_rel s (free_blocks s)" by (simp add: free_inv_def)
  show "free_set s \<subseteq> {..< npages s}" using inv by (rule free_set_room)
  show "unat (pm_nr_free_pages default_pmm_manager s) = card (free_set s)"
    using free_inv_nr [OF inv] by (simp add: default_pmm_manager_def)
  assume n: "0 < n"
  show "\<exists>r s'. pm_alloc_pages default_pmm_manager n s = Inr (r, s')"
    using default_alloc_refines [OF rel n] by (auto simp: default_pmm_manager_def)
  show "pm_alloc_pages default_pmm_manager n s = Inr (None, s') \<Longrightarrow> s' = s"
    using default_alloc_effect [OF rel n, of None s'] by (simp add: default_pmm_manager_def)
  show "pm_alloc_pages default_pmm_manager n s = Inr (Some p, s') \<Longrightarrow>
      free_inv s' \<and> npages s' = npages s \<and> run_pages (p, n) \<subseteq> free_set s \<and>
      free_set s' = free_set s - run_pages (p, n) \<and> owned (pages s') p n"
    using default_alloc_effect [OF rel n, of "Some p" s']
    by (simp add: default_pmm_manager_def free_set_def run_pages_def)
  show "pm_alloc_pages default_pmm_manager n s = Inr (r, s') \<Longrightarrow>
      run_pages (q, k) \<inter> free_set s = {} \<Longrightarrow> owned (pages s) q k \<Longrightarrow> owned (pages s') q k"
    using default_alloc_effect [OF rel n, of r s'] owned_cong [of q k "pages s'" "pages s"]
    by (auto simp: default_pmm_manager_def free_set_def disjoint_iff split: option.splits)
  show "run_pages (p, n) \<subseteq> {..< npages s} \<Longrightarrow> run_pages (p, n) \<inter> free_set s = {} \<Longrightarrow>
      owned (pages s) p n \<Longrightarrow> may_free s p \<Longrightarrow>
      \<exists>s'. pm_free_pages default_pmm_manager p n s = Inr s' \<and> free_inv s' \<and> npages s' = npages s \<and>
        free_set s' = free_set s \<union> run_pages (p, n) \<and>
        (\<forall>q k. run_pages (q, k) \<inter> (free_set s \<union> run_pages (p, n)) = {} \<longrightarrow>
           owned (pages s) q k \<longrightarrow> owned (pages s') q k)"
    using free_effect [OF inv n] by (simp add: default_pmm_manager_def)
qed


subsection \<open>What a block above all free blocks does\<close>











lemma restored:
  assumes "intr_save m = (flag, m1)"
  shows "intr_restore flag (m1\<lparr>pmm := x\<rparr>) = m\<lparr>pmm := x\<rparr>" and "intr_restore flag m1 = m" and "pmm m1 = pmm m"
proof -
  have s: "sstatus (intr_restore flag (m1\<lparr>pmm := y\<rparr>)) = sstatus m" for y
    using intr_bracket(1) [OF assms, of "m1\<lparr>pmm := y\<rparr>"] by simp
  have p: "pmm (intr_restore flag (m1\<lparr>pmm := y\<rparr>)) = y" for y
    by (simp add: intr_restore_def intr_enable_def)
  show "intr_restore flag (m1\<lparr>pmm := x\<rparr>) = m\<lparr>pmm := x\<rparr>" using s [of x] p [of x] by simp
  show q: "pmm m1 = pmm m" using intr_bracket(2) [OF assms, of m1] by simp
  have "m1\<lparr>pmm := pmm m1\<rparr> = m1" by simp
  then show "intr_restore flag m1 = m" using s [of "pmm m1"] p [of "pmm m1"] q by (metis machine.equality old.unit.exhaust)
qed

lemma wrapper_eqs:
  "alloc_pages mgr n m = kbind (pm_alloc_pages mgr n (pmm m)) (\<lambda>(r, s). Inr (r, m\<lparr>pmm := s\<rparr>))"
  "free_pages mgr p n m = kbind (pm_free_pages mgr p n (pmm m)) (\<lambda>s. Inr (m\<lparr>pmm := s\<rparr>))"
  "nr_free_pages mgr m = (pm_nr_free_pages mgr (pmm m), m)"
  using restored [of m "fst (intr_save m)" "snd (intr_save m)"]
  by (simp_all add: alloc_pages_def free_pages_def nr_free_pages_def case_prod_beta)

subsection \<open>Properties\<close>

text \<open>A state with the free blocks \<open>(0, 1)\<close> and \<open>(2, 2)\<close>, the other pages in use.\<close>

definition demo_frames :: free_area where
  "demo_frames =
     \<lparr>pages = (\<lambda>q. if q = 0 then \<lparr>ref = 0, flags = 2, property = 1\<rparr>
        else if q = 2 then \<lparr>ref = 0, flags = 2, property = 2\<rparr>
        else \<lparr>ref = 0, flags = 0, property = 0\<rparr>),
      links = list_add (Page_Link 0) (Page_Link 2) (list_add free_list (Page_Link 0)
        (list_init free_list \<lparr>lprev = (\<lambda>l. l), lnext = (\<lambda>l. l)\<rparr>)),
      nr_free = 3, npages = 8\<rparr>"

lemma demo_rel: "free_rel demo_frames [(0, 1), (2, 2)]"
  by (auto simp: free_rel_def demo_frames_def ring_def block_ok_def list_write_defs)

lemma demo_inv: "free_inv demo_frames" "free_set demo_frames = {0, 2, 3}"
proof -
  have "covered [(0, 1), (2, 2)] = {0, 2, 3}" by (auto simp: block_pages_def)
  with free_rel_inv [OF demo_rel] show "free_inv demo_frames" "free_set demo_frames = {0, 2, 3}" by simp_all
qed

lemma demo_page: "pages demo_frames q = (if q = 0 then \<lparr>ref = 0, flags = 2, property = 1\<rparr>
    else if q = 2 then \<lparr>ref = 0, flags = 2, property = 2\<rparr> else \<lparr>ref = 0, flags = 0, property = 0\<rparr>)"
  "npages demo_frames = 8"
  by (simp_all add: demo_frames_def)

lemma demo_fresh: "fresh_range 4 3 [(0, 1), (2, 2)] (npages demo_frames)" "owned (pages demo_frames) 4 3"
  "fresh_range 1 1 [(0, 1), (2, 2)] (npages demo_frames)" "owned (pages demo_frames) 1 1"
  by (auto simp: fresh_range_def owned_def demo_page block_pages_def)

text \<open>
  C2. First fit allocation refines \<open>ff_alloc\<close>: on every well-formed state the call returns
  the head of the first free block of at least \<open>n\<close> pages and leaves the rest of that block
  free; it returns \<open>NULL\<close> only when no block is large enough, and then changes nothing.
\<close>

theorem first_fit_alloc:
  assumes "free_rel s bs" and "0 < n"
  shows "\<exists>s'. default_alloc_pages n s = Inr (fst (ff_alloc (unat n) bs), s') \<and>
    free_rel s' (snd (ff_alloc (unat n) bs)) \<and>
    (fst (ff_alloc (unat n) bs) = None \<longrightarrow> s' = s \<and> (\<forall>bk\<in>set bs. snd bk < unat n))"
  using assms by (cases rule: default_alloc_cases) (use assms in auto)

lemma first_fit_alloc_witness:
  "\<exists>s'. default_alloc_pages 2 demo_frames = Inr (Some 2, s') \<and> free_rel s' [(0, 1)]"
  using first_fit_alloc [OF demo_rel, of 2] by (simp add: carve_def)

text \<open>
  C3. Freeing refines \<open>ff_free\<close>: a range of used pages that lies below some free block (or
  meets an empty free list) is linked at its place, merged with the free block that ends
  at its first page and with the one that starts after its last page, and no descriptor
  outside the free blocks and the freed range changes.
\<close>

theorem first_fit_free:
  assumes "free_rel s bs" and "fresh_range base n bs (npages s)" and "linkable base bs"
    and "owned (pages s) base n"
  shows "\<exists>s'. default_free_pages base n s = Inr s' \<and> free_rel s' (ff_free base (unat n) bs) \<and>
    covered (ff_free base (unat n) bs) = covered bs \<union> {base ..< base + unat n} \<and>
    (\<forall>q. q \<notin> covered bs \<union> {base ..< base + unat n} \<longrightarrow> pages s' q = pages s q)"
  using default_free_refines [OF assms] covered_ff_free by blast

lemma demo_linkable: "linkable 1 [(0, 1), (2, 2)]"
  by (simp add: linkable_def)

lemma first_fit_free_witness:
  "\<exists>s'. default_free_pages 1 1 demo_frames = Inr s' \<and> free_rel s' [(0, 4)]"
  using first_fit_free [OF demo_rel demo_fresh(3) demo_linkable demo_fresh(4)]
  by (auto simp: ff_free_def below_def above_def join_last_def eval_nat_numeral)



text \<open>
  Coalescing is complete: in a free list in which no two blocks touch, none touch after
  a free either, and the free pages are exactly the old ones and those of the range.
\<close>

theorem free_keeps_gaps:
  assumes "free_rel s bs" and "gapped bs" and "fresh_range base n bs (npages s)"
    and "linkable base bs" and "owned (pages s) base n"
  shows "\<exists>s'. default_free_pages base n s = Inr s' \<and> gapped (free_blocks s') \<and>
    free_set s' = free_set s \<union> {base ..< base + unat n}"
proof -
  obtain s' where s': "default_free_pages base n s = Inr s'" "free_rel s' (ff_free base (unat n) bs)"
    using default_free_refines [OF assms(1,3-5)] by blast
  have "sep 0 (below base bs @ (base, unat n) # above base bs) (npages s)"
    using fresh_sep [OF free_relD(3) [OF assms(1)] assms(3)] .
  then have "gapped (ff_free base (unat n) bs)" using assms(2) by (rule ff_free_gapped)
  then show ?thesis
    using s' free_rel_blocks [OF s'(2)] free_rel_inv [OF s'(2)] free_rel_inv [OF assms(1)]
    by (simp add: covered_ff_free)
qed

lemma free_keeps_gaps_witness:
  "\<exists>s'. default_free_pages 1 1 demo_frames = Inr s' \<and> gapped (free_blocks s')"
  using free_keeps_gaps [OF demo_rel _ demo_fresh(3) demo_linkable demo_fresh(4)] by auto

text \<open>
  C4. Best fit: a block that \<open>best_fit_alloc_pages\<close> hands out is cut from the front of a free
  block that is large enough and that no smaller free block could replace; it returns
  \<open>NULL\<close> exactly when no free block is large enough.
\<close>

theorem best_fit_minimal:
  assumes "free_rel s bs" and "0 < n"
  shows "\<exists>r s'. best_fit_alloc_pages n s = Inr (r, s') \<and>
    (case r of None \<Rightarrow> s' = s \<and> (\<forall>bk\<in>set bs. snd bk < unat n)
     | Some p \<Rightarrow> \<exists>k. (p, k) \<in> set bs \<and> unat n \<le> k \<and> (\<forall>x\<in>set bs. unat n \<le> snd x \<longrightarrow> k \<le> snd x) \<and>
         free_inv s' \<and> free_set s' = covered bs - {p ..< p + unat n})"
  using assms
proof (cases rule: best_fit_alloc_cases)
  case none
  then show ?thesis by auto
next
  case (some pre p k suf)
  have "free_set (take_block p n s) = covered bs - {p ..< p + unat n}"
    using best_fit_alloc_effect [OF assms some(4)] by simp
  then show ?thesis using some free_rel_inv [OF some(5)] by auto
qed

lemma best_fit_minimal_witness:
  "\<exists>p s'. best_fit_alloc_pages 1 demo_frames = Inr (Some p, s') \<and> p = 0"
  using best_fit_minimal [OF demo_rel, of 1] by (fastforce split: option.splits)

text \<open>
  C1. Memory safety of the first fit allocator: whatever calls a kernel makes through
  \<open>struct pmm_manager\<close>, freeing only blocks it holds (below a free block), the blocks it
  holds never overlap each other nor a free page, and no page is ever lost.
\<close>

theorem first_fit_safety:
  assumes "(pmm_step default_pmm_manager may_free)\<^sup>*\<^sup>* (s, {}) (s', live)" and "free_inv s"
  shows "disjoint_family_on run_pages live \<and> (\<forall>pn\<in>live. run_pages pn \<inter> free_set s' = {}) \<and>
    free_set s' \<union> (\<Union>pn\<in>live. run_pages pn) = free_set s \<and> free_inv s'"
  using ff.kernel_safety [OF assms] ff.steps_kernel_inv [OF assms(1) ff.kernel_inv_start [OF assms(2)]]
  by (simp add: ff.kernel_inv_def)

lemma demo_step:
  "\<exists>p s'. pmm_step default_pmm_manager may_free (demo_frames, {}) (s', {(p, 2)})"
  "\<exists>p s'. pmm_step best_fit_pmm_manager may_free (demo_frames, {}) (s', {(p, 2)})"
proof -
  obtain s' where "default_alloc_pages 2 demo_frames = Inr (Some 2, s')"
    using default_alloc_refines [OF demo_rel, of 2] by (auto simp: carve_def)
  then have "pmm_step default_pmm_manager may_free (demo_frames, {}) (s', {(2, 2)})"
    by (intro pmm_step.alloc_step) (simp_all add: default_pmm_manager_def)
  then show "\<exists>p s'. pmm_step default_pmm_manager may_free (demo_frames, {}) (s', {(p, 2)})" by blast
  obtain r s' where "best_fit_alloc_pages 2 demo_frames = Inr (Some r, s')"
    by (rule best_fit_alloc_cases [OF demo_rel, of 2]) auto
  then have "pmm_step best_fit_pmm_manager may_free (demo_frames, {}) (s', {(r, 2)})"
    by (intro pmm_step.alloc_step) (simp_all add: best_fit_pmm_manager_def)
  then show "\<exists>p s'. pmm_step best_fit_pmm_manager may_free (demo_frames, {}) (s', {(p, 2)})" by blast
qed

lemma first_fit_safety_witness:
  "\<exists>p s'. run_pages (p, 2) \<inter> free_set s' = {} \<and> free_set s' \<union> run_pages (p, 2) = {0, 2, 3}"
proof -
  obtain p s' where "pmm_step default_pmm_manager may_free (demo_frames, {}) (s', {(p, 2)})"
    using demo_step(1) by blast
  from first_fit_safety [OF r_into_rtranclp [of "pmm_step default_pmm_manager may_free", OF this] demo_inv(1)]
  show ?thesis using demo_inv(2) by auto
qed





text \<open>
  The asserts of the free loop: freeing a range that holds a reserved page or the head of
  a free block panics, in both allocators, and so does freeing or asking for no page.
\<close>

theorem free_checks:
  assumes "p \<le> q" and "q < p + unat n" and "PageReserved (pages s q) \<or> PageProperty (pages s q)"
  shows "default_free_pages p n s = Inl Assert_Failed \<and> best_fit_free_pages p n s = Inl Assert_Failed \<and>
    default_free_pages p 0 s = Inl Assert_Failed \<and> default_alloc_pages 0 s = Inl Assert_Failed \<and>
    best_fit_alloc_pages 0 s = Inl Assert_Failed"
  using release_pages_faults [where ps = "pages s", OF assms]
  by (auto simp: default_free_pages_def best_fit_free_pages_def default_alloc_pages_def
      best_fit_alloc_pages_def kassert_def)

lemma free_checks_witness:
  "default_free_pages 1 2 demo_frames = Inl Assert_Failed"
  using free_checks [of 1 2 2 demo_frames] by (auto simp: demo_page)

text \<open>
  The wrappers of \<open>pmm.c\<close> change the allocator's state only: the interrupt enable bit
  of \<open>sstatus\<close> is what it was before the call, set or clear.
\<close>

theorem wrappers_restore_interrupts:
  "alloc_pages mgr n m = kbind (pm_alloc_pages mgr n (pmm m)) (\<lambda>(r, s). Inr (r, m\<lparr>pmm := s\<rparr>)) \<and>
   free_pages mgr p n m = kbind (pm_free_pages mgr p n (pmm m)) (\<lambda>s. Inr (m\<lparr>pmm := s\<rparr>)) \<and>
   nr_free_pages mgr m = (pm_nr_free_pages mgr (pmm m), m)"
  by (simp add: wrapper_eqs)

end
