(* ===== verification/CString.thy ===== *)
theory CString
  imports Prelude
begin

text \<open>
  \<open>lab8/libs/string.c\<close>: the string and memory routines of the kernel library. Memory is a
  function from addresses to bytes, \<open>char\<close> is unsigned (as on RISC-V). A loop that stops at
  a NUL character only is a \<open>partial_function\<close>: its value is \<open>None\<close> when the memory holds no
  NUL, so that every result \<open>Some r\<close> below includes that the routine returns.
\<close>

type_synonym byte = "8 word"
type_synonym mem = "nat \<Rightarrow> byte"

text \<open>A character of a string in an array; NUL at and behind the end.\<close>

definition char_at :: "byte list \<Rightarrow> nat \<Rightarrow> byte" where
  "char_at fmt i = (if i < length fmt then fmt ! i else 0)"

lemma char_at_0: "char_at fmt i \<noteq> 0 \<Longrightarrow> i < length fmt"
  by (simp add: char_at_def split: if_splits)

subsection \<open>Lengths and copies\<close>

partial_function (option) strlen_loop :: "mem \<Rightarrow> nat \<Rightarrow> 64 word \<Rightarrow> 64 word option" where
  "strlen_loop m s cnt = (if m s \<noteq> 0 then strlen_loop m (s + 1) (cnt + 1) else Some cnt)"

definition strlen :: "mem \<Rightarrow> nat \<Rightarrow> 64 word option" where
  "strlen m s = strlen_loop m s 0"

function strnlen_loop :: "mem \<Rightarrow> nat \<Rightarrow> 64 word \<Rightarrow> 64 word \<Rightarrow> 64 word" where
  "strnlen_loop m s len cnt =
     (if cnt < len \<and> m s \<noteq> 0 then strnlen_loop m (s + 1) len (cnt + 1) else cnt)"
  by pat_completeness auto
termination
proof (relation "measure (\<lambda>(m, s, len, cnt). unat len - unat cnt)")
  fix m :: mem and s :: nat and len cnt :: "64 word"
  assume "cnt < len \<and> m s \<noteq> 0"
  then have "cnt < len" ..
  have "unat len < 2 ^ LENGTH(64)" by (rule unsigned_less)
  then have "unat (cnt + 1) = unat cnt + 1" "unat cnt < unat len"
    using unat_add_less [of cnt 1] \<open>cnt < len\<close> by (simp_all add: word_less_nat_alt)
  then show "((m, s + 1, len, cnt + 1), (m, s, len, cnt)) \<in> measure (\<lambda>(m, s, len, cnt). unat len - unat cnt)"
    by simp
qed simp

declare strnlen_loop.simps [simp del]

definition strnlen :: "mem \<Rightarrow> nat \<Rightarrow> 64 word \<Rightarrow> 64 word" where
  "strnlen m s len = strnlen_loop m s len 0"

partial_function (option) strcpy_loop :: "mem \<Rightarrow> nat \<Rightarrow> nat \<Rightarrow> mem option" where
  "strcpy_loop m p src =
     (let c = m src; m' = m(p := c)
      in if c \<noteq> 0 then strcpy_loop m' (p + 1) (src + 1) else Some m')"

definition strcpy :: "mem \<Rightarrow> nat \<Rightarrow> nat \<Rightarrow> (nat \<times> mem) option" where
  "strcpy m dst src = map_option (\<lambda>m'. (dst, m')) (strcpy_loop m dst src)"

fun strncpy_loop :: "nat \<Rightarrow> mem \<Rightarrow> nat \<Rightarrow> nat \<Rightarrow> mem" where
  "strncpy_loop 0 m p src = m"
| "strncpy_loop (Suc len) m p src =
     (let c = m src; m' = m(p := c)
      in strncpy_loop len m' (p + 1) (if c \<noteq> 0 then src + 1 else src))"

definition strncpy :: "mem \<Rightarrow> nat \<Rightarrow> nat \<Rightarrow> nat \<Rightarrow> nat \<times> mem" where
  "strncpy m dst src len = (dst, strncpy_loop len m dst src)"

definition strcat :: "mem \<Rightarrow> nat \<Rightarrow> nat \<Rightarrow> (nat \<times> mem) option" where
  "strcat m dst src =
     (case strlen m dst of None \<Rightarrow> None | Some n \<Rightarrow> strcpy m (dst + unat n) src)"

subsection \<open>Comparison and search\<close>

partial_function (option) strcmp :: "mem \<Rightarrow> nat \<Rightarrow> nat \<Rightarrow> int option" where
  "strcmp m s1 s2 =
     (if m s1 \<noteq> 0 \<and> m s1 = m s2 then strcmp m (s1 + 1) (s2 + 1)
      else Some (uint (m s1) - uint (m s2)))"

fun strncmp :: "mem \<Rightarrow> nat \<Rightarrow> nat \<Rightarrow> nat \<Rightarrow> int" where
  "strncmp m s1 s2 0 = 0"
| "strncmp m s1 s2 (Suc n) =
     (if m s1 \<noteq> 0 \<and> m s1 = m s2 then strncmp m (s1 + 1) (s2 + 1) n
      else uint (m s1) - uint (m s2))"

partial_function (option) strchr :: "mem \<Rightarrow> nat \<Rightarrow> byte \<Rightarrow> nat option option" where
  "strchr m s c =
     (if m s \<noteq> 0 then if m s = c then Some (Some s) else strchr m (s + 1) c else Some None)"

partial_function (option) strfind :: "mem \<Rightarrow> nat \<Rightarrow> byte \<Rightarrow> nat option" where
  "strfind m s c = (if m s \<noteq> 0 then if m s = c then Some s else strfind m (s + 1) c else Some s)"

subsection \<open>Numbers\<close>

definition is_space :: "byte \<Rightarrow> bool" where "is_space c \<longleftrightarrow> c = 32 \<or> c = 9"

partial_function (option) skip_space :: "mem \<Rightarrow> nat \<Rightarrow> nat option" where
  "skip_space m s = (if is_space (m s) then skip_space m (s + 1) else Some s)"

definition digit_val :: "byte \<Rightarrow> int option" where
  "digit_val c =
     (if c \<ge> 48 \<and> c \<le> 57 then Some (uint c - 48)
      else if c \<ge> 97 \<and> c \<le> 122 then Some (uint c - 97 + 10)
      else if c \<ge> 65 \<and> c \<le> 90 then Some (uint c - 65 + 10)
      else None)"

partial_function (option) strtol_digits ::
    "mem \<Rightarrow> int \<Rightarrow> nat \<Rightarrow> 64 word \<Rightarrow> (64 word \<times> nat) option" where
  "strtol_digits m base s val =
     (case digit_val (m s) of
        None \<Rightarrow> Some (val, s)
      | Some dig \<Rightarrow>
          if dig \<ge> base then Some (val, s)
          else strtol_digits m base (s + 1) (val * word_of_int base + word_of_int dig))"

text \<open>The base prefix; the result is the effective base and the address of the digits.\<close>

definition strtol_base :: "mem \<Rightarrow> nat \<Rightarrow> int \<Rightarrow> int \<times> nat" where
  "strtol_base m s base =
     (if (base = 0 \<or> base = 16) \<and> m s = 48 \<and> m (s + 1) = 120 then (16, s + 2)
      else if base = 0 \<and> m s = 48 then (8, s + 1)
      else if base = 0 then (10, s)
      else (base, s))"

definition strtol :: "mem \<Rightarrow> nat \<Rightarrow> int \<Rightarrow> (64 word \<times> nat) option" where
  "strtol m s base =
     (case skip_space m s of
        None \<Rightarrow> None
      | Some s1 \<Rightarrow>
          (let neg = (m s1 = 45);
               s2 = (if m s1 = 43 \<or> m s1 = 45 then s1 + 1 else s1);
               (b, s3) = strtol_base m s2 base
           in map_option (\<lambda>(val, e). (if neg then - val else val, e)) (strtol_digits m b s3 0)))"

subsection \<open>Blocks of memory\<close>

fun memset :: "mem \<Rightarrow> nat \<Rightarrow> byte \<Rightarrow> nat \<Rightarrow> mem" where
  "memset m p c 0 = m"
| "memset m p c (Suc n) = memset (m(p := c)) (p + 1) c n"

text \<open>The ascending and the descending copy loop.\<close>

fun copy_up :: "mem \<Rightarrow> nat \<Rightarrow> nat \<Rightarrow> nat \<Rightarrow> mem" where
  "copy_up m d s 0 = m"
| "copy_up m d s (Suc n) = copy_up (m(d := m s)) (d + 1) (s + 1) n"

fun copy_down :: "mem \<Rightarrow> nat \<Rightarrow> nat \<Rightarrow> nat \<Rightarrow> mem" where
  "copy_down m d s 0 = m"
| "copy_down m d s (Suc n) = copy_down (m(d - 1 := m (s - 1))) (d - 1) (s - 1) n"

definition memmove :: "mem \<Rightarrow> nat \<Rightarrow> nat \<Rightarrow> nat \<Rightarrow> mem" where
  "memmove m dst src n =
     (if src < dst \<and> src + n > dst then copy_down m (dst + n) (src + n) n else copy_up m dst src n)"

definition memcpy :: "mem \<Rightarrow> nat \<Rightarrow> nat \<Rightarrow> nat \<Rightarrow> mem" where
  "memcpy m dst src n = copy_up m dst src n"

fun memcmp :: "mem \<Rightarrow> nat \<Rightarrow> nat \<Rightarrow> nat \<Rightarrow> int" where
  "memcmp m s1 s2 0 = 0"
| "memcmp m s1 s2 (Suc n) =
     (if m s1 \<noteq> m s2 then uint (m s1) - uint (m s2) else memcmp m (s1 + 1) (s2 + 1) n)"

subsection \<open>Strings in memory\<close>

text \<open>\<open>cstr m p xs\<close>: the NUL terminated string at \<open>p\<close> has the characters \<open>xs\<close>.\<close>

fun cstr :: "mem \<Rightarrow> nat \<Rightarrow> byte list \<Rightarrow> bool" where
  "cstr m p [] \<longleftrightarrow> m p = 0"
| "cstr m p (c # cs) \<longleftrightarrow> m p = c \<and> c \<noteq> 0 \<and> cstr m (p + 1) cs"

lemma cstr_frame:
  "cstr m p xs \<Longrightarrow> (\<And>a. p \<le> a \<Longrightarrow> a \<le> p + length xs \<Longrightarrow> m' a = m a) \<Longrightarrow> cstr m' p xs"
proof (induction xs arbitrary: p)
  case (Cons c cs)
  have "cstr m' (p + 1) cs" by (rule Cons.IH) (use Cons.prems in auto)
  then show ?case using Cons.prems by auto
qed simp

lemma cstr_append: "cstr m p (xs @ ys) \<longleftrightarrow> (\<forall>i<length xs. m (p + i) = xs ! i \<and> xs ! i \<noteq> 0) \<and> cstr m (p + length xs) ys"
proof (induction xs arbitrary: p)
  case (Cons c cs)
  show ?case
  proof
    assume *: "cstr m p ((c # cs) @ ys)"
    then show "(\<forall>i<length (c # cs). m (p + i) = (c # cs) ! i \<and> (c # cs) ! i \<noteq> 0) \<and> cstr m (p + length (c # cs)) ys"
      using Cons.IH [of "p + 1"] by (auto simp: less_Suc_eq_0_disj)
  next
    assume *: "(\<forall>i<length (c # cs). m (p + i) = (c # cs) ! i \<and> (c # cs) ! i \<noteq> 0) \<and> cstr m (p + length (c # cs)) ys"
    then have "\<forall>i<length cs. m (p + 1 + i) = cs ! i \<and> cs ! i \<noteq> 0" by fastforce
    moreover have "m p = c \<and> c \<noteq> 0" using * by fastforce
    ultimately show "cstr m p ((c # cs) @ ys)" using * Cons.IH [of "p + 1"] by simp
  qed
qed simp

lemma cstr_nonzero: "cstr m p xs \<Longrightarrow> c \<in> set xs \<Longrightarrow> c \<noteq> 0"
  by (induction xs arbitrary: p) auto

lemma cstr_unique: "cstr m p xs \<Longrightarrow> cstr m p ys \<Longrightarrow> xs = ys"
proof (induction xs arbitrary: p ys)
  case Nil
  then show ?case by (cases ys) auto
next
  case (Cons x xs)
  then show ?case by (cases ys) auto
qed

lemma strlen_loop_cstr: "cstr m p xs \<Longrightarrow> strlen_loop m p cnt = Some (cnt + of_nat (length xs))"
  by (induction xs arbitrary: p cnt) (subst strlen_loop.simps, simp add: add.assoc)+

lemma strlen_cstr: "cstr m p xs \<Longrightarrow> strlen m p = Some (of_nat (length xs))"
  by (simp add: strlen_def strlen_loop_cstr)

lemma strnlen_loop_cstr:
  "cstr m p xs \<Longrightarrow> length xs + unat cnt < 2 ^ 64 \<Longrightarrow> unat cnt \<le> unat len \<Longrightarrow>
   unat (strnlen_loop m p len cnt) = min (unat len) (unat cnt + length xs)"
proof (induction xs arbitrary: p cnt)
  case Nil
  then show ?case by (subst strnlen_loop.simps) simp
next
  case (Cons c cs)
  show ?case
  proof (cases "cnt < len")
    case True
    have "unat (cnt + 1) = unat cnt + 1" using Cons.prems(2) by (simp add: unat_add_less)
    then show ?thesis
      using Cons.IH [of "p + 1" "cnt + 1"] Cons.prems True
      by (subst strnlen_loop.simps) (simp add: word_less_nat_alt)
  next
    case False
    then show ?thesis using Cons.prems by (subst strnlen_loop.simps) (simp add: word_less_nat_alt)
  qed
qed

text \<open>Copying up: the bytes of the source, as they were, as long as none is overwritten before it is read.\<close>

definition copied :: "mem \<Rightarrow> nat \<Rightarrow> nat \<Rightarrow> nat \<Rightarrow> mem" where
  "copied m d s n = (\<lambda>a. if d \<le> a \<and> a < d + n then m (s + (a - d)) else m a)"

lemma copy_up_copied:
  "d \<le> s \<or> s + n \<le> d \<Longrightarrow> copy_up m d s n = copied m d s n"
proof (induction m d s n rule: copy_up.induct)
  case (2 m d s n)
  have "copy_up (m(d := m s)) (d + 1) (s + 1) n = copied (m(d := m s)) (d + 1) (s + 1) n"
    by (rule 2(1)) (use 2(2) in auto)
  also have "\<dots> = copied m d s (Suc n)"
  proof
    fix a
    consider "a = d" | "d + 1 \<le> a \<and> a < d + 1 + n" | "a < d \<or> d + Suc n \<le> a" by linarith
    then show "copied (m(d := m s)) (d + 1) (s + 1) n a = copied m d s (Suc n) a"
    proof cases
      case 2
      moreover have "s + 1 + (a - (d + 1)) = s + (a - d)" using 2 by arith
      moreover have "s + (a - d) \<noteq> d" using 2 \<open>d \<le> s \<or> s + Suc n \<le> d\<close> by auto
      ultimately show ?thesis by (simp add: copied_def)
    qed (auto simp: copied_def)
  qed
  finally show ?case by simp
qed (auto simp: copied_def fun_eq_iff)

lemma copy_down_copied:
  "s < d \<Longrightarrow> copy_down m (d + n) (s + n) n = copied m d s n"
proof (induction n arbitrary: m)
  case (Suc n)
  have "copy_down m (d + Suc n) (s + Suc n) (Suc n) = copied (m(d + n := m (s + n))) d s n"
    using Suc by simp
  also have "\<dots> = copied m d s (Suc n)"
  proof
    fix a
    consider "a = d + n" | "d \<le> a \<and> a < d + n" | "a < d \<or> d + Suc n \<le> a" by linarith
    then show "copied (m(d + n := m (s + n))) d s n a = copied m d s (Suc n) a"
    proof cases
      case 2
      then have "s + (a - d) \<noteq> d + n" using Suc.prems by arith
      with 2 show ?thesis by (simp add: copied_def)
    qed (auto simp: copied_def)
  qed
  finally show ?case .
qed (auto simp: copied_def fun_eq_iff)

lemma memmove_copied: "memmove m dst src n = copied m dst src n"
  by (auto simp: memmove_def copy_down_copied intro: copy_up_copied)

lemma memset_fill: "memset m p c n = (\<lambda>a. if p \<le> a \<and> a < p + n then c else m a)"
proof (induction m p c n rule: memset.induct)
  case (2 m p c n)
  show ?case unfolding memset.simps 2 by (auto simp: fun_eq_iff)
qed (auto simp: fun_eq_iff)

lemma memcmp_zero: "memcmp m p q n = 0 \<longleftrightarrow> (\<forall>i<n. m (p + i) = m (q + i))"
proof (induction m p q n rule: memcmp.induct)
  case (2 m p q n)
  have "(\<forall>i<Suc n. m (p + i) = m (q + i)) \<longleftrightarrow> m p = m q \<and> (\<forall>i<n. m (p + 1 + i) = m (q + 1 + i))"
    by (auto simp: less_Suc_eq_0_disj)
  then show ?case using 2 by (auto simp: word_uint_eq_iff)
qed simp

lemma strcpy_loop_cstr:
  assumes "cstr m src xs" and "dst + length xs < src \<or> src + length xs < dst"
  shows "\<exists>m'. strcpy_loop m dst src = Some m' \<and> cstr m' dst xs \<and>
    (\<forall>a. a \<notin> {dst .. dst + length xs} \<longrightarrow> m' a = m a)"
  using assms
proof (induction xs arbitrary: m dst src)
  case Nil
  then show ?case by (subst strcpy_loop.simps) auto
next
  case (Cons c cs)
  let ?m = "m(dst := c)"
  have "cstr ?m (src + 1) cs" by (rule cstr_frame [of m]) (use Cons.prems in auto)
  moreover have "dst + 1 + length cs < src + 1 \<or> src + 1 + length cs < dst + 1"
    using Cons.prems(2) by auto
  ultimately obtain m' where m': "strcpy_loop ?m (dst + 1) (src + 1) = Some m'" "cstr m' (dst + 1) cs"
    "\<forall>a. a \<notin> {dst + 1 .. dst + 1 + length cs} \<longrightarrow> m' a = ?m a" using Cons.IH by blast
  have "strcpy_loop m dst src = Some m'"
    using Cons.prems(1) m'(1) by (subst strcpy_loop.simps) (simp add: Let_def)
  moreover have "m' dst = c" using m'(3) by simp
  moreover have "\<forall>a. a \<notin> {dst .. dst + length (c # cs)} \<longrightarrow> m' a = m a" using m'(3) by auto
  ultimately show ?case using m'(2) Cons.prems(1) by auto
qed

lemma strncpy_loop_cstr:
  "cstr m src xs \<Longrightarrow> dst + n \<le> src \<or> src + length xs < dst \<Longrightarrow>
   strncpy_loop n m dst src =
     (\<lambda>a. if dst \<le> a \<and> a < dst + n then if a - dst < length xs then xs ! (a - dst) else 0 else m a)"
proof (induction n arbitrary: m dst src xs)
  case (Suc n)
  show ?case
  proof (cases xs)
    case Nil
    have "cstr (m(dst := 0)) src []" using Suc.prems Nil by auto
    moreover have "dst + 1 + n \<le> src \<or> src + length ([] :: byte list) < dst + 1" using Suc.prems Nil by auto
    ultimately have "strncpy_loop n (m(dst := 0)) (dst + 1) src =
      (\<lambda>a. if dst + 1 \<le> a \<and> a < dst + 1 + n then 0 else (m(dst := 0)) a)"
      using Suc.IH [of "m(dst := 0)" src "[]" "dst + 1"] by (simp del: fun_upd_apply cstr.simps cong: if_cong)
    then have "strncpy_loop (Suc n) m dst src =
      (\<lambda>a. if dst + 1 \<le> a \<and> a < dst + 1 + n then 0 else (m(dst := 0)) a)"
      using Suc.prems Nil by (simp add: Let_def)
    then show ?thesis by (auto simp: fun_eq_iff Nil)
  next
    case (Cons c cs)
    have c: "m src = c" "c \<noteq> 0" using Suc.prems Cons by auto
    have "cstr (m(dst := c)) (src + 1) cs"
      by (rule cstr_frame [of m]) (use Suc.prems Cons in auto)
    moreover have "dst + 1 + n \<le> src + 1 \<or> src + 1 + length cs < dst + 1" using Suc.prems Cons by auto
    ultimately have "strncpy_loop n (m(dst := c)) (dst + 1) (src + 1) =
      (\<lambda>a. if dst + 1 \<le> a \<and> a < dst + 1 + n
         then if a - (dst + 1) < length cs then cs ! (a - (dst + 1)) else 0 else (m(dst := c)) a)"
      by (rule Suc.IH)
    then have IH: "strncpy_loop (Suc n) m dst src =
      (\<lambda>a. if dst + 1 \<le> a \<and> a < dst + 1 + n
         then if a - (dst + 1) < length cs then cs ! (a - (dst + 1)) else 0 else (m(dst := c)) a)"
      using c by (simp add: Let_def)
    show ?thesis
    proof
      fix a
      consider "a = dst" | k where "a = dst + Suc k" | "a < dst" by (metis less_imp_Suc_add linorder_neqE_nat add_Suc_right)
      then show "strncpy_loop (Suc n) m dst src a =
          (if dst \<le> a \<and> a < dst + Suc n then if a - dst < length xs then xs ! (a - dst) else 0 else m a)"
        unfolding IH by cases (auto simp: Cons)
    qed
  qed
qed (auto simp: fun_eq_iff)

lemma strcmp_cstr:
  assumes "cstr m p xs" and "cstr m q ys"
  shows "\<exists>r. strcmp m p q = Some r \<and> (r = 0 \<longleftrightarrow> xs = ys) \<and> (r < 0 \<longleftrightarrow> (xs, ys) \<in> lexord {(a, b). a < b})"
  using assms
proof (induction xs arbitrary: p q ys)
  case Nil
  have "strcmp m p q = Some (0 - uint (m q))" using Nil by (subst strcmp.simps) simp
  moreover have "0 < uint (m q)" if "m q \<noteq> 0"
    using that by (metis uint_0_iff uint_ge_0 le_less)
  ultimately show ?case using Nil by (cases ys) auto
next
  case (Cons c cs)
  have c: "m p = c" "c \<noteq> 0" "cstr m (p + 1) cs" using Cons.prems by auto
  show ?case
  proof (cases "m q = c")
    case True
    then obtain ds where ds: "ys = c # ds" "cstr m (q + 1) ds" using Cons.prems(2) c by (cases ys) auto
    obtain r where r: "strcmp m (p + 1) (q + 1) = Some r" "r = 0 \<longleftrightarrow> cs = ds"
        "r < 0 \<longleftrightarrow> (cs, ds) \<in> lexord {(a, b). a < b}"
      using Cons.IH [OF c(3) ds(2)] by blast
    have "strcmp m p q = Some r" using c True r(1) by (subst strcmp.simps) simp
    then show ?thesis using r ds by simp
  next
    case False
    have "strcmp m p q = Some (uint c - uint (m q))" using c False by (subst strcmp.simps) simp
    moreover have "uint c - uint (m q) \<noteq> 0" using False by (simp add: word_uint_eq_iff)
    moreover have "uint c - uint (m q) < 0 \<longleftrightarrow> c < m q" by (simp add: word_less_def)
    moreover have "((c # cs, ys) \<in> lexord {(a, b). a < b}) = (c < m q)" "c # cs \<noteq> ys"
      using Cons.prems(2) False c(2) by (cases ys; auto)+
    ultimately show ?thesis by simp
  qed
qed

lemma strchr_cstr:
  "cstr m p xs \<Longrightarrow> c \<noteq> 0 \<Longrightarrow> strchr m p c = Some (if c \<in> set xs then Some (p + length (takeWhile (\<lambda>x. x \<noteq> c) xs)) else None)"
  by (induction xs arbitrary: p) (subst strchr.simps, auto)+

lemma strfind_cstr:
  "cstr m p xs \<Longrightarrow> strfind m p c = Some (p + length (takeWhile (\<lambda>x. x \<noteq> c) xs))"
  by (induction xs arbitrary: p) (subst strfind.simps, auto)+

lemma strcat_cstr:
  assumes "cstr m dst xs" and "cstr m src ys" and "length xs < 2 ^ 64"
    and "dst + length xs + length ys < src \<or> src + length ys < dst"
  shows "\<exists>m'. strcat m dst src = Some (dst + length xs, m') \<and> cstr m' dst (xs @ ys) \<and>
    (\<forall>a. a \<notin> {dst + length xs .. dst + length xs + length ys} \<longrightarrow> m' a = m a)"
proof -
  have len: "unat (of_nat (length xs) :: 64 word) = length xs"
    using assms(3) by (simp add: unat_of_nat_small)
  obtain m' where m': "strcpy_loop m (dst + length xs) src = Some m'" "cstr m' (dst + length xs) ys"
    "\<forall>a. a \<notin> {dst + length xs .. dst + length xs + length ys} \<longrightarrow> m' a = m a"
    using strcpy_loop_cstr [OF assms(2), of "dst + length xs"] assms(4) by auto
  have "\<forall>i<length xs. m (dst + i) = xs ! i \<and> xs ! i \<noteq> 0"
    using assms(1) cstr_append [of m dst xs "[]"] by simp
  then have "cstr m' dst (xs @ ys)" using m'(2,3) by (simp add: cstr_append)
  then show ?thesis using m' strlen_cstr [OF assms(1)] len by (simp add: strcat_def strcpy_def)
qed

subsection \<open>Reading numbers\<close>

text \<open>The value of a digit string, and the strings that are numbers of a base.\<close>

definition num_of :: "int \<Rightarrow> byte list \<Rightarrow> int" where
  "num_of base ds = foldl (\<lambda>v c. v * base + the (digit_val c)) 0 ds"

definition is_digit :: "int \<Rightarrow> byte \<Rightarrow> bool" where
  "is_digit base c \<longleftrightarrow> (case digit_val c of None \<Rightarrow> False | Some d \<Rightarrow> d < base)"

lemma strtol_digits_cstr:
  "cstr m p ds \<Longrightarrow> \<forall>c\<in>set ds. is_digit base c \<Longrightarrow>
   strtol_digits m base p (word_of_int v) =
     Some (word_of_int (foldl (\<lambda>v c. v * base + the (digit_val c)) v ds), p + length ds)"
proof (induction ds arbitrary: p v)
  case Nil
  then show ?case by (subst strtol_digits.simps) (simp add: digit_val_def)
next
  case (Cons c ds)
  obtain d where d: "digit_val (m p) = Some d" "d < base" "m p = c"
    using Cons.prems by (auto simp: is_digit_def split: option.splits)
  have "strtol_digits m base p (word_of_int v) = strtol_digits m base (p + 1) (word_of_int (v * base + d))"
    using d by (subst strtol_digits.simps) (simp add: of_int_mult)
  then show ?case using Cons.IH [of "p + 1" "v * base + d"] Cons.prems d by simp
qed

lemma skip_space_cstr:
  "cstr m p (sp @ xs) \<Longrightarrow> \<forall>c\<in>set sp. is_space c \<Longrightarrow> xs = [] \<or> \<not> is_space (hd xs) \<Longrightarrow>
   skip_space m p = Some (p + length sp)"
proof (induction sp arbitrary: p)
  case Nil
  then have "\<not> is_space (m p)" by (cases xs) (auto simp: is_space_def)
  then show ?case by (subst skip_space.simps) simp
next
  case (Cons c sp)
  then show ?case by (subst skip_space.simps) auto
qed

lemma digit_chars:
  assumes "is_digit base c"
  shows "\<not> is_space c" "c \<noteq> 43" "c \<noteq> 45"
  using assms by (auto simp: is_digit_def digit_val_def is_space_def)

lemma strtol_base_digits:
  assumes "cstr m p ds" "\<forall>c\<in>set ds. is_digit base c" "2 \<le> base"
  shows "strtol_base m p base = (base, p)"
proof -
  have "\<not> is_digit 16 120" by (simp add: is_digit_def digit_val_def)
  then have "\<not> (base = 16 \<and> m p = 48 \<and> m (p + 1) = 120)"
    using assms(1,2) by (cases ds; cases "tl ds") auto
  then show ?thesis using assms(3) by (auto simp: strtol_base_def)
qed

lemma strtol_cstr:
  assumes str: "cstr m p (sp @ sg @ ds)" and sp: "\<forall>c\<in>set sp. is_space c"
    and sg: "sg = [] \<or> sg = [43] \<or> sg = [45]" and ds: "ds \<noteq> []" "\<forall>c\<in>set ds. is_digit base c"
    and base: "2 \<le> base"
  shows "strtol m p base =
    Some (word_of_int (if sg = [45] then - num_of base ds else num_of base ds), p + length (sp @ sg @ ds))"
proof -
  let ?q = "p + length sp"
  have hd: "is_digit base (hd ds)" using ds by simp
  have "sg @ ds = [] \<or> \<not> is_space (hd (sg @ ds))"
    using sg ds digit_chars(1) [OF hd] by (auto simp: is_space_def)
  then have sk: "skip_space m p = Some ?q" using skip_space_cstr [OF str sp] by simp
  have q: "cstr m ?q (sg @ ds)" using str by (simp add: cstr_append)
  then have dq: "cstr m (?q + length sg) ds" by (simp add: cstr_append)
  have first: "m ?q = hd (sg @ ds)" using q ds by (cases sg; cases ds) auto
  have s2: "(if m ?q = 43 \<or> m ?q = 45 then ?q + 1 else ?q) = ?q + length sg" "(m ?q = 45) = (sg = [45])"
    using sg first digit_chars(2,3) [OF hd] by auto
  have "strtol_digits m base (?q + length sg) 0 = Some (word_of_int (num_of base ds), ?q + length sg + length ds)"
    using strtol_digits_cstr [OF dq ds(2), of 0] by (simp add: num_of_def)
  then show ?thesis
    using sk s2 strtol_base_digits [OF dq ds(2) base] by (simp add: strtol_def Let_def add.assoc)
qed

subsection \<open>Properties\<close>

text \<open>
  \<open>strtol\<close> reads numbers: of blanks, an optional sign and a nonempty string of digits of a
  base from 2 to 36 it returns the value of the digits with that sign (modulo \<open>2 ^ 64\<close>) and
  the address behind the last digit.
\<close>

theorem strtol_value:
  assumes "cstr m p (sp @ sg @ ds)" and "\<forall>c\<in>set sp. is_space c"
    and "sg = [] \<or> sg = [43] \<or> sg = [45]" and "ds \<noteq> []" and "\<forall>c\<in>set ds. is_digit base c"
    and "2 \<le> base"
  shows "strtol m p base =
    Some (word_of_int (if sg = [45] then - num_of base ds else num_of base ds), p + length (sp @ sg @ ds))"
  using assms by (rule strtol_cstr)

lemma strtol_value_witness:
  "strtol ((\<lambda>_. 0)(5 := 32, 6 := 45, 7 := 49, 8 := 50)) 5 10 = Some (- 12, 9)"
  using strtol_value [of "(\<lambda>_. 0)(5 := 32, 6 := 45, 7 := 49, 8 := 50)" 5 "[32]" "[45]" "[49, 50]" 10]
  by (simp add: is_space_def is_digit_def digit_val_def num_of_def)

text \<open>
  C26. \<open>memmove\<close> is correct for every overlap: the destination block holds the old bytes of
  the source block and nothing else changes. \<open>memcpy\<close> is, where the destination does not
  start inside the source.
\<close>

theorem memmove_correct:
  "memmove m dst src n = (\<lambda>a. if dst \<le> a \<and> a < dst + n then m (src + (a - dst)) else m a) \<and>
   (dst \<le> src \<or> src + n \<le> dst \<longrightarrow> memcpy m dst src n = memmove m dst src n)"
  using memmove_copied [of m dst src n] copy_up_copied [of dst src n m]
  by (simp add: copied_def memcpy_def)

lemma memmove_correct_witness:
  "memcpy ((\<lambda>_. 0)(5 := 1, 6 := 2)) 4 5 2 = memmove ((\<lambda>_. 0)(5 := 1, 6 := 2)) 4 5 2"
  using memmove_correct [of "(\<lambda>_. 0)(5 := 1, 6 := 2)" 4 5 2] by simp

text \<open>
  \<open>strcmp\<close> returns on two terminated strings: 0 for equal strings, a negative number
  exactly when the first comes first in the lexicographic order of unsigned characters.
\<close>

theorem strcmp_order:
  assumes "cstr m p xs" and "cstr m q ys"
  shows "\<exists>r. strcmp m p q = Some r \<and> (r = 0 \<longleftrightarrow> xs = ys) \<and> (r < 0 \<longleftrightarrow> (xs, ys) \<in> lexord {(a, b). a < b})"
  using assms by (rule strcmp_cstr)

lemma strcmp_order_witness:
  "\<exists>r. strcmp ((\<lambda>_. 0)(5 := 97, 8 := 200)) 5 8 = Some r \<and> r < 0"
  using strcmp_order [of "(\<lambda>_. 0)(5 := 97, 8 := 200)" 5 "[97]" 8 "[200]"] by auto

text \<open>
  \<open>strcat\<close> appends in place: with room behind the destination string and the source
  outside of it, the destination holds the concatenation and no other byte changes.
\<close>

theorem strcat_appends:
  assumes "cstr m dst xs" and "cstr m src ys" and "length xs < 2 ^ 64"
    and "dst + length xs + length ys < src \<or> src + length ys < dst"
  shows "\<exists>m'. strcat m dst src = Some (dst + length xs, m') \<and> cstr m' dst (xs @ ys) \<and>
    (\<forall>a. a \<notin> {dst + length xs .. dst + length xs + length ys} \<longrightarrow> m' a = m a)"
  using assms by (rule strcat_cstr)

lemma strcat_appends_witness:
  "\<exists>r m'. strcat ((\<lambda>_. 0)(5 := 97, 9 := 98)) 5 9 = Some (r, m') \<and> cstr m' 5 [97, 98]"
  using strcat_appends [of "(\<lambda>_. 0)(5 := 97, 9 := 98)" 5 "[97]" 9 "[98]"] by auto

end
