(* ===== verification/Printfmt.thy ===== *)
theory Printfmt
  imports CString Errno
begin

text \<open>
  \<open>lab8/libs/printfmt.c\<close>: formatted output. The routine \<open>putch\<close> and the object behind
  \<open>putdat\<close> are parameters, as in the code: every routine threads a value of type \<open>'d\<close>
  through the calls of \<open>putch\<close>. A format and a string argument are the characters before
  their NUL; reading at or behind the end gives NUL.
\<close>

type_synonym 'd putch = "32 word \<Rightarrow> 'd \<Rightarrow> 'd"

definition bytes :: "string \<Rightarrow> byte list" where
  "bytes s = map of_char s"

subsection \<open>Numbers\<close>

definition pad :: "'d putch \<Rightarrow> int \<Rightarrow> 32 word \<Rightarrow> 'd \<Rightarrow> 'd" where
  "pad putch n c = (putch c ^^ nat n)"

definition digit_char :: "64 word \<Rightarrow> 32 word" where
  "digit_char m = ucast (bytes ''0123456789abcdef'' ! unat m)"

text \<open>Without a base of at least 2 the recursion does not end: then the value is \<open>None\<close>.\<close>

partial_function (option) printnum ::
    "'d putch \<Rightarrow> 64 word \<Rightarrow> 32 word \<Rightarrow> int \<Rightarrow> 32 word \<Rightarrow> 'd \<Rightarrow> 'd option" where
  "printnum putch num base width padc d =
     (let result = num div ucast base; m = num mod ucast base in
      Option.bind
        (if num \<ge> ucast base then printnum putch result base (width - 1) padc d
         else Some (pad putch (width - 1) padc d))
        (\<lambda>d1. Some (putch (digit_char m) d1)))"

subsection \<open>Arguments\<close>

text \<open>A \<open>va_list\<close>: integers (pointers for \<open>%p\<close> included) and strings, \<open>None\<close> for \<open>NULL\<close>.\<close>

datatype vararg = Va_Int "64 word" | Va_Str "byte list option"

fun va_int :: "vararg list \<Rightarrow> (64 word \<times> vararg list) res" where
  "va_int (Va_Int w # ap) = Inr (w, ap)"
| "va_int _ = Inl Bad_Access"

fun va_str :: "vararg list \<Rightarrow> (byte list option \<times> vararg list) res" where
  "va_str (Va_Str s # ap) = Inr (s, ap)"
| "va_str _ = Inl Bad_Access"

definition getuint :: "vararg list \<Rightarrow> int \<Rightarrow> (64 word \<times> vararg list) res" where
  "getuint ap lflag =
     (if lflag \<ge> 2 then va_int ap
      else if lflag \<noteq> 0 then va_int ap
      else kbind (va_int ap) (\<lambda>(w, ap'). Inr (ucast (ucast w :: 32 word), ap')))"

definition getint :: "vararg list \<Rightarrow> int \<Rightarrow> (64 word \<times> vararg list) res" where
  "getint ap lflag =
     (if lflag \<ge> 2 then va_int ap
      else if lflag \<noteq> 0 then va_int ap
      else kbind (va_int ap) (\<lambda>(w, ap'). Inr (scast (ucast w :: 32 word), ap')))"

subsection \<open>The parts of a format\<close>

text \<open>The text before the next escape; \<open>None\<close> at the end of the format.\<close>

function literal :: "'d putch \<Rightarrow> byte list \<Rightarrow> nat \<Rightarrow> 'd \<Rightarrow> nat option \<times> 'd" where
  "literal putch fmt i d =
     (let ch = char_at fmt i in
      if ch = 37 then (Some (i + 1), d)
      else if ch = 0 then (None, d)
      else literal putch fmt (i + 1) (putch (ucast ch) d))"
  by pat_completeness auto
termination
  by (relation "measure (\<lambda>(p, fmt, i, d). length fmt - i)") (auto dest: char_at_0)

record fspec =
  padc :: byte
  width :: int
  precision :: int
  lflag :: int
  altflag :: bool

definition fspec0 :: fspec where
  "fspec0 = \<lparr>padc = 32, width = - 1, precision = - 1, lflag = 0, altflag = False\<rparr>"

function read_number :: "byte list \<Rightarrow> nat \<Rightarrow> int \<Rightarrow> byte \<Rightarrow> int \<times> nat" where
  "read_number fmt i prec ch =
     (let prec' = prec * 10 + uint ch - 48; ch' = char_at fmt i in
      if ch' < 48 \<or> ch' > 57 then (prec', i) else read_number fmt (i + 1) prec' ch')"
  by pat_completeness auto
termination
proof (relation "measure (\<lambda>(fmt, i, prec, ch). length fmt - i)")
  fix fmt i and prec x :: int and ch ch' :: byte
  assume "ch' = char_at fmt i" "\<not> (ch' < 48 \<or> ch' > 57)"
  then have "char_at fmt i \<noteq> 0" by auto
  then show "((fmt, i + 1, x, ch'), (fmt, i, prec, ch)) \<in> measure (\<lambda>(fmt, i, prec, ch). length fmt - i)"
    by (auto dest: char_at_0)
qed simp

declare literal.simps [simp del] read_number.simps [simp del]

lemma read_number_ge: "i \<le> snd (read_number fmt i prec ch)"
proof (induction fmt i prec ch rule: read_number.induct)
  case (1 fmt i prec ch)
  then show ?case by (subst read_number.simps) (auto simp: Let_def dest: Suc_leD)
qed

definition process_precision :: "fspec \<Rightarrow> fspec" where
  "process_precision sp =
     (if width sp < 0 then sp\<lparr>width := precision sp, precision := - 1\<rparr> else sp)"

text \<open>The cases of the switch that lead back to \<open>reswitch\<close>; the result is the conversion.\<close>

function reswitch :: "byte list \<Rightarrow> nat \<Rightarrow> fspec \<Rightarrow> vararg list \<Rightarrow> (byte \<times> nat \<times> fspec \<times> vararg list) res" where
  "reswitch fmt i sp ap =
     (let ch = char_at fmt i in
      if ch = 45 then reswitch fmt (i + 1) (sp\<lparr>padc := 45\<rparr>) ap
      else if ch = 48 then reswitch fmt (i + 1) (sp\<lparr>padc := 48\<rparr>) ap
      else if 49 \<le> ch \<and> ch \<le> 57
      then reswitch fmt (snd (read_number fmt (i + 1) 0 ch))
             (process_precision (sp\<lparr>precision := fst (read_number fmt (i + 1) 0 ch)\<rparr>)) ap
      else if ch = 42
      then (case va_int ap of Inl e \<Rightarrow> Inl e
            | Inr (w, ap') \<Rightarrow>
                reswitch fmt (i + 1) (process_precision (sp\<lparr>precision := sint (ucast w :: 32 word)\<rparr>)) ap')
      else if ch = 46 then reswitch fmt (i + 1) (if width sp < 0 then sp\<lparr>width := 0\<rparr> else sp) ap
      else if ch = 35 then reswitch fmt (i + 1) (sp\<lparr>altflag := True\<rparr>) ap
      else if ch = 108 then reswitch fmt (i + 1) (sp\<lparr>lflag := lflag sp + 1\<rparr>) ap
      else Inr (ch, i + 1, sp, ap))"
  by pat_completeness auto
termination
proof (relation "measure (\<lambda>(fmt, i, sp, ap). length fmt - i)")
  fix fmt i sp ap and ch :: byte
  assume ch: "ch = char_at fmt i" and d: "49 \<le> ch \<and> ch \<le> 57"
  then have "char_at fmt i \<noteq> 0" by auto
  then have "i < length fmt" by (rule char_at_0)
  then show "((fmt, snd (read_number fmt (i + 1) 0 ch),
      process_precision (sp\<lparr>precision := fst (read_number fmt (i + 1) 0 ch)\<rparr>), ap), (fmt, i, sp, ap))
    \<in> measure (\<lambda>(fmt, i, sp, ap). length fmt - i)"
    using read_number_ge [of "i + 1" fmt 0 ch] by simp
qed (auto intro!: diff_less_mono2 simp: char_at_def split: if_splits)

declare reswitch.simps [simp del]

text \<open>An unknown escape: back to the character after the last \<open>%\<close> before.\<close>

fun unescape :: "byte list \<Rightarrow> nat \<Rightarrow> nat" where
  "unescape fmt 0 = 0"
| "unescape fmt (Suc i) = (if char_at fmt i = 37 then Suc i else unescape fmt i)"


subsection \<open>Formats\<close>

definition error_string :: "byte list option list" where
  "error_string = map (map_option bytes)
     [None,
      Some ''unspecified error'',
      Some ''bad process'',
      Some ''invalid parameter'',
      Some ''out of memory'',
      Some ''out of processes'',
      Some ''segmentation fault'',
      None,
      Some ''invalid elf file'',
      Some ''process is killed'',
      Some ''panic failure'',
      None,
      None,
      Some ''no such device'',
      Some ''device not available'',
      Some ''device/file is busy'',
      Some ''no such file or directory'',
      Some ''is a directory'',
      Some ''not a directory'',
      Some ''cross device link'',
      Some ''unimplemented feature'',
      Some ''illegal seek'',
      Some ''too many files are open'',
      Some ''file or directory already exists'',
      Some ''directory is not empty'']"

text \<open>\<open>%s\<close>: padding on the left, the characters up to the precision, padding on the right.\<close>

fun str_loop :: "'d putch \<Rightarrow> bool \<Rightarrow> int \<Rightarrow> int \<Rightarrow> byte list \<Rightarrow> 'd \<Rightarrow> int \<times> 'd" where
  "str_loop putch alt prec wid [] d = (wid, d)"
| "str_loop putch alt prec wid (ch # p) d =
     (if prec < 0 \<or> prec - 1 \<ge> 0
      then str_loop putch alt (if prec < 0 then prec else prec - 1) (wid - 1) p
             (putch (if alt \<and> (ch < 32 \<or> ch > 126) then 63 else ucast ch) d)
      else (wid, d))"

definition bounded_len :: "byte list \<Rightarrow> int \<Rightarrow> int" where
  "bounded_len p prec = (if prec < 0 then int (length p) else min prec (int (length p)))"

definition put_string :: "'d putch \<Rightarrow> fspec \<Rightarrow> byte list \<Rightarrow> 'd \<Rightarrow> 'd" where
  "put_string putch sp p d =
     (let left = width sp > 0 \<and> padc sp \<noteq> 45;
          w1 = (if left then width sp - bounded_len p (precision sp) else width sp);
          d1 = (if left then pad putch w1 (ucast (padc sp)) d else d);
          w2 = (if left then min w1 0 else w1)
      in case str_loop putch (altflag sp) (precision sp) w2 p d1 of (w3, d2) \<Rightarrow> pad putch w3 32 d2)"

definition put_number :: "'d putch \<Rightarrow> fspec \<Rightarrow> 32 word \<Rightarrow> 64 word \<Rightarrow> 'd \<Rightarrow> 'd res" where
  "put_number putch sp base num d =
     (case printnum putch num base (width sp) (ucast (padc sp)) d of
        None \<Rightarrow> Inl Out_Of_Fuel | Some d' \<Rightarrow> Inr d')"

text \<open>
  \<open>fuel\<close> bounds the number of escapes; the conversion \<open>%e\<close> calls \<open>printfmt\<close> with the
  format \<open>error %d\<close> or \<open>%s\<close>.
\<close>

fun vprintfmt :: "nat \<Rightarrow> 'd putch \<Rightarrow> byte list \<Rightarrow> nat \<Rightarrow> vararg list \<Rightarrow> 'd \<Rightarrow> 'd res" where
  "vprintfmt 0 putch fmt i ap d = Inl Out_Of_Fuel"
| "vprintfmt (Suc fuel) putch fmt i ap d =
     (case literal putch fmt i d of
        (None, d1) \<Rightarrow> Inr d1
      | (Some i1, d1) \<Rightarrow>
          kbind (reswitch fmt i1 fspec0 ap) (\<lambda>(ch, i2, sp, ap1).
            if ch = 99 then
              kbind (va_int ap1) (\<lambda>(w, ap2). vprintfmt fuel putch fmt i2 ap2 (putch (ucast w) d1))
            else if ch = 101 then
              kbind (va_int ap1) (\<lambda>(w, ap2).
                let w32 = ucast w :: 32 word; e = (if sint w32 < 0 then - w32 else w32) in
                if sint e < 0 then Inl Bad_Access
                else kbind
                  (if sint e > MAXERROR then vprintfmt fuel putch (bytes ''error %d'') 0 [Va_Int (ucast e)] d1
                   else (case error_string ! unat e of
                           None \<Rightarrow> vprintfmt fuel putch (bytes ''error %d'') 0 [Va_Int (ucast e)] d1
                         | Some p \<Rightarrow> vprintfmt fuel putch (bytes ''%s'') 0 [Va_Str (Some p)] d1))
                  (\<lambda>d2. vprintfmt fuel putch fmt i2 ap2 d2))
            else if ch = 115 then
              kbind (va_str ap1) (\<lambda>(s, ap2).
                vprintfmt fuel putch fmt i2 ap2
                  (put_string putch sp (case s of None \<Rightarrow> bytes ''(null)'' | Some p \<Rightarrow> p) d1))
            else if ch = 100 then
              kbind (getint ap1 (lflag sp)) (\<lambda>(num, ap2).
                let neg = sint num < 0; d2 = (if neg then putch 45 d1 else d1); n = (if neg then - num else num) in
                kbind (put_number putch sp 10 n d2) (\<lambda>d3. vprintfmt fuel putch fmt i2 ap2 d3))
            else if ch = 117 \<or> ch = 111 \<or> ch = 120 then
              kbind (getuint ap1 (lflag sp)) (\<lambda>(num, ap2).
                kbind (put_number putch sp (if ch = 117 then 10 else if ch = 111 then 8 else 16) num d1)
                  (\<lambda>d2. vprintfmt fuel putch fmt i2 ap2 d2))
            else if ch = 112 then
              kbind (va_int ap1) (\<lambda>(num, ap2).
                kbind (put_number putch sp 16 num (putch 120 (putch 48 d1)))
                  (\<lambda>d2. vprintfmt fuel putch fmt i2 ap2 d2))
            else if ch = 37 then vprintfmt fuel putch fmt i2 ap1 (putch 37 d1)
            else vprintfmt fuel putch fmt (unescape fmt (i2 - 1)) ap1 (putch 37 d1)))"

definition printfmt :: "'d putch \<Rightarrow> byte list \<Rightarrow> vararg list \<Rightarrow> 'd \<Rightarrow> 'd res" where
  "printfmt putch fmt ap d = vprintfmt (length fmt + 3) putch fmt 0 ap d"

subsection \<open>Printing into a buffer\<close>

record sprintbuf =
  sb_mem :: mem
  buf :: nat
  ebuf :: nat
  cnt :: "32 word"

definition sprintputch :: "sprintbuf putch" where
  "sprintputch ch b =
     (let b1 = b\<lparr>cnt := cnt b + 1\<rparr> in
      if buf b1 < ebuf b1
      then b1\<lparr>sb_mem := (sb_mem b1)(buf b1 := ucast ch), buf := buf b1 + 1\<rparr>
      else b1)"

text \<open>The buffer is an address, 0 for \<open>NULL\<close>; \<open>str + sz - 1\<close> does not wrap.\<close>

definition vsnprintf :: "mem \<Rightarrow> nat \<Rightarrow> nat \<Rightarrow> byte list \<Rightarrow> vararg list \<Rightarrow> (32 word \<times> mem) res" where
  "vsnprintf m str sz fmt ap =
     (let b = \<lparr>sb_mem = m, buf = str, ebuf = str + sz - 1, cnt = 0\<rparr> in
      if str = 0 \<or> buf b > ebuf b then Inr (of_int (- E_INVAL), m)
      else kbind (vprintfmt (length fmt + 3) sprintputch fmt 0 ap b) (\<lambda>b'.
        Inr (cnt b', (sb_mem b')(buf b' := 0))))"

definition snprintf :: "mem \<Rightarrow> nat \<Rightarrow> nat \<Rightarrow> byte list \<Rightarrow> vararg list \<Rightarrow> (32 word \<times> mem) res" where
  "snprintf m str sz fmt ap = vsnprintf m str sz fmt ap"

subsection \<open>What is printed\<close>

text \<open>The digits of a number, most significant first.\<close>

fun digits_of :: "nat \<Rightarrow> nat \<Rightarrow> nat list" where
  "digits_of b n = (if n < b \<or> b < 2 then [n] else digits_of b (n div b) @ [n mod b])"

declare digits_of.simps [simp del]

definition dchar :: "nat \<Rightarrow> 32 word" where
  "dchar k = ucast (bytes ''0123456789abcdef'' ! k)"

definition num_chars :: "nat \<Rightarrow> int \<Rightarrow> 32 word \<Rightarrow> nat \<Rightarrow> 32 word list" where
  "num_chars b w c n =
     replicate (nat (w - int (length (digits_of b n)))) c @ map dchar (digits_of b n)"

lemma pad_fold: "pad putch n c d = fold putch (replicate (nat n) c) d"
proof -
  have "(f ^^ k) d = fold (\<lambda>_. f) (replicate k c) d" for f :: "'a \<Rightarrow> 'a" and k d
    by (induction k arbitrary: d) (simp_all add: funpow_swap1)
  moreover have "fold (\<lambda>_. putch c) (replicate k c) d = fold putch (replicate k c) d" for k
    by (induction k arbitrary: d) simp_all
  ultimately show ?thesis by (simp add: pad_def)
qed

lemma printnum_fold:
  assumes "2 \<le> unat base" and "unat base \<le> 16"
  shows "printnum putch num base w c d = Some (fold putch (num_chars (unat base) w c (unat num)) d)"
proof (induction "unat num" arbitrary: num w rule: less_induct)
  case less
  let ?b = "unat base"
  have ub: "unat (ucast base :: 64 word) = ?b" by simp
  have dc: "digit_char (num mod ucast base) = dchar (unat num mod ?b)"
    by (simp add: digit_char_def dchar_def unat_mod)
  show ?case
  proof (cases "num \<ge> ucast base")
    case True
    then have ge: "?b \<le> unat num" by (simp add: word_le_nat_alt)
    have "unat (num div ucast base) < unat num" using ge assms by (simp add: unat_div)
    from less [OF this, of "w - 1"]
    have "printnum putch (num div ucast base) base (w - 1) c d =
        Some (fold putch (num_chars ?b (w - 1) c (unat num div ?b)) d)" by (simp add: unat_div)
    moreover have "digits_of ?b (unat num) = digits_of ?b (unat num div ?b) @ [unat num mod ?b]"
      using ge assms by (subst digits_of.simps) simp
    ultimately show ?thesis
      using True dc by (subst printnum.simps) (simp add: num_chars_def Let_def algebra_simps)
  next
    case False
    then have lt: "unat num < ?b" by (simp add: word_le_nat_alt)
    then have "digits_of ?b (unat num) = [unat num]" by (subst digits_of.simps) simp
    then show ?thesis
      using False dc lt by (subst printnum.simps) (simp add: num_chars_def Let_def pad_fold)
  qed
qed

lemma put_number_fold:
  "2 \<le> unat base \<Longrightarrow> unat base \<le> 16 \<Longrightarrow>
   put_number putch sp base num d = Inr (fold putch (num_chars (unat base) (width sp) (ucast (padc sp)) (unat num)) d)"
  by (simp add: put_number_def printnum_fold)

text \<open>
  The routines treat the object behind \<open>putdat\<close> as opaque: runs with two objects that
  every call of \<open>putch\<close> keeps related end related.
\<close>

definition sim :: "('c \<Rightarrow> 'd \<Rightarrow> bool) \<Rightarrow> 'c putch \<Rightarrow> 'd putch \<Rightarrow> bool" where
  "sim R f g \<longleftrightarrow> (\<forall>c x y. R x y \<longrightarrow> R (f c x) (g c y))"

definition rel_res :: "('c \<Rightarrow> 'd \<Rightarrow> bool) \<Rightarrow> 'c res \<Rightarrow> 'd res \<Rightarrow> bool" where
  "rel_res R x y \<longleftrightarrow> (case x of Inl e \<Rightarrow> y = Inl e | Inr a \<Rightarrow> (\<exists>b. y = Inr b \<and> R a b))"

lemma rel_res_simps [simp]:
  "rel_res R (Inr a) (Inr b) \<longleftrightarrow> R a b"
  "rel_res R (Inl e) y \<longleftrightarrow> y = Inl e"
  "\<not> rel_res R (Inr a) (Inl e)"
  by (auto simp: rel_res_def)

lemma rel_res_kbind:
  "rel_res R x y \<Longrightarrow> (\<And>a b. R a b \<Longrightarrow> rel_res S (f a) (g b)) \<Longrightarrow> rel_res S (kbind x f) (kbind y g)"
proof (cases x)
  case (Inr a)
  moreover assume "rel_res R x y" "\<And>a b. R a b \<Longrightarrow> rel_res S (f a) (g b)"
  ultimately show ?thesis by (cases y) (auto simp: rel_res_def [of R])
qed simp

lemma rel_res_same:
  "(\<And>a. rel_res S (f a) (g a)) \<Longrightarrow> rel_res S (kbind x f) (kbind x g)"
  by (cases x) (auto simp: kbind_def)

lemma fold_sim: "sim R f g \<Longrightarrow> R x y \<Longrightarrow> R (fold f cs x) (fold g cs y)"
  by (induction cs arbitrary: x y) (auto simp: sim_def)

lemma pad_sim: "sim R f g \<Longrightarrow> R x y \<Longrightarrow> R (pad f n c x) (pad g n c y)"
  unfolding pad_fold by (rule fold_sim)

lemma put_number_sim:
  "sim R f g \<Longrightarrow> R x y \<Longrightarrow> 2 \<le> unat base \<Longrightarrow> unat base \<le> 16 \<Longrightarrow>
   rel_res R (put_number f sp base num x) (put_number g sp base num y)"
  by (simp add: put_number_fold fold_sim)

lemma literal_sim:
  "sim R f g \<Longrightarrow> R x y \<Longrightarrow>
   fst (literal f fmt i x) = fst (literal g fmt i y) \<and> R (snd (literal f fmt i x)) (snd (literal g fmt i y))"
proof (induction f fmt i x arbitrary: y rule: literal.induct)
  case (1 f fmt i d)
  have "R (f c d) (g c y)" for c using 1(2,3) by (simp add: sim_def)
  with 1 show ?case
    by (subst (1 2) literal.simps, subst (1 2) literal.simps) (auto simp: Let_def)
qed

lemma str_loop_sim:
  "sim R f g \<Longrightarrow> R x y \<Longrightarrow>
   fst (str_loop f alt prec w p x) = fst (str_loop g alt prec w p y) \<and>
   R (snd (str_loop f alt prec w p x)) (snd (str_loop g alt prec w p y))"
  by (induction f alt prec w p x arbitrary: y rule: str_loop.induct) (auto simp: sim_def)

lemma put_string_sim:
  assumes "sim R f g" and "R x y"
  shows "R (put_string f sp p x) (put_string g sp p y)"
proof -
  have "R (if l then pad f n c x else x) (if l then pad g n c y else y)" for l n c
    using assms pad_sim by auto
  note str_loop_sim [OF assms(1) this]
  then show ?thesis
    using pad_sim [OF assms(1)] by (simp add: put_string_def Let_def case_prod_beta)
qed

lemma vprintfmt_sim:
  assumes "sim R f g" and "R x y"
  shows "rel_res R (vprintfmt fuel f fmt i ap x) (vprintfmt fuel g fmt i ap y)"
  using assms(2)
proof (induction fuel arbitrary: fmt i ap x y)
  case (Suc fuel)
  note step = assms(1) [unfolded sim_def, rule_format]
  obtain o1 d1 where 1: "literal f fmt i x = (o1, d1)" by fastforce
  obtain o2 e1 where 2: "literal g fmt i y = (o2, e1)" by fastforce
  have eq: "o2 = o1" and R: "R d1 e1" using literal_sim [OF assms(1) Suc.prems, of fmt i] 1 2 by auto
  note IH = Suc.IH put_string_sim [OF assms(1)] put_number_sim [OF assms(1)] step
  show ?case
  proof (cases o1)
    case None
    then show ?thesis using 1 2 eq R by simp
  next
    case (Some i1)
    show ?thesis
      unfolding vprintfmt.simps 1 2 eq Some option.case prod.case
      by (rule rel_res_same)
        (auto intro!: rel_res_same rel_res_kbind [where R = R] Suc.IH put_string_sim [OF assms(1)] put_number_sim [OF assms(1)] step
          simp: Let_def R case_prod_beta split: option.splits)
  qed
qed simp


text \<open>The characters printed, as a list; every \<open>putch\<close> gets them in this order.\<close>

definition printed :: "byte list \<Rightarrow> vararg list \<Rightarrow> 32 word list res" where
  "printed fmt ap = printfmt (\<lambda>c out. out @ [c]) fmt ap []"

lemma printfmt_printed:
  "printfmt putch fmt ap d = kbind (printed fmt ap) (\<lambda>out. Inr (fold putch out d))"
proof -
  let ?R = "\<lambda>x out. x = fold putch out d"
  have "rel_res ?R (printfmt putch fmt ap d) (printed fmt ap)"
    unfolding printfmt_def printed_def by (rule vprintfmt_sim) (simp_all add: sim_def)
  then show ?thesis by (cases "printfmt putch fmt ap d"; cases "printed fmt ap") auto
qed

text \<open>The buffer after \<open>sprintputch\<close>: a prefix of the output, the count of all of it.\<close>

lemma sprintputch_fold:
  assumes "buf b \<le> ebuf b"
  shows "fold sprintputch out b =
    \<lparr>sb_mem = (\<lambda>a. if buf b \<le> a \<and> a < ebuf b \<and> a - buf b < length out then ucast (out ! (a - buf b)) else sb_mem b a),
     buf = min (ebuf b) (buf b + length out), ebuf = ebuf b, cnt = cnt b + of_nat (length out)\<rparr>"
  using assms
proof (induction out rule: rev_induct)
  case (snoc c out)
  then show ?case
    by (auto simp: sprintputch_def Let_def fun_eq_iff nth_append less_Suc_eq)
qed simp

lemma vsnprintf_printed:
  assumes "str \<noteq> 0" and "0 < sz" and "printed fmt ap = Inr out"
  shows "\<exists>m'. vsnprintf m str sz fmt ap = Inr (of_nat (length out), m') \<and>
    (\<forall>i < min (sz - 1) (length out). m' (str + i) = ucast (out ! i)) \<and>
    m' (str + min (sz - 1) (length out)) = 0 \<and>
    (\<forall>a. a \<notin> {str ..< str + sz} \<longrightarrow> m' a = m a)"
proof -
  let ?b = "\<lparr>sb_mem = m, buf = str, ebuf = str + sz - 1, cnt = 0\<rparr>"
  have "vprintfmt (length fmt + 3) sprintputch fmt 0 ap ?b = Inr (fold sprintputch out ?b)"
    using printfmt_printed [of sprintputch fmt ap ?b] assms(3) by (simp add: printfmt_def)
  moreover have "min (str + sz - 1) (str + length out) = str + min (sz - 1) (length out)"
    using assms(2) by auto
  ultimately show ?thesis
    using assms(1,2) by (auto simp: vsnprintf_def Let_def sprintputch_fold)
qed

subsection \<open>Formatting returns\<close>

lemma literal_next:
  "literal putch fmt i d = (Some j, d') \<Longrightarrow> i < j \<and> j \<le> length fmt \<and> char_at fmt (j - 1) = 37"
proof (induction putch fmt i d rule: literal.induct)
  case (1 putch fmt i d)
  show ?case
  proof (cases "char_at fmt i = 37")
    case True
    then have "i < length fmt" using char_at_0 [of fmt i] by simp
    then show ?thesis using True 1(2) by (subst (asm) literal.simps) (auto simp: Let_def)
  next
    case False
    then show ?thesis using 1 by (subst (asm) (2) literal.simps) (fastforce simp: Let_def split: if_splits)
  qed
qed

lemma reswitch_next: "reswitch fmt i sp ap = Inr (ch, j, sp', ap') \<Longrightarrow> i < j"
proof (induction fmt i sp ap rule: reswitch.induct)
  case (1 fmt i sp ap)
  have ge: "Suc i \<le> snd (read_number fmt (Suc i) 0 (char_at fmt i))" by (rule read_number_ge)
  show ?case
    using 1 ge unfolding reswitch.simps [of fmt i sp ap]
    by (simp add: Let_def split: if_splits sum.splits prod.splits) (use Suc_lessD Suc_le_lessD less_trans in blast)+
qed

lemma reswitch_fuel: "returns (reswitch fmt i sp ap)"
proof (induction fmt i sp ap rule: reswitch.induct)
  case (1 fmt i sp ap)
  have "returns (va_int ap)" by (cases "(ap)" rule: va_int.cases) auto
  then show ?case
    using 1 unfolding reswitch.simps [of fmt i sp ap] by (auto simp: Let_def split: sum.splits)
qed

lemma unescape_ge: "j \<le> i \<Longrightarrow> 0 < j \<Longrightarrow> char_at fmt (j - 1) = 37 \<Longrightarrow> j \<le> unescape fmt i"
  by (induction i) (auto simp: le_Suc_eq)

lemma args_fuel [simp]:
  "returns (va_int ap)" "returns (va_str ap)"
  "returns (getint ap l)" "returns (getuint ap l)"
proof -
  show 1: "returns (va_int ap)" for ap by (cases "(ap)" rule: va_int.cases) auto
  show "returns (va_str ap)" by (cases "(ap)" rule: va_str.cases) auto
  show "returns (getint ap l)" "returns (getuint ap l)"
    using 1 [of ap] by (cases "va_int ap"; auto simp: getint_def getuint_def)+
qed

lemma bytes_formats:
  "bytes ''error %d'' = [101, 114, 114, 111, 114, 32, 37, 100]"
  "bytes ''%s'' = [37, 115]" "bytes ''%ld'' = [37, 108, 100]"
  by (simp_all add: bytes_def)

lemma format_error:
  "\<exists>d'. vprintfmt (Suc (Suc n)) putch (bytes ''error %d'') 0 [Va_Int w] d = Inr d'"
  by (simp add: bytes_formats literal.simps reswitch.simps char_at_def Let_def getint_def fspec0_def
      put_number_fold nth_Cons')

lemma format_string:
  "\<exists>d'. vprintfmt (Suc (Suc n)) putch (bytes ''%s'') 0 [Va_Str (Some p)] d = Inr d'"
  by (simp add: bytes_formats literal.simps reswitch.simps char_at_def Let_def nth_Cons')

lemma vprintfmt_fuel:
  "length fmt - i + 3 \<le> fuel \<Longrightarrow> returns (vprintfmt fuel putch fmt i ap d)"
proof (induction fuel arbitrary: i ap d)
  case (Suc fuel)
  obtain o1 d1 where lit: "literal putch fmt i d = (o1, d1)" by fastforce
  show ?case
  proof (cases o1)
    case None
    then show ?thesis using lit by simp
  next
    case (Some i1)
    have i1: "i < i1" "i1 \<le> length fmt" "char_at fmt (i1 - 1) = 37"
      using literal_next [of putch fmt i d i1 d1] lit Some by auto
    then obtain n where fuel: "fuel = Suc (Suc n)"
      using Suc.prems by (cases fuel; cases "fuel - 1") auto
    have more: "returns (vprintfmt fuel putch fmt j ap' d')" if "i1 \<le> j" for j ap' d'
      by (rule Suc.IH) (use Suc.prems i1 that in linarith)
    have errs: "returns (vprintfmt fuel putch (bytes ''error %d'') 0 [Va_Int w] d')"
      "returns (vprintfmt fuel putch (bytes ''%s'') 0 [Va_Str (Some p)] d')" for w p d'
      using format_error [of n putch w d'] format_string [of n putch p d'] unfolding fuel by auto
    have num: "returns (put_number putch sp 10 m d')"
      "returns (put_number putch sp (if c then 10 else if c' then 8 else 16) m d')"
      "returns (put_number putch sp 16 m d')" "returns (put_number putch sp 8 m d')" for sp m d' c c'
      by (simp_all add: put_number_fold)
    have resume: "i1 \<le> unescape fmt (j - 1)" if "i1 < j" for j
      using unescape_ge [of i1 "j - 1" fmt] i1 that by simp
    show ?thesis
      unfolding vprintfmt.simps lit Some option.case prod.case
      by (rule returns_kbind)
        (auto intro!: returns_kbind more num errs resume simp: reswitch_fuel Let_def
          simp del: vprintfmt.simps One_nat_def split: option.splits dest!: reswitch_next)
  qed
qed simp

subsection \<open>Printing and reading numbers\<close>

lemma digits_of_less: "2 \<le> b \<Longrightarrow> d \<in> set (digits_of b n) \<Longrightarrow> d < b"
proof (induction b n rule: digits_of.induct)
  case (1 b n)
  then show ?case by (subst (asm) (2) digits_of.simps) (auto split: if_splits)
qed

lemma digits_of_value: "2 \<le> b \<Longrightarrow> foldl (\<lambda>v d. v * b + d) 0 (digits_of b n) = n"
proof (induction b n rule: digits_of.induct)
  case (1 b n)
  show ?case
  proof (cases "n < b")
    case False
    then have "foldl (\<lambda>v d. v * b + d) 0 (digits_of b (n div b)) = n div b" using 1 by simp
    then show ?thesis using False 1(2) by (subst digits_of.simps) simp
  qed (subst digits_of.simps, simp)
qed

lemma digits_of_length: "2 \<le> b \<Longrightarrow> n < b ^ Suc k \<Longrightarrow> length (digits_of b n) \<le> Suc k"
proof (induction k arbitrary: n)
  case 0
  then show ?case by (subst digits_of.simps) simp
next
  case (Suc k)
  show ?case
  proof (cases "n < b")
    case False
    have "n div b < b ^ Suc k" using Suc.prems by (simp add: less_mult_imp_div_less mult.commute)
    then have "length (digits_of b (n div b)) \<le> Suc k" using Suc by simp
    then show ?thesis using False Suc.prems by (subst digits_of.simps) simp
  qed (subst digits_of.simps, simp)
qed

lemma digits_of_nonempty [simp]: "digits_of b n \<noteq> []"
  by (subst digits_of.simps) simp

lemma decimal_char:
  assumes "d < 10"
  shows "ucast (dchar d) = (of_nat (48 + d) :: byte)" "digit_val (of_nat (48 + d)) = Some (int d)"
    "is_digit 10 (of_nat (48 + d))" "(of_nat (48 + d) :: byte) \<noteq> 0"
proof -
  have u: "unat (of_nat (48 + d) :: byte) = 48 + d" using assms by (simp add: unat_of_nat_small del: of_nat_add)
  have "d \<in> {0, 1, 2, 3, 4, 5, 6, 7, 8, 9}" using assms by auto
  then show "ucast (dchar d) = (of_nat (48 + d) :: byte)" by (auto simp: dchar_def bytes_def nth_Cons')
  have i: "uint (of_nat (48 + d) :: byte) = 48 + int d" using u by (simp add: uint_nat del: of_nat_add)
  have le: "(of_nat (48 + d) :: byte) \<ge> 48" "(of_nat (48 + d) :: byte) \<le> 57"
    using u assms by (simp_all add: word_le_nat_alt del: of_nat_add)
  then show dv: "digit_val (of_nat (48 + d)) = Some (int d)" using i by (simp add: digit_val_def del: of_nat_add)
  then show "is_digit 10 (of_nat (48 + d))" using assms by (simp add: is_digit_def)
  show "(of_nat (48 + d) :: byte) \<noteq> 0" using u by (metis unat_0 add_is_0 zero_neq_numeral)
qed

definition decimal :: "nat \<Rightarrow> byte list" where
  "decimal n = map (\<lambda>d. of_nat (48 + d)) (digits_of 10 n)"

lemma decimal_digits: "\<forall>c\<in>set (decimal n). is_digit 10 c \<and> c \<noteq> 0"
  using digits_of_less [of 10 _ n] decimal_char by (auto simp: decimal_def)

lemma decimal_value: "num_of 10 (decimal n) = int n"
proof -
  have "foldl (\<lambda>v c. v * 10 + the (digit_val c)) (int v) (map (\<lambda>d. of_nat (48 + d)) ds) =
      int (foldl (\<lambda>v d. v * 10 + d) v ds)" if "\<forall>d\<in>set ds. d < 10" for v ds
    using that
  proof (induction ds arbitrary: v)
    case (Cons d ds)
    have "the (digit_val (of_nat (48 + d))) = int d" using Cons.prems decimal_char(2) [of d] by simp
    then show ?case using Cons.IH [of "v * 10 + d"] Cons.prems by (simp del: of_nat_add add: of_nat_add [where 'a = int])
  qed simp
  from this [of "digits_of 10 n" 0] show ?thesis
    using digits_of_less [of 10 _ n] digits_of_value [of 10 n] by (simp add: num_of_def decimal_def)
qed

lemma decimal_printed: "map ucast (map dchar (digits_of 10 n)) = decimal n"
  using digits_of_less [of 10 _ n] decimal_char(1) by (simp add: decimal_def)


lemma format_long:
  "vprintfmt (Suc (Suc n)) putch (bytes ''%ld'') 0 [Va_Int w] d =
     Inr (fold putch ((if sint w < 0 then [45] else []) @
       map dchar (digits_of 10 (unat (if sint w < 0 then - w else w)))) d)"
  by (cases "sint w < 0")
    (simp_all add: bytes_formats literal.simps reswitch.simps char_at_def Let_def getint_def fspec0_def
      put_number_fold num_chars_def nth_Cons')

lemma printed_long:
  "printed (bytes ''%ld'') [Va_Int w] =
     Inr ((if sint w < 0 then [45] else []) @ map dchar (digits_of 10 (unat (if sint w < 0 then - w else w))))"
proof -
  have cons: "fold (\<lambda>c out. out @ [c]) xs out = out @ xs" for xs out :: "32 word list"
    by (induction xs arbitrary: out) auto
  have "length (bytes ''%ld'') + 3 = Suc (Suc 4)" by (simp add: bytes_formats)
  then show ?thesis by (simp only: printed_def printfmt_def format_long cons append_Nil)
qed

lemma snprintf_long:
  assumes "str \<noteq> 0" and "22 \<le> sz"
  shows "\<exists>c m'. snprintf m str sz (bytes ''%ld'') [Va_Int w] = Inr (c, m') \<and>
    strtol m' str 10 = Some (w, str + unat c) \<and> (\<forall>a. a \<notin> {str ..< str + sz} \<longrightarrow> m' a = m a)"
proof -
  let ?u = "if sint w < 0 then - w else w" and ?sg = "if sint w < 0 then [45 :: byte] else []"
  define out where "out = (if sint w < 0 then [45] else []) @ map dchar (digits_of 10 (unat ?u))"
  let ?xs = "?sg @ decimal (unat ?u)"
  have pr: "printed (bytes ''%ld'') [Va_Int w] = Inr out" by (simp add: printed_long out_def)
  have xs: "map ucast out = ?xs"
    using decimal_printed [of "unat ?u"] by (simp add: out_def)
  have "unat ?u < 2 ^ LENGTH(64)" by (rule unsigned_less)
  also have "(2 :: nat) ^ LENGTH(64) < 10 ^ Suc 19" by simp
  finally have "length (digits_of 10 (unat ?u)) \<le> Suc 19" by (rule digits_of_length [rotated]) simp
  then have len: "length out \<le> 21" by (cases "sint w < 0") (simp_all add: out_def)
  have "0 < sz" using assms(2) by simp
  then obtain m' where m': "vsnprintf m str sz (bytes ''%ld'') [Va_Int w] = Inr (of_nat (length out), m')"
    "\<forall>i < min (sz - 1) (length out). m' (str + i) = ucast (out ! i)"
    "m' (str + min (sz - 1) (length out)) = 0" "\<forall>a. a \<notin> {str ..< str + sz} \<longrightarrow> m' a = m a"
    using vsnprintf_printed [OF assms(1) _ pr] by blast
  have min: "min (sz - 1) (length out) = length out" using len assms(2) by simp
  have "\<forall>i<length ?xs. m' (str + i) = ?xs ! i \<and> ?xs ! i \<noteq> 0"
  proof (intro allI impI)
    fix i assume i: "i < length ?xs"
    have "length ?xs = length out" unfolding xs [symmetric] by simp
    with i have l: "i < length out" by simp
    then have "m' (str + i) = map ucast out ! i" using m'(2) min by simp
    moreover have "?xs ! i \<in> set ?xs" using i by (rule nth_mem)
    then have "?xs ! i \<noteq> 0" using decimal_digits [of "unat ?u"] by (auto split: if_splits)
    ultimately show "m' (str + i) = ?xs ! i \<and> ?xs ! i \<noteq> 0" unfolding xs by simp
  qed
  moreover have lx: "length ?xs = length out" unfolding xs [symmetric] by simp
  ultimately have c: "cstr m' str ?xs"
    using m'(3) min cstr_append [of m' str ?xs "[]"] by simp
  have "strtol m' str 10 = Some (word_of_int (if ?sg = [45] then - num_of 10 (decimal (unat ?u))
      else num_of 10 (decimal (unat ?u))), str + length ?xs)"
    using strtol_cstr [of m' str "[]" ?sg "decimal (unat ?u)" 10] c decimal_digits [of "unat ?u"]
    by (simp add: decimal_def)
  moreover have "word_of_int (if ?sg = [45] then - num_of 10 (decimal (unat ?u)) else num_of 10 (decimal (unat ?u))) = w"
    by (simp add: decimal_value)
  ultimately have "strtol m' str 10 = Some (w, str + length out)" using lx by simp
  moreover have "unat (of_nat (length out) :: 32 word) = length out" using len by (simp add: unat_of_nat_small)
  ultimately show ?thesis using m'(1,4) by (auto simp: snprintf_def)
qed

subsection \<open>Properties\<close>

text \<open>
  C23. Printing and reading are inverse: \<open>snprintf\<close> with \<open>%ld\<close> into a buffer of at least 22
  bytes, followed by \<open>strtol\<close> in base 10, gives every 64-bit number back (the smallest
  negative one included), ends behind the last character written, and no byte outside the
  buffer changes.
\<close>

theorem snprintf_strtol:
  assumes "str \<noteq> 0" and "22 \<le> sz"
  shows "\<exists>c m'. snprintf m str sz (bytes ''%ld'') [Va_Int w] = Inr (c, m') \<and>
    strtol m' str 10 = Some (w, str + unat c) \<and> (\<forall>a. a \<notin> {str ..< str + sz} \<longrightarrow> m' a = m a)"
  using assms by (rule snprintf_long)

lemma snprintf_strtol_witness:
  "\<exists>c m'. snprintf (\<lambda>_. 1) 100 22 (bytes ''%ld'') [Va_Int (- 17)] = Inr (c, m') \<and>
    strtol m' 100 10 = Some (- 17, 100 + unat c)"
  using snprintf_strtol [of 100 22 "\<lambda>_. 1" "- 17"] by auto

text \<open>
  C24. \<open>vsnprintf\<close> stays inside its buffer: for any format and arguments it returns the number
  of characters of the complete output, stores the prefix that fits, terminates it with
  NUL and writes no byte outside the \<open>sz\<close> bytes it was given.
\<close>

theorem vsnprintf_bounded:
  assumes "str \<noteq> 0" and "0 < sz" and "printed fmt ap = Inr out"
  shows "\<exists>m'. vsnprintf m str sz fmt ap = Inr (of_nat (length out), m') \<and>
    (\<forall>i < min (sz - 1) (length out). m' (str + i) = ucast (out ! i)) \<and>
    m' (str + min (sz - 1) (length out)) = 0 \<and>
    (\<forall>a. a \<notin> {str ..< str + sz} \<longrightarrow> m' a = m a)"
  using assms by (rule vsnprintf_printed)

lemma vsnprintf_bounded_witness:
  "\<exists>m'. vsnprintf (\<lambda>_. 1) 100 1 (bytes ''%ld'') [Va_Int 7] = Inr (1, m') \<and> m' 100 = 0 \<and> m' 101 = 1"
  using vsnprintf_bounded [of 100 1 "bytes ''%ld''" "[Va_Int 7]" "[dchar 7]" "\<lambda>_. 1"]
  by (auto simp: printed_long digits_of.simps [of 10 7])

text \<open>
  C25. Formatting returns: for every format string (unknown escapes and a trailing \<open>%\<close>
  included) and every list of arguments, \<open>printfmt\<close> ends, with a result or with the fault
  of an argument that is missing or of the wrong type.
\<close>

theorem printfmt_returns:
  "printfmt putch fmt ap d \<noteq> Inl Out_Of_Fuel"
  using vprintfmt_fuel [of fmt 0 "length fmt + 3" putch ap d] by (simp add: printfmt_def returns_def)

end
