(* ===== verification/Hash_Rand.thy ===== *)
theory Hash_Rand
  imports Prelude
begin

text \<open>
  \<open>lab8/libs/hash.c\<close> and \<open>lab8/libs/rand.c\<close>: the multiplicative hash used by the process
  table and the linear congruential generator.
\<close>

definition GOLDEN_RATIO_PRIME_32 :: "64 word" where
  "GOLDEN_RATIO_PRIME_32 = 0x9e370001"

text \<open>The product is one of \<open>unsigned long\<close>, cut to 32 bits by the assignment.\<close>

definition hash32 :: "32 word \<Rightarrow> nat \<Rightarrow> 32 word" where
  "hash32 val bits = (let hash = ucast (ucast val * GOLDEN_RATIO_PRIME_32) in drop_bit (32 - bits) hash)"

definition RAND_MAX :: "64 word" where "RAND_MAX = 2147483647"

text \<open>
  The macro \<open>do_div(n, base)\<close> of \<open>riscv.h\<close> does not parenthesise \<open>base\<close>: with \<open>RAND_MAX + 1\<close>
  for it, \<open>n % (unsigned)base\<close> reads \<open>(n % (unsigned)RAND_MAX) + 1\<close>. The state is \<open>next\<close>.
\<close>

definition rand :: "64 word \<Rightarrow> 32 word \<times> 64 word" where
  "rand nxt =
     (let nxt' = (nxt * 0x5DEECE66D + 0xB) AND (push_bit 48 1 - 1);
          result = drop_bit 12 nxt';
          res = result mod ucast (ucast RAND_MAX :: 32 word) + 1
      in (ucast res, nxt'))"

definition srand :: "32 word \<Rightarrow> 64 word" where
  "srand seed = ucast seed"

lemma hash32_bound:
  assumes "0 < bits" and "bits \<le> 32"
  shows "unat (hash32 val bits) < 2 ^ bits"
proof -
  let ?h = "ucast (ucast val * GOLDEN_RATIO_PRIME_32) :: 32 word"
  have "unat ?h < 2 ^ LENGTH(32)" by (rule unsigned_less)
  then have "unat ?h < 2 ^ bits * 2 ^ (32 - bits)"
    using assms(2) by (simp add: power_add [symmetric])
  then have "unat ?h div 2 ^ (32 - bits) < 2 ^ bits" by (simp add: less_mult_imp_div_less)
  moreover have "unat (drop_bit (32 - bits) ?h) = unat ?h div 2 ^ (32 - bits)"
    by (simp add: unat_drop_bit_eq flip: drop_bit_eq_div)
  ultimately show ?thesis by (simp only: hash32_def Let_def)
qed

lemma rand_range:
  "1 \<le> unat (fst (rand nxt)) \<and> unat (fst (rand nxt)) \<le> 2147483647"
proof -
  define r where "r = drop_bit 12 ((nxt * 0x5DEECE66D + 0xB) AND (push_bit 48 1 - 1))"
  have m: "unat (r mod 2147483647) < 2147483647" by (simp add: unat_mod)
  then have u: "unat (r mod 2147483647 + 1) = unat (r mod 2147483647) + 1"
    by (subst unat_add_less) simp_all
  then have v: "unat (ucast (r mod 2147483647 + 1) :: 32 word) = unat (r mod 2147483647) + 1"
    using m by (simp add: unat_ucast_64_32)
  have f: "fst (rand nxt) = ucast (r mod 2147483647 + 1)"
    by (simp add: rand_def r_def Let_def RAND_MAX_def)
  with v m f show ?thesis by simp
qed

subsection \<open>Properties\<close>

text \<open>
  \<open>hash32\<close> returns an index below \<open>2 ^ bits\<close>, and \<open>rand\<close> never returns 0: its results lie
  between 1 and \<open>RAND_MAX\<close>, because the divisor \<open>RAND_MAX + 1\<close> reaches an unparenthesised
  macro argument.
\<close>

theorem hash_rand_ranges:
  "(0 < bits \<and> bits \<le> 32 \<longrightarrow> unat (hash32 val bits) < 2 ^ bits) \<and>
   1 \<le> unat (fst (rand nxt)) \<and> unat (fst (rand nxt)) \<le> 2147483647"
  using hash32_bound rand_range [of nxt] by simp

lemma hash_rand_ranges_witness:
  "unat (hash32 77 10) < 1024 \<and> 1 \<le> unat (fst (rand 1))"
  using hash_rand_ranges [of 10 77 1] by simp

end
