(* ===== verification/Vfs_Inode.thy ===== *)
theory Vfs_Inode
  imports CString Errno
begin

text \<open>
  \<open>lab8/kern/fs/vfs/inode.c\<close> and \<open>inode.h\<close>, and the inode operations of devices in
  \<open>lab8/kern/fs/devs/dev.c\<close>: inodes with their reference and open counts, and the dispatch
  through the operation table of an inode. The file system behind the other table (SFS) is
  not part of the repository: its operations, \<open>kmalloc\<close> and the contents of fresh memory
  are parameters, the fields of \<open>env\<close>. Messages of \<open>cprintf\<close> are not modelled.
\<close>

subsection \<open>Flags and modes\<close>

definition O_RDONLY :: "32 word" where "O_RDONLY = 0"
definition O_WRONLY :: "32 word" where "O_WRONLY = 1"
definition O_RDWR :: "32 word" where "O_RDWR = 2"
definition O_CREAT :: "32 word" where "O_CREAT = 4"
definition O_EXCL :: "32 word" where "O_EXCL = 8"
definition O_TRUNC :: "32 word" where "O_TRUNC = 16"
definition O_APPEND :: "32 word" where "O_APPEND = 32"
definition O_ACCMODE :: "32 word" where "O_ACCMODE = 3"

lemmas open_flag_defs = O_RDONLY_def O_WRONLY_def O_RDWR_def O_CREAT_def O_EXCL_def O_TRUNC_def
  O_APPEND_def O_ACCMODE_def

definition S_IFMT :: "32 word" where "S_IFMT = 0x7000"
definition S_IFDIR :: "32 word" where "S_IFDIR = 0x2000"
definition S_IFCHR :: "32 word" where "S_IFCHR = 0x4000"
definition S_IFBLK :: "32 word" where "S_IFBLK = 0x5000"

definition S_ISDIR :: "32 word \<Rightarrow> bool" where
  "S_ISDIR mode \<longleftrightarrow> mode AND S_IFMT = S_IFDIR"

subsection \<open>Inodes and the state of the layer\<close>

text \<open>The function pointers of a \<open>struct device\<close> are those of one of three drivers.\<close>

datatype driver = Stdin_Driver | Stdout_Driver | Disk0_Driver

record device =
  d_blocks :: "64 word"
  d_blocksize :: "64 word"
  d_driver :: driver

datatype inode_ops = Dev_Ops | Fs_Ops

text \<open>Inodes and file systems are named by numbers; \<open>NULL\<close> is \<open>None\<close>.\<close>

record inode =
  in_type :: int
  in_device :: device
  ref_count :: int
  open_count :: int
  in_fs :: "nat option"
  in_ops :: "inode_ops option"

definition inode_type_device_info :: int where "inode_type_device_info = 0x1234"
definition inode_type_sfs_inode_info :: int where "inode_type_sfs_inode_info = 0x1235"
definition MAX_INODE_COUNT :: int where "MAX_INODE_COUNT = 0x10000"

record vfs_dev =
  devname :: "byte list"
  devnode :: "nat option"
  vd_fs :: "nat option"
  mountable :: bool

datatype lock = Vdev_List_Lock | Bootfs_Lock | Files_Lock

text \<open>
  The routines of semaphores are not part of the repository either: the model records their
  calls, in order. \<open>ext\<close> is the state of the code outside the model.
\<close>

datatype lock_call = Down lock | Up lock

record 'x vstate =
  inodes :: "nat \<Rightarrow> inode option"
  vdev_list :: "vfs_dev list"
  bootfs_node :: "nat option"
  pwd :: "nat option"
  lock_calls :: "lock_call list"
  ext :: 'x

definition emit :: "lock_call \<Rightarrow> 'x vstate \<Rightarrow> 'x vstate" where
  "emit c s = s\<lparr>lock_calls := lock_calls s @ [c]\<rparr>"

text \<open>
  The code that is not under \<open>src/\<close>. A path buffer is the characters of the array, NUL
  characters included; \<open>e_lookup\<close> may destroy it.
\<close>

record 'x env =
  e_kmalloc :: "'x vstate \<Rightarrow> nat option \<times> 'x vstate"
  e_junk :: inode
  e_open :: "nat \<Rightarrow> 32 word \<Rightarrow> 'x vstate \<Rightarrow> (int \<times> 'x vstate) res"
  e_close :: "nat \<Rightarrow> 'x vstate \<Rightarrow> (int \<times> 'x vstate) res"
  e_reclaim :: "nat \<Rightarrow> 'x vstate \<Rightarrow> (int \<times> 'x vstate) res"
  e_gettype :: "nat \<Rightarrow> 'x vstate \<Rightarrow> (int \<times> 32 word \<times> 'x vstate) res"
  e_truncate :: "nat \<Rightarrow> int \<Rightarrow> 'x vstate \<Rightarrow> (int \<times> 'x vstate) res"
  e_create :: "nat \<Rightarrow> byte list \<Rightarrow> bool \<Rightarrow> 'x vstate \<Rightarrow> (int \<times> nat option \<times> 'x vstate) res"
  e_lookup :: "nat \<Rightarrow> byte list \<Rightarrow> 'x vstate \<Rightarrow> (int \<times> nat option \<times> byte list \<times> 'x vstate) res"
  e_sync :: "nat \<Rightarrow> 'x vstate \<Rightarrow> int \<times> 'x vstate"
  e_get_root :: "nat \<Rightarrow> 'x vstate \<Rightarrow> nat option \<times> 'x vstate"
  e_unmount :: "nat \<Rightarrow> 'x vstate \<Rightarrow> int \<times> 'x vstate"
  e_cleanup :: "nat \<Rightarrow> 'x vstate \<Rightarrow> 'x vstate"

definition get_inode :: "nat \<Rightarrow> 'x vstate \<Rightarrow> inode res" where
  "get_inode n s = (case inodes s n of None \<Rightarrow> Inl Bad_Access | Some i \<Rightarrow> Inr i)"

definition put_inode :: "nat \<Rightarrow> inode \<Rightarrow> 'x vstate \<Rightarrow> 'x vstate" where
  "put_inode n i s = s\<lparr>inodes := (inodes s)(n \<mapsto> i)\<rparr>"

lemma put_inode_simps [simp]:
  "inodes (put_inode n i s) = (inodes s)(n \<mapsto> i)"
  "vdev_list (put_inode n i s) = vdev_list s" "bootfs_node (put_inode n i s) = bootfs_node s"
  "pwd (put_inode n i s) = pwd s" "lock_calls (put_inode n i s) = lock_calls s"
  "ext (put_inode n i s) = ext s"
  by (simp_all add: put_inode_def)

lemma emit_simps [simp]:
  "inodes (emit c s) = inodes s" "vdev_list (emit c s) = vdev_list s"
  "bootfs_node (emit c s) = bootfs_node s" "pwd (emit c s) = pwd s"
  "lock_calls (emit c s) = lock_calls s @ [c]" "ext (emit c s) = ext s"
  by (simp_all add: emit_def)

subsection \<open>Creating and counting\<close>

definition alloc_inode :: "'x env \<Rightarrow> int \<Rightarrow> 'x vstate \<Rightarrow> nat option \<times> 'x vstate" where
  "alloc_inode E type s =
     (case e_kmalloc E s of
        (None, s1) \<Rightarrow> (None, s1)
      | (Some n, s1) \<Rightarrow> (Some n, put_inode n ((e_junk E)\<lparr>in_type := type\<rparr>) s1))"

definition inode_ref_inc :: "nat \<Rightarrow> 'x vstate \<Rightarrow> (int \<times> 'x vstate) res" where
  "inode_ref_inc n s =
     kbind (get_inode n s) (\<lambda>i.
       let i' = i\<lparr>ref_count := ref_count i + 1\<rparr> in Inr (ref_count i', put_inode n i' s))"

definition inode_init :: "nat \<Rightarrow> inode_ops \<Rightarrow> nat option \<Rightarrow> 'x vstate \<Rightarrow> 'x vstate res" where
  "inode_init n ops fs s =
     kbind (get_inode n s) (\<lambda>i.
     kbind (inode_ref_inc n
       (put_inode n (i\<lparr>ref_count := 0, open_count := 0, in_ops := Some ops, in_fs := fs\<rparr>) s)) (\<lambda>(_, s1).
     Inr s1))"

definition inode_kill :: "nat \<Rightarrow> 'x vstate \<Rightarrow> 'x vstate res" where
  "inode_kill n s =
     kbind (get_inode n s) (\<lambda>i.
       kassert (ref_count i = 0)
         (kassert (open_count i = 0) (Inr (s\<lparr>inodes := (inodes s)(n := None)\<rparr>))))"

definition inode_open_inc :: "nat \<Rightarrow> 'x vstate \<Rightarrow> (int \<times> 'x vstate) res" where
  "inode_open_inc n s =
     kbind (get_inode n s) (\<lambda>i.
       let i' = i\<lparr>open_count := open_count i + 1\<rparr> in Inr (open_count i', put_inode n i' s))"

text \<open>The checks before a call through the operation table; the result is the table.\<close>

definition inode_check :: "nat option \<Rightarrow> 'x vstate \<Rightarrow> inode_ops res" where
  "inode_check node s =
     (case node of
        None \<Rightarrow> Inl Assert_Failed
      | Some n \<Rightarrow>
          kbind (get_inode n s) (\<lambda>i.
            case in_ops i of
              None \<Rightarrow> Inl Assert_Failed
            | Some ops \<Rightarrow>
                kassert (ref_count i \<ge> open_count i \<and> open_count i \<ge> 0)
                  (kassert (ref_count i < MAX_INODE_COUNT \<and> open_count i < MAX_INODE_COUNT) (Inr ops))))"

subsection \<open>The operations of devices\<close>

definition vop_info_device :: "nat \<Rightarrow> 'x vstate \<Rightarrow> device res" where
  "vop_info_device n s =
     kbind (get_inode n s) (\<lambda>i. kassert (in_type i = inode_type_device_info) (Inr (in_device i)))"

fun dop_open :: "driver \<Rightarrow> 32 word \<Rightarrow> int" where
  "dop_open Stdin_Driver flags = (if flags \<noteq> O_RDONLY then - E_INVAL else 0)"
| "dop_open Stdout_Driver flags = (if flags \<noteq> O_WRONLY then - E_INVAL else 0)"
| "dop_open Disk0_Driver flags = 0"

fun dop_close :: "driver \<Rightarrow> int" where
  "dop_close Stdin_Driver = 0"
| "dop_close Stdout_Driver = 0"
| "dop_close Disk0_Driver = 0"

fun dop_ioctl :: "driver \<Rightarrow> int" where
  "dop_ioctl Stdin_Driver = - E_INVAL"
| "dop_ioctl Stdout_Driver = - E_INVAL"
| "dop_ioctl Disk0_Driver = - E_UNIMP"

definition dev_open :: "nat \<Rightarrow> 32 word \<Rightarrow> 'x vstate \<Rightarrow> int res" where
  "dev_open n flags s =
     (if flags AND (O_CREAT OR O_TRUNC OR O_EXCL OR O_APPEND) \<noteq> 0 then Inr (- E_INVAL)
      else kbind (vop_info_device n s) (\<lambda>dev. Inr (dop_open (d_driver dev) flags)))"

definition dev_close :: "nat \<Rightarrow> 'x vstate \<Rightarrow> int res" where
  "dev_close n s = kbind (vop_info_device n s) (\<lambda>dev. Inr (dop_close (d_driver dev)))"

definition dev_ioctl :: "nat \<Rightarrow> 'x vstate \<Rightarrow> int res" where
  "dev_ioctl n s = kbind (vop_info_device n s) (\<lambda>dev. Inr (dop_ioctl (d_driver dev)))"

definition dev_gettype :: "nat \<Rightarrow> 'x vstate \<Rightarrow> (int \<times> 32 word) res" where
  "dev_gettype n s =
     kbind (vop_info_device n s) (\<lambda>dev. Inr (0, if d_blocks dev > 0 then S_IFBLK else S_IFCHR))"

record stat =
  st_mode :: "32 word"
  st_nlinks :: "64 word"
  st_blocks :: "64 word"
  st_size :: "64 word"

definition dev_tryseek :: "nat \<Rightarrow> 64 word \<Rightarrow> 'x vstate \<Rightarrow> int res" where
  "dev_tryseek n pos s =
     kbind (vop_info_device n s) (\<lambda>dev.
       Inr (if d_blocks dev > 0 \<and> pos mod d_blocksize dev = 0 \<and>
               sint pos \<ge> 0 \<and> pos < d_blocks dev * d_blocksize dev
            then 0 else - E_INVAL))"

definition dev_lookup :: "nat \<Rightarrow> byte list \<Rightarrow> 'x vstate \<Rightarrow> (int \<times> nat option \<times> 'x vstate) res" where
  "dev_lookup n path s =
     (if char_at path 0 \<noteq> 0 then Inr (- E_NOENT, None, s)
      else kbind (inode_ref_inc n s) (\<lambda>(_, s1). Inr (0, Some n, s1)))"

definition dev_create_inode :: "'x env \<Rightarrow> 'x vstate \<Rightarrow> (nat option \<times> 'x vstate) res" where
  "dev_create_inode E s =
     (case alloc_inode E inode_type_device_info s of
        (None, s1) \<Rightarrow> Inr (None, s1)
      | (Some n, s1) \<Rightarrow> kbind (inode_init n Dev_Ops None s1) (\<lambda>s2. Inr (Some n, s2)))"

subsection \<open>Calls through the operation table\<close>

text \<open>The table of devices has no entry for \<open>reclaim\<close>, \<open>truncate\<close> and \<open>create\<close>.\<close>

definition vop_open :: "'x env \<Rightarrow> nat option \<Rightarrow> 32 word \<Rightarrow> 'x vstate \<Rightarrow> (int \<times> 'x vstate) res" where
  "vop_open E node flags s =
     kbind (inode_check node s) (\<lambda>ops. case ops of
       Dev_Ops \<Rightarrow> kbind (dev_open (the node) flags s) (\<lambda>r. Inr (r, s))
     | Fs_Ops \<Rightarrow> e_open E (the node) flags s)"

definition vop_close :: "'x env \<Rightarrow> nat option \<Rightarrow> 'x vstate \<Rightarrow> (int \<times> 'x vstate) res" where
  "vop_close E node s =
     kbind (inode_check node s) (\<lambda>ops. case ops of
       Dev_Ops \<Rightarrow> kbind (dev_close (the node) s) (\<lambda>r. Inr (r, s))
     | Fs_Ops \<Rightarrow> e_close E (the node) s)"

definition vop_reclaim :: "'x env \<Rightarrow> nat option \<Rightarrow> 'x vstate \<Rightarrow> (int \<times> 'x vstate) res" where
  "vop_reclaim E node s =
     kbind (inode_check node s) (\<lambda>ops. case ops of
       Dev_Ops \<Rightarrow> Inl Assert_Failed
     | Fs_Ops \<Rightarrow> e_reclaim E (the node) s)"

definition vop_gettype :: "'x env \<Rightarrow> nat option \<Rightarrow> 'x vstate \<Rightarrow> (int \<times> 32 word \<times> 'x vstate) res" where
  "vop_gettype E node s =
     kbind (inode_check node s) (\<lambda>ops. case ops of
       Dev_Ops \<Rightarrow> kbind (dev_gettype (the node) s) (\<lambda>(r, t). Inr (r, t, s))
     | Fs_Ops \<Rightarrow> e_gettype E (the node) s)"

definition vop_truncate :: "'x env \<Rightarrow> nat option \<Rightarrow> int \<Rightarrow> 'x vstate \<Rightarrow> (int \<times> 'x vstate) res" where
  "vop_truncate E node len s =
     kbind (inode_check node s) (\<lambda>ops. case ops of
       Dev_Ops \<Rightarrow> Inl Assert_Failed
     | Fs_Ops \<Rightarrow> e_truncate E (the node) len s)"

definition vop_create ::
    "'x env \<Rightarrow> nat option \<Rightarrow> byte list \<Rightarrow> bool \<Rightarrow> 'x vstate \<Rightarrow> (int \<times> nat option \<times> 'x vstate) res" where
  "vop_create E node name excl s =
     kbind (inode_check node s) (\<lambda>ops. case ops of
       Dev_Ops \<Rightarrow> Inl Assert_Failed
     | Fs_Ops \<Rightarrow> e_create E (the node) name excl s)"

definition vop_lookup ::
    "'x env \<Rightarrow> nat option \<Rightarrow> byte list \<Rightarrow> 'x vstate \<Rightarrow> (int \<times> nat option \<times> byte list \<times> 'x vstate) res" where
  "vop_lookup E node path s =
     kbind (inode_check node s) (\<lambda>ops. case ops of
       Dev_Ops \<Rightarrow> kbind (dev_lookup (the node) path s) (\<lambda>(r, st, s1). Inr (r, st, path, s1))
     | Fs_Ops \<Rightarrow> e_lookup E (the node) path s)"

definition dev_fstat :: "'x env \<Rightarrow> nat \<Rightarrow> 'x vstate \<Rightarrow> (int \<times> stat \<times> 'x vstate) res" where
  "dev_fstat E n s =
     kbind (vop_gettype E (Some n) s) (\<lambda>(ret, mode, s1).
       let st = \<lparr>st_mode = mode, st_nlinks = 0, st_blocks = 0, st_size = 0\<rparr> in
       if ret \<noteq> 0 then Inr (ret, st, s1)
       else kbind (vop_info_device n s1) (\<lambda>dev.
         Inr (0, st\<lparr>st_nlinks := 1, st_blocks := d_blocks dev, st_size := d_blocks dev * d_blocksize dev\<rparr>, s1)))"

text \<open>Dropping a count; the last one reclaims or closes the inode. A failure is only printed.\<close>

definition inode_ref_dec :: "'x env \<Rightarrow> nat \<Rightarrow> 'x vstate \<Rightarrow> (int \<times> 'x vstate) res" where
  "inode_ref_dec E n s =
     kbind (get_inode n s) (\<lambda>i.
       kassert (ref_count i > 0)
         (let i' = i\<lparr>ref_count := ref_count i - 1\<rparr>; s1 = put_inode n i' s in
          if ref_count i' = 0
          then kbind (vop_reclaim E (Some n) s1) (\<lambda>(_, s2). Inr (ref_count i', s2))
          else Inr (ref_count i', s1)))"

definition inode_open_dec :: "'x env \<Rightarrow> nat \<Rightarrow> 'x vstate \<Rightarrow> (int \<times> 'x vstate) res" where
  "inode_open_dec E n s =
     kbind (get_inode n s) (\<lambda>i.
       kassert (open_count i > 0)
         (let i' = i\<lparr>open_count := open_count i - 1\<rparr>; s1 = put_inode n i' s in
          if open_count i' = 0
          then kbind (vop_close E (Some n) s1) (\<lambda>(_, s2). Inr (open_count i', s2))
          else Inr (open_count i', s1)))"

end
