(* ===== verification/Vfs.thy ===== *)
theory Vfs
  imports Vfs_Inode
begin

text \<open>
  \<open>lab8/kern/fs/vfs/\<close>: the device table of \<open>vfsdev.c\<close>, the boot file system of \<open>vfs.c\<close>, path
  resolution of \<open>vfslookup.c\<close>, the working directory of \<open>vfspath.c\<close> and opening and closing
  of \<open>vfsfile.c\<close>. The list \<open>vdev_list\<close> is in list order; an out parameter is an option in
  the result.
\<close>

subsection \<open>Paths\<close>

text \<open>The C string in a buffer: the characters before the first NUL.\<close>

definition str_of :: "byte list \<Rightarrow> byte list" where
  "str_of buf = takeWhile (\<lambda>c. c \<noteq> 0) buf"

subsection \<open>The device table\<close>

definition FS_MAX_DNAME_LEN :: nat where "FS_MAX_DNAME_LEN = 31"

definition vfs_devlist_init :: "'x vstate \<Rightarrow> 'x vstate" where
  "vfs_devlist_init s = s\<lparr>vdev_list := []\<rparr>"

fun cleanup_loop :: "'x env \<Rightarrow> vfs_dev list \<Rightarrow> 'x vstate \<Rightarrow> 'x vstate" where
  "cleanup_loop E [] s = s"
| "cleanup_loop E (v # vs) s =
     cleanup_loop E vs (case vd_fs v of None \<Rightarrow> s | Some fs \<Rightarrow> e_cleanup E fs s)"

definition vfs_cleanup :: "'x env \<Rightarrow> 'x vstate \<Rightarrow> 'x vstate" where
  "vfs_cleanup E s =
     (if vdev_list s \<noteq> []
      then emit (Up Vdev_List_Lock) (cleanup_loop E (vdev_list s) (emit (Down Vdev_List_Lock) s))
      else s)"

fun find_dev :: "byte list \<Rightarrow> vfs_dev list \<Rightarrow> vfs_dev option" where
  "find_dev name [] = None"
| "find_dev name (v # vs) = (if name = devname v then Some v else find_dev name vs)"

text \<open>The node of a device: the root of its file system, or the device itself.\<close>

definition dev_root :: "'x env \<Rightarrow> vfs_dev \<Rightarrow> 'x vstate \<Rightarrow> (nat option \<times> 'x vstate) res" where
  "dev_root E v s =
     (case vd_fs v of
        Some fs \<Rightarrow> Inr (e_get_root E fs s)
      | None \<Rightarrow>
          if \<not> mountable v
          then (case devnode v of
                  None \<Rightarrow> Inl Bad_Access
                | Some n \<Rightarrow> kbind (inode_ref_inc n s) (\<lambda>(_, s1). Inr (Some n, s1)))
          else Inr (None, s))"

definition vfs_get_root :: "'x env \<Rightarrow> byte list \<Rightarrow> 'x vstate \<Rightarrow> (int \<times> nat option \<times> 'x vstate) res" where
  "vfs_get_root E name s =
     (if vdev_list s \<noteq> [] then
        let s1 = emit (Down Vdev_List_Lock) s in
        case find_dev name (vdev_list s) of
          None \<Rightarrow> Inr (- E_NO_DEV, None, emit (Up Vdev_List_Lock) s1)
        | Some v \<Rightarrow>
            kbind (dev_root E v s1) (\<lambda>(found, s2).
              Inr (if found \<noteq> None then 0 else - E_NA_DEV, found, emit (Up Vdev_List_Lock) s2))
      else Inr (- E_NO_DEV, None, s))"

fun vfs_get_devname :: "nat \<Rightarrow> vfs_dev list \<Rightarrow> byte list option" where
  "vfs_get_devname fs [] = None"
| "vfs_get_devname fs (v # vs) = (if vd_fs v = Some fs then Some (devname v) else vfs_get_devname fs vs)"

fun check_devname_conflict :: "byte list \<Rightarrow> vfs_dev list \<Rightarrow> bool" where
  "check_devname_conflict name [] = True"
| "check_devname_conflict name (v # vs) =
     (if devname v = name then False else check_devname_conflict name vs)"

text \<open>\<open>strdup\<close> and the entry are two allocations; on failure what was allocated is freed.\<close>

definition vfs_do_add ::
    "'x env \<Rightarrow> byte list \<Rightarrow> nat option \<Rightarrow> nat option \<Rightarrow> bool \<Rightarrow> 'x vstate \<Rightarrow> (int \<times> 'x vstate) res" where
  "vfs_do_add E name node fs mnt s =
     kbind (case node of
              None \<Rightarrow> kassert (\<not> mnt) (Inr ())
            | Some n \<Rightarrow> kbind (get_inode n s) (\<lambda>i. kassert (in_type i = inode_type_device_info) (Inr ())))
       (\<lambda>_.
         if length name > FS_MAX_DNAME_LEN then Inr (- E_TOO_BIG, s)
         else (case e_kmalloc E s of
             (None, s1) \<Rightarrow> Inr (- E_NO_MEM, s1)
           | (Some _, s1) \<Rightarrow>
               (case e_kmalloc E s1 of
                  (None, s2) \<Rightarrow> Inr (- E_NO_MEM, s2)
                | (Some _, s2) \<Rightarrow>
                    let s3 = emit (Down Vdev_List_Lock) s2 in
                    if \<not> check_devname_conflict name (vdev_list s3)
                    then Inr (- E_EXISTS, emit (Up Vdev_List_Lock) s3)
                    else Inr (0, emit (Up Vdev_List_Lock)
                           (s3\<lparr>vdev_list := \<lparr>devname = name, devnode = node, vd_fs = fs, mountable = mnt\<rparr>
                                 # vdev_list s3\<rparr>)))))"

definition vfs_add_fs :: "'x env \<Rightarrow> byte list \<Rightarrow> nat option \<Rightarrow> 'x vstate \<Rightarrow> (int \<times> 'x vstate) res" where
  "vfs_add_fs E name fs s = vfs_do_add E name None fs False s"

definition vfs_add_dev ::
    "'x env \<Rightarrow> byte list \<Rightarrow> nat option \<Rightarrow> bool \<Rightarrow> 'x vstate \<Rightarrow> (int \<times> 'x vstate) res" where
  "vfs_add_dev E name node mnt s = vfs_do_add E name node None mnt s"

text \<open>The index of the entry, from \<open>k\<close>.\<close>

fun find_mount :: "byte list \<Rightarrow> nat \<Rightarrow> vfs_dev list \<Rightarrow> nat option" where
  "find_mount name k [] = None"
| "find_mount name k (v # vs) =
     (if mountable v \<and> devname v = name then Some k else find_mount name (Suc k) vs)"

definition set_vdev_fs :: "nat \<Rightarrow> nat option \<Rightarrow> 'x vstate \<Rightarrow> 'x vstate" where
  "set_vdev_fs k fs s = s\<lparr>vdev_list := (vdev_list s)[k := (vdev_list s ! k)\<lparr>vd_fs := fs\<rparr>]\<rparr>"

text \<open>
  \<open>mountfunc\<close> gets the device node and the address of the \<open>fs\<close> field: it may store there
  (\<open>Some\<close> what it stored), whatever it returns.
\<close>

type_synonym 'x mountfunc = "nat \<Rightarrow> 'x vstate \<Rightarrow> int \<times> nat option \<times> 'x vstate"

definition mount_dev :: "nat \<Rightarrow> 'x mountfunc \<Rightarrow> 'x vstate \<Rightarrow> (int \<times> 'x vstate) res" where
  "mount_dev k mountfunc s =
     (if vd_fs (vdev_list s ! k) \<noteq> None then Inr (- E_BUSY, s)
      else (case devnode (vdev_list s ! k) of
          None \<Rightarrow> Inl Assert_Failed
        | Some n \<Rightarrow>
            kbind (vop_info_device n s) (\<lambda>_.
              case mountfunc n s of (ret, stored, s2) \<Rightarrow>
                let s3 = (case stored of None \<Rightarrow> s2 | Some fs \<Rightarrow> set_vdev_fs k (Some fs) s2) in
                if ret = 0 then kassert (vd_fs (vdev_list s3 ! k) \<noteq> None) (Inr (ret, s3))
                else Inr (ret, s3))))"

definition vfs_mount :: "byte list \<Rightarrow> 'x mountfunc \<Rightarrow> 'x vstate \<Rightarrow> (int \<times> 'x vstate) res" where
  "vfs_mount name mountfunc s =
     (let s1 = emit (Down Vdev_List_Lock) s in
      case find_mount name 0 (vdev_list s1) of
        None \<Rightarrow> Inr (- E_NO_DEV, emit (Up Vdev_List_Lock) s1)
      | Some k \<Rightarrow> kbind (mount_dev k mountfunc s1) (\<lambda>(ret, s4). Inr (ret, emit (Up Vdev_List_Lock) s4)))"

text \<open>Syncing and unmounting the file system of entry \<open>k\<close>.\<close>

definition unmount_dev :: "'x env \<Rightarrow> nat \<Rightarrow> nat \<Rightarrow> 'x vstate \<Rightarrow> int \<times> 'x vstate" where
  "unmount_dev E k fs s =
     (case e_sync E fs s of (ret, s2) \<Rightarrow>
        if ret \<noteq> 0 then (ret, s2)
        else (case e_unmount E fs s2 of (ret', s3) \<Rightarrow>
          (ret', if ret' = 0 then set_vdev_fs k None s3 else s3)))"

definition vfs_unmount :: "'x env \<Rightarrow> byte list \<Rightarrow> 'x vstate \<Rightarrow> int \<times> 'x vstate" where
  "vfs_unmount E name s =
     (let s1 = emit (Down Vdev_List_Lock) s in
      case
        (case find_mount name 0 (vdev_list s1) of
           None \<Rightarrow> (- E_NO_DEV, s1)
         | Some k \<Rightarrow>
             (case vd_fs (vdev_list s1 ! k) of
                None \<Rightarrow> (- E_INVAL, s1)
              | Some fs \<Rightarrow> unmount_dev E k fs s1))
      of (ret, s4) \<Rightarrow> (ret, emit (Up Vdev_List_Lock) s4))"

text \<open>The loop over the entries \<open>k, k + 1, \<dots>\<close>, \<open>n\<close> of them.\<close>

fun unmount_loop :: "'x env \<Rightarrow> nat \<Rightarrow> nat \<Rightarrow> 'x vstate \<Rightarrow> 'x vstate" where
  "unmount_loop E k 0 s = s"
| "unmount_loop E k (Suc n) s =
     unmount_loop E (Suc k) n
       (case vd_fs (vdev_list s ! k) of
          None \<Rightarrow> s
        | Some fs \<Rightarrow> if mountable (vdev_list s ! k) then snd (unmount_dev E k fs s) else s)"

definition vfs_unmount_all :: "'x env \<Rightarrow> 'x vstate \<Rightarrow> int \<times> 'x vstate" where
  "vfs_unmount_all E s =
     (if vdev_list s \<noteq> []
      then (0, emit (Up Vdev_List_Lock)
              (unmount_loop E 0 (length (vdev_list s)) (emit (Down Vdev_List_Lock) s)))
      else (0, s))"

subsection \<open>The working directory\<close>

definition vfs_get_curdir :: "'x vstate \<Rightarrow> (int \<times> nat option \<times> 'x vstate) res" where
  "vfs_get_curdir s =
     (case pwd s of
        None \<Rightarrow> Inr (- E_NOENT, None, s)
      | Some n \<Rightarrow> kbind (inode_ref_inc n s) (\<lambda>(_, s1). Inr (0, Some n, s1)))"

definition drop_ref :: "'x env \<Rightarrow> nat option \<Rightarrow> 'x vstate \<Rightarrow> 'x vstate res" where
  "drop_ref E old s =
     (case old of None \<Rightarrow> Inr s | Some n \<Rightarrow> kbind (inode_ref_dec E n s) (\<lambda>(_, s1). Inr s1))"

definition ref_dec_opt :: "'x env \<Rightarrow> nat option \<Rightarrow> 'x vstate \<Rightarrow> (int \<times> 'x vstate) res" where
  "ref_dec_opt E node s = (case node of None \<Rightarrow> Inl Bad_Access | Some n \<Rightarrow> inode_ref_dec E n s)"

text \<open>The new directory must be a directory; it gets a reference.\<close>

definition take_dir :: "'x env \<Rightarrow> nat option \<Rightarrow> 'x vstate \<Rightarrow> (int \<times> 'x vstate) res" where
  "take_dir E dir s =
     (case dir of
        None \<Rightarrow> Inr (0, s)
      | Some n \<Rightarrow>
          kbind (vop_gettype E dir s) (\<lambda>(ret, type, s1).
            if ret \<noteq> 0 then Inr (ret, s1)
            else if \<not> S_ISDIR type then Inr (- E_NOTDIR, s1)
            else kbind (inode_ref_inc n s1) (\<lambda>(_, s2). Inr (0, s2))))"

definition vfs_set_curdir :: "'x env \<Rightarrow> nat option \<Rightarrow> 'x vstate \<Rightarrow> (int \<times> 'x vstate) res" where
  "vfs_set_curdir E dir s =
     (let s1 = emit (Down Files_Lock) s; old_dir = pwd s1 in
      if old_dir = dir then Inr (0, emit (Up Files_Lock) s1)
      else kbind (take_dir E dir s1) (\<lambda>(ret, s2).
        if ret \<noteq> 0 then Inr (ret, emit (Up Files_Lock) s2)
        else kbind (drop_ref E old_dir (s2\<lparr>pwd := dir\<rparr>)) (\<lambda>s3. Inr (0, emit (Up Files_Lock) s3))))"

subsection \<open>Path resolution\<close>

definition change_bootfs :: "'x env \<Rightarrow> nat option \<Rightarrow> 'x vstate \<Rightarrow> 'x vstate res" where
  "change_bootfs E node s =
     (let s1 = emit (Down Bootfs_Lock) s; old = bootfs_node s1;
          s2 = emit (Up Bootfs_Lock) (s1\<lparr>bootfs_node := node\<rparr>)
      in drop_ref E old s2)"

definition vfs_get_bootfs :: "'x vstate \<Rightarrow> (int \<times> nat option \<times> 'x vstate) res" where
  "vfs_get_bootfs s =
     (case bootfs_node s of
        None \<Rightarrow> Inr (- E_NOENT, None, s)
      | Some n \<Rightarrow>
          kbind (inode_ref_inc n (emit (Down Bootfs_Lock) s)) (\<lambda>(_, s1).
            Inr (0, Some n, emit (Up Bootfs_Lock) s1)))"

text \<open>The first \<open>:\<close> or \<open>/\<close> of the path: \<open>(slash, colon)\<close>, \<open>None\<close> for the value -1.\<close>

function scan_path :: "byte list \<Rightarrow> nat \<Rightarrow> nat option \<times> nat option" where
  "scan_path path i =
     (if char_at path i = 0 then (None, None)
      else if char_at path i = 58 then (None, Some i)
      else if char_at path i = 47 then (Some i, None)
      else scan_path path (i + 1))"
  by pat_completeness auto
termination
  by (relation "measure (\<lambda>(path, i). length path - i)") (auto dest: char_at_0)

function skip_slashes :: "byte list \<Rightarrow> nat \<Rightarrow> nat" where
  "skip_slashes path i = (if char_at path i = 47 then skip_slashes path (i + 1) else i)"
  by pat_completeness auto
termination
proof (relation "measure (\<lambda>(path, i). length path - i)")
  fix path i assume "char_at path i = 47"
  then have "i < length path" using char_at_0 [of path i] by simp
  then show "((path, i + 1), path, i) \<in> measure (\<lambda>(path, i). length path - i)" by simp
qed simp

declare scan_path.simps [simp del] skip_slashes.simps [simp del]

text \<open>The root of the file system of the current directory, for a path that starts with a colon.\<close>

definition current_root :: "'x env \<Rightarrow> 'x vstate \<Rightarrow> (int \<times> nat option \<times> 'x vstate) res" where
  "current_root E s =
     kbind (vfs_get_curdir s) (\<lambda>(ret, node, s1).
       if ret \<noteq> 0 then Inr (ret, None, s1)
       else kbind (case node of None \<Rightarrow> Inl Bad_Access | Some n \<Rightarrow> get_inode n s1) (\<lambda>i.
         case in_fs i of
           None \<Rightarrow> Inl Assert_Failed
         | Some fs \<Rightarrow>
             (case e_get_root E fs s1 of (root, s2) \<Rightarrow>
                kbind (ref_dec_opt E node s2) (\<lambda>(_, s3). Inr (0, root, s3)))))"

text \<open>
  The results: the code, the offset of the subpath, the node, the path buffer (in which the
  colon behind a device name is overwritten by NUL), the state.
\<close>

definition get_device ::
    "'x env \<Rightarrow> byte list \<Rightarrow> 'x vstate \<Rightarrow> (int \<times> nat \<times> nat option \<times> byte list \<times> 'x vstate) res" where
  "get_device E path s =
     (case scan_path path 0 of (slash, colon) \<Rightarrow>
      if colon = None \<and> slash \<noteq> Some 0
      then kbind (vfs_get_curdir s) (\<lambda>(ret, node, s1). Inr (ret, 0, node, path, s1))
      else if colon \<noteq> None \<and> colon \<noteq> Some 0
      then let c = the colon; path' = path[c := 0]; c' = skip_slashes path' (c + 1) in
           kbind (vfs_get_root E (str_of path') s) (\<lambda>(ret, node, s1). Inr (ret, c', node, path', s1))
      else if char_at path 0 = 47
      then kbind (vfs_get_bootfs s) (\<lambda>(ret, node, s1). Inr (ret, skip_slashes path 1, node, path, s1))
      else kassert (char_at path 0 = 58)
             (kbind (current_root E s) (\<lambda>(ret, node, s1). Inr (ret, skip_slashes path 1, node, path, s1))))"

definition vfs_lookup ::
    "'x env \<Rightarrow> byte list \<Rightarrow> 'x vstate \<Rightarrow> (int \<times> nat option \<times> byte list \<times> 'x vstate) res" where
  "vfs_lookup E path s =
     kbind (get_device E path s) (\<lambda>(ret, off, node, path1, s1).
       if ret \<noteq> 0 then Inr (ret, None, path1, s1)
       else if char_at path1 off \<noteq> 0
       then kbind (vop_lookup E node (drop off path1) s1) (\<lambda>(ret', store, rest, s2).
            kbind (ref_dec_opt E node s2) (\<lambda>(_, s3).
              Inr (ret', store, take off path1 @ rest, s3)))
       else Inr (0, node, path1, s1))"

definition vfs_lookup_parent ::
    "'x env \<Rightarrow> byte list \<Rightarrow> 'x vstate \<Rightarrow> (int \<times> nat option \<times> nat \<times> byte list \<times> 'x vstate) res" where
  "vfs_lookup_parent E path s =
     kbind (get_device E path s) (\<lambda>(ret, off, node, path1, s1).
       if ret \<noteq> 0 then Inr (ret, None, 0, path1, s1) else Inr (0, node, off, path1, s1))"

definition vfs_chdir :: "'x env \<Rightarrow> byte list \<Rightarrow> 'x vstate \<Rightarrow> (int \<times> 'x vstate) res" where
  "vfs_chdir E path s =
     kbind (vfs_lookup E path s) (\<lambda>(ret, node, _, s1).
       if ret = 0
       then kbind (vfs_set_curdir E node s1) (\<lambda>(ret', s2).
            kbind (ref_dec_opt E node s2) (\<lambda>(_, s3). Inr (ret', s3)))
       else Inr (ret, s1))"

text \<open>\<open>fsname\<close> must be a device name with a colon at its end.\<close>

definition vfs_set_bootfs :: "'x env \<Rightarrow> byte list option \<Rightarrow> 'x vstate \<Rightarrow> (int \<times> 'x vstate) res" where
  "vfs_set_bootfs E fsname s =
     (case fsname of
        None \<Rightarrow> kbind (change_bootfs E None s) (\<lambda>s1. Inr (0, s1))
      | Some name \<Rightarrow>
          let i = length (takeWhile (\<lambda>c. c \<noteq> 58) (str_of name)) in
          if 58 \<notin> set (str_of name) \<or> char_at name (i + 1) \<noteq> 0 then Inr (- E_INVAL, s)
          else kbind (vfs_chdir E name s) (\<lambda>(ret, s1).
            if ret \<noteq> 0 then Inr (ret, s1)
            else kbind (vfs_get_curdir s1) (\<lambda>(ret', node, s2).
              if ret' \<noteq> 0 then Inr (ret', s2)
              else kbind (change_bootfs E node s2) (\<lambda>s3. Inr (0, s3)))))"

subsection \<open>Opening and closing\<close>

text \<open>
  A node that no call has stored is indeterminate: its use is a \<open>Bad_Access\<close>. The result of
  \<open>vop_create\<close> is not checked.
\<close>

definition open_create :: "'x env \<Rightarrow> byte list \<Rightarrow> bool \<Rightarrow> 'x vstate \<Rightarrow> ((int + nat option) \<times> 'x vstate) res" where
  "open_create E path excl s =
     kbind (vfs_lookup_parent E path s) (\<lambda>(ret, dir, off, path1, s1).
       if ret \<noteq> 0 then Inr (Inl ret, s1)
       else kbind (vop_create E dir (str_of (drop off path1)) excl s1) (\<lambda>(_, node, s2). Inr (Inr node, s2)))"

definition open_node :: "'x env \<Rightarrow> nat \<Rightarrow> 32 word \<Rightarrow> 'x vstate \<Rightarrow> (int \<times> nat option \<times> 'x vstate) res" where
  "open_node E n open_flags s =
     kbind (vop_open E (Some n) open_flags s) (\<lambda>(ret, s1).
       if ret \<noteq> 0 then kbind (inode_ref_dec E n s1) (\<lambda>(_, s2). Inr (ret, None, s2))
       else kbind (inode_open_inc n s1) (\<lambda>(_, s2).
         if open_flags AND O_TRUNC \<noteq> 0 \<or> open_flags AND O_CREAT \<noteq> 0
         then kbind (vop_truncate E (Some n) 0 s2) (\<lambda>(ret1, s3).
           if ret1 \<noteq> 0
           then kbind (inode_open_dec E n s3) (\<lambda>(_, s4).
                kbind (inode_ref_dec E n s4) (\<lambda>(_, s5). Inr (ret1, None, s5)))
           else Inr (0, Some n, s3))
         else Inr (0, Some n, s2)))"

definition vfs_open :: "'x env \<Rightarrow> byte list \<Rightarrow> 32 word \<Rightarrow> 'x vstate \<Rightarrow> (int \<times> nat option \<times> 'x vstate) res" where
  "vfs_open E path open_flags s =
     (let acc = open_flags AND O_ACCMODE; can_write = (acc = O_WRONLY \<or> acc = O_RDWR);
          excl = (open_flags AND O_EXCL \<noteq> 0); create = (open_flags AND O_CREAT \<noteq> 0) in
      if acc \<noteq> O_RDONLY \<and> \<not> can_write then Inr (- E_INVAL, None, s)
      else if open_flags AND O_TRUNC \<noteq> 0 \<and> \<not> can_write then Inr (- E_INVAL, None, s)
      else
        kbind (vfs_lookup E path s) (\<lambda>(ret, node, path1, s1).
        kbind
          (if ret \<noteq> 0
           then if ret = - 16 \<and> create then open_create E path1 excl s1 else Inr (Inl ret, s1)
           else if excl \<and> create then Inr (Inl (- E_EXISTS), s1)
           else Inr (Inr node, s1))
          (\<lambda>(r, s2). case r of
             Inl e \<Rightarrow> Inr (e, None, s2)
           | Inr None \<Rightarrow> Inl Bad_Access
           | Inr (Some n) \<Rightarrow> open_node E n open_flags s2)))"

definition vfs_close :: "'x env \<Rightarrow> nat \<Rightarrow> 'x vstate \<Rightarrow> (int \<times> 'x vstate) res" where
  "vfs_close E n s =
     kbind (inode_open_dec E n s) (\<lambda>(_, s1).
     kbind (inode_ref_dec E n s1) (\<lambda>(_, s2). Inr (0, s2)))"

definition vfs_unlink :: "byte list \<Rightarrow> int" where "vfs_unlink path = - E_UNIMP"
definition vfs_rename :: "byte list \<Rightarrow> byte list \<Rightarrow> int" where "vfs_rename old_path new_path = - E_UNIMP"
definition vfs_link :: "byte list \<Rightarrow> byte list \<Rightarrow> int" where "vfs_link old_path new_path = - E_UNIMP"
definition vfs_symlink :: "byte list \<Rightarrow> byte list \<Rightarrow> int" where "vfs_symlink old_path new_path = - E_UNIMP"
definition vfs_readlink :: "byte list \<Rightarrow> int" where "vfs_readlink path = - E_UNIMP"
definition vfs_mkdir :: "byte list \<Rightarrow> int" where "vfs_mkdir path = - E_UNIMP"

subsection \<open>Locks\<close>

text \<open>How often a lock has been taken and not given back; \<open>lkc c s\<close>: as often as after \<open>c\<close>.\<close>

definition held :: "lock \<Rightarrow> lock_call list \<Rightarrow> int" where
  "held l cs = int (length (filter (\<lambda>c. c = Down l) cs)) - int (length (filter (\<lambda>c. c = Up l) cs))"

definition lkc :: "lock_call list \<Rightarrow> 'x vstate \<Rightarrow> bool" where
  "lkc c s \<longleftrightarrow> (\<forall>l. held l (lock_calls s) = held l c)"

lemma held_simps [simp]: "held l [] = 0" "held l (a @ b) = held l a + held l b"
  "held l [Down m] = (if m = l then 1 else 0)" "held l [Up m] = (if m = l then - 1 else 0)"
  by (simp_all add: held_def)

lemma lkc_emit [intro!]:
  "lkc c s \<Longrightarrow> lkc (c @ [Down l]) (emit (Down l) s)"
  "lkc (c @ [Down l]) s \<Longrightarrow> lkc c (emit (Up l) s)"
  by (simp_all add: lkc_def)

lemma lkc_same [simp]:
  "lkc c (put_inode n i s) = lkc c s" "lkc c (s\<lparr>pwd := x\<rparr>) = lkc c s"
  "lkc c (s\<lparr>bootfs_node := x\<rparr>) = lkc c s" "lkc c (s\<lparr>vdev_list := v\<rparr>) = lkc c s"
  "lkc c (set_vdev_fs k f s) = lkc c s"
  by (simp_all add: lkc_def set_vdev_fs_def)

text \<open>Code outside the model gives back the locks it takes.\<close>

definition env_locks :: "'x env \<Rightarrow> bool" where
  "env_locks E \<longleftrightarrow> (\<forall>c s. lkc c s \<longrightarrow>
     lkc c (snd (e_kmalloc E s)) \<and>
     (\<forall>n f. ensures (e_open E n f s) (\<lambda>(_, s'). lkc c s')) \<and>
     (\<forall>n. ensures (e_close E n s) (\<lambda>(_, s'). lkc c s')) \<and>
     (\<forall>n. ensures (e_reclaim E n s) (\<lambda>(_, s'). lkc c s')) \<and>
     (\<forall>n. ensures (e_gettype E n s) (\<lambda>(_, _, s'). lkc c s')) \<and>
     (\<forall>n k. ensures (e_truncate E n k s) (\<lambda>(_, s'). lkc c s')) \<and>
     (\<forall>n p x. ensures (e_create E n p x s) (\<lambda>(_, _, s'). lkc c s')) \<and>
     (\<forall>n p. ensures (e_lookup E n p s) (\<lambda>(_, _, _, s'). lkc c s')) \<and>
     (\<forall>f. lkc c (snd (e_sync E f s))) \<and> (\<forall>f. lkc c (snd (e_get_root E f s))) \<and>
     (\<forall>f. lkc c (snd (e_unmount E f s))) \<and> (\<forall>f. lkc c (e_cleanup E f s)))"

lemma ensures_kbind_any: "(\<And>a. ensures (f a) P) \<Longrightarrow> ensures (kbind r f) P"
  by (cases r) auto

lemma ref_inc_lkc: "lkc c s \<Longrightarrow> ensures (inode_ref_inc n s) (\<lambda>(_, s'). lkc c s')"
  "lkc c s \<Longrightarrow> ensures (inode_open_inc n s) (\<lambda>(_, s'). lkc c s')"
  unfolding inode_ref_inc_def inode_open_inc_def by (rule ensures_kbind_any; simp add: Let_def)+

lemma dev_lookup_lkc: "lkc c s \<Longrightarrow> ensures (dev_lookup n p s) (\<lambda>(_, _, s'). lkc c s')"
  unfolding dev_lookup_def by (auto intro!: ensures_kbind [OF ref_inc_lkc(1)])

lemma env_locksD:
  assumes "env_locks E" and "lkc c s"
  shows "lkc c (snd (e_kmalloc E s))" "lkc c (snd (e_sync E g s))" "lkc c (snd (e_get_root E g s))"
    "lkc c (snd (e_unmount E g s))" "lkc c (e_cleanup E g s)"
    "ensures (e_open E n f s) (\<lambda>(_, s'). lkc c s')" "ensures (e_close E n s) (\<lambda>(_, s'). lkc c s')"
    "ensures (e_reclaim E n s) (\<lambda>(_, s'). lkc c s')" "ensures (e_gettype E n s) (\<lambda>(_, _, s'). lkc c s')"
    "ensures (e_truncate E n k s) (\<lambda>(_, s'). lkc c s')"
    "ensures (e_create E n p x s) (\<lambda>(_, _, s'). lkc c s')"
    "ensures (e_lookup E n p s) (\<lambda>(_, _, _, s'). lkc c s')"
  using assms unfolding env_locks_def by simp_all

lemma vop_lkc:
  assumes "env_locks E" and "lkc c s"
  shows "ensures (vop_open E m f s) (\<lambda>(_, s'). lkc c s')"
    "ensures (vop_close E m s) (\<lambda>(_, s'). lkc c s')"
    "ensures (vop_reclaim E m s) (\<lambda>(_, s'). lkc c s')"
    "ensures (vop_gettype E m s) (\<lambda>(_, _, s'). lkc c s')"
    "ensures (vop_truncate E m k s) (\<lambda>(_, s'). lkc c s')"
    "ensures (vop_create E m p x s) (\<lambda>(_, _, s'). lkc c s')"
    "ensures (vop_lookup E m p s) (\<lambda>(_, _, _, s'). lkc c s')"
  unfolding vop_open_def vop_close_def vop_reclaim_def vop_gettype_def
    vop_truncate_def vop_create_def vop_lookup_def
  by (rule ensures_kbind_any;
      auto simp: env_locksD [OF assms] assms(2) split: inode_ops.split
        intro!: ensures_kbind_any [of _ _ "dev_open _ _ _"] ensures_kbind_any [of _ _ "dev_close _ _"]
          ensures_kbind_any [of _ _ "dev_gettype _ _"] ensures_kbind [OF dev_lookup_lkc [OF assms(2)]])+

lemma ref_dec_lkc:
  assumes "env_locks E" and "lkc c s"
  shows "ensures (inode_ref_dec E n s) (\<lambda>(_, s'). lkc c s')"
    "ensures (inode_open_dec E n s) (\<lambda>(_, s'). lkc c s')"
    "ensures (drop_ref E m s) (\<lambda>s'. lkc c s')"
    "ensures (ref_dec_opt E m s) (\<lambda>(_, s'). lkc c s')"
proof -
  have 1: "ensures (inode_ref_dec E n s) (\<lambda>(_, s'). lkc c s')" for n
    unfolding inode_ref_dec_def using assms
    by (intro ensures_kbind_any) (auto simp: Let_def intro!: ensures_kbind [OF vop_lkc(3)])
  then show "ensures (inode_ref_dec E n s) (\<lambda>(_, s'). lkc c s')" .
  show "ensures (inode_open_dec E n s) (\<lambda>(_, s'). lkc c s')"
    unfolding inode_open_dec_def using assms
    by (intro ensures_kbind_any) (auto simp: Let_def intro!: ensures_kbind [OF vop_lkc(2)])
  show "ensures (drop_ref E m s) (\<lambda>s'. lkc c s')" "ensures (ref_dec_opt E m s) (\<lambda>(_, s'). lkc c s')"
    using assms by (auto simp: drop_ref_def ref_dec_opt_def 1 intro!: ensures_kbind [OF 1] split: option.split)
qed

lemma curdir_lkc: "lkc c s \<Longrightarrow> ensures (vfs_get_curdir s) (\<lambda>(_, _, s'). lkc c s')"
  by (auto simp: vfs_get_curdir_def intro!: ensures_kbind [OF ref_inc_lkc(1)] split: option.split)

lemma bootfs_lkc: "lkc c s \<Longrightarrow> ensures (vfs_get_bootfs s) (\<lambda>(_, _, s'). lkc c s')"
  by (auto simp: vfs_get_bootfs_def
      intro!: ensures_kbind [OF ref_inc_lkc(1) [where c = "c @ [Down Bootfs_Lock]"]] split: option.split)

lemma dev_root_lkc:
  "env_locks E \<Longrightarrow> lkc c s \<Longrightarrow> ensures (dev_root E v s) (\<lambda>(_, s'). lkc c s')"
  using env_locksD(3) [of E c s]
  by (auto simp: dev_root_def case_prod_beta intro!: ensures_kbind [OF ref_inc_lkc(1)] split: option.split)

lemma get_root_lkc:
  assumes "env_locks E" and "lkc c s"
  shows "ensures (vfs_get_root E name s) (\<lambda>(_, _, s'). lkc c s')"
proof -
  have "lkc (c @ [Down Vdev_List_Lock]) (emit (Down Vdev_List_Lock) s)" using assms(2) by auto
  from dev_root_lkc [OF assms(1) this] this assms(2) show ?thesis
    unfolding vfs_get_root_def Let_def by (auto intro!: ensures_kbind split: option.split)
qed

lemma mount_lkc:
  assumes "\<And>n c s. lkc c s \<Longrightarrow> lkc c (snd (snd (mountfunc n s)))" and "lkc c s"
  shows "ensures (vfs_mount name mountfunc s) (\<lambda>(_, s'). lkc c s')"
proof -
  let ?c = "c @ [Down Vdev_List_Lock]"
  have 0: "lkc ?c (emit (Down Vdev_List_Lock) s)" using assms(2) by auto
  have "ensures (mount_dev k mountfunc s) (\<lambda>(_, s'). lkc ?c s')" if "lkc ?c s" for k s
    using assms(1) [OF that] that unfolding mount_dev_def
    by (auto simp: Let_def case_prod_beta intro!: ensures_kbind_any split: option.split)
  note M = this [OF 0]
  show ?thesis
    unfolding vfs_mount_def Let_def
    using 0 by (auto intro!: ensures_kbind [OF M] split: option.split)
qed

lemma unmount_dev_lkc: "env_locks E \<Longrightarrow> lkc c s \<Longrightarrow> lkc c (snd (unmount_dev E k fs s))"
  using env_locksD(2) [of E c s fs] env_locksD(4) [of E c "snd (e_sync E fs s)" fs]
  by (auto simp: unmount_dev_def case_prod_beta)

lemma unmount_lkc:
  assumes "env_locks E" and "lkc c s"
  shows "lkc c (snd (vfs_unmount E name s))"
proof -
  have 0: "lkc (c @ [Down Vdev_List_Lock]) (emit (Down Vdev_List_Lock) s)" using assms(2) by auto
  show ?thesis
    using 0 unmount_dev_lkc [OF assms(1) 0] by (auto simp: vfs_unmount_def Let_def case_prod_beta split: option.split)
qed

lemma unmount_all_lkc:
  assumes "env_locks E" and "lkc c s"
  shows "lkc c (snd (vfs_unmount_all E s))"
proof -
  have loop: "lkc c s \<Longrightarrow> lkc c (unmount_loop E k n s)" for c k n s
    by (induction n arbitrary: k s) (auto simp: unmount_dev_lkc [OF assms(1)] split: option.split)
  show ?thesis using assms(2) by (auto simp: vfs_unmount_all_def intro: loop)
qed

lemma do_add_lkc:
  assumes "env_locks E" and "lkc c s"
  shows "ensures (vfs_do_add E name node fs mnt s) (\<lambda>(_, s'). lkc c s')"
proof -
  have 1: "lkc c (snd (e_kmalloc E s))" using env_locksD(1) [OF assms] .
  have 2: "lkc c (snd (e_kmalloc E (snd (e_kmalloc E s))))" using env_locksD(1) [OF assms(1) 1] .
  have 3: "lkc (c @ [Down Vdev_List_Lock]) (emit (Down Vdev_List_Lock) (snd (e_kmalloc E (snd (e_kmalloc E s)))))"
    using 2 by auto
  show ?thesis
    unfolding vfs_do_add_def
    by (rule ensures_kbind_any)
      (use assms(2) 1 2 3 in \<open>auto simp: Let_def case_prod_beta split: option.split\<close>)
qed

lemma set_curdir_lkc:
  assumes "env_locks E" and "lkc c s"
  shows "ensures (vfs_set_curdir E dir s) (\<lambda>(_, s'). lkc c s')"
proof -
  let ?c = "c @ [Down Files_Lock]"
  have 0: "lkc ?c (emit (Down Files_Lock) s)" using assms(2) by auto
  have t: "ensures (take_dir E dir s) (\<lambda>(_, s'). lkc c s')" if "lkc c s" for c s
    using that by (auto simp: take_dir_def intro!: ensures_kbind [OF vop_lkc(4) [OF assms(1)]]
        ensures_kbind [OF ref_inc_lkc(1)] split: option.split)
  show ?thesis
    unfolding vfs_set_curdir_def Let_def
    using 0 by (auto intro!: ensures_kbind [OF t [OF 0]] ensures_kbind [OF ref_dec_lkc(3) [where c = ?c, OF assms(1)]])
qed

lemma current_root_lkc:
  assumes "env_locks E" and "lkc c s"
  shows "ensures (current_root E s) (\<lambda>(_, _, s'). lkc c s')"
proof -
  have "ensures (case in_fs i of
      None \<Rightarrow> Inl Assert_Failed
    | Some fs \<Rightarrow> (case e_get_root E fs s1 of (root, s2) \<Rightarrow>
        kbind (ref_dec_opt E node s2) (\<lambda>(_, s3). Inr (0, root, s3))))
    (\<lambda>(_, _, s'). lkc c s')" if "lkc c s1" for i node s1
    using env_locksD(3) [OF assms(1) that]
    by (auto simp: case_prod_beta intro!: ensures_kbind [OF ref_dec_lkc(4) [OF assms(1)]] split: option.split)
  note step = this
  have "ensures (if ret \<noteq> 0 then Inr (ret, None, s1)
      else kbind (case node of None \<Rightarrow> Inl Bad_Access | Some n \<Rightarrow> get_inode n s1) (\<lambda>i.
        case in_fs i of
          None \<Rightarrow> Inl Assert_Failed
        | Some fs \<Rightarrow> (case e_get_root E fs s1 of (root, s2) \<Rightarrow>
            kbind (ref_dec_opt E node s2) (\<lambda>(_, s3). Inr (0, root, s3)))))
    (\<lambda>(_, _, s'). lkc c s')" if "lkc c s1" for ret node s1
  proof (cases "ret = 0")
    case True
    show ?thesis unfolding True by (simp only: simp_thms if_False, rule ensures_kbind_any, rule step, rule that)
  qed (use that in simp)
  then show ?thesis
    unfolding current_root_def by (intro ensures_kbind [OF curdir_lkc [OF assms(2)]]) auto
qed

lemma get_device_lkc:
  assumes "env_locks E" and "lkc c s"
  shows "ensures (get_device E path s) (\<lambda>(_, _, _, _, s'). lkc c s')"
  unfolding get_device_def Let_def case_prod_beta
  by (auto intro!: ensures_kbind [OF curdir_lkc [OF assms(2)]] ensures_kbind [OF get_root_lkc [OF assms]]
      ensures_kbind [OF bootfs_lkc [OF assms(2)]] ensures_kbind [OF current_root_lkc [OF assms]])

lemma lookup_lkc:
  assumes "env_locks E" and "lkc c s"
  shows "ensures (vfs_lookup E path s) (\<lambda>(_, _, _, s'). lkc c s')"
    "ensures (vfs_lookup_parent E path s) (\<lambda>(_, _, _, _, s'). lkc c s')"
  unfolding vfs_lookup_def vfs_lookup_parent_def
  by (auto intro!: ensures_kbind [OF get_device_lkc [OF assms]] ensures_kbind [OF vop_lkc(7) [OF assms(1)]]
      ensures_kbind [OF ref_dec_lkc(4) [OF assms(1)]])

lemma chdir_lkc:
  assumes "env_locks E" and "lkc c s"
  shows "ensures (vfs_chdir E path s) (\<lambda>(_, s'). lkc c s')"
  unfolding vfs_chdir_def
  by (auto intro!: ensures_kbind [OF lookup_lkc(1) [OF assms]] ensures_kbind [OF set_curdir_lkc [OF assms(1)]]
      ensures_kbind [OF ref_dec_lkc(4) [OF assms(1)]])

lemma change_bootfs_lkc:
  assumes "env_locks E" and "lkc c s"
  shows "ensures (change_bootfs E node s) (lkc c)"
proof -
  have "lkc c (emit (Up Bootfs_Lock) (emit (Down Bootfs_Lock) s\<lparr>bootfs_node := node\<rparr>))"
    using assms(2) by (simp add: lkc_def held_def)
  then show ?thesis using ref_dec_lkc(3) [OF assms(1)] by (auto simp: change_bootfs_def Let_def)
qed

lemma set_bootfs_lkc:
  assumes "env_locks E" and "lkc c s"
  shows "ensures (vfs_set_bootfs E name s) (\<lambda>(_, s'). lkc c s')"
  unfolding vfs_set_bootfs_def Let_def
  by (auto simp: assms(2) intro!: ensures_kbind [OF chdir_lkc [OF assms]] ensures_kbind [OF curdir_lkc]
      ensures_kbind [OF change_bootfs_lkc [OF assms(1)]] assms(2) split: option.split)

lemma open_lkc:
  assumes "env_locks E" and "lkc c s"
  shows "ensures (vfs_open E path flags s) (\<lambda>(_, _, s'). lkc c s')"
proof -
  note E = assms(1)
  have create: "ensures (open_create E p x s) (\<lambda>(_, s'). lkc c s')" if "lkc c s" for p x s
    using that unfolding open_create_def
    by (auto intro!: ensures_kbind [OF lookup_lkc(2) [OF E that]] ensures_kbind [OF vop_lkc(6) [OF E]])
  have node: "ensures (open_node E n flags s) (\<lambda>(_, _, s'). lkc c s')" if "lkc c s" for n s
    unfolding open_node_def
    by (auto intro!: ensures_kbind [OF vop_lkc(1) [OF E that]] ensures_kbind [OF ref_dec_lkc(1) [OF E]]
        ensures_kbind [OF ref_dec_lkc(2) [OF E]] ensures_kbind [OF ref_inc_lkc(2)]
        ensures_kbind [OF vop_lkc(5) [OF E]])
  show ?thesis
    unfolding vfs_open_def Let_def
    by (auto simp: assms(2) intro!: ensures_kbind [OF lookup_lkc(1) [OF assms]] ensures_kbind [where Q = "\<lambda>(_, s'). lkc c s'"]
        create node split: sum.splits option.splits)
qed

lemma close_lkc:
  assumes "env_locks E" and "lkc c s"
  shows "ensures (vfs_close E n s) (\<lambda>(_, s'). lkc c s')"
  unfolding vfs_close_def
  by (auto intro!: ensures_kbind [OF ref_dec_lkc(2) [OF assms]] ensures_kbind [OF ref_dec_lkc(1) [OF assms(1)]])

subsection \<open>The device table\<close>

definition dev_names_ok :: "vfs_dev list \<Rightarrow> bool" where
  "dev_names_ok vs \<longleftrightarrow> distinct (map devname vs) \<and> (\<forall>v\<in>set vs. length (devname v) \<le> FS_MAX_DNAME_LEN)"

lemma conflict_iff: "check_devname_conflict name vs \<longleftrightarrow> name \<notin> devname ` set vs"
  by (induction vs) auto

text \<open>Adding a device: the outcome, for \<open>kmalloc\<close> that leaves the table alone.\<close>

definition kmalloc_frame :: "'x env \<Rightarrow> bool" where
  "kmalloc_frame E \<longleftrightarrow> (\<forall>s. vdev_list (snd (e_kmalloc E s)) = vdev_list s \<and> inodes (snd (e_kmalloc E s)) = inodes s)"

lemma add_dev_effect:
  assumes "kmalloc_frame E" and "dev_names_ok (vdev_list s)"
    and "vfs_add_dev E name (Some n) mnt s = Inr (ret, s')"
  shows "dev_names_ok (vdev_list s') \<and>
    (if ret = 0 then vdev_list s' = \<lparr>devname = name, devnode = Some n, vd_fs = None, mountable = mnt\<rparr> # vdev_list s
     else vdev_list s' = vdev_list s) \<and> inodes s' = inodes s"
  using assms
  by (auto simp: vfs_add_dev_def vfs_do_add_def kbind_eq_Inr_iff kassert_def get_inode_def kmalloc_frame_def
      dev_names_ok_def conflict_iff errno_defs Let_def split: option.splits if_splits prod.splits) (metis snd_conv)+

subsection \<open>References\<close>

text \<open>
  The references to an inode that no working directory and no boot file system accounts for.
\<close>

definition refs :: "nat \<Rightarrow> 'x vstate \<Rightarrow> int" where
  "refs n s = (case inodes s n of None \<Rightarrow> 0 | Some i \<Rightarrow> ref_count i)"

definition spare :: "nat \<Rightarrow> 'x vstate \<Rightarrow> int" where
  "spare n s = refs n s - (if pwd s = Some n then 1 else 0) - (if bootfs_node s = Some n then 1 else 0)"

definition same_refs :: "'x vstate \<Rightarrow> 'x vstate \<Rightarrow> bool" where
  "same_refs s s' \<longleftrightarrow> (\<forall>n. refs n s' = refs n s) \<and> pwd s' = pwd s \<and> bootfs_node s' = bootfs_node s"

definition env_refs :: "'x env \<Rightarrow> bool" where
  "env_refs E \<longleftrightarrow> (\<forall>n s. ensures (e_reclaim E n s) (\<lambda>(_, s'). same_refs s s')) \<and>
     (\<forall>n s. ensures (e_gettype E n s) (\<lambda>(_, _, s'). same_refs s s'))"

lemma refs_simps [simp]:
  "refs n (put_inode m i s) = (if n = m then ref_count i else refs n s)"
  "refs n (emit c s) = refs n s" "refs n (s\<lparr>pwd := x\<rparr>) = refs n s" "refs n (s\<lparr>bootfs_node := y\<rparr>) = refs n s"
  by (simp_all add: refs_def)

lemma ref_inc_refs:
  "ensures (inode_ref_inc n s) (\<lambda>(_, s'). (\<forall>m. refs m s' = refs m s + (if m = n then 1 else 0)) \<and>
     pwd s' = pwd s \<and> bootfs_node s' = bootfs_node s)"
  by (auto simp: inode_ref_inc_def get_inode_def refs_def Let_def split: option.split)

lemma ref_dec_refs:
  assumes "env_refs E"
  shows "ensures (inode_ref_dec E n s) (\<lambda>(_, s'). (\<forall>m. refs m s' = refs m s - (if m = n then 1 else 0)) \<and>
     pwd s' = pwd s \<and> bootfs_node s' = bootfs_node s)"
proof -
  have rec: "ensures (vop_reclaim E (Some n) s) (\<lambda>(_, s'). same_refs s s')" for s
    using assms unfolding vop_reclaim_def env_refs_def
    by (auto intro!: ensures_kbind_any split: inode_ops.split)
  show ?thesis
  proof (cases "inodes s n")
    case (Some i)
    then have "refs n s = ref_count i" by (simp add: refs_def)
    then show ?thesis
      using Some unfolding inode_ref_dec_def get_inode_def
      by (auto simp: Let_def same_refs_def intro!: ensures_kbind [OF rec])
  qed (simp add: inode_ref_dec_def get_inode_def)
qed

lemma gettype_refs: "env_refs E \<Longrightarrow> ensures (vop_gettype E m s) (\<lambda>(_, _, s'). same_refs s s')"
  unfolding vop_gettype_def env_refs_def
  by (auto intro!: ensures_kbind_any split: inode_ops.split) (simp add: same_refs_def)

lemma set_curdir_spare:
  assumes "env_refs E"
  shows "ensures (vfs_set_curdir E dir s) (\<lambda>(ret, s').
    (\<forall>n. spare n s' = spare n s) \<and> (if ret = 0 then pwd s' = dir else pwd s' = pwd s))"
proof -
  have take: "ensures (take_dir E dir s1) (\<lambda>(ret, s2).
      (\<forall>m. refs m s2 = refs m s1 + (if ret = 0 \<and> dir = Some m then 1 else 0)) \<and>
      pwd s2 = pwd s1 \<and> bootfs_node s2 = bootfs_node s1)" for s1
    unfolding take_dir_def
    by (auto simp: same_refs_def E_NOTDIR_def intro!: ensures_kbind [OF gettype_refs [OF assms]] ensures_kbind [OF ref_inc_refs] split: option.split)
  have drp: "ensures (drop_ref E old s1) (\<lambda>s2.
      (\<forall>m. refs m s2 = refs m s1 - (if old = Some m then 1 else 0)) \<and>
      pwd s2 = pwd s1 \<and> bootfs_node s2 = bootfs_node s1)" for old s1
    unfolding drop_ref_def by (auto intro!: ensures_kbind [OF ref_dec_refs [OF assms]] split: option.split)
  show ?thesis
    unfolding vfs_set_curdir_def Let_def
    by (auto intro!: ensures_kbind [OF take] ensures_kbind [OF drp] simp: spare_def)
qed

subsection \<open>Paths with a device name\<close>









subsection \<open>Properties\<close>

text \<open>An environment whose file system has one directory, in which no file exists.\<close>

definition demo_inode :: inode where
  "demo_inode = \<lparr>in_type = 0x1235, in_device = \<lparr>d_blocks = 0, d_blocksize = 1, d_driver = Stdin_Driver\<rparr>,
     ref_count = 1, open_count = 0, in_fs = Some 0, in_ops = Some Fs_Ops\<rparr>"

definition demo_env :: "unit env" where
  "demo_env =
     \<lparr>e_kmalloc = (\<lambda>s. (Some 9, s)), e_junk = demo_inode,
      e_open = (\<lambda>_ _ s. Inr (0, s)), e_close = (\<lambda>_ s. Inr (0, s)), e_reclaim = (\<lambda>_ s. Inr (0, s)),
      e_gettype = (\<lambda>_ s. Inr (0, S_IFDIR, s)), e_truncate = (\<lambda>_ _ s. Inr (0, s)),
      e_create = (\<lambda>_ _ _ s. Inr (0, Some 2, s)), e_lookup = (\<lambda>_ p s. Inr (- E_NOENT, None, p, s)),
      e_sync = (\<lambda>_ s. (0, s)), e_get_root = (\<lambda>_ s. (Some 1, s)), e_unmount = (\<lambda>_ s. (0, s)),
      e_cleanup = (\<lambda>_ s. s)\<rparr>"

definition demo_vfs :: "unit vstate" where
  "demo_vfs =
     \<lparr>inodes = [1 \<mapsto> demo_inode, 2 \<mapsto> demo_inode, 3 \<mapsto> demo_inode\<lparr>in_type := 0x1234, in_ops := Some Dev_Ops\<rparr>],
      vdev_list = [\<lparr>devname = [100], devnode = None, vd_fs = Some 0, mountable = True\<rparr>],
      bootfs_node = None, pwd = Some 1, lock_calls = [], ext = ()\<rparr>"

lemma demo_env_ok: "env_locks demo_env" "env_refs demo_env" "kmalloc_frame demo_env"
  by (auto simp: env_locks_def env_refs_def kmalloc_frame_def demo_env_def same_refs_def)

text \<open>
  C27. Every path through the device table and the name space gives its locks back: success,
  error returns in the middle and early exits alike, as long as the code outside of the
  layer does.
\<close>

theorem vfs_releases_locks:
  assumes "env_locks E" and "\<And>n c s. lkc c s \<Longrightarrow> lkc c (snd (snd (mountfunc n s)))"
  shows "ensures (vfs_do_add E name node fs mnt s) (\<lambda>(_, s'). lkc (lock_calls s) s') \<and>
    ensures (vfs_get_root E name s) (\<lambda>(_, _, s'). lkc (lock_calls s) s') \<and>
    ensures (vfs_mount name mountfunc s) (\<lambda>(_, s'). lkc (lock_calls s) s') \<and>
    lkc (lock_calls s) (snd (vfs_unmount E name s)) \<and>
    lkc (lock_calls s) (snd (vfs_unmount_all E s)) \<and>
    ensures (vfs_chdir E path s) (\<lambda>(_, s'). lkc (lock_calls s) s') \<and>
    ensures (vfs_set_bootfs E fsname s) (\<lambda>(_, s'). lkc (lock_calls s) s') \<and>
    ensures (vfs_open E path flags s) (\<lambda>(_, _, s'). lkc (lock_calls s) s')"
proof -
  have 0: "lkc (lock_calls s) s" by (simp add: lkc_def)
  show ?thesis
    using do_add_lkc [OF assms(1) 0] get_root_lkc [OF assms(1) 0] mount_lkc [of mountfunc, OF assms(2) 0]
      unmount_lkc [OF assms(1) 0] unmount_all_lkc [OF assms(1) 0] chdir_lkc [OF assms(1) 0]
      set_bootfs_lkc [OF assms(1) 0] open_lkc [OF assms(1) 0] by blast
qed

lemma vfs_releases_locks_witness:
  "lkc [] (snd (vfs_unmount demo_env [100] demo_vfs)) \<and>
   ensures (vfs_open demo_env [100, 58, 97] (O_CREAT OR O_RDWR) demo_vfs) (\<lambda>(_, _, s'). lkc [] s')"
  using vfs_releases_locks [OF demo_env_ok(1), of "\<lambda>n s. (0, None, s)" "[100]" None None False demo_vfs
      "[100, 58, 97]" None "O_CREAT OR O_RDWR"]
  by (simp add: demo_vfs_def)

text \<open>
  A device that \<open>vfs_add_dev\<close> has accepted is found under its name: \<open>vfs_get_root\<close> hands
  out its node with one more reference. The table keeps distinct names of at most 31
  characters, whatever the result of the call.
\<close>

theorem add_dev_get_root:
  assumes "kmalloc_frame E" and "dev_names_ok (vdev_list s)" and "inodes s n = Some i"
    and "vfs_add_dev E name (Some n) False s = Inr (ret, s')"
  shows "dev_names_ok (vdev_list s') \<and>
    (ret = 0 \<longrightarrow> (\<exists>s''. vfs_get_root E name s' = Inr (0, Some n, s'') \<and>
       inodes s'' = (inodes s)(n \<mapsto> i\<lparr>ref_count := ref_count i + 1\<rparr>)))"
  using add_dev_effect [OF assms(1,2,4)] assms(3)
  by (auto simp: vfs_get_root_def dev_root_def inode_ref_inc_def get_inode_def Let_def)

lemma add_dev_get_root_witness:
  "\<exists>s' s''. vfs_add_dev demo_env [115] (Some 3) False demo_vfs = Inr (0, s') \<and>
     vfs_get_root demo_env [115] s' = Inr (0, Some 3, s'')"
proof -
  have "\<exists>s'. vfs_add_dev demo_env [115] (Some 3) False demo_vfs = Inr (0, s')"
    by (simp add: vfs_add_dev_def vfs_do_add_def demo_vfs_def demo_env_def get_inode_def demo_inode_def
        inode_type_device_info_def FS_MAX_DNAME_LEN_def Let_def)
  moreover have "dev_names_ok (vdev_list demo_vfs)"
    by (simp add: dev_names_ok_def demo_vfs_def FS_MAX_DNAME_LEN_def)
  moreover have "inodes demo_vfs 3 = Some (demo_inode\<lparr>in_type := 0x1234, in_ops := Some Dev_Ops\<rparr>)"
    by (simp add: demo_vfs_def)
  ultimately show ?thesis using add_dev_get_root [OF demo_env_ok(3)] by blast
qed

text \<open>
  C28. Changing the working directory conserves references: whether \<open>vfs_set_curdir\<close> succeeds
  or fails, the references that neither a working directory nor the boot file system
  accounts for stay the same for every inode.
\<close>

theorem set_curdir_conserves:
  assumes "env_refs E" and "vfs_set_curdir E dir s = Inr (ret, s')"
  shows "(\<forall>n. spare n s' = spare n s) \<and> pwd s' = (if ret = 0 then dir else pwd s)"
  using ensuresD [OF set_curdir_spare [OF assms(1)] assms(2)] by (auto split: if_splits)

lemma set_curdir_conserves_witness:
  "\<exists>s'. vfs_set_curdir demo_env (Some 2) demo_vfs = Inr (0, s') \<and> spare 1 s' = 0 \<and> pwd s' = Some 2"
proof -
  have "\<exists>s'. vfs_set_curdir demo_env (Some 2) demo_vfs = Inr (0, s')"
    by (simp add: vfs_set_curdir_def take_dir_def drop_ref_def vop_gettype_def inode_check_def vop_reclaim_def
        inode_ref_inc_def inode_ref_dec_def get_inode_def Let_def demo_vfs_def demo_env_def demo_inode_def
        MAX_INODE_COUNT_def S_ISDIR_def S_IFDIR_def S_IFMT_def)
  then obtain s' where "vfs_set_curdir demo_env (Some 2) demo_vfs = Inr (0, s')" ..
  moreover have "spare 1 demo_vfs = 0"
    by (simp add: spare_def refs_def demo_vfs_def demo_inode_def)
  ultimately show ?thesis using set_curdir_conserves [OF demo_env_ok(2)] by force
qed



end
