(* ===== verification/Skew_Heap.thy ===== *)
theory Skew_Heap
  imports Prelude "HOL-Library.Tree_Multiset"
begin

text \<open>
  \<open>lab8/libs/skew_heap.h\<close>: the skew heap of the stride scheduler, as nodes with \<open>parent\<close>,
  \<open>left\<close> and \<open>right\<close> pointers that the routines update in place, and its refinement by
  binary trees. A comparison returns -1, 0 or 1.
\<close>

subsection \<open>The routines\<close>

record 'a skew =
  parent :: "'a \<Rightarrow> 'a option"
  left :: "'a \<Rightarrow> 'a option"
  right :: "'a \<Rightarrow> 'a option"

type_synonym 'a compare_f = "'a \<Rightarrow> 'a \<Rightarrow> int"

definition set_parent :: "'a option \<Rightarrow> 'a option \<Rightarrow> 'a skew \<Rightarrow> 'a skew" where
  "set_parent l p s = (case l of None \<Rightarrow> s | Some a \<Rightarrow> s\<lparr>parent := (parent s)(a := p)\<rparr>)"

definition set_kids :: "'a \<Rightarrow> 'a option \<Rightarrow> 'a option \<Rightarrow> 'a skew \<Rightarrow> 'a skew" where
  "set_kids a l r s = s\<lparr>left := (left s)(a := l), right := (right s)(a := r)\<rparr>"

definition skew_heap_init :: "'a \<Rightarrow> 'a skew \<Rightarrow> 'a skew" where
  "skew_heap_init a s = s\<lparr>left := (left s)(a := None), right := (right s)(a := None), parent := (parent s)(a := None)\<rparr>"

text \<open>On pointers that do not form a tree the recursion may not end: then the value is \<open>None\<close>.\<close>

partial_function (option) skew_heap_merge ::
    "'a compare_f \<Rightarrow> 'a option \<Rightarrow> 'a option \<Rightarrow> 'a skew \<Rightarrow> ('a option \<times> 'a skew) option" where
  "skew_heap_merge cmp a b s =
     (if a = None then Some (b, s)
      else if b = None then Some (a, s)
      else let x = the a; y = the b in
        if cmp x y = - 1
        then Option.bind (skew_heap_merge cmp (right s x) b s) (\<lambda>(l, s').
               Some (a, set_parent l (Some x) (set_kids x l (left s x) s')))
        else Option.bind (skew_heap_merge cmp a (right s y) s) (\<lambda>(l, s').
               Some (b, set_parent l (Some y) (set_kids y l (left s y) s'))))"

definition skew_heap_insert ::
    "'a compare_f \<Rightarrow> 'a option \<Rightarrow> 'a \<Rightarrow> 'a skew \<Rightarrow> ('a option \<times> 'a skew) option" where
  "skew_heap_insert cmp a b s = skew_heap_merge cmp a (Some b) (skew_heap_init b s)"

definition skew_heap_remove ::
    "'a compare_f \<Rightarrow> 'a option \<Rightarrow> 'a \<Rightarrow> 'a skew \<Rightarrow> ('a option \<times> 'a skew) option" where
  "skew_heap_remove cmp a b s =
     (let p = parent s b in
      Option.bind (skew_heap_merge cmp (left s b) (right s b) s) (\<lambda>(rep, s1).
        let s2 = set_parent rep p s1 in
        case p of
          Some q \<Rightarrow>
            Some (a, if left s2 q = Some b then s2\<lparr>left := (left s2)(q := rep)\<rparr>
                     else s2\<lparr>right := (right s2)(q := rep)\<rparr>)
        | None \<Rightarrow> Some (rep, s2)))"

subsection \<open>Trees\<close>

fun merge :: "'a compare_f \<Rightarrow> 'a tree \<Rightarrow> 'a tree \<Rightarrow> 'a tree" where
  "merge cmp Leaf t = t"
| "merge cmp t Leaf = t"
| "merge cmp (Node l1 x r1) (Node l2 y r2) =
     (if cmp x y = - 1 then Node (merge cmp r1 (Node l2 y r2)) x l1
      else Node (merge cmp (Node l1 x r1) r2) y l2)"

lemma merge_Leaf [simp]: "merge cmp t Leaf = t"
  by (cases t) auto

lemma mset_merge [simp]: "mset_tree (merge cmp t u) = mset_tree t + mset_tree u"
  by (induction cmp t u rule: merge.induct) auto

lemma set_merge [simp]: "set_tree (merge cmp t u) = set_tree t \<union> set_tree u"
  by (induction cmp t u rule: merge.induct) auto

text \<open>The heap order of a rank that the comparison decides on the nodes of the heap.\<close>

fun heap_by :: "('a \<Rightarrow> 'k::linorder) \<Rightarrow> 'a tree \<Rightarrow> bool" where
  "heap_by f Leaf = True"
| "heap_by f (Node l x r) \<longleftrightarrow>
     (\<forall>y\<in>set_tree l \<union> set_tree r. f x \<le> f y) \<and> heap_by f l \<and> heap_by f r"

definition decides :: "'a compare_f \<Rightarrow> ('a \<Rightarrow> 'k::linorder) \<Rightarrow> 'a set \<Rightarrow> bool" where
  "decides cmp f A \<longleftrightarrow> (\<forall>x\<in>A. \<forall>y\<in>A. cmp x y = - 1 \<longleftrightarrow> f x < f y)"

lemma decides_subset: "decides cmp f A \<Longrightarrow> B \<subseteq> A \<Longrightarrow> decides cmp f B"
  by (auto simp: decides_def)

lemma heap_by_root: "heap_by f (Node l x r) \<Longrightarrow> y \<in> set_tree (Node l x r) \<Longrightarrow> f x \<le> f y"
  by auto

lemma heap_by_merge:
  "heap_by f t \<Longrightarrow> heap_by f u \<Longrightarrow> decides cmp f (set_tree t \<union> set_tree u) \<Longrightarrow> heap_by f (merge cmp t u)"
proof (induction cmp t u rule: merge.induct)
  case (3 cmp l1 x r1 l2 y r2)
  have dec: "cmp x y = - 1 \<longleftrightarrow> f x < f y" using 3(5) by (simp add: decides_def)
  show ?case
  proof (cases "cmp x y = - 1")
    case True
    then have "f x \<le> f z" if "z \<in> set_tree (Node l2 y r2)" for z
      using dec heap_by_root [OF 3(4) that] by simp
    moreover have "heap_by f (merge cmp r1 (Node l2 y r2))"
      by (rule 3(1) [OF True]) (use 3(3-5) in \<open>auto elim: decides_subset\<close>)
    ultimately show ?thesis using True 3(3) by auto
  next
    case False
    then have "f y \<le> f z" if "z \<in> set_tree (Node l1 x r1)" for z
      using dec heap_by_root [OF 3(3) that] by simp
    moreover have "heap_by f (merge cmp (Node l1 x r1) r2)"
      by (rule 3(2) [OF False]) (use 3(3-5) in \<open>auto elim: decides_subset\<close>)
    ultimately show ?thesis using False 3(4) by auto
  qed
qed auto

text \<open>Removing a node merges its subtrees in its place.\<close>

fun remove :: "'a compare_f \<Rightarrow> 'a \<Rightarrow> 'a tree \<Rightarrow> 'a tree" where
  "remove cmp b Leaf = Leaf"
| "remove cmp b (Node l x r) =
     (if x = b then merge cmp l r
      else if b \<in> set_tree l then Node (remove cmp b l) x r
      else Node l x (remove cmp b r))"

lemma set_remove: "distinct (inorder t) \<Longrightarrow> set_tree (remove cmp b t) = set_tree t - {b}"
  by (induction t) auto

lemma heap_by_remove:
  "heap_by f t \<Longrightarrow> distinct (inorder t) \<Longrightarrow> decides cmp f (set_tree t) \<Longrightarrow> heap_by f (remove cmp b t)"
proof (induction t)
  case (Node l x r)
  have sub: "decides cmp f (set_tree l \<union> set_tree r)" "decides cmp f (set_tree l)" "decides cmp f (set_tree r)"
    using Node.prems(3) by (auto elim: decides_subset)
  show ?case using Node sub heap_by_merge [of f l r cmp] set_remove [of l cmp b] set_remove [of r cmp b] by auto
qed simp

lemma mset_inorder: "mset (inorder t) = mset_tree t"
  by (induction t) auto

lemma distinct_merge: "distinct (inorder t @ inorder u) \<Longrightarrow> distinct (inorder (merge cmp t u))"
  by (metis mset_append mset_inorder mset_merge mset_eq_imp_distinct_iff)

lemma mset_remove: "distinct (inorder t) \<Longrightarrow> mset_tree (remove cmp b t) = mset_tree t - {#b#}"
proof (induction t)
  case (Node l x r)
  have IH: "mset_tree (remove cmp b l) = mset_tree l - {#b#}" "mset_tree (remove cmp b r) = mset_tree r - {#b#}"
    using Node by simp_all
  consider "x = b" | "x \<noteq> b" "b \<in> set_tree l" | "x \<noteq> b" "b \<notin> set_tree l" by blast
  then show ?case
  proof cases
    case 2
    then have "b \<in># mset_tree l" by simp
    then have "mset_tree r + (mset_tree l - {#b#}) = mset_tree r + mset_tree l - {#b#}"
      by (rule diff_union_single_conv [symmetric])
    then show ?thesis using 2 IH(1) by (simp add: union_commute [of _ "mset_tree r"])
  next
    case 3
    have "mset_tree l + (mset_tree r - {#b#}) = mset_tree l + mset_tree r - {#b#}"
    proof (cases "b \<in> set_tree r")
      case True
      then have "b \<in># mset_tree r" by simp
      then show ?thesis by (rule diff_union_single_conv [symmetric])
    next
      case False
      then show ?thesis using 3 by (simp add: diff_single_trivial)
    qed
    then show ?thesis using 3 IH(2) by simp
  qed simp
qed simp

lemma distinct_remove: "distinct (inorder t) \<Longrightarrow> distinct (inorder (remove cmp b t))"
  using mset_remove [of t cmp b] mset_inorder [of t] mset_inorder [of "remove cmp b t"]
  by (metis distinct_remove1 mset_eq_imp_distinct_iff mset_remove1)

subsection \<open>Trees in the store\<close>

text \<open>
  \<open>tree_at s p t\<close>: the nodes from \<open>p\<close> on form the tree \<open>t\<close>. The parent pointers of all nodes
  below the root are right; the one of the root is not constrained.
\<close>

definition root :: "'a tree \<Rightarrow> 'a option" where
  "root t = (case t of Leaf \<Rightarrow> None | Node l x r \<Rightarrow> Some x)"

lemma root_simps [simp]: "root Leaf = None" "root (Node l x r) = Some x"
  by (simp_all add: root_def)

lemma root_in: "root t = Some a \<Longrightarrow> a \<in> set_tree t"
  by (cases t) auto

fun tree_at :: "'a skew \<Rightarrow> 'a tree \<Rightarrow> bool" where
  "tree_at s Leaf = True"
| "tree_at s (Node l x r) \<longleftrightarrow>
     left s x = root l \<and> right s x = root r \<and>
     (\<forall>a. root l = Some a \<longrightarrow> parent s a = Some x) \<and> (\<forall>a. root r = Some a \<longrightarrow> parent s a = Some x) \<and>
     tree_at s l \<and> tree_at s r"

lemma tree_at_frame:
  "tree_at s t \<Longrightarrow> \<forall>a\<in>set_tree t. left s' a = left s a \<and> right s' a = right s a \<and>
     (root t \<noteq> Some a \<longrightarrow> parent s' a = parent s a) \<Longrightarrow> distinct (inorder t) \<Longrightarrow> tree_at s' t"
proof (induction t)
  case (Node l x r)
  have dl: "x \<notin> set_tree l" "x \<notin> set_tree r" "set_tree l \<inter> set_tree r = {}"
    using Node.prems(3) by auto
  have "\<forall>a\<in>set_tree l \<union> set_tree r. parent s' a = parent s a" using Node.prems(2) dl by auto
  then have "tree_at s' l" "tree_at s' r" using Node by auto
  moreover have "\<forall>a. root l = Some a \<longrightarrow> parent s' a = Some x" "\<forall>a. root r = Some a \<longrightarrow> parent s' a = Some x"
    using Node.prems dl root_in by fastforce+
  ultimately show ?case using Node.prems by auto
qed simp

subsection \<open>Merging refines the merge of trees\<close>

lemma set_parent_simps [simp]:
  "left (set_parent l p s) = left s" "right (set_parent l p s) = right s"
  "parent (set_parent l p s) a = (if l = Some a then p else parent s a)"
  by (auto simp: set_parent_def split: option.splits)

lemma set_kids_simps [simp]:
  "left (set_kids x l r s) a = (if a = x then l else left s a)"
  "right (set_kids x l r s) a = (if a = x then r else right s a)"
  "parent (set_kids x l r s) = parent s"
  by (auto simp: set_kids_def)

lemma skew_heap_init_simps [simp]:
  "left (skew_heap_init x s) a = (if a = x then None else left s a)"
  "right (skew_heap_init x s) a = (if a = x then None else right s a)"
  "parent (skew_heap_init x s) a = (if a = x then None else parent s a)"
  by (auto simp: skew_heap_init_def)

definition frame_on :: "'a set \<Rightarrow> 'a skew \<Rightarrow> 'a skew \<Rightarrow> bool" where
  "frame_on A s s' \<longleftrightarrow> (\<forall>a. a \<notin> A \<longrightarrow> left s' a = left s a \<and> right s' a = right s a \<and> parent s' a = parent s a)"

lemma tree_at_out:
  "tree_at s t \<Longrightarrow> frame_on A s s' \<Longrightarrow> A \<inter> set_tree t = {} \<Longrightarrow> distinct (inorder t) \<Longrightarrow> tree_at s' t"
  by (erule tree_at_frame) (auto simp: frame_on_def)

lemma merge_link:
  assumes m: "tree_at s' m" and l: "tree_at s l" and fr: "frame_on A s s'"
    and A: "set_tree m = A" "x \<notin> A" "A \<inter> set_tree l = {}" "x \<notin> set_tree l" 
    and d: "distinct (inorder l)" "distinct (inorder m)"
    and pl: "\<forall>a. root l = Some a \<longrightarrow> parent s a = Some x"
  shows "tree_at (set_parent (root m) (Some x) (set_kids x (root m) (root l) s')) (Node m x l)"
proof -
  let ?s = "set_parent (root m) (Some x) (set_kids x (root m) (root l) s')"
  have rl: "parent ?s a = parent s a" if "a \<in> set_tree l" for a
  proof -
    have "a \<notin> A" using that A by auto
    moreover then have "root m \<noteq> Some a" using A(1) root_in by fastforce
    ultimately show ?thesis using fr by (simp add: frame_on_def)
  qed
  have "tree_at ?s l"
    by (rule tree_at_frame [OF l]) (use rl fr A d in \<open>auto simp: frame_on_def\<close>)
  moreover have "tree_at ?s m"
    by (rule tree_at_frame [OF m]) (use A d in auto)
  moreover have "\<forall>a. root l = Some a \<longrightarrow> parent ?s a = Some x"
    using pl rl root_in by fastforce
  ultimately show ?thesis by simp
qed

lemma skew_heap_merge_refines:
  "tree_at s t \<Longrightarrow> tree_at s u \<Longrightarrow> distinct (inorder t @ inorder u) \<Longrightarrow>
   \<exists>s'. skew_heap_merge cmp (root t) (root u) s = Some (root (merge cmp t u), s') \<and>
     tree_at s' (merge cmp t u) \<and> frame_on (set_tree t \<union> set_tree u) s s' \<and>
     (\<forall>a. root (merge cmp t u) = Some a \<longrightarrow> parent s' a = parent s a)"
proof (induction cmp t u arbitrary: s rule: merge.induct)
  case (1 cmp t)
  then show ?case by (subst skew_heap_merge.simps) (auto simp: frame_on_def)
next
  case (2 cmp l x r)
  then show ?case by (subst skew_heap_merge.simps) (auto simp: frame_on_def)
next
  case (3 cmp l1 x r1 l2 y r2)
  show ?case
  proof (cases "cmp x y = - 1")
    case True
    obtain s' where s': "skew_heap_merge cmp (root r1) (root (Node l2 y r2)) s =
        Some (root (merge cmp r1 (Node l2 y r2)), s')" "tree_at s' (merge cmp r1 (Node l2 y r2))"
      "frame_on (set_tree r1 \<union> set_tree (Node l2 y r2)) s s'"
      using 3(1) [OF True, of s] 3(3-5) by auto
    let ?m = "merge cmp r1 (Node l2 y r2)"
    let ?s = "set_parent (root ?m) (Some x) (set_kids x (root ?m) (root l1) s')"
    have dm: "distinct (inorder ?m)" by (rule distinct_merge) (use 3(5) in auto)
    have "tree_at ?s (Node ?m x l1)"
      by (rule merge_link [OF s'(2) _ s'(3)]) (use 3(3-5) dm in auto)
    moreover have "frame_on (set_tree (Node l1 x r1) \<union> set_tree (Node l2 y r2)) s ?s"
    proof -
      have "root ?m = Some a \<Longrightarrow> a \<in> set_tree r1 \<union> set_tree (Node l2 y r2)" for a
        using root_in [of ?m a] by simp
      then show ?thesis using s'(3) by (auto simp: frame_on_def)
    qed
    moreover have "parent ?s x = parent s x"
    proof -
      have "x \<notin> set_tree r1 \<union> set_tree (Node l2 y r2)" using 3(5) by auto
      moreover then have "root ?m \<noteq> Some x" using root_in [of ?m x] by auto
      ultimately show ?thesis using s'(3) by (simp add: frame_on_def)
    qed
    ultimately show ?thesis
      using True s'(1) 3(3) by (subst skew_heap_merge.simps) (simp add: Let_def)
  next
    case False
    obtain s' where s': "skew_heap_merge cmp (root (Node l1 x r1)) (root r2) s =
        Some (root (merge cmp (Node l1 x r1) r2), s')" "tree_at s' (merge cmp (Node l1 x r1) r2)"
      "frame_on (set_tree (Node l1 x r1) \<union> set_tree r2) s s'"
      using 3(2) [OF False, of s] 3(3-5) by (auto simp: Int_Un_distrib)
    let ?m = "merge cmp (Node l1 x r1) r2"
    let ?s = "set_parent (root ?m) (Some y) (set_kids y (root ?m) (root l2) s')"
    have dm: "distinct (inorder ?m)" by (rule distinct_merge) (use 3(5) in auto)
    have "tree_at ?s (Node ?m y l2)"
      by (rule merge_link [OF s'(2) _ s'(3)]) (use 3(3-5) dm in auto)
    moreover have "frame_on (set_tree (Node l1 x r1) \<union> set_tree (Node l2 y r2)) s ?s"
    proof -
      have "root ?m = Some a \<Longrightarrow> a \<in> set_tree (Node l1 x r1) \<union> set_tree r2" for a
        using root_in [of ?m a] by simp
      then show ?thesis using s'(3) by (auto simp: frame_on_def)
    qed
    moreover have "parent ?s y = parent s y"
    proof -
      have "y \<notin> set_tree (Node l1 x r1) \<union> set_tree r2" using 3(5) by auto
      moreover then have "root ?m \<noteq> Some y" using root_in [of ?m y] by auto
      ultimately show ?thesis using s'(3) by (simp add: frame_on_def)
    qed
    ultimately show ?thesis
      using False s'(1) 3(4) by (subst skew_heap_merge.simps) (simp add: Let_def)
  qed
qed

subsection \<open>Insertion and removal\<close>

definition heap_at :: "'a skew \<Rightarrow> 'a option \<Rightarrow> 'a tree \<Rightarrow> bool" where
  "heap_at s p t \<longleftrightarrow> p = root t \<and> tree_at s t \<and> distinct (inorder t) \<and> (\<forall>a. p = Some a \<longrightarrow> parent s a = None)"

lemma heap_at_None: "heap_at s None t \<longleftrightarrow> t = Leaf"
  by (cases t) (auto simp: heap_at_def)

lemma heap_at_out: "heap_at s p t \<Longrightarrow> frame_on A s s' \<Longrightarrow> A \<inter> set_tree t = {} \<Longrightarrow> heap_at s' p t"
  using tree_at_out [of s t A s'] root_in [of t "the p"] by (fastforce simp: heap_at_def frame_on_def)

lemma frame_on_trans: "frame_on A s s' \<Longrightarrow> frame_on B s' s'' \<Longrightarrow> frame_on (A \<union> B) s s''"
  by (simp add: frame_on_def)

lemma skew_heap_insert_refines:
  assumes h: "heap_at s a t" and b: "b \<notin> set_tree t"
  obtains s' where
    "skew_heap_insert cmp a b s = Some (root (merge cmp t (Node Leaf b Leaf)), s')"
    "heap_at s' (root (merge cmp t (Node Leaf b Leaf))) (merge cmp t (Node Leaf b Leaf))"
    "frame_on (insert b (set_tree t)) s s'"
proof -
  let ?s = "skew_heap_init b s"  let ?n = "Node Leaf b Leaf"
  have fr: "frame_on {b} s ?s" by (simp add: frame_on_def)
  have t: "heap_at ?s a t" by (rule heap_at_out [OF h fr]) (use b in simp)
  have d: "distinct (inorder t @ inorder ?n)" using h b by (simp add: heap_at_def)
  obtain s' where s': "skew_heap_merge cmp (root t) (root ?n) ?s = Some (root (merge cmp t ?n), s')"
    "tree_at s' (merge cmp t ?n)" "frame_on (set_tree t \<union> set_tree ?n) ?s s'"
    "\<forall>c. root (merge cmp t ?n) = Some c \<longrightarrow> parent s' c = parent ?s c"
    using skew_heap_merge_refines [of ?s t ?n cmp] t d by (auto simp: heap_at_def)
  have "parent s' c = None" if "root (merge cmp t ?n) = Some c" for c
  proof -
    have "c = b \<or> root t = Some c" using that by (cases t) (auto split: if_splits)
    then show ?thesis using s'(4) that t by (auto simp: heap_at_def)
  qed
  then have "heap_at s' (root (merge cmp t ?n)) (merge cmp t ?n)"
    using s'(2) distinct_merge [OF d] by (simp add: heap_at_def)
  moreover have "frame_on (insert b (set_tree t)) s s'"
    using frame_on_trans [OF fr s'(3)] by simp
  ultimately show ?thesis using s'(1) h that by (simp add: skew_heap_insert_def heap_at_def)
qed

text \<open>Putting the merged children of \<open>b\<close> in its place below its parent.\<close>

definition set_child :: "'a \<Rightarrow> 'a \<Rightarrow> 'a option \<Rightarrow> 'a skew \<Rightarrow> 'a skew" where
  "set_child q b rep s =
     (if left s q = Some b then s\<lparr>left := (left s)(q := rep)\<rparr> else s\<lparr>right := (right s)(q := rep)\<rparr>)"

lemma skew_heap_remove_below:
  "tree_at s t \<Longrightarrow> distinct (inorder t) \<Longrightarrow> b \<in> set_tree t \<Longrightarrow> root t \<noteq> Some b \<Longrightarrow>
   \<exists>s'. skew_heap_remove cmp a b s = Some (a, s') \<and> root (remove cmp b t) = root t \<and>
     tree_at s' (remove cmp b t) \<and> frame_on (set_tree t) s s' \<and>
     (\<forall>c. root t = Some c \<longrightarrow> parent s' c = parent s c)"
proof (induction t)
  case (Node l x r)
  have here: "\<exists>s'. skew_heap_remove cmp a b s = Some (a, s') \<and> root (remove cmp b (Node l x r)) = Some x \<and>
     tree_at s' (remove cmp b (Node l x r)) \<and> frame_on (set_tree (Node l x r)) s s' \<and>
     parent s' x = parent s x" if k: "k = l \<or> k = r" "k = Node kl b kr" for k kl kr
  proof -
    let ?m = "merge cmp kl kr"
    have p: "parent s b = Some x" and kids: "left s b = root kl" "right s b = root kr"
      and tk: "tree_at s kl" "tree_at s kr" and d: "distinct (inorder kl @ inorder kr)"
      and x: "x \<noteq> b" "x \<notin> set_tree kl \<union> set_tree kr"
      using Node.prems k by auto
    obtain s1 where s1: "skew_heap_merge cmp (root kl) (root kr) s = Some (root ?m, s1)" "tree_at s1 ?m"
        "frame_on (set_tree kl \<union> set_tree kr) s s1"
      using skew_heap_merge_refines [OF tk d, of cmp] by auto
    let ?s2 = "set_parent (root ?m) (Some x) s1"
    define s3 where "s3 = set_child x b (root ?m) ?s2"
    have run: "skew_heap_remove cmp a b s = Some (a, s3)"
      using p kids s1(1) by (simp add: skew_heap_remove_def s3_def set_child_def Let_def)
    have m: "set_tree ?m = set_tree kl \<union> set_tree kr" "distinct (inorder ?m)"
      using distinct_merge [OF d] by auto
    have f3: "left s3 c = left s1 c" "right s3 c = right s1 c" if "c \<noteq> x" for c
      using that by (auto simp: s3_def set_child_def)
    have p3: "parent s3 c = (if root ?m = Some c then Some x else parent s1 c)" for c
      by (auto simp: s3_def set_child_def)
    have rm: "root ?m = Some c \<Longrightarrow> c \<in> set_tree kl \<union> set_tree kr" for c
      using root_in [of ?m c] m by simp
    have "\<forall>c\<in>set_tree ?m. c \<noteq> x" using x m(1) by auto
    then have tm: "tree_at s3 ?m"
      by (intro tree_at_frame [OF s1(2)]) (simp_all add: f3 p3 m)
    have same: "left s3 c = left s c \<and> right s3 c = right s c \<and> parent s3 c = parent s c"
      if "c \<notin> insert x (set_tree kl \<union> set_tree kr)" for c
      using that f3 [of c] p3 [of c] rm [of c] s1(3) by (auto simp: frame_on_def)
    have other: "tree_at s3 o'" if "tree_at s o'" "distinct (inorder o')"
        "set_tree o' \<inter> insert x (insert b (set_tree kl \<union> set_tree kr)) = {}" for o'
    proof -
      have "\<forall>c\<in>set_tree o'. c \<notin> insert x (set_tree kl \<union> set_tree kr)" using that(3) by blast
      then show ?thesis using same by (intro tree_at_frame [OF that(1) _ that(2)]) blast
    qed
    have fr: "frame_on (set_tree (Node l x r)) s s3"
      using f3 p3 rm s1(3) k by (auto simp: frame_on_def)
    have px: "parent s3 x = parent s x"
      using p3 [of x] rm [of x] x s1(3) by (auto simp: frame_on_def)
    have pm: "\<forall>c. root ?m = Some c \<longrightarrow> parent s3 c = Some x" using p3 by simp
    have lx: "left s1 x = root l" "right s1 x = root r"
      using s1(3) x Node.prems(1) by (auto simp: frame_on_def)
    have po: "parent s3 c = parent s c" if "c \<in> set_tree o'"
      "set_tree o' \<inter> insert x (insert b (set_tree kl \<union> set_tree kr)) = {}" for c o'
      using same [of c] that by blast
    show ?thesis
    proof (cases "k = l")
      case True
      then have l: "l = Node kl b kr" using k(2) by simp
      have o: "set_tree r \<inter> insert x (insert b (set_tree kl \<union> set_tree kr)) = {}"
        using Node.prems(2) True k(2) by auto
      have "\<forall>c. root r = Some c \<longrightarrow> parent s3 c = Some x"
        using po [OF root_in o] Node.prems(1) by simp
      moreover have "left s3 x = root ?m" "right s3 x = root r"
        using lx True arg_cong [OF k(2), of root] by (simp_all add: s3_def set_child_def)
      ultimately have "tree_at s3 (remove cmp b (Node l x r))"
        using other [OF _ _ o] Node.prems(1,2) tm pm x l by simp
      then show ?thesis using run fr px x l by auto
    next
      case False
      then have kr: "k = r" using k by simp
      then have r: "r = Node kl b kr" using k(2) by simp
      have nl: "b \<notin> set_tree l" using Node.prems(2) kr k(2) by auto
      have o: "set_tree l \<inter> insert x (insert b (set_tree kl \<union> set_tree kr)) = {}"
        using Node.prems(2) kr k(2) by auto
      have "\<forall>c. root l = Some c \<longrightarrow> parent s3 c = Some x"
        using po [OF root_in o] Node.prems(1) by simp
      moreover have "root l \<noteq> Some b" using nl root_in [of l b] by auto
      then have "left s3 x = root l" "right s3 x = root ?m"
        using lx kr arg_cong [OF k(2), of root] by (simp_all add: s3_def set_child_def)
      ultimately have "tree_at s3 (remove cmp b (Node l x r))"
        using other [OF _ _ o] Node.prems(1,2) tm pm x nl r by simp
      then show ?thesis using run fr px x nl r by auto
    qed
  qed
  have bx: "b \<noteq> x" using Node.prems(4) by simp
  consider "root l = Some b" | "root r = Some b"
    | "b \<in> set_tree l" "root l \<noteq> Some b" | "b \<in> set_tree r" "b \<notin> set_tree l" "root r \<noteq> Some b"
    using Node.prems(3) bx by auto
  then show ?case
  proof cases
    case 1
    then obtain kl kr where "l = Node kl b kr" by (cases l) auto
    then show ?thesis using here [of l kl kr] by simp
  next
    case 2
    then obtain kl kr where "r = Node kl b kr" by (cases r) auto
    then show ?thesis using here [of r kl kr] by simp
  next
    case 3
    obtain s' where s': "skew_heap_remove cmp a b s = Some (a, s')" "root (remove cmp b l) = root l"
      "tree_at s' (remove cmp b l)" "frame_on (set_tree l) s s'" "\<forall>c. root l = Some c \<longrightarrow> parent s' c = parent s c"
      using Node.IH(1) Node.prems 3 by auto
    have "tree_at s' r" by (rule tree_at_out [OF _ s'(4)]) (use Node.prems in auto)
    moreover have "\<forall>c\<in>set_tree r. parent s' c = parent s c"
      using s'(4) Node.prems(2) by (auto simp: frame_on_def)
    then have "\<forall>c. root r = Some c \<longrightarrow> parent s' c = Some x"
      using Node.prems(1) root_in [of r] by simp
    ultimately have "tree_at s' (remove cmp b (Node l x r))"
      using s' 3 bx Node.prems(1,2) by (simp add: frame_on_def)
    moreover have "frame_on (set_tree (Node l x r)) s s'" "parent s' x = parent s x"
      using s'(4) Node.prems(2) by (simp_all add: frame_on_def)
    ultimately show ?thesis using s'(1) bx 3 by simp
  next
    case 4
    obtain s' where s': "skew_heap_remove cmp a b s = Some (a, s')" "root (remove cmp b r) = root r"
      "tree_at s' (remove cmp b r)" "frame_on (set_tree r) s s'" "\<forall>c. root r = Some c \<longrightarrow> parent s' c = parent s c"
      using Node.IH(2) Node.prems 4 by auto
    have "tree_at s' l" by (rule tree_at_out [OF _ s'(4)]) (use Node.prems in auto)
    moreover have "\<forall>c\<in>set_tree l. parent s' c = parent s c"
      using s'(4) Node.prems(2) by (auto simp: frame_on_def)
    then have "\<forall>c. root l = Some c \<longrightarrow> parent s' c = Some x"
      using Node.prems(1) root_in [of l] by simp
    ultimately have "tree_at s' (remove cmp b (Node l x r))"
      using s' 4 bx Node.prems(1,2) by (simp add: frame_on_def)
    moreover have "frame_on (set_tree (Node l x r)) s s'" "parent s' x = parent s x"
      using s'(4) Node.prems(2) by (simp_all add: frame_on_def)
    ultimately show ?thesis using s'(1) bx 4 by simp
  qed
qed simp

lemma skew_heap_remove_refines:
  assumes h: "heap_at s a t" and b: "b \<in> set_tree t"
  obtains s' where "skew_heap_remove cmp a b s = Some (root (remove cmp b t), s')"
    "heap_at s' (root (remove cmp b t)) (remove cmp b t)" "frame_on (set_tree t) s s'"
proof (cases "root t = Some b")
  case False
  then show ?thesis
    using skew_heap_remove_below [of s t b cmp a] h b distinct_remove [of t cmp b] that
    by (auto simp: heap_at_def)
next
  case True
  then obtain l r where t: "t = Node l b r" by (cases t) auto
  let ?m = "merge cmp l r"
  have tl: "tree_at s l" "tree_at s r" "distinct (inorder l @ inorder r)" and p: "parent s b = None"
    using h t by (auto simp: heap_at_def)
  obtain s1 where s1: "skew_heap_merge cmp (root l) (root r) s = Some (root ?m, s1)" "tree_at s1 ?m"
      "frame_on (set_tree l \<union> set_tree r) s s1"
    using skew_heap_merge_refines [OF tl, of cmp] by auto
  let ?s = "set_parent (root ?m) None s1"
  have d: "distinct (inorder ?m)" by (rule distinct_merge [OF tl(3)])
  have "tree_at ?s ?m" by (rule tree_at_frame [OF s1(2)]) (use d in auto)
  then have "heap_at ?s (root ?m) ?m" using d by (simp add: heap_at_def)
  moreover have "frame_on (set_tree t) s ?s"
    using s1(3) t root_in [of ?m] by (fastforce simp: frame_on_def)
  ultimately show ?thesis
    using that s1(1) h t p by (simp add: skew_heap_remove_def heap_at_def Let_def)
qed

end
