(* ===== verification/Proc_Const.thy ===== *)
theory Proc_Const
  imports Prelude
begin

text \<open>The states, flags and limits of processes, \<open>Lab5/kern/process/proc.h\<close> and \<open>Lab5/libs/unistd.h\<close>.\<close>

datatype proc_state = PROC_UNINIT | PROC_SLEEPING | PROC_RUNNABLE | PROC_ZOMBIE

definition PROC_NAME_LEN :: nat where "PROC_NAME_LEN = 15"
definition MAX_PROCESS :: int where "MAX_PROCESS = 4096"
definition MAX_PID :: int where "MAX_PID = MAX_PROCESS * 2"

definition PF_EXITING :: "32 word" where "PF_EXITING = 1"
definition WT_INTERRUPTED :: "32 word" where "WT_INTERRUPTED = 0x80000000"
definition WT_CHILD :: "32 word" where "WT_CHILD = 1 OR WT_INTERRUPTED"
definition CLONE_VM :: "32 word" where "CLONE_VM = 0x100"

lemma MAX_PID_eq: "MAX_PID = 8192" by (simp add: MAX_PID_def MAX_PROCESS_def)

lemma WT_CHILD_nonzero: "WT_CHILD \<noteq> 0" by (simp add: WT_CHILD_def WT_INTERRUPTED_def)

end
