(* ===== verification/Sched_Class.thy ===== *)
theory Sched_Class
  imports Skew_Heap KList Proc_Const
begin

text \<open>
  The scheduling classes of \<open>lab8/kern/schedule\<close>: the interface \<open>struct sched_class\<close>
  (\<open>sched.h\<close>) as a record of operations and as a locale of the laws \<open>sched.c\<close> relies on,
  the round-robin class (\<open>default_sched_c\<close>) and the stride class
  (\<open>default_sched_stride.c\<close>), and the interpretations of the locale by both.
\<close>

subsection \<open>Processes and run queues\<close>

text \<open>
  The fields of \<open>struct proc_struct\<close> that the scheduler uses; a process is named by its
  address. There is one run queue, so \<open>proc->rq\<close> is whether it has been set to it.
\<close>

record sproc =
  state :: proc_state
  runs :: "32 word"
  need_resched :: bool
  wait_state :: "32 word"
  on_rq :: bool
  time_slice :: int
  lab6_stride :: "32 word"
  lab6_priority :: "32 word"

text \<open>
  \<open>struct run_queue\<close> and the memory it points into: the \<open>run_link\<close> entries (\<open>None\<close> is the
  head \<open>rq->run_list\<close>) and the \<open>lab6_run_pool\<close> entries of the processes.
\<close>

record sched_mem =
  procs :: "nat \<Rightarrow> sproc"
  run_links :: "nat option links"
  pool_nodes :: "nat skew"
  lab6_run_pool :: "nat option"
  proc_num :: "32 word"
  max_time_slice :: int

definition set_proc :: "nat \<Rightarrow> (sproc \<Rightarrow> sproc) \<Rightarrow> sched_mem \<Rightarrow> sched_mem" where
  "set_proc p f m = m\<lparr>procs := (procs m)(p := f (procs m p))\<rparr>"

record sched_class =
  sc_name :: string
  sc_init :: "sched_mem \<Rightarrow> sched_mem"
  sc_enqueue :: "nat \<Rightarrow> sched_mem \<Rightarrow> sched_mem res"
  sc_dequeue :: "nat \<Rightarrow> sched_mem \<Rightarrow> sched_mem res"
  sc_pick_next :: "sched_mem \<Rightarrow> nat option \<times> sched_mem"
  sc_proc_tick :: "nat \<Rightarrow> sched_mem \<Rightarrow> sched_mem"

subsection \<open>Round robin\<close>

definition RR_init :: "sched_mem \<Rightarrow> sched_mem" where
  "RR_init m = m\<lparr>run_links := list_init None (run_links m), proc_num := 0\<rparr>"

definition fill_slice :: "nat \<Rightarrow> sched_mem \<Rightarrow> sched_mem" where
  "fill_slice p m =
     (if time_slice (procs m p) = 0 \<or> time_slice (procs m p) > max_time_slice m
      then set_proc p (time_slice_update (\<lambda>_. max_time_slice m)) m else m)"

definition RR_enqueue :: "nat \<Rightarrow> sched_mem \<Rightarrow> sched_mem res" where
  "RR_enqueue p m =
     kassert (list_empty (run_links m) (Some p))
       (let m1 = fill_slice p (m\<lparr>run_links := list_add_before None (Some p) (run_links m)\<rparr>);
            m2 = set_proc p (on_rq_update (\<lambda>_. True)) m1
        in Inr (m2\<lparr>proc_num := proc_num m2 + 1\<rparr>))"

definition RR_dequeue :: "nat \<Rightarrow> sched_mem \<Rightarrow> sched_mem res" where
  "RR_dequeue p m =
     kassert (\<not> list_empty (run_links m) (Some p) \<and> on_rq (procs m p))
       (Inr (m\<lparr>run_links := list_del_init (Some p) (run_links m), proc_num := proc_num m - 1\<rparr>))"

definition RR_pick_next :: "sched_mem \<Rightarrow> nat option \<times> sched_mem" where
  "RR_pick_next m =
     (let le = list_next (run_links m) None
      in (if le \<noteq> None then le else None, m))"

definition RR_proc_tick :: "nat \<Rightarrow> sched_mem \<Rightarrow> sched_mem" where
  "RR_proc_tick p m =
     (let m1 = (if time_slice (procs m p) > 0
                then set_proc p (\<lambda>r. r\<lparr>time_slice := time_slice r - 1\<rparr>) m else m)
      in if time_slice (procs m1 p) = 0
         then set_proc p (need_resched_update (\<lambda>_. True)) m1 else m1)"

definition RR_scheduler :: sched_class where
  "RR_scheduler =
     \<lparr>sc_name = ''RR_scheduler'', sc_init = RR_init, sc_enqueue = RR_enqueue,
      sc_dequeue = RR_dequeue, sc_pick_next = RR_pick_next, sc_proc_tick = RR_proc_tick\<rparr>"

subsection \<open>Stride scheduling\<close>

definition BIG_STRIDE :: "32 word" where "BIG_STRIDE = push_bit 30 1"

text \<open>The difference of two unsigned strides, read as a signed number.\<close>

definition proc_stride_comp_f :: "(nat \<Rightarrow> sproc) \<Rightarrow> nat compare_f" where
  "proc_stride_comp_f ps p q =
     (let c = sint (lab6_stride (ps p) - lab6_stride (ps q))
      in if c > 0 then 1 else if c = 0 then 0 else - 1)"

definition stride_init :: "sched_mem \<Rightarrow> sched_mem" where
  "stride_init m =
     m\<lparr>run_links := list_init None (run_links m), lab6_run_pool := None, proc_num := 0\<rparr>"

definition with_pool :: "(nat option \<times> nat skew) option \<Rightarrow> sched_mem \<Rightarrow> sched_mem res" where
  "with_pool r m =
     (case r of None \<Rightarrow> Inl Out_Of_Fuel
      | Some (h, s) \<Rightarrow> Inr (m\<lparr>pool_nodes := s, lab6_run_pool := h\<rparr>))"

definition stride_enqueue :: "nat \<Rightarrow> sched_mem \<Rightarrow> sched_mem res" where
  "stride_enqueue p m =
     kbind (with_pool (skew_heap_insert (proc_stride_comp_f (procs m)) (lab6_run_pool m) p (pool_nodes m)) m)
       (\<lambda>m1. let m2 = set_proc p (on_rq_update (\<lambda>_. True)) (fill_slice p m1)
             in Inr (m2\<lparr>proc_num := proc_num m2 + 1\<rparr>))"

definition stride_dequeue :: "nat \<Rightarrow> sched_mem \<Rightarrow> sched_mem res" where
  "stride_dequeue p m =
     kassert (on_rq (procs m p) \<and> proc_num m > 0)
       (kbind (with_pool (skew_heap_remove (proc_stride_comp_f (procs m)) (lab6_run_pool m) p (pool_nodes m)) m)
          (\<lambda>m1. Inr (m1\<lparr>proc_num := proc_num m1 - 1\<rparr>)))"

definition stride_pick_next :: "sched_mem \<Rightarrow> nat option \<times> sched_mem" where
  "stride_pick_next m =
     (case lab6_run_pool m of
        None \<Rightarrow> (None, m)
      | Some p \<Rightarrow>
          (Some p,
           if lab6_priority (procs m p) \<noteq> 0
           then set_proc p (\<lambda>r. r\<lparr>lab6_stride := lab6_stride r + BIG_STRIDE div lab6_priority r\<rparr>) m
           else set_proc p (\<lambda>r. r\<lparr>lab6_stride := lab6_stride r + BIG_STRIDE\<rparr>) m))"

definition stride_proc_tick :: "nat \<Rightarrow> sched_mem \<Rightarrow> sched_mem" where
  "stride_proc_tick p m =
     (let m1 = (if time_slice (procs m p) > 0
                then set_proc p (\<lambda>r. r\<lparr>time_slice := time_slice r - 1\<rparr>) m else m)
      in if time_slice (procs m1 p) = 0
         then set_proc p (need_resched_update (\<lambda>_. True)) m1 else m1)"

definition stride_scheduler :: sched_class where
  "stride_scheduler =
     \<lparr>sc_name = ''stride_scheduler'', sc_init = stride_init, sc_enqueue = stride_enqueue,
      sc_dequeue = stride_dequeue, sc_pick_next = stride_pick_next, sc_proc_tick = stride_proc_tick\<rparr>"

subsection \<open>The contract of a scheduling class\<close>

text \<open>
  \<open>same_rq\<close>: the parts a class owns are the same; \<open>keeps\<close>: the parts \<open>sched.c\<close> owns are.
\<close>

definition same_rq :: "sched_mem \<Rightarrow> sched_mem \<Rightarrow> bool" where
  "same_rq m m' \<longleftrightarrow> run_links m' = run_links m \<and> pool_nodes m' = pool_nodes m \<and>
     lab6_run_pool m' = lab6_run_pool m \<and> proc_num m' = proc_num m \<and>
     (\<forall>p. on_rq (procs m' p) = on_rq (procs m p))"

definition keeps :: "sched_mem \<Rightarrow> sched_mem \<Rightarrow> bool" where
  "keeps m m' \<longleftrightarrow> (\<forall>p. state (procs m' p) = state (procs m p) \<and> runs (procs m' p) = runs (procs m p) \<and>
     wait_state (procs m' p) = wait_state (procs m p) \<and> need_resched (procs m' p) = need_resched (procs m p))"

lemma keeps_refl [simp]: "keeps m m" by (simp add: keeps_def)

lemma keeps_trans: "keeps a b \<Longrightarrow> keeps b c \<Longrightarrow> keeps a c" by (simp add: keeps_def)

definition fresh_rq :: "sched_mem \<Rightarrow> bool" where
  "fresh_rq m \<longleftrightarrow> (\<forall>p. ring (run_links m) (Some p) [])"

locale scheduling_class =
  fixes cls :: sched_class
    and inv :: "sched_mem \<Rightarrow> bool"
    and pool :: "sched_mem \<Rightarrow> nat set"
  assumes frame: "same_rq m m' \<Longrightarrow> inv m' = inv m \<and> pool m' = pool m"
    and init: "fresh_rq m \<Longrightarrow> inv (sc_init cls m) \<and> pool (sc_init cls m) = {} \<and> procs (sc_init cls m) = procs m"
    and pool_finite: "inv m \<Longrightarrow> finite (pool m)"
    and enqueue: "inv m \<Longrightarrow> p \<notin> pool m \<Longrightarrow> card (pool m) < 2 ^ 32 - 1 \<Longrightarrow>
      \<exists>m'. sc_enqueue cls p m = Inr m' \<and> inv m' \<and> pool m' = insert p (pool m) \<and> keeps m m'"
    and dequeue: "inv m \<Longrightarrow> p \<in> pool m \<Longrightarrow>
      \<exists>m'. sc_dequeue cls p m = Inr m' \<and> inv m' \<and> pool m' = pool m - {p} \<and> keeps m m'"
    and pick: "inv m \<Longrightarrow> sc_pick_next cls m = (r, m') \<Longrightarrow>
      (case r of None \<Rightarrow> pool m = {} | Some p \<Rightarrow> p \<in> pool m) \<and> inv m' \<and> pool m' = pool m \<and> keeps m m'"
    and tick: "inv m \<Longrightarrow> inv (sc_proc_tick cls p m) \<and> pool (sc_proc_tick cls p m) = pool m \<and>
      (\<forall>q. state (procs (sc_proc_tick cls p m) q) = state (procs m q))"

lemma same_rq_fill_slice [simp]: "run_links (fill_slice p m) = run_links m" "pool_nodes (fill_slice p m) = pool_nodes m"
  "lab6_run_pool (fill_slice p m) = lab6_run_pool m" "proc_num (fill_slice p m) = proc_num m"
  "on_rq (procs (fill_slice p m) q) = on_rq (procs m q)" "lab6_stride (procs (fill_slice p m) q) = lab6_stride (procs m q)"
  "lab6_priority (procs (fill_slice p m) q) = lab6_priority (procs m q)"
  by (simp_all add: fill_slice_def set_proc_def)

lemma keeps_fill_slice [simp]: "keeps m (fill_slice p m)"
  by (simp add: fill_slice_def set_proc_def keeps_def)

lemma set_proc_simps [simp]: "run_links (set_proc p f m) = run_links m" "pool_nodes (set_proc p f m) = pool_nodes m"
  "lab6_run_pool (set_proc p f m) = lab6_run_pool m" "proc_num (set_proc p f m) = proc_num m"
  "max_time_slice (set_proc p f m) = max_time_slice m"
  "procs (set_proc p f m) q = (if q = p then f (procs m p) else procs m q)"
  by (simp_all add: set_proc_def)

subsection \<open>Round robin meets the contract\<close>

definition rr_at :: "sched_mem \<Rightarrow> nat list \<Rightarrow> bool" where
  "rr_at m xs \<longleftrightarrow> ring (run_links m) None (map Some xs) \<and>
     (\<forall>p. p \<notin> set xs \<longrightarrow> ring (run_links m) (Some p) []) \<and> (\<forall>p\<in>set xs. on_rq (procs m p)) \<and>
     proc_num m = of_nat (length xs)"

definition rr_inv :: "sched_mem \<Rightarrow> bool" where
  "rr_inv m \<longleftrightarrow> (\<exists>xs. rr_at m xs)"

definition rr_pool :: "sched_mem \<Rightarrow> nat set" where
  "rr_pool m = {p. \<not> list_empty (run_links m) (Some p)}"

lemma rr_pool_set: "rr_at m xs \<Longrightarrow> rr_pool m = set xs"
proof -
  assume at: "rr_at m xs"
  have "\<not> list_empty (run_links m) (Some p)" if "p \<in> set xs" for p
  proof -
    from that obtain ys zs where xs: "xs = ys @ p # zs" by (auto simp: in_set_conv_decomp)
    with at have r: "ring (run_links m) None (map Some ys @ Some p # map Some zs)" by (simp add: rr_at_def)
    have "Some p \<notin> set (map Some zs @ [None])" using ring_distinct [OF r] by auto
    moreover have "lnext (run_links m) (Some p) = hd (map Some zs @ [None])" by (rule ring_next [OF r])
    ultimately show ?thesis by (cases zs) (auto simp: list_empty_def)
  qed
  with at show ?thesis by (auto simp: rr_pool_def rr_at_def ring_empty_iff)
qed

lemma rr_enqueue_at:
  assumes at: "rr_at m xs" and p: "p \<notin> set xs"
  obtains m' where "RR_enqueue p m = Inr m'" "rr_at m' (xs @ [p])" "keeps m m'"
proof -
  let ?l = "list_add_before None (Some p) (run_links m)"
  let ?m2 = "set_proc p (on_rq_update (\<lambda>_. True)) (fill_slice p (m\<lparr>run_links := ?l\<rparr>))"
  let ?m = "?m2\<lparr>proc_num := proc_num ?m2 + 1\<rparr>"
  have r: "ring (run_links m) None (map Some xs)" using at by (simp add: rr_at_def)
  have e: "list_empty (run_links m) (Some p)" using at p by (auto simp: rr_at_def ring_empty_iff)
  have "ring ?l None (map Some xs @ [Some p])" by (rule ring_add_before_head [OF r]) (use p in auto)
  moreover have "ring ?l (Some q) []" if "q \<notin> set (xs @ [p])" for q
  proof -
    have "ring (run_links m) (Some q) []" using at that by (simp add: rr_at_def)
    moreover have "last (None # map Some xs) \<in> set (None # map Some xs)" by (rule last_in_set) simp
    ultimately show ?thesis
      unfolding list_add_before_after [OF r] using that p
      by (subst ring_frame_add_after [OF r]) auto
  qed
  ultimately have "rr_at ?m (xs @ [p])" using at by (auto simp: rr_at_def)
  moreover have "keeps m ?m" by (auto simp: keeps_def fill_slice_def)
  ultimately show ?thesis using that e by (simp add: RR_enqueue_def Let_def)
qed

lemma rr_dequeue_at:
  assumes at: "rr_at m (xs @ p # ys)"
  obtains m' where "RR_dequeue p m = Inr m'" "rr_at m' (xs @ ys)" "keeps m m'"
proof -
  let ?l = "list_del_init (Some p) (run_links m)"
  have r: "ring (run_links m) None (map Some xs @ Some p # map Some ys)" using at by (simp add: rr_at_def)
  note d = ring_distinct [OF r]
  have "ring ?l None (map Some (xs @ ys))" using ring_del_init(1) [OF r] by simp
  moreover have "ring ?l (Some q) []" if q: "q \<notin> set (xs @ ys)" for q
  proof (cases "q = p")
    case True
    then show ?thesis using ring_del_init(2) [OF r] by simp
  next
    case False
    then have "ring (run_links m) (Some q) []" using at q by (simp add: rr_at_def)
    then have "ring (list_del (Some p) (run_links m)) (Some q) []"
      using False q by (subst ring_frame_del [OF r]) auto
    then show ?thesis using False by (auto simp: ring_def list_del_init_def list_init_def set_next_def set_prev_def)
  qed
  moreover have "p \<notin> set (xs @ ys)" using d by auto
  ultimately have "rr_at (m\<lparr>run_links := ?l, proc_num := proc_num m - 1\<rparr>) (xs @ ys)"
    using at by (auto simp: rr_at_def)
  moreover have "p \<in> rr_pool m" using rr_pool_set [OF at] by simp
  then have "\<not> list_empty (run_links m) (Some p) \<and> on_rq (procs m p)"
    using at by (simp add: rr_pool_def rr_at_def)
  ultimately show ?thesis using that by (simp add: RR_dequeue_def keeps_def)
qed

lemma rr_pick_at: "rr_at m xs \<Longrightarrow> RR_pick_next m = (if xs = [] then None else Some (hd xs), m)"
  using ring_next_head [of "run_links m" None "map Some xs"]
  by (cases xs) (auto simp: RR_pick_next_def rr_at_def list_next_def)

lemma rr_frame: "same_rq m m' \<Longrightarrow> rr_at m' xs = rr_at m xs"
  by (simp add: same_rq_def rr_at_def)

lemma rr_tick_same: "same_rq m (RR_proc_tick p m)" "state (procs (RR_proc_tick p m) q) = state (procs m q)"
  by (simp_all add: same_rq_def RR_proc_tick_def Let_def)

interpretation rr: scheduling_class RR_scheduler rr_inv rr_pool
proof
  show "rr_inv m' = rr_inv m \<and> rr_pool m' = rr_pool m" if "same_rq m m'" for m m'
    using rr_frame [OF that] that by (simp add: rr_inv_def rr_pool_def same_rq_def)
next
  fix m assume f: "fresh_rq m"
  have "ring (run_links m) (Some p) []" for p using f by (simp add: fresh_rq_def)
  then have "ring (list_init None (run_links m)) (Some p) []" for p
    by (auto simp: ring_def list_init_def set_next_def set_prev_def)
  then have "rr_at (RR_init m) []" by (simp add: rr_at_def RR_init_def ring_list_init)
  then show "rr_inv (sc_init RR_scheduler m) \<and> rr_pool (sc_init RR_scheduler m) = {} \<and>
    procs (sc_init RR_scheduler m) = procs m"
    using rr_pool_set by (auto simp: RR_scheduler_def rr_inv_def RR_init_def)
next
  show "finite (rr_pool m)" if "rr_inv m" for m
    using that rr_pool_set by (auto simp: rr_inv_def)
next
  fix m p assume "rr_inv m" "p \<notin> rr_pool m"
  then obtain xs where at: "rr_at m xs" "p \<notin> set xs" using rr_pool_set by (auto simp: rr_inv_def)
  obtain m' where "RR_enqueue p m = Inr m'" "rr_at m' (xs @ [p])" "keeps m m'" by (rule rr_enqueue_at [OF at])
  then show "\<exists>m'. sc_enqueue RR_scheduler p m = Inr m' \<and> rr_inv m' \<and> rr_pool m' = insert p (rr_pool m) \<and> keeps m m'"
    using rr_pool_set [OF at(1)] rr_pool_set [of m' "xs @ [p]"] by (auto simp: rr_inv_def RR_scheduler_def)
next
  fix m p assume "rr_inv m" "p \<in> rr_pool m"
  then obtain xs ys where at: "rr_at m (xs @ p # ys)" using rr_pool_set by (fastforce simp: rr_inv_def in_set_conv_decomp)
  have "p \<notin> set (xs @ ys)" using at by (auto simp: rr_at_def ring_def)
  moreover obtain m' where "RR_dequeue p m = Inr m'" "rr_at m' (xs @ ys)" "keeps m m'" by (rule rr_dequeue_at [OF at])
  ultimately show "\<exists>m'. sc_dequeue RR_scheduler p m = Inr m' \<and> rr_inv m' \<and> rr_pool m' = rr_pool m - {p} \<and> keeps m m'"
    using rr_pool_set [OF at] rr_pool_set [of m' "xs @ ys"] by (auto simp: rr_inv_def RR_scheduler_def)
next
  fix m r m' assume "rr_inv m" and p: "sc_pick_next RR_scheduler m = (r, m')"
  then obtain xs where at: "rr_at m xs" by (auto simp: rr_inv_def)
  show "(case r of None \<Rightarrow> rr_pool m = {} | Some p \<Rightarrow> p \<in> rr_pool m) \<and> rr_inv m' \<and> rr_pool m' = rr_pool m \<and> keeps m m'"
    using p rr_pick_at [OF at] rr_pool_set [OF at] at by (auto simp: RR_scheduler_def rr_inv_def)
next
  fix m p assume "rr_inv m"
  then show "rr_inv (sc_proc_tick RR_scheduler p m) \<and> rr_pool (sc_proc_tick RR_scheduler p m) = rr_pool m \<and>
      (\<forall>q. state (procs (sc_proc_tick RR_scheduler p m) q) = state (procs m q))"
    using rr_frame [OF rr_tick_same(1)] rr_tick_same
    by (simp add: RR_scheduler_def rr_inv_def rr_pool_def same_rq_def)
qed

subsection \<open>Stride scheduling meets the contract\<close>

lemma tree_at_unique: "tree_at s t \<Longrightarrow> tree_at s u \<Longrightarrow> root t = root u \<Longrightarrow> t = u"
proof (induction t arbitrary: u)
  case Leaf
  then show ?case by (cases u) auto
next
  case (Node l x r)
  then obtain l' r' where "u = Node l' x r'" by (cases u) auto
  with Node show ?case by auto
qed

definition stride_at :: "sched_mem \<Rightarrow> nat tree \<Rightarrow> bool" where
  "stride_at m t \<longleftrightarrow> heap_at (pool_nodes m) (lab6_run_pool m) t \<and> (\<forall>p\<in>set_tree t. on_rq (procs m p)) \<and>
     size t < 2 ^ 32 \<and> proc_num m = of_nat (size t)"

definition stride_inv :: "sched_mem \<Rightarrow> bool" where
  "stride_inv m \<longleftrightarrow> (\<exists>t. stride_at m t)"

definition stride_pool :: "sched_mem \<Rightarrow> nat set" where
  "stride_pool m = {p. \<exists>t. stride_at m t \<and> p \<in> set_tree t}"

lemma stride_at_unique: "stride_at m t \<Longrightarrow> stride_at m u \<Longrightarrow> t = u"
  by (auto simp: stride_at_def heap_at_def intro: tree_at_unique)

lemma stride_pool_set: "stride_at m t \<Longrightarrow> stride_pool m = set_tree t"
  using stride_at_unique by (auto simp: stride_pool_def)

lemma size_mset_tree: "size (mset_tree t) = size t"
  by (induction t) auto

lemma card_set_tree: "distinct (inorder t) \<Longrightarrow> card (set_tree t) = size t"
  by (metis distinct_card length_inorder set_inorder)

lemma stride_enqueue_at:
  assumes at: "stride_at m t" and p: "p \<notin> set_tree t" and c: "Suc (size t) < 2 ^ 32"
  defines "u \<equiv> merge (proc_stride_comp_f (procs m)) t (Node Leaf p Leaf)"
  obtains m' where "stride_enqueue p m = Inr m'" "stride_at m' u" "keeps m m'"
    "\<forall>q. lab6_stride (procs m' q) = lab6_stride (procs m q) \<and> lab6_priority (procs m' q) = lab6_priority (procs m q)"
proof -
  obtain s' where s': "skew_heap_insert (proc_stride_comp_f (procs m)) (lab6_run_pool m) p (pool_nodes m) = Some (root u, s')"
      "heap_at s' (root u) u"
    using skew_heap_insert_refines [of "pool_nodes m" "lab6_run_pool m" t p "proc_stride_comp_f (procs m)"] at p
    by (auto simp: stride_at_def u_def)
  let ?m1 = "m\<lparr>pool_nodes := s', lab6_run_pool := root u\<rparr>"
  let ?m2 = "set_proc p (on_rq_update (\<lambda>_. True)) (fill_slice p ?m1)"
  let ?m = "?m2\<lparr>proc_num := proc_num ?m2 + 1\<rparr>"
  have run: "stride_enqueue p m = Inr ?m" using s'(1) by (simp add: stride_enqueue_def with_pool_def Let_def)
  have "size u = Suc (size t)" using size_mset_tree [of u] size_mset_tree [of t] by (simp add: u_def)
  then have "stride_at ?m u" using at s'(2) c by (auto simp: stride_at_def u_def)
  moreover have "keeps m ?m" by (auto simp: keeps_def fill_slice_def)
  ultimately show ?thesis using run that [of ?m] by simp
qed

lemma stride_dequeue_at:
  assumes at: "stride_at m t" and p: "p \<in> set_tree t"
  defines "u \<equiv> remove (proc_stride_comp_f (procs m)) p t"
  obtains m' where "stride_dequeue p m = Inr m'" "stride_at m' u" "procs m' = procs m"
proof -
  obtain s' where s': "skew_heap_remove (proc_stride_comp_f (procs m)) (lab6_run_pool m) p (pool_nodes m) = Some (root u, s')"
      "heap_at s' (root u) u"
    using skew_heap_remove_refines [of "pool_nodes m" "lab6_run_pool m" t p "proc_stride_comp_f (procs m)"] at p
    by (auto simp: stride_at_def u_def)
  have d: "distinct (inorder t)" using at by (simp add: stride_at_def heap_at_def)
  have t0: "0 < size t" using p by (cases t) auto
  then have n: "proc_num m > 0" using at t0
    by (simp add: stride_at_def word_less_nat_alt unat_of_nat_small)
  have "size u = size t - 1" using size_mset_tree [of u] size_mset_tree [of t] mset_remove [OF d] p
    by (simp add: u_def size_Diff_singleton)
  moreover have "size t - 1 < 2 ^ 32" using at unfolding stride_at_def by linarith
  ultimately have "stride_at (m\<lparr>pool_nodes := s', lab6_run_pool := root u, proc_num := proc_num m - 1\<rparr>) u"
    using at s'(2) t0 set_remove [OF d] by (simp add: stride_at_def u_def of_nat_diff)
  then show ?thesis using that s'(1) n at p
    by (simp add: stride_dequeue_def with_pool_def stride_at_def)
qed

lemma stride_pick_cases: 
  "stride_pick_next m = (r, m') \<Longrightarrow> r = lab6_run_pool m \<and> same_rq m m' \<and> keeps m m'"
  by (auto simp: stride_pick_next_def same_rq_def keeps_def split: option.splits if_splits)

lemma stride_frame: "same_rq m m' \<Longrightarrow> stride_at m' t = stride_at m t"
  by (simp add: same_rq_def stride_at_def)

lemma stride_tick_same: "same_rq m (stride_proc_tick p m)" "state (procs (stride_proc_tick p m) q) = state (procs m q)"
  by (simp_all add: same_rq_def stride_proc_tick_def Let_def)

lemma stride_inv_frame: "same_rq m m' \<Longrightarrow> stride_inv m' = stride_inv m \<and> stride_pool m' = stride_pool m"
  using stride_frame by (simp add: stride_inv_def stride_pool_def)

interpretation stride: scheduling_class stride_scheduler stride_inv stride_pool
proof
  show "stride_inv m' = stride_inv m \<and> stride_pool m' = stride_pool m" if "same_rq m m'" for m m'
    by (rule stride_inv_frame [OF that])
next
  fix m
  have "stride_at (stride_init m) Leaf" by (simp add: stride_at_def stride_init_def heap_at_def)
  then show "stride_inv (sc_init stride_scheduler m) \<and> stride_pool (sc_init stride_scheduler m) = {} \<and>
    procs (sc_init stride_scheduler m) = procs m"
    using stride_pool_set by (auto simp: stride_scheduler_def stride_inv_def stride_init_def)
next
  show "finite (stride_pool m)" if "stride_inv m" for m
    using that stride_pool_set by (auto simp: stride_inv_def)
next
  fix m p assume "stride_inv m" "p \<notin> stride_pool m" "card (stride_pool m) < 2 ^ 32 - 1"
  then obtain t where at: "stride_at m t" "p \<notin> set_tree t" and c: "card (set_tree t) < 2 ^ 32 - 1"
    using stride_pool_set by (auto simp: stride_inv_def)
  have "Suc (size t) < 2 ^ 32" using card_set_tree [of t] at c by (simp add: stride_at_def heap_at_def)
  then obtain m' where "stride_enqueue p m = Inr m'"
      "stride_at m' (merge (proc_stride_comp_f (procs m)) t (Node Leaf p Leaf))" "keeps m m'"
    using stride_enqueue_at [OF at] by auto
  then show "\<exists>m'. sc_enqueue stride_scheduler p m = Inr m' \<and> stride_inv m' \<and>
      stride_pool m' = insert p (stride_pool m) \<and> keeps m m'"
    using stride_pool_set [OF at(1)] stride_pool_set [of m'] by (auto simp: stride_inv_def stride_scheduler_def)
next
  fix m p assume "stride_inv m" "p \<in> stride_pool m"
  then obtain t where at: "stride_at m t" "p \<in> set_tree t" using stride_pool_set by (auto simp: stride_inv_def)
  obtain m' where "stride_dequeue p m = Inr m'"
      "stride_at m' (remove (proc_stride_comp_f (procs m)) p t)" "procs m' = procs m"
    using stride_dequeue_at [OF at] by auto
  moreover have "set_tree (remove (proc_stride_comp_f (procs m)) p t) = set_tree t - {p}"
    by (rule set_remove) (use at in \<open>simp add: stride_at_def heap_at_def\<close>)
  ultimately show "\<exists>m'. sc_dequeue stride_scheduler p m = Inr m' \<and> stride_inv m' \<and>
      stride_pool m' = stride_pool m - {p} \<and> keeps m m'"
    using stride_pool_set [OF at(1)] stride_pool_set [of m']
    by (auto simp: stride_inv_def stride_scheduler_def keeps_def)
next
  fix m r m' assume "stride_inv m" and p: "sc_pick_next stride_scheduler m = (r, m')"
  then obtain t where at: "stride_at m t" by (auto simp: stride_inv_def)
  have r: "r = root t" "same_rq m m'" "keeps m m'"
    using p at stride_pick_cases by (simp_all add: stride_scheduler_def stride_at_def heap_at_def)
  show "(case r of None \<Rightarrow> stride_pool m = {} | Some p \<Rightarrow> p \<in> stride_pool m) \<and> stride_inv m' \<and>
      stride_pool m' = stride_pool m \<and> keeps m m'"
    using r stride_pool_set [OF at] stride_inv_frame [OF r(2)] \<open>stride_inv m\<close> by (cases t) auto
next
  fix m p assume "stride_inv m"
  then show "stride_inv (sc_proc_tick stride_scheduler p m) \<and>
      stride_pool (sc_proc_tick stride_scheduler p m) = stride_pool m \<and>
      (\<forall>q. state (procs (sc_proc_tick stride_scheduler p m) q) = state (procs m q))"
    using stride_inv_frame [OF stride_tick_same(1)] stride_tick_same by (simp add: stride_scheduler_def)
qed

subsection \<open>Stride arithmetic\<close>

text \<open>The distance of a stride from a base, and the window in which the signed comparison is right.\<close>

definition rank :: "32 word \<Rightarrow> sched_mem \<Rightarrow> nat \<Rightarrow> nat" where
  "rank b m p = unat (lab6_stride (procs m p) - b)"

definition in_window :: "32 word \<Rightarrow> sched_mem \<Rightarrow> nat set \<Rightarrow> bool" where
  "in_window b m A \<longleftrightarrow> (\<forall>p\<in>A. rank b m p \<le> unat BIG_STRIDE)"

lemma unat_BIG_STRIDE [simp]: "unat BIG_STRIDE = 2 ^ 30"
  by (simp add: BIG_STRIDE_def push_bit_eq_mult)

lemma sint_diff_window:
  fixes x y :: "32 word"
  assumes "unat x \<le> 2 ^ 30" "unat y \<le> 2 ^ 30"
  shows "sint (x - y) = int (unat x) - int (unat y)"
proof -
  have "sint (word_of_int (int (unat x) - int (unat y)) :: 32 word) = signed_take_bit 31 (int (unat x) - int (unat y))"
    by (simp only: signed_of_int) simp
  then have "sint (x - y) = signed_take_bit 31 (int (unat x) - int (unat y))" by simp
  also have "\<dots> = int (unat x) - int (unat y)"
  proof (rule signed_take_bit_int_eq_self)
    have "int (unat x) \<le> 2 ^ 30" "int (unat y) \<le> 2 ^ 30"
      using assms by (metis of_nat_le_iff of_nat_numeral of_nat_power)+
    then have "uint x \<le> 1073741824" "uint y \<le> 1073741824" by simp_all
    then have "- 2147483648 \<le> uint x - uint y \<and> uint x - uint y < 2147483648"
      using uint_ge_0 [of x] uint_ge_0 [of y] by linarith
    then show "- (2 ^ 31) \<le> int (unat x) - int (unat y)" and "int (unat x) - int (unat y) < 2 ^ 31"
      by simp_all
  qed
  finally show ?thesis .
qed

lemma window_decides: "in_window b m A \<Longrightarrow> decides (proc_stride_comp_f (procs m)) (rank b m) A"
proof -
  assume w: "in_window b m A"
  show ?thesis unfolding decides_def
  proof (intro ballI)
    fix p q assume "p \<in> A" "q \<in> A"
    then have "sint ((lab6_stride (procs m p) - b) - (lab6_stride (procs m q) - b)) = int (rank b m p) - int (rank b m q)"
      using w sint_diff_window [of "lab6_stride (procs m p) - b" "lab6_stride (procs m q) - b"]
      by (simp add: in_window_def rank_def)
    then show "(proc_stride_comp_f (procs m) p q = - 1) = (rank b m p < rank b m q)"
      by (simp add: proc_stride_comp_f_def Let_def)
  qed
qed

lemma heap_by_mono:
  "heap_by f t \<Longrightarrow> \<forall>x\<in>set_tree t. \<forall>y\<in>set_tree t. f x \<le> f y \<longrightarrow> g x \<le> g y \<Longrightarrow> heap_by g t"
  by (induction t) auto

definition stride_ordered :: "32 word \<Rightarrow> sched_mem \<Rightarrow> nat tree \<Rightarrow> bool" where
  "stride_ordered b m t \<longleftrightarrow> stride_at m t \<and> heap_by (rank b m) t \<and> in_window b m (set_tree t)"

lemma stride_enqueue_ordered:
  assumes o: "stride_ordered b m t" and p: "p \<notin> set_tree t" "rank b m p \<le> 2 ^ 30" and c: "Suc (size t) < 2 ^ 32"
  obtains m' where "stride_enqueue p m = Inr m'"
    "stride_ordered b m' (merge (proc_stride_comp_f (procs m)) t (Node Leaf p Leaf))" "keeps m m'"
    "\<forall>q. lab6_stride (procs m' q) = lab6_stride (procs m q) \<and> lab6_priority (procs m' q) = lab6_priority (procs m q)"
proof -
  let ?u = "merge (proc_stride_comp_f (procs m)) t (Node Leaf p Leaf)"
  obtain m' where m': "stride_enqueue p m = Inr m'" "stride_at m' ?u" "keeps m m'"
      "\<forall>q. lab6_stride (procs m' q) = lab6_stride (procs m q) \<and> lab6_priority (procs m' q) = lab6_priority (procs m q)"
    by (rule stride_enqueue_at [of m t p]) (use o p c in \<open>simp_all add: stride_ordered_def\<close>)
  have same: "rank b m' = rank b m" using m'(4) by (simp add: rank_def fun_eq_iff)
  have w: "in_window b m (insert p (set_tree t))" using o p by (simp add: stride_ordered_def in_window_def)
  have "heap_by (rank b m) ?u"
    by (rule heap_by_merge) (use o window_decides [OF w] in \<open>auto simp: stride_ordered_def\<close>)
  then have "stride_ordered b m' ?u"
    using m'(2) w by (simp add: stride_ordered_def in_window_def same)
  then show ?thesis using that m' by blast
qed

lemma rank_rebase:
  assumes "rank b m p \<le> rank b m q"
  shows "unat (lab6_stride (procs m q) - lab6_stride (procs m p)) = rank b m q - rank b m p"
proof -
  have "lab6_stride (procs m q) - lab6_stride (procs m p) =
      (lab6_stride (procs m q) - b) - (lab6_stride (procs m p) - b)" by simp
  then show ?thesis using assms unfolding rank_def by (simp only: unat_sub_le)
qed

lemma stride_pick_ordered:
  assumes o: "stride_ordered b m t" and t: "t = Node l p r"
  obtains m1 m2 where "stride_pick_next m = (Some p, m1)" "stride_dequeue p m1 = Inr m2"
    "\<forall>q\<in>set_tree t. rank b m p \<le> rank b m q" "keeps m m2"
    "stride_ordered (lab6_stride (procs m p)) m2 (merge (proc_stride_comp_f (procs m1)) l r)"
    "lab6_stride (procs m2 p) = lab6_stride (procs m p) +
       (if lab6_priority (procs m p) = 0 then BIG_STRIDE else BIG_STRIDE div lab6_priority (procs m p))"
    "\<forall>q. q \<noteq> p \<longrightarrow> lab6_stride (procs m2 q) = lab6_stride (procs m q)"
proof -
  define m1 where "m1 = snd (stride_pick_next m)"
  have lp: "lab6_run_pool m = Some p" and d: "distinct (inorder t)"
    using o t by (auto simp: stride_ordered_def stride_at_def heap_at_def)
  have pick: "stride_pick_next m = (Some p, m1)" by (simp add: m1_def lp stride_pick_next_def)
  then have fr: "same_rq m m1" and k: "keeps m m1" using stride_pick_cases by blast+
  have at1: "stride_at m1 t" using o stride_frame [OF fr] by (simp add: stride_ordered_def)
  let ?c = "proc_stride_comp_f (procs m1)"
  obtain m2 where m2: "stride_dequeue p m1 = Inr m2" "stride_at m2 (merge ?c l r)" "procs m2 = procs m1"
    using stride_dequeue_at [OF at1, of p] t by auto
  have same: "lab6_stride (procs m1 q) = lab6_stride (procs m q)" if "q \<noteq> p" for q
    using that by (simp add: m1_def stride_pick_next_def lp)
  have new: "lab6_stride (procs m1 p) = lab6_stride (procs m p) +
       (if lab6_priority (procs m p) = 0 then BIG_STRIDE else BIG_STRIDE div lab6_priority (procs m p))"
    by (simp add: m1_def stride_pick_next_def lp)
  have least: "\<forall>q\<in>set_tree t. rank b m p \<le> rank b m q"
    using o t by (auto simp: stride_ordered_def)
  let ?b = "lab6_stride (procs m p)"
  have rb: "rank ?b m1 q = rank b m q - rank b m p \<and> rank b m p \<le> rank b m q \<and> rank b m q \<le> 2 ^ 30"
    if "q \<in> set_tree l \<union> set_tree r" for q
  proof -
    have "q \<noteq> p" "q \<in> set_tree t" using that d t by auto
    then show ?thesis using least rank_rebase [of b m p q] same o
      by (simp add: rank_def stride_ordered_def in_window_def)
  qed
  have hl: "heap_by (rank b m) l" "heap_by (rank b m) r" using o t by (auto simp: stride_ordered_def)
  have w: "in_window ?b m1 (set_tree l \<union> set_tree r)" using rb by (fastforce simp: in_window_def)
  have "heap_by (rank ?b m1) l" "heap_by (rank ?b m1) r"
    by (rule heap_by_mono [OF hl(1)], use rb in fastforce) (rule heap_by_mono [OF hl(2)], use rb in fastforce)
  then have "heap_by (rank ?b m1) (merge ?c l r)" by (rule heap_by_merge) (rule window_decides [OF w])
  moreover have same2: "rank ?b m2 = rank ?b m1" by (simp add: rank_def fun_eq_iff m2(3))
  ultimately have "stride_ordered ?b m2 (merge ?c l r)"
    using m2(2) w by (simp add: stride_ordered_def in_window_def same2)
  moreover have "keeps m m2" using k m2(3) by (simp add: keeps_def)
  ultimately show ?thesis using that pick m2 least new same by simp
qed

lemma stride_step_bound: "unat (if q = 0 then BIG_STRIDE else BIG_STRIDE div q) \<le> 2 ^ 30"
  by (simp add: unat_div div_le_dividend le_trans [OF div_le_dividend])

subsection \<open>Properties\<close>

text \<open>A queue of one waiting process, 1, while process 2 runs.\<close>

definition demo_queue :: sched_mem where
  "demo_queue =
     \<lparr>procs = (\<lambda>p. \<lparr>state = PROC_RUNNABLE, runs = 0, need_resched = False, wait_state = 0, on_rq = True,
         time_slice = 5, lab6_stride = of_nat p, lab6_priority = 1\<rparr>),
      run_links = \<lparr>lprev = (\<lambda>x. if x = Some 1 then None else if x = None then Some 1 else x),
                    lnext = (\<lambda>x. if x = Some 1 then None else if x = None then Some 1 else x)\<rparr>,
      pool_nodes = \<lparr>parent = (\<lambda>_. None), left = (\<lambda>_. None), right = (\<lambda>_. None)\<rparr>,
      lab6_run_pool = Some 1, proc_num = 1, max_time_slice = 5\<rparr>"

lemma demo_stride_ordered: "stride_ordered 0 demo_queue (Node Leaf 1 Leaf)"
  by (simp add: stride_ordered_def stride_at_def heap_at_def demo_queue_def in_window_def rank_def)

lemma demo_rr_at: "rr_at demo_queue [1]"
  by (simp add: rr_at_def ring_def demo_queue_def)

text \<open>
  C15. A round of the stride scheduler, when all strides lie within \<open>BIG_STRIDE\<close> above a base
  (modulo \<open>2^32\<close>): putting the running process back and choosing the next one takes a process of
  least stride, in spite of wrap-around; its stride grows by \<open>BIG_STRIDE / priority\<close>; and the
  window condition holds again, above the old stride of the chosen process.
\<close>

theorem stride_round:
  assumes "stride_ordered b m t" and "c \<notin> set_tree t" "rank b m c \<le> 2 ^ 30" "Suc (size t) < 2 ^ 32"
  shows "\<exists>p m1 m2 m3 u. stride_enqueue c m = Inr m1 \<and> stride_pick_next m1 = (Some p, m2) \<and>
    stride_dequeue p m2 = Inr m3 \<and> p \<in> insert c (set_tree t) \<and>
    (\<forall>q\<in>insert c (set_tree t). rank b m p \<le> rank b m q) \<and>
    lab6_stride (procs m3 p) = lab6_stride (procs m p) +
      (if lab6_priority (procs m p) = 0 then BIG_STRIDE else BIG_STRIDE div lab6_priority (procs m p)) \<and>
    stride_ordered (lab6_stride (procs m p)) m3 u \<and> set_tree u = insert c (set_tree t) - {p} \<and>
    rank (lab6_stride (procs m p)) m3 p \<le> 2 ^ 30"
proof -
  obtain m1 u where m1: "stride_enqueue c m = Inr m1" "stride_ordered b m1 u" "keeps m m1"
      "\<forall>q. lab6_stride (procs m1 q) = lab6_stride (procs m q)" "set_tree u = insert c (set_tree t)"
      "\<forall>q. lab6_priority (procs m1 q) = lab6_priority (procs m q)"
    using assms by (rule stride_enqueue_ordered) auto
  obtain l p r where u: "u = Node l p r" using m1(5) by (cases u) auto
  have same: "rank b m1 = rank b m" using m1(4) by (simp add: rank_def fun_eq_iff)
  have d: "distinct (inorder u)" using m1(2) by (simp add: stride_ordered_def stride_at_def heap_at_def)
  obtain m2 m3 where m3: "stride_pick_next m1 = (Some p, m2)" "stride_dequeue p m2 = Inr m3"
    "\<forall>q\<in>set_tree u. rank b m1 p \<le> rank b m1 q"
    "stride_ordered (lab6_stride (procs m1 p)) m3 (merge (proc_stride_comp_f (procs m2)) l r)"
    "lab6_stride (procs m3 p) = lab6_stride (procs m1 p) +
       (if lab6_priority (procs m1 p) = 0 then BIG_STRIDE else BIG_STRIDE div lab6_priority (procs m1 p))"
    by (rule stride_pick_ordered [OF m1(2) u]) blast
  have "rank (lab6_stride (procs m p)) m3 p \<le> 2 ^ 30"
    using m3(5) m1(4,6) stride_step_bound [of "lab6_priority (procs m p)"] unfolding rank_def by (simp split: if_splits)
  moreover have "p \<in> insert c (set_tree t)" using m1(5) u by auto
  moreover have "set_tree (merge (proc_stride_comp_f (procs m2)) l r) = insert c (set_tree t) - {p}"
    using m1(5) u d by auto
  ultimately show ?thesis using m1 m3 same by (intro exI conjI) auto
qed

theorem stride_round_witness:
  "\<exists>p m1 m2 m3. stride_enqueue 2 demo_queue = Inr m1 \<and> stride_pick_next m1 = (Some p, m2) \<and>
    stride_dequeue p m2 = Inr m3 \<and> p \<in> {1, 2}"
  using stride_round [OF demo_stride_ordered, of 2] by (auto simp: rank_def demo_queue_def)

text \<open>
  Round robin: putting the running process back and choosing the next one takes the head of
  the queue, and the process put back is then the last of it; nobody is passed over.
\<close>

theorem rr_rotation:
  assumes "rr_at m xs" and "c \<notin> set xs"
  shows "\<exists>m1 m2. RR_enqueue c m = Inr m1 \<and> RR_pick_next m1 = (Some (hd (xs @ [c])), m1) \<and>
    RR_dequeue (hd (xs @ [c])) m1 = Inr m2 \<and> rr_at m2 (tl (xs @ [c]))"
proof -
  obtain m1 where m1: "RR_enqueue c m = Inr m1" "rr_at m1 (xs @ [c])" by (rule rr_enqueue_at [OF assms])
  obtain p ys where ys: "xs @ [c] = p # ys" by (cases xs) auto
  obtain m2 where "RR_dequeue p m1 = Inr m2" "rr_at m2 ys"
    using rr_dequeue_at [of m1 "[]" p ys] m1(2) ys by auto
  then show ?thesis using m1 rr_pick_at [OF m1(2)] ys by auto
qed

theorem rr_rotation_witness:
  "\<exists>m1 m2. RR_enqueue 2 demo_queue = Inr m1 \<and> RR_dequeue 1 m1 = Inr m2 \<and> rr_at m2 [2]"
  using rr_rotation [OF demo_rr_at, of 2] by auto

end
