(* ===== verification/Sched.thy ===== *)
theory Sched
  imports Sched_Class
begin

text \<open>
  \<open>lab8/kern/schedule/sched.c\<close>: choosing the next process, waking processes up, and the list
  of timers whose expiry times are stored as differences. The sections that the code runs
  with interrupts disabled are single steps of the model. \<open>proc_run\<close> and \<open>lcr3\<close> are those of
  \<open>Lab5\<close> (\<open>kern/process/proc.c\<close>, \<open>libs/riscv.h\<close>), which \<open>lab8\<close> does not repeat.
\<close>

subsection \<open>State\<close>

record timer_mem =
  expires :: "nat \<Rightarrow> 32 word"
  tproc :: "nat \<Rightarrow> nat option"
  timer_links :: "nat option links"

text \<open>A saved context is the list of the callee-saved registers.\<close>

record kern =
  mem :: sched_mem
  current :: nat
  idleproc :: nat
  cr3 :: "nat \<Rightarrow> 64 word"
  contexts :: "nat \<Rightarrow> 64 word list"
  satp :: "64 word"
  regs :: "64 word list"
  timers :: timer_mem

definition MAX_TIME_SLICE :: int where "MAX_TIME_SLICE = 5"

subsection \<open>The scheduler\<close>

definition lcr3 :: "64 word \<Rightarrow> kern \<Rightarrow> kern" where
  "lcr3 a k = k\<lparr>satp := 0x8000000000000000 OR drop_bit 12 a\<rparr>"

definition switch_to :: "nat \<Rightarrow> nat \<Rightarrow> kern \<Rightarrow> kern" where
  "switch_to prev nxt k =
     (let k1 = k\<lparr>contexts := (contexts k)(prev := regs k)\<rparr> in k1\<lparr>regs := contexts k1 nxt\<rparr>)"

definition proc_run :: "nat \<Rightarrow> kern \<Rightarrow> kern" where
  "proc_run p k =
     (if p \<noteq> current k
      then switch_to (current k) p (lcr3 (cr3 k p) (k\<lparr>current := p\<rparr>))
      else k)"

definition sched_class_enqueue :: "sched_class \<Rightarrow> nat \<Rightarrow> kern \<Rightarrow> kern res" where
  "sched_class_enqueue cls p k =
     (if p \<noteq> idleproc k then kbind (sc_enqueue cls p (mem k)) (\<lambda>m. Inr (k\<lparr>mem := m\<rparr>)) else Inr k)"

definition sched_class_dequeue :: "sched_class \<Rightarrow> nat \<Rightarrow> kern \<Rightarrow> kern res" where
  "sched_class_dequeue cls p k = kbind (sc_dequeue cls p (mem k)) (\<lambda>m. Inr (k\<lparr>mem := m\<rparr>))"

definition sched_class_pick_next :: "sched_class \<Rightarrow> kern \<Rightarrow> nat option \<times> kern" where
  "sched_class_pick_next cls k = (case sc_pick_next cls (mem k) of (r, m) \<Rightarrow> (r, k\<lparr>mem := m\<rparr>))"

definition on_proc :: "nat \<Rightarrow> (sproc \<Rightarrow> sproc) \<Rightarrow> kern \<Rightarrow> kern" where
  "on_proc p f k = k\<lparr>mem := set_proc p f (mem k)\<rparr>"

definition sched_class_proc_tick :: "sched_class \<Rightarrow> nat \<Rightarrow> kern \<Rightarrow> kern" where
  "sched_class_proc_tick cls p k =
     (if p \<noteq> idleproc k then k\<lparr>mem := sc_proc_tick cls p (mem k)\<rparr>
      else on_proc p (need_resched_update (\<lambda>_. True)) k)"

definition sched_init :: "sched_class \<Rightarrow> kern \<Rightarrow> kern" where
  "sched_init cls k =
     (let t = timers k in
      k\<lparr>timers := t\<lparr>timer_links := list_init None (timer_links t)\<rparr>,
        mem := sc_init cls ((mem k)\<lparr>max_time_slice := MAX_TIME_SLICE\<rparr>)\<rparr>)"

definition wakeup_proc :: "sched_class \<Rightarrow> nat \<Rightarrow> kern \<Rightarrow> kern res" where
  "wakeup_proc cls p k =
     kassert (state (procs (mem k) p) \<noteq> PROC_ZOMBIE)
       (if state (procs (mem k) p) \<noteq> PROC_RUNNABLE
        then let k1 = on_proc p (\<lambda>r. r\<lparr>state := PROC_RUNNABLE, wait_state := 0\<rparr>) k
             in if p \<noteq> current k1 then sched_class_enqueue cls p k1 else Inr k1
        else Inr k)"

definition schedule :: "sched_class \<Rightarrow> kern \<Rightarrow> kern res" where
  "schedule cls k =
     (let k1 = on_proc (current k) (need_resched_update (\<lambda>_. False)) k in
      kbind (if state (procs (mem k1) (current k1)) = PROC_RUNNABLE
             then sched_class_enqueue cls (current k1) k1 else Inr k1)
        (\<lambda>k2. case sched_class_pick_next cls k2 of (chosen, k3) \<Rightarrow>
          kbind (case chosen of None \<Rightarrow> Inr k3 | Some p \<Rightarrow> sched_class_dequeue cls p k3)
            (\<lambda>k4. let nxt = (case chosen of None \<Rightarrow> idleproc k4 | Some p \<Rightarrow> p);
                      k5 = on_proc nxt (\<lambda>r. r\<lparr>runs := runs r + 1\<rparr>) k4
                  in Inr (if nxt \<noteq> current k5 then proc_run nxt k5 else k5))))"

subsection \<open>Timers\<close>

definition timer_init :: "nat \<Rightarrow> nat option \<Rightarrow> 32 word \<Rightarrow> timer_mem \<Rightarrow> timer_mem" where
  "timer_init t p e m =
     m\<lparr>expires := (expires m)(t := e), tproc := (tproc m)(t := p),
       timer_links := list_init (Some t) (timer_links m)\<rparr>"

text \<open>
  The loop of \<open>add_timer\<close> at entry \<open>le\<close>; the fuel bounds the number of entries passed, and
  the length of the list plus one is enough.
\<close>

fun add_timer_walk :: "nat \<Rightarrow> nat \<Rightarrow> nat option \<Rightarrow> timer_mem \<Rightarrow> (nat option \<times> timer_mem) res" where
  "add_timer_walk 0 t le m = Inl Out_Of_Fuel"
| "add_timer_walk (Suc fuel) t le m =
     (case le of
        None \<Rightarrow> Inr (le, m)
      | Some nxt \<Rightarrow>
          if expires m t < expires m nxt
          then Inr (le, m\<lparr>expires := (expires m)(nxt := expires m nxt - expires m t)\<rparr>)
          else let m1 = m\<lparr>expires := (expires m)(t := expires m t - expires m nxt)\<rparr>
               in add_timer_walk fuel t (list_next (timer_links m1) le) m1)"

definition add_timer :: "nat \<Rightarrow> nat \<Rightarrow> timer_mem \<Rightarrow> timer_mem res" where
  "add_timer fuel t m =
     kassert (expires m t > 0 \<and> tproc m t \<noteq> None)
       (kassert (list_empty (timer_links m) (Some t))
          (kbind (add_timer_walk fuel t (list_next (timer_links m) None) m)
             (\<lambda>(le, m1). Inr (m1\<lparr>timer_links := list_add_before le (Some t) (timer_links m1)\<rparr>))))"

definition del_timer :: "nat \<Rightarrow> timer_mem \<Rightarrow> timer_mem" where
  "del_timer t m =
     (if \<not> list_empty (timer_links m) (Some t)
      then let m1 = (if expires m t \<noteq> 0
                     then (case list_next (timer_links m) (Some t) of
                             None \<Rightarrow> m
                           | Some nxt \<Rightarrow> m\<lparr>expires := (expires m)(nxt := expires m nxt + expires m t)\<rparr>)
                     else m)
           in m1\<lparr>timer_links := list_del_init (Some t) (timer_links m1)\<rparr>
      else m)"

text \<open>The loop of \<open>run_timer_list\<close> at timer \<open>t\<close>: each round wakes one process and deletes its timer.\<close>

fun run_timers :: "nat \<Rightarrow> sched_class \<Rightarrow> nat \<Rightarrow> kern \<Rightarrow> kern res" where
  "run_timers 0 cls t k = Inl Out_Of_Fuel"
| "run_timers (Suc fuel) cls t k =
     (if expires (timers k) t = 0
      then let le = list_next (timer_links (timers k)) (Some t) in
        (case tproc (timers k) t of
           None \<Rightarrow> Inl Bad_Access
         | Some p \<Rightarrow>
             kassert (wait_state (procs (mem k) p) \<noteq> 0 \<longrightarrow> wait_state (procs (mem k) p) AND WT_INTERRUPTED \<noteq> 0)
               (kbind (wakeup_proc cls p k) (\<lambda>k1.
                  let k2 = k1\<lparr>timers := del_timer t (timers k1)\<rparr> in
                  case le of None \<Rightarrow> Inr k2 | Some t' \<Rightarrow> run_timers fuel cls t' k2)))
      else Inr k)"

definition run_timer_list :: "nat \<Rightarrow> sched_class \<Rightarrow> kern \<Rightarrow> kern res" where
  "run_timer_list fuel cls k =
     kbind (case list_next (timer_links (timers k)) None of
              None \<Rightarrow> Inr k
            | Some t \<Rightarrow>
                kassert (expires (timers k) t \<noteq> 0)
                  (let m = timers k
                   in run_timers fuel cls t (k\<lparr>timers := m\<lparr>expires := (expires m)(t := expires m t - 1)\<rparr>\<rparr>)))
       (\<lambda>k1. Inr (sched_class_proc_tick cls (current k1) k1))"

subsection \<open>What the scheduler promises, for any class that meets the contract\<close>

definition runnable :: "kern \<Rightarrow> nat set" where
  "runnable k = {p. state (procs (mem k) p) = PROC_RUNNABLE \<and> p \<noteq> idleproc k}"

definition few_runnable :: "kern \<Rightarrow> bool" where
  "few_runnable k \<longleftrightarrow> finite (runnable k) \<and> card (runnable k) < 2 ^ 32 - 1"

text \<open>The class holds the runnable processes except the running one; the idle process is never in it.\<close>

definition queue_ok :: "(sched_mem \<Rightarrow> bool) \<Rightarrow> (sched_mem \<Rightarrow> nat set) \<Rightarrow> kern \<Rightarrow> bool" where
  "queue_ok I P k \<longleftrightarrow> I (mem k) \<and> P (mem k) = runnable k - {current k}"

lemma on_proc_simps [simp]:
  "current (on_proc p f k) = current k" "idleproc (on_proc p f k) = idleproc k"
  "mem (on_proc p f k) = set_proc p f (mem k)" "timers (on_proc p f k) = timers k"
  by (simp_all add: on_proc_def)

lemma proc_run_simps [simp]:
  "mem (proc_run p k) = mem k" "current (proc_run p k) = p" "idleproc (proc_run p k) = idleproc k"
  "timers (proc_run p k) = timers k"
  by (auto simp: proc_run_def switch_to_def lcr3_def Let_def)

lemma same_rq_set_proc:
  "(\<And>r. on_rq (f r) = on_rq r) \<Longrightarrow> same_rq m (set_proc p f m)"
  by (simp add: same_rq_def)

context scheduling_class
begin

lemma enqueue_ok:
  assumes "inv (mem k)" "p \<notin> pool (mem k)" "card (pool (mem k)) < 2 ^ 32 - 1"
  obtains m where "sched_class_enqueue cls p k = Inr (k\<lparr>mem := m\<rparr>)" "inv m"
    "pool m = (if p = idleproc k then pool (mem k) else insert p (pool (mem k)))" "keeps (mem k) m"
proof (cases "p = idleproc k")
  case True
  then show ?thesis using that [of "mem k"] assms(1) by (simp add: sched_class_enqueue_def)
next
  case False
  then show ?thesis using that enqueue [OF assms] by (auto simp: sched_class_enqueue_def)
qed

lemma schedule_ok:
  assumes s: "queue_ok inv pool k" and few: "few_runnable k"
  shows "\<exists>k'. schedule cls k = Inr k' \<and> queue_ok inv pool k' \<and>
    (\<forall>p. state (procs (mem k') p) = state (procs (mem k) p)) \<and> idleproc k' = idleproc k \<and>
    (if runnable k = {} then current k' = idleproc k else current k' \<in> runnable k)"
proof -
  let ?k1 = "on_proc (current k) (need_resched_update (\<lambda>_. False)) k"
  have f1: "inv (mem ?k1)" "pool (mem ?k1) = pool (mem k)"
    using frame [OF same_rq_set_proc [of "need_resched_update (\<lambda>_. False)" "mem k" "current k"]] s
    by (simp_all add: queue_ok_def)
  have pool1: "pool (mem ?k1) = runnable k - {current k}" using f1 s by (simp add: queue_ok_def)
  have card: "card (pool (mem ?k1)) < 2 ^ 32 - 1"
    unfolding pool1 using few card_mono [of "runnable k" "runnable k - {current k}"]
    by (auto simp: few_runnable_def)
  obtain m2 where m2: "(if state (procs (mem ?k1) (current ?k1)) = PROC_RUNNABLE
             then sched_class_enqueue cls (current ?k1) ?k1 else Inr ?k1) = Inr (?k1\<lparr>mem := m2\<rparr>)"
    "inv m2" "pool m2 = runnable k" "keeps (mem ?k1) m2"
  proof (cases "state (procs (mem ?k1) (current ?k1)) = PROC_RUNNABLE")
    case True
    have nin: "current ?k1 \<notin> pool (mem ?k1)" unfolding pool1 by simp
    obtain m where m: "sched_class_enqueue cls (current ?k1) ?k1 = Inr (?k1\<lparr>mem := m\<rparr>)"
      "inv m" "pool m = (if current ?k1 = idleproc ?k1 then pool (mem ?k1) else insert (current ?k1) (pool (mem ?k1)))"
      "keeps (mem ?k1) m" by (rule enqueue_ok [OF f1(1) nin card])
    have "pool m = runnable k" using m(3) pool1 True by (auto simp: runnable_def)
    then show ?thesis using that m True by simp
  next
    case False
    then have "current k \<notin> runnable k" by (simp add: runnable_def)
    then show ?thesis using that [of "mem ?k1"] False f1 pool1 by simp
  qed
  obtain r m3 where p: "sc_pick_next cls m2 = (r, m3)" by fastforce
  from pick [OF m2(2) p] have r: "case r of None \<Rightarrow> pool m2 = {} | Some p \<Rightarrow> p \<in> pool m2"
    "inv m3" "pool m3 = runnable k" "keeps m2 m3" using m2(3) by auto
  let ?k3 = "?k1\<lparr>mem := m3\<rparr>"
  define nxt where "nxt = (case r of None \<Rightarrow> idleproc k | Some p \<Rightarrow> p)"
  obtain m4 where m4: "(case r of None \<Rightarrow> Inr ?k3 | Some p \<Rightarrow> sched_class_dequeue cls p ?k3) = Inr (?k3\<lparr>mem := m4\<rparr>)"
    "inv m4" "pool m4 = runnable k - {nxt}" "keeps m3 m4"
  proof (cases r)
    case None
    then show ?thesis using that [of m3] r m2(3) by (simp add: nxt_def runnable_def)
  next
    case (Some p)
    then have "p \<in> pool m3" using r m2(3) by simp
    from dequeue [OF r(2) this] show ?thesis using that Some r(3) 
      by (auto simp: sched_class_dequeue_def nxt_def)
  qed
  let ?k5 = "on_proc nxt (\<lambda>r. r\<lparr>runs := runs r + 1\<rparr>) (?k3\<lparr>mem := m4\<rparr>)"
  let ?k' = "if nxt \<noteq> current ?k5 then proc_run nxt ?k5 else ?k5"
  have f5: "inv (mem ?k5)" "pool (mem ?k5) = runnable k - {nxt}"
    using frame [OF same_rq_set_proc [of "\<lambda>r. r\<lparr>runs := runs r + 1\<rparr>" m4 nxt]] m4 by simp_all
  have run: "schedule cls k = Inr ?k'"
    using m2(1) m4(1) p by (cases r) (simp_all add: schedule_def Let_def sched_class_pick_next_def nxt_def cong: if_cong)
  have st: "state (procs (mem ?k') q) = state (procs (mem k) q)" for q
    using keeps_trans [OF keeps_trans [OF m2(4) r(4)] m4(4)] by (simp add: keeps_def)
  have k': "idleproc ?k' = idleproc k" "current ?k' = nxt" "mem ?k' = mem ?k5" by simp_all
  have same: "runnable ?k' = runnable k" unfolding runnable_def k'(1) st by simp
  have inv': "queue_ok inv pool ?k'" unfolding queue_ok_def same k' using f5 by blast
  have cur: "if runnable k = {} then current ?k' = idleproc k else current ?k' \<in> runnable k"
    using r m2(3) unfolding k'(2) by (cases r) (auto simp: nxt_def)
  show ?thesis by (rule exI [of _ ?k']) (use run inv' st k' cur in blast)
qed

lemma wakeup_ok:
  assumes s: "queue_ok inv pool k" and few: "few_runnable k" and z: "state (procs (mem k) p) \<noteq> PROC_ZOMBIE"
  shows "\<exists>k'. wakeup_proc cls p k = Inr k' \<and> queue_ok inv pool k' \<and> timers k' = timers k \<and>
    current k' = current k \<and> idleproc k' = idleproc k \<and>
    (\<forall>q. state (procs (mem k') q) = (if q = p then PROC_RUNNABLE else state (procs (mem k) q))) \<and>
    (\<forall>q. wait_state (procs (mem k') q) = wait_state (procs (mem k) q) \<or> q = p \<and> wait_state (procs (mem k') q) = 0)"
proof (cases "state (procs (mem k) p) = PROC_RUNNABLE")
  case True
  then show ?thesis using s by (auto simp: wakeup_proc_def)
next
  case False
  let ?f = "\<lambda>r. r\<lparr>state := PROC_RUNNABLE, wait_state := 0\<rparr>"
  let ?k1 = "on_proc p ?f k"
  have f1: "inv (mem ?k1)" "pool (mem ?k1) = pool (mem k)"
    using frame [OF same_rq_set_proc [of ?f "mem k" p]] s by (simp_all add: queue_ok_def)
  have p1: "pool (mem ?k1) = runnable k - {current k}" using f1 s by (simp add: queue_ok_def)
  have np: "p \<notin> runnable k" using False by (simp add: runnable_def)
  have card: "card (pool (mem ?k1)) < 2 ^ 32 - 1"
    unfolding p1 using few card_mono [of "runnable k" "runnable k - {current k}"] by (auto simp: few_runnable_def)
  have run1: "runnable ?k1 = (if p = idleproc k then runnable k else insert p (runnable k))"
    by (auto simp: runnable_def)
  have st: "state (procs (mem k') q) = (if q = p then PROC_RUNNABLE else state (procs (mem k) q))"
    "wait_state (procs (mem k') q) = wait_state (procs (mem k) q) \<or> q = p \<and> wait_state (procs (mem k') q) = 0"
    if "keeps (mem ?k1) (mem k')" for k' q
    using that by (simp_all add: keeps_def)
  show ?thesis
  proof (cases "p = current k")
    case True
    have w: "wakeup_proc cls p k = Inr ?k1" using False z True by (simp add: wakeup_proc_def Let_def)
    have "queue_ok inv pool ?k1" using True f1 p1 run1 by (auto simp: queue_ok_def)
    then show ?thesis using w st [of ?k1] by (intro exI [of _ ?k1]) simp
  next
    case pc: False
    have nin: "p \<notin> pool (mem ?k1)" unfolding p1 using np by simp
    obtain m where m:
      "sched_class_enqueue cls p ?k1 = Inr (?k1\<lparr>mem := m\<rparr>)" "inv m"
      "pool m = (if p = idleproc ?k1 then pool (mem ?k1) else insert p (pool (mem ?k1)))" "keeps (mem ?k1) m"
      by (rule enqueue_ok [OF f1(1) nin card])
    let ?k' = "?k1\<lparr>mem := m\<rparr>"
    have w: "wakeup_proc cls p k = Inr ?k'" using False z pc m(1) by (simp add: wakeup_proc_def Let_def)
    have k: "keeps (mem ?k1) (mem ?k')" using m(4) by simp
    have "runnable ?k' = runnable ?k1" using k by (auto simp: runnable_def keeps_def split: if_splits)
    then have "queue_ok inv pool ?k'" using m p1 run1 pc by (auto simp: queue_ok_def)
    then show ?thesis using w st [OF k] by (intro exI [of _ ?k']) simp
  qed
qed

end

subsection \<open>The timer list\<close>

text \<open>
  The list as pairs of a timer and its difference, and the expiry times it stands for: the
  sums of the differences up to each timer.
\<close>

fun deadlines :: "nat \<Rightarrow> (nat \<times> nat) list \<Rightarrow> (nat \<times> nat) list" where
  "deadlines a [] = []"
| "deadlines a ((t, d) # xs) = (t, a + d) # deadlines (a + d) xs"

fun add_delta :: "nat \<Rightarrow> nat \<Rightarrow> (nat \<times> nat) list \<Rightarrow> (nat \<times> nat) list" where
  "add_delta t e [] = [(t, e)]"
| "add_delta t e ((s, d) # xs) =
     (if e < d then (t, e) # (s, d - e) # xs else (s, d) # add_delta t (e - d) xs)"

fun del_delta :: "nat \<Rightarrow> (nat \<times> nat) list \<Rightarrow> (nat \<times> nat) list" where
  "del_delta t [] = []"
| "del_delta t ((s, d) # xs) =
     (if s = t then (case xs of [] \<Rightarrow> [] | (r, f) # ys \<Rightarrow> (r, f + d) # ys) else (s, d) # del_delta t xs)"

lemma deadlines_ge: "(t, d) \<in> set (deadlines a xs) \<Longrightarrow> a \<le> d"
  by (induction a xs rule: deadlines.induct) fastforce+

lemma deadlines_add_delta:
  "deadlines a (add_delta t e xs) =
     takeWhile (\<lambda>x. snd x \<le> a + e) (deadlines a xs) @ (t, a + e) # dropWhile (\<lambda>x. snd x \<le> a + e) (deadlines a xs)"
  by (induction t e xs arbitrary: a rule: add_delta.induct) (auto simp: add.assoc)

lemma deadlines_del_delta:
  "distinct (map fst xs) \<Longrightarrow> deadlines a (del_delta t xs) = filter (\<lambda>x. fst x \<noteq> t) (deadlines a xs)"
proof (induction t xs arbitrary: a rule: del_delta.induct)
  case (2 t s d xs)
  have keep: "filter (\<lambda>x. fst x \<noteq> t) (deadlines b ys) = deadlines b ys" if "t \<notin> fst ` set ys" for b ys
    using that by (induction b ys rule: deadlines.induct) auto
  show ?case using 2 by (auto simp: keep add_ac split: list.splits)
qed simp

definition entries :: "timer_mem \<Rightarrow> nat list \<Rightarrow> (nat \<times> nat) list" where
  "entries m ts = map (\<lambda>t. (t, unat (expires m t))) ts"

definition timers_at :: "timer_mem \<Rightarrow> nat list \<Rightarrow> bool" where
  "timers_at m ts \<longleftrightarrow> ring (timer_links m) None (map Some ts)"

lemma fst_deadlines [simp]: "map fst (deadlines a xs) = map fst xs"
  by (induction a xs rule: deadlines.induct) auto

lemma add_timer_walk_at:
  "timers_at m (xs @ ys) \<Longrightarrow> t \<notin> set (xs @ ys) \<Longrightarrow> length ys < fuel \<Longrightarrow>
   \<exists>m' ys1 ys2. add_timer_walk fuel t (hd (map Some ys @ [None])) m = Inr (hd (map Some ys2 @ [None]), m') \<and>
     ys = ys1 @ ys2 \<and> timer_links m' = timer_links m \<and> tproc m' = tproc m \<and>
     entries m' (ys1 @ t # ys2) = add_delta t (unat (expires m t)) (entries m ys) \<and>
     (\<forall>s. s \<notin> set (t # ys) \<longrightarrow> expires m' s = expires m s)"
proof (induction ys arbitrary: xs fuel m)
  case Nil
  then obtain f where "fuel = Suc f" by (cases fuel) auto
  then show ?case by (auto simp: entries_def)
next
  case (Cons y ys)
  then obtain f where f: "fuel = Suc f" by (cases fuel) auto
  show ?case
  proof (cases "expires m t < expires m y")
    case True
    let ?m = "m\<lparr>expires := (expires m)(y := expires m y - expires m t)\<rparr>"
    have y: "y \<notin> set ys" "t \<noteq> y" using Cons.prems by (auto simp: timers_at_def ring_def)
    have le: "unat (expires m t) < unat (expires m y)" using True by (simp add: word_less_nat_alt)
    then have "unat (expires m y - expires m t) = unat (expires m y) - unat (expires m t)" by (simp add: unat_sub_le)
    then have "entries ?m ([] @ t # y # ys) = add_delta t (unat (expires m t)) (entries m (y # ys))"
      using y le by (auto simp: entries_def)
    then show ?thesis
      using True f y by (intro exI [of _ ?m] exI [of _ "[]"] exI [of _ "y # ys"]) auto
  next
    case False
    let ?m = "m\<lparr>expires := (expires m)(t := expires m t - expires m y)\<rparr>"
    have y: "y \<notin> set ys" "t \<noteq> y" "t \<notin> set ys" using Cons.prems by (auto simp: timers_at_def ring_def)
    have le: "\<not> unat (expires m t) < unat (expires m y)" using False by (simp add: word_less_nat_alt)
    then have e: "unat (expires m t - expires m y) = unat (expires m t) - unat (expires m y)" by (simp add: unat_sub_le)
    have at: "timers_at ?m ((xs @ [y]) @ ys)" using Cons.prems(1) by (simp add: timers_at_def)
    have nf: "t \<notin> set ((xs @ [y]) @ ys)" "length ys < f" using Cons.prems(2,3) f by auto
    obtain m' ys1 ys2 where IH: "add_timer_walk f t (hd (map Some ys @ [None])) ?m = Inr (hd (map Some ys2 @ [None]), m')"
      "ys = ys1 @ ys2" "timer_links m' = timer_links ?m" "tproc m' = tproc ?m"
      "entries m' (ys1 @ t # ys2) = add_delta t (unat (expires ?m t)) (entries ?m ys)"
      "\<forall>s. s \<notin> set (t # ys) \<longrightarrow> expires m' s = expires ?m s"
      using Cons.IH [OF at nf] by blast
    have next_y: "list_next (timer_links ?m) (Some y) = hd (map Some ys @ [None])"
      using ring_next [of "timer_links m" None "map Some xs" "Some y" "map Some ys"] Cons.prems(1)
      by (simp add: timers_at_def list_next_def)
    have "expires m' y = expires m y" using IH(6) y by simp
    moreover have ent: "entries ?m ys = entries m ys" using y by (auto simp: entries_def)
    have "entries m' (ys1 @ t # ys2) = add_delta t (unat (expires m t) - unat (expires m y)) (entries m ys)"
      using IH(5) e unfolding ent by simp
    ultimately have "entries m' ((y # ys1) @ t # ys2) = add_delta t (unat (expires m t)) (entries m (y # ys))"
      using le by (simp add: entries_def)
    moreover have "add_timer_walk fuel t (hd (map Some (y # ys) @ [None])) m = Inr (hd (map Some ys2 @ [None]), m')"
      using False f IH(1) next_y by (simp add: Let_def)
    ultimately show ?thesis using IH
      by (intro exI [of _ m'] exI [of _ "y # ys1"] exI [of _ ys2]) simp
  qed
qed

lemma add_timer_at:
  assumes at: "timers_at m ts" and t: "t \<notin> set ts" "list_empty (timer_links m) (Some t)"
    and e: "expires m t > 0" "tproc m t \<noteq> None" and fuel: "length ts < fuel"
  obtains m' ts' where "add_timer fuel t m = Inr m'" "timers_at m' ts'" "set ts' = insert t (set ts)"
    "entries m' ts' = add_delta t (unat (expires m t)) (entries m ts)" "tproc m' = tproc m"
proof -
  have hd: "list_next (timer_links m) None = hd (map Some ts @ [None])"
    using ring_next_head [of "timer_links m" None "map Some ts"] at by (simp add: timers_at_def list_next_def)
  obtain m1 ts1 ts2 where w: "add_timer_walk fuel t (hd (map Some ts @ [None])) m = Inr (hd (map Some ts2 @ [None]), m1)"
     "ts = ts1 @ ts2" "timer_links m1 = timer_links m" "tproc m1 = tproc m"
     "entries m1 (ts1 @ t # ts2) = add_delta t (unat (expires m t)) (entries m ts)"
    using add_timer_walk_at [of m "[]" ts t fuel] at t fuel by auto
  let ?l = "list_add_before (hd (map Some ts2 @ [None])) (Some t) (timer_links m1)"
  have r: "ring (timer_links m1) None (map Some ts1 @ map Some ts2)" using at w(2,3) by (simp add: timers_at_def)
  have "ring ?l None (map Some (ts1 @ t # ts2))"
  proof (cases ts2)
    case Nil
    then show ?thesis using ring_add_before_head [of "timer_links m1" None "map Some ts1" "Some t"] r t w(2) by auto
  next
    case (Cons u us)
    then show ?thesis
      using ring_add_before [of "timer_links m1" None "map Some ts1" "Some u" "map Some us" "Some t"] r t w(2) by auto
  qed
  then have "timers_at (m1\<lparr>timer_links := ?l\<rparr>) (ts1 @ t # ts2)" by (simp add: timers_at_def)
  moreover have "add_timer fuel t m = Inr (m1\<lparr>timer_links := ?l\<rparr>)"
    using e t w(1) hd by (simp add: add_timer_def)
  moreover have "entries (m1\<lparr>timer_links := ?l\<rparr>) (ts1 @ t # ts2) = entries m1 (ts1 @ t # ts2)"
    by (simp add: entries_def)
  ultimately show ?thesis using w that [of "m1\<lparr>timer_links := ?l\<rparr>" "ts1 @ t # ts2"] by auto
qed

lemma timers_in_ring: "timers_at m ts \<Longrightarrow> t \<in> set ts \<Longrightarrow> \<not> list_empty (timer_links m) (Some t)"
proof -
  assume at: "timers_at m ts" and "t \<in> set ts"
  then obtain xs ys where ts: "ts = xs @ t # ys" by (auto simp: in_set_conv_decomp)
  then have r: "ring (timer_links m) None (map Some xs @ Some t # map Some ys)" using at by (simp add: timers_at_def)
  have "Some t \<notin> set (map Some ys @ [None])" using ring_distinct [OF r] by auto
  moreover have "lnext (timer_links m) (Some t) = hd (map Some ys @ [None])" by (rule ring_next [OF r])
  ultimately show ?thesis by (cases ys) (auto simp: list_empty_def)
qed

lemma del_timer_at:
  assumes at: "timers_at m (xs @ t # ys)"
    and no: "ys \<noteq> [] \<Longrightarrow> unat (expires m (hd ys)) + unat (expires m t) < 2 ^ 32"
  shows "timers_at (del_timer t m) (xs @ ys)"
    and "entries (del_timer t m) (xs @ ys) = del_delta t (entries m (xs @ t # ys))"
    and "list_empty (timer_links (del_timer t m)) (Some t)" and "tproc (del_timer t m) = tproc m"
proof -
  have r: "ring (timer_links m) None (map Some xs @ Some t # map Some ys)" using at by (simp add: timers_at_def)
  have d: "t \<notin> set xs" "t \<notin> set ys" "distinct (xs @ ys)" using ring_distinct [OF r] by (auto simp: distinct_map)
  have nx: "list_next (timer_links m) (Some t) = hd (map Some ys @ [None])"
    using ring_next [OF r] by (simp add: list_next_def)
  have ne: "\<not> list_empty (timer_links m) (Some t)" using timers_in_ring [OF at] by simp
  let ?m = "del_timer t m"
  have links: "timer_links ?m = list_del_init (Some t) (timer_links m)" and tp: "tproc ?m = tproc m"
    using ne by (auto simp: del_timer_def Let_def split: option.splits)
  show "timers_at ?m (xs @ ys)" using ring_del_init(1) [OF r] by (simp add: timers_at_def links)
  show "list_empty (timer_links ?m) (Some t)"
    using ring_del_init(2) [OF r] by (simp add: links ring_empty_iff)
  show "tproc ?m = tproc m" by (rule tp)
  have pre: "del_delta t (map (\<lambda>s. (s, unat (expires m s))) xs @ zs) = map (\<lambda>s. (s, unat (expires m s))) xs @ del_delta t zs" for zs
    using d(1) by (induction xs) auto
  have ex: "expires ?m = (if ys = [] then expires m else (expires m)(hd ys := expires m (hd ys) + expires m t))"
    using ne nx by (cases ys) (auto simp: del_timer_def Let_def)
  show "entries ?m (xs @ ys) = del_delta t (entries m (xs @ t # ys))"
  proof (cases ys)
    case Nil
    then show ?thesis using pre [of "[(t, unat (expires m t))]"] ex by (simp add: entries_def)
  next
    case (Cons y zs)
    then have "unat (expires m y + expires m t) = unat (expires m y) + unat (expires m t)"
      using no by (simp add: unat_add_less)
    then show ?thesis using pre [of "map (\<lambda>s. (s, unat (expires m s))) (t # ys)"] ex d Cons by (auto simp: entries_def)
  qed
qed

lemma deadlines_dec: "0 < a \<Longrightarrow> deadlines (a - 1) xs = map (\<lambda>(t, d). (t, d - 1)) (deadlines a xs)"
proof (induction a xs rule: deadlines.induct)
  case (2 a t d xs)
  then have "a + d - 1 = a - 1 + d" by simp
  then show ?case using 2 by simp
qed simp

lemma deadlines_tick:
  "0 < d \<Longrightarrow> deadlines 0 ((t, d - 1) # xs) = map (\<lambda>(t, d). (t, d - 1)) (deadlines 0 ((t, d) # xs))"
  using deadlines_dec [of d xs] by simp

lemma deadlines_pos: "0 < a \<Longrightarrow> (t, d) \<in> set (deadlines a xs) \<Longrightarrow> 0 < d"
  using deadlines_ge by fastforce

lemma deadlines_drop: "deadlines 0 (dropWhile (\<lambda>x. snd x = 0) xs) = filter (\<lambda>x. 0 < snd x) (deadlines 0 xs)"
proof (induction xs)
  case (Cons x xs)
  obtain t d where x: "x = (t, d)" by fastforce
  show ?case
  proof (cases d)
    case 0
    then show ?thesis using Cons x by simp
  next
    case (Suc n)
    then have "filter (\<lambda>x. 0 < snd x) (deadlines d xs) = deadlines d xs"
      by (intro filter_True) (use deadlines_pos [of d] in auto)
    then show ?thesis using Suc x by simp
  qed
qed simp

lemma deadlines_take: "fst ` set (takeWhile (\<lambda>x. snd x = 0) xs) = {t. (t, 0) \<in> set (deadlines 0 xs)}"
proof (induction xs)
  case (Cons x xs)
  obtain t d where x: "x = (t, d)" by fastforce
  show ?case
  proof (cases d)
    case 0
    then show ?thesis using Cons x by auto
  next
    case (Suc n)
    then show ?thesis using x deadlines_pos [of d _ 0 xs] by auto
  qed
qed simp

text \<open>The processes whose timers are in a list, and what \<open>run_timer_list\<close> needs of them.\<close>

definition sleepers :: "timer_mem \<Rightarrow> nat list \<Rightarrow> nat set" where
  "sleepers m ts = {p. \<exists>t\<in>set ts. tproc m t = Some p}"

definition wakeable :: "kern \<Rightarrow> nat list \<Rightarrow> bool" where
  "wakeable k ts \<longleftrightarrow> (\<forall>t\<in>set ts. \<exists>p. tproc (timers k) t = Some p \<and> state (procs (mem k) p) \<noteq> PROC_ZOMBIE \<and>
     (wait_state (procs (mem k) p) = 0 \<or> wait_state (procs (mem k) p) AND WT_INTERRUPTED \<noteq> 0))"

definition room_for :: "kern \<Rightarrow> nat list \<Rightarrow> bool" where
  "room_for k ts \<longleftrightarrow> finite (runnable k) \<and> card (runnable k \<union> sleepers (timers k) ts) < 2 ^ 32 - 1"

lemma sleepers_finite: "finite (sleepers m ts)"
proof -
  have "sleepers m ts \<subseteq> (\<lambda>t. the (tproc m t)) ` set ts" by (force simp: sleepers_def)
  then show ?thesis by (rule finite_subset) simp
qed

lemma room_few: "room_for k ts \<Longrightarrow> few_runnable k"
  using card_mono [of "runnable k \<union> sleepers (timers k) ts" "runnable k"] sleepers_finite [of "timers k" ts]
  by (auto simp: room_for_def few_runnable_def)

context scheduling_class
begin

lemma run_timers_ok:
  "queue_ok inv pool k \<Longrightarrow> timers_at (timers k) (t # ys) \<Longrightarrow> wakeable k (t # ys) \<Longrightarrow> room_for k (t # ys) \<Longrightarrow>
   length (t # ys) \<le> fuel \<Longrightarrow>
   \<exists>k'. run_timers fuel cls t k = Inr k' \<and> queue_ok inv pool k' \<and> current k' = current k \<and> idleproc k' = idleproc k \<and>
     timers_at (timers k') (dropWhile (\<lambda>s. expires (timers k) s = 0) (t # ys)) \<and>
     expires (timers k') = expires (timers k) \<and> tproc (timers k') = tproc (timers k) \<and>
     (\<forall>p. state (procs (mem k') p) =
        (if p \<in> sleepers (timers k) (takeWhile (\<lambda>s. expires (timers k) s = 0) (t # ys)) then PROC_RUNNABLE
         else state (procs (mem k) p)))"
proof (induction ys arbitrary: t k fuel)
  case (Cons u us) note prems = Cons.prems and IH = Cons.IH
  obtain f where f: "fuel = Suc f" using prems(5) by (cases fuel) auto
  show ?case
  proof (cases "expires (timers k) t = 0")
    case True
    obtain p where p: "tproc (timers k) t = Some p" "state (procs (mem k) p) \<noteq> PROC_ZOMBIE"
      "wait_state (procs (mem k) p) = 0 \<or> wait_state (procs (mem k) p) AND WT_INTERRUPTED \<noteq> 0"
      using prems(3) by (auto simp: wakeable_def)
    obtain k1 where k1: "wakeup_proc cls p k = Inr k1" "queue_ok inv pool k1" "timers k1 = timers k"
      "current k1 = current k" "idleproc k1 = idleproc k"
      "\<forall>q. state (procs (mem k1) q) = (if q = p then PROC_RUNNABLE else state (procs (mem k) q))"
      "\<forall>q. wait_state (procs (mem k1) q) = wait_state (procs (mem k) q) \<or> q = p \<and> wait_state (procs (mem k1) q) = 0"
      using wakeup_ok [OF prems(1) room_few [OF prems(4)] p(2)] by blast
    let ?k2 = "k1\<lparr>timers := del_timer t (timers k1)\<rparr>"
    have le: "list_next (timer_links (timers k)) (Some t) = Some u"
      using ring_next [of "timer_links (timers k)" None "[]" "Some t" "map Some (u # us)"] prems(2)
      by (simp add: timers_at_def list_next_def)
    have at2: "timers_at (del_timer t (timers k)) (u # us)" "tproc (del_timer t (timers k)) = tproc (timers k)"
      using del_timer_at(1,4) [of "timers k" "[]" t "u # us"] prems(2) True
        unsigned_less [of "expires (timers k) u"] by auto
    have ex2: "expires (del_timer t (timers k)) = expires (timers k)"
      using True by (simp add: del_timer_def Let_def)
    have qk: "queue_ok inv pool ?k2" using k1(2) by (simp add: queue_ok_def runnable_def)
    have w2: "wakeable ?k2 (u # us)" unfolding wakeable_def
    proof
      fix s assume "s \<in> set (u # us)"
      then obtain q where "tproc (timers k) s = Some q" "state (procs (mem k) q) \<noteq> PROC_ZOMBIE"
        "wait_state (procs (mem k) q) = 0 \<or> wait_state (procs (mem k) q) AND WT_INTERRUPTED \<noteq> 0"
        using prems(3) by (auto simp: wakeable_def)
      then show "\<exists>p. tproc (timers ?k2) s = Some p \<and> state (procs (mem ?k2) p) \<noteq> PROC_ZOMBIE \<and>
          (wait_state (procs (mem ?k2) p) = 0 \<or> wait_state (procs (mem ?k2) p) AND WT_INTERRUPTED \<noteq> 0)"
        using k1(3,6,7) at2(2) by (intro exI [of _ q]) (auto, metis+)
    qed
    have sub: "runnable ?k2 \<union> sleepers (timers ?k2) (u # us) \<subseteq> runnable k \<union> sleepers (timers k) (t # u # us)"
      using k1(3,5,6) at2(2) p(1) by (auto simp: runnable_def sleepers_def split: if_splits)
    then have "card (runnable ?k2 \<union> sleepers (timers ?k2) (u # us)) \<le> card (runnable k \<union> sleepers (timers k) (t # u # us))"
      by (intro card_mono) (use prems(4) sleepers_finite in \<open>auto simp: room_for_def\<close>)
    moreover have "finite (runnable ?k2)"
      by (rule finite_subset [of _ "runnable k \<union> sleepers (timers k) (t # u # us)"])
        (use sub prems(4) sleepers_finite in \<open>auto simp: room_for_def\<close>)
    ultimately have r2: "room_for ?k2 (u # us)" using prems(4) unfolding room_for_def by linarith
    have t2: "timers_at (timers ?k2) (u # us)" using at2 k1(3) by simp
    obtain k' where k': "run_timers f cls u ?k2 = Inr k'" "queue_ok inv pool k'" "current k' = current ?k2"
      "idleproc k' = idleproc ?k2"
      "timers_at (timers k') (dropWhile (\<lambda>s. expires (timers ?k2) s = 0) (u # us))"
      "expires (timers k') = expires (timers ?k2)" "tproc (timers k') = tproc (timers ?k2)"
      "\<forall>q. state (procs (mem k') q) =
        (if q \<in> sleepers (timers ?k2) (takeWhile (\<lambda>s. expires (timers ?k2) s = 0) (u # us)) then PROC_RUNNABLE
         else state (procs (mem ?k2) q))"
      using IH [OF qk t2 w2 r2, of f] prems(5) f by fastforce
    have run: "run_timers fuel cls t k = Inr k'"
      using True f p(1,3) k1(1) le k'(1) by (auto simp: Let_def)
    have "state (procs (mem k') q) =
        (if q \<in> sleepers (timers k) (takeWhile (\<lambda>s. expires (timers k) s = 0) (t # u # us)) then PROC_RUNNABLE
         else state (procs (mem k) q))" for q
      using k'(8) k1(3,6) ex2 at2(2) p(1) True by (auto simp: sleepers_def)
    then show ?thesis using run k' k1(3,4,5) ex2 at2 True by (intro exI [of _ k']) auto
  next
    case False
    then show ?thesis using f prems(1,2) by (auto simp: sleepers_def)
  qed
next
  case Nil note prems = Nil
  obtain f where f: "fuel = Suc f" using prems(5) by (cases fuel) auto
  show ?case
  proof (cases "expires (timers k) t = 0")
    case True
    obtain p where p: "tproc (timers k) t = Some p" "state (procs (mem k) p) \<noteq> PROC_ZOMBIE"
      "wait_state (procs (mem k) p) = 0 \<or> wait_state (procs (mem k) p) AND WT_INTERRUPTED \<noteq> 0"
      using prems(3) by (auto simp: wakeable_def)
    obtain k1 where k1: "wakeup_proc cls p k = Inr k1" "queue_ok inv pool k1" "timers k1 = timers k"
      "current k1 = current k" "idleproc k1 = idleproc k"
      "\<forall>q. state (procs (mem k1) q) = (if q = p then PROC_RUNNABLE else state (procs (mem k) q))"
      using wakeup_ok [OF prems(1) room_few [OF prems(4)] p(2)] by blast
    let ?k2 = "k1\<lparr>timers := del_timer t (timers k1)\<rparr>"
    have le: "list_next (timer_links (timers k)) (Some t) = None"
      using ring_next [of "timer_links (timers k)" None "[]" "Some t" "[]"] prems(2)
      by (simp add: timers_at_def list_next_def)
    have at2: "timers_at (del_timer t (timers k)) []" "tproc (del_timer t (timers k)) = tproc (timers k)"
      using del_timer_at(1,4) [of "timers k" "[]" t "[]"] prems(2) by auto
    have ex2: "expires (del_timer t (timers k)) = expires (timers k)"
      using True by (simp add: del_timer_def Let_def)
    have "queue_ok inv pool ?k2" using k1(2) by (simp add: queue_ok_def runnable_def)
    moreover have "run_timers fuel cls t k = Inr ?k2"
      using True f p(1,3) k1(1) le by (auto simp: Let_def)
    ultimately show ?thesis using k1 ex2 at2 True p(1)
      by (intro exI [of _ ?k2]) (auto simp: sleepers_def)
  next
    case False
    then show ?thesis using f prems(1,2) by (auto simp: sleepers_def)
  qed
qed

end

lemma entries_dropWhile:
  "entries m (dropWhile (\<lambda>s. expires m s = 0) ts) = dropWhile (\<lambda>x. snd x = 0) (entries m ts)"
  by (simp add: entries_def dropWhile_map comp_def unat_eq_0)

lemma set_takeWhile_entries:
  "set (takeWhile (\<lambda>s. expires m s = 0) ts) = fst ` set (takeWhile (\<lambda>x. snd x = 0) (entries m ts))"
  by (simp add: entries_def takeWhile_map comp_def unat_eq_0 image_image)

lemma tick_down:
  assumes "0 < expires m t" and "t \<notin> set ys"
  defines "m1 \<equiv> m\<lparr>expires := (expires m)(t := expires m t - 1)\<rparr>"
  defines "d \<equiv> deadlines 0 (entries m (t # ys))" and "E \<equiv> entries m1 (t # ys)"
  shows "deadlines 0 (dropWhile (\<lambda>x. snd x = 0) E) = map (\<lambda>(t, d). (t, d - 1)) (filter (\<lambda>x. 1 < snd x) d)"
    and "(s \<in> fst ` set (takeWhile (\<lambda>x. snd x = 0) E)) = ((s, 1) \<in> set d)"
proof -
  have pos: "0 < unat (expires m t)" using assms(1) by (simp add: unat_gt_0 word_neq_0_conv)
  then have "unat (expires m t - 1) = unat (expires m t) - 1" using unat_sub_le [of 1 "expires m t"] by simp
  then have E: "E = (t, unat (expires m t) - 1) # entries m ys"
    using assms(2) by (auto simp: E_def m1_def entries_def)
  have D: "deadlines 0 E = map (\<lambda>(t, d). (t, d - 1)) d"
    using deadlines_tick [OF pos] by (simp add: E d_def entries_def)
  have dpos: "0 < e" if "(s, e) \<in> set d" for s e
    using that pos deadlines_pos [OF pos] by (auto simp: d_def entries_def)
  show "deadlines 0 (dropWhile (\<lambda>x. snd x = 0) E) = map (\<lambda>(t, d). (t, d - 1)) (filter (\<lambda>x. 1 < snd x) d)"
    unfolding deadlines_drop D filter_map by (auto simp: comp_def intro!: arg_cong [of _ _ "map _"] filter_cong)
  show "(s \<in> fst ` set (takeWhile (\<lambda>x. snd x = 0) E)) = ((s, 1) \<in> set d)"
    unfolding deadlines_take D using dpos by (force simp: image_iff le_Suc_eq)
qed

context scheduling_class
begin

lemma proc_tick_ok:
  "queue_ok inv pool k \<Longrightarrow> queue_ok inv pool (sched_class_proc_tick cls p k) \<and>
    timers (sched_class_proc_tick cls p k) = timers k \<and>
    (\<forall>q. state (procs (mem (sched_class_proc_tick cls p k)) q) = state (procs (mem k) q))"
  using tick [of "mem k" p] frame [OF same_rq_set_proc [of "need_resched_update (\<lambda>_. True)" "mem k" p]]
  by (auto simp: sched_class_proc_tick_def queue_ok_def runnable_def)

lemma run_timer_list_ok:
  assumes q: "queue_ok inv pool k" and at: "timers_at (timers k) ts" and w: "wakeable k ts" "room_for k ts"
    and fuel: "length ts \<le> fuel" and hd: "ts \<noteq> [] \<Longrightarrow> 0 < expires (timers k) (hd ts)"
  shows "\<exists>k' ts'. run_timer_list fuel cls k = Inr k' \<and> queue_ok inv pool k' \<and> timers_at (timers k') ts' \<and>
    deadlines 0 (entries (timers k') ts') =
      map (\<lambda>(t, d). (t, d - 1)) (filter (\<lambda>x. 1 < snd x) (deadlines 0 (entries (timers k) ts))) \<and>
    (\<forall>p. state (procs (mem k') p) =
      (if \<exists>t. (t, 1) \<in> set (deadlines 0 (entries (timers k) ts)) \<and> tproc (timers k) t = Some p
       then PROC_RUNNABLE else state (procs (mem k) p)))"
proof (cases ts)
  case Nil
  have "list_next (timer_links (timers k)) None = None"
    using ring_next_head [of "timer_links (timers k)" None "[]"] at Nil by (simp add: timers_at_def list_next_def)
  then show ?thesis using Nil proc_tick_ok [OF q] at
    by (intro exI [of _ "sched_class_proc_tick cls (current k) k"] exI [of _ "[]"])
      (simp add: run_timer_list_def entries_def)
next
  case (Cons t ys)
  let ?m = "timers k"
  let ?k1 = "k\<lparr>timers := ?m\<lparr>expires := (expires ?m)(t := expires ?m t - 1)\<rparr>\<rparr>"
  have nx: "list_next (timer_links ?m) None = Some t"
    using ring_next_head [of "timer_links ?m" None "map Some ts"] at Cons by (simp add: timers_at_def list_next_def)
  have t: "t \<notin> set ys" "0 < expires ?m t" using at hd Cons by (auto simp: timers_at_def ring_def)
  have pre: "queue_ok inv pool ?k1" "timers_at (timers ?k1) (t # ys)" "wakeable ?k1 (t # ys)" "room_for ?k1 (t # ys)"
    using q at w Cons by (simp_all add: queue_ok_def runnable_def timers_at_def wakeable_def room_for_def sleepers_def)
  obtain k' where k': "run_timers fuel cls t ?k1 = Inr k'" "queue_ok inv pool k'"
     "timers_at (timers k') (dropWhile (\<lambda>s. expires (timers ?k1) s = 0) (t # ys))"
     "expires (timers k') = expires (timers ?k1)"
     "\<forall>p. state (procs (mem k') p) =
        (if p \<in> sleepers (timers ?k1) (takeWhile (\<lambda>s. expires (timers ?k1) s = 0) (t # ys)) then PROC_RUNNABLE
         else state (procs (mem ?k1) p))"
    using run_timers_ok [OF pre, of fuel] fuel Cons by auto
  let ?E = "entries (timers ?k1) (t # ys)" and ?D = "deadlines 0 (entries ?m (t # ys))"
  let ?ts = "dropWhile (\<lambda>s. expires (timers ?k1) s = 0) (t # ys)"
  have "entries (timers k') ?ts = entries (timers ?k1) ?ts"
    unfolding entries_def k'(4) ..
  then have dl: "deadlines 0 (entries (timers k') ?ts) = map (\<lambda>(t, d). (t, d - 1)) (filter (\<lambda>x. 1 < snd x) ?D)"
    unfolding entries_dropWhile using tick_down(1) [OF t(2,1)] by simp
  have sl: "p \<in> sleepers (timers ?k1) (takeWhile (\<lambda>s. expires (timers ?k1) s = 0) (t # ys)) \<longleftrightarrow>
      (\<exists>t. (t, 1) \<in> set ?D \<and> tproc ?m t = Some p)" for p
  proof -
    have eq: "fst ` set (takeWhile (\<lambda>x. snd x = 0) ?E) = {s. (s, 1) \<in> set ?D}"
      using tick_down(2) [OF t(2,1)] by auto
    show ?thesis unfolding sleepers_def set_takeWhile_entries eq by simp
  qed
  let ?k' = "sched_class_proc_tick cls (current k') k'"
  have "run_timer_list fuel cls k = Inr ?k'"
    using nx k'(1) t(2) word_neq_0_conv [of "expires ?m t"] by (simp add: run_timer_list_def Let_def)
  moreover have "state (procs (mem ?k') p) =
      (if \<exists>t. (t, 1) \<in> set ?D \<and> tproc ?m t = Some p then PROC_RUNNABLE else state (procs (mem k) p))" for p
    using proc_tick_ok [OF k'(2)] k'(5) [rule_format, of p] unfolding sl by auto
  ultimately show ?thesis using proc_tick_ok [OF k'(2)] k'(3) dl unfolding Cons
    by (intro exI [of _ ?k'] exI [of _ ?ts]) simp
qed

end

lemma deadlines_two:
  "\<exists>s. (y, s + unat (expires m t) + unat (expires m y)) \<in> set (deadlines a (entries m (xs @ t # y # zs)))"
proof (induction xs arbitrary: a)
  case Nil
  then show ?case by (auto simp: entries_def intro: exI [of _ a])
next
  case (Cons x xs)
  then show ?case using Cons [of "a + unat (expires m x)"] by (auto simp: entries_def)
qed

subsection \<open>Properties\<close>

text \<open>The two scheduling classes of the kernel, with their invariants and the processes they hold.\<close>

definition kernel_classes :: "(sched_class \<times> (sched_mem \<Rightarrow> bool) \<times> (sched_mem \<Rightarrow> nat set)) set" where
  "kernel_classes = {(RR_scheduler, rr_inv, rr_pool), (stride_scheduler, stride_inv, stride_pool)}"

lemma kernel_classes_locale: "(cls, I, P) \<in> kernel_classes \<Longrightarrow> scheduling_class cls I P"
  using rr.scheduling_class_axioms stride.scheduling_class_axioms by (auto simp: kernel_classes_def)

text \<open>Process 2 runs, process 1 waits in the queue, process 0 is idle; timer 7 waits for process 3.\<close>

definition demo_kern :: kern where
  "demo_kern =
     \<lparr>mem = demo_queue\<lparr>procs := (\<lambda>p. (procs demo_queue p)\<lparr>state := if p = 1 \<or> p = 2 then PROC_RUNNABLE else PROC_SLEEPING,
        wait_state := if p = 3 then WT_INTERRUPTED else 0\<rparr>)\<rparr>,
      current = 2, idleproc = 0, cr3 = (\<lambda>_. 0), contexts = (\<lambda>_. []), satp = 0, regs = [],
      timers = \<lparr>expires = (\<lambda>_. 1), tproc = (\<lambda>_. Some 3),
        timer_links = \<lparr>lprev = (\<lambda>x. if x = Some 7 then None else if x = None then Some 7 else x),
                       lnext = (\<lambda>x. if x = Some 7 then None else if x = None then Some 7 else x)\<rparr>\<rparr>\<rparr>"

lemma demo_kern_facts:
  "queue_ok stride_inv stride_pool demo_kern" "queue_ok rr_inv rr_pool demo_kern"
  "runnable demo_kern = {1, 2}" "timers_at (timers demo_kern) [7]"
proof -
  show r: "runnable demo_kern = {1, 2}" by (auto simp: runnable_def demo_kern_def demo_queue_def)
  have cur: "current demo_kern = 2" by (simp add: demo_kern_def)
  have diff: "{1, 2} - {2::nat} = {1}" by auto
  have sat: "stride_at (mem demo_kern) (Node Leaf 1 Leaf)"
    by (simp add: demo_kern_def stride_at_def heap_at_def demo_queue_def)
  have "stride_pool (mem demo_kern) = {1}" using stride_pool_set [OF sat] by simp
  moreover have "stride_inv (mem demo_kern)" using sat by (auto simp: stride_inv_def)
  ultimately show "queue_ok stride_inv stride_pool demo_kern" unfolding queue_ok_def r cur diff by blast
  have "ring (run_links (mem demo_kern)) None [Some 1]"
    by (simp add: demo_kern_def ring_def demo_queue_def)
  moreover have "ring (run_links (mem demo_kern)) (Some p) []" if "p \<noteq> 1" for p
    using that by (simp add: demo_kern_def ring_def demo_queue_def)
  ultimately have rat: "rr_at (mem demo_kern) [1]"
    by (simp add: rr_at_def) (simp add: demo_kern_def demo_queue_def)
  have "rr_pool (mem demo_kern) = {1}" using rr_pool_set [OF rat] by simp
  moreover have "rr_inv (mem demo_kern)" using rat by (auto simp: rr_inv_def)
  ultimately show "queue_ok rr_inv rr_pool demo_kern" unfolding queue_ok_def r cur diff by blast
  show "timers_at (timers demo_kern) [7]" by (simp add: timers_at_def ring_def demo_kern_def)
qed

text \<open>
  C14. \<open>schedule\<close>, with either scheduling class: when the class holds exactly the runnable
  processes other than the running one, the assertions hold, the next process is a runnable
  one if there is any and otherwise the idle process, no state changes, and the class again
  holds exactly the runnable processes other than the new running one.
\<close>

theorem schedule_dispatches:
  assumes "(cls, I, P) \<in> kernel_classes" and "queue_ok I P k" and "few_runnable k"
  shows "\<exists>k'. schedule cls k = Inr k' \<and> queue_ok I P k' \<and>
    (\<forall>p. state (procs (mem k') p) = state (procs (mem k) p)) \<and> idleproc k' = idleproc k \<and>
    (if runnable k = {} then current k' = idleproc k else current k' \<in> runnable k)"
  by (rule scheduling_class.schedule_ok [OF kernel_classes_locale [OF assms(1)] assms(2,3)])

theorem schedule_dispatches_witness:
  "\<exists>k'. schedule stride_scheduler demo_kern = Inr k' \<and> current k' \<in> {1, 2}"
  using schedule_dispatches [of stride_scheduler stride_inv stride_pool demo_kern] demo_kern_facts
  by (auto simp: kernel_classes_def few_runnable_def)

text \<open>
  \<open>wakeup_proc\<close>, with either class: a process that is not a zombie becomes runnable and is
  put into the class unless it is the running or the idle one; a second wake-up does not put
  it there twice; waking a zombie fails the assertion.
\<close>

theorem wakeup_enqueues:
  assumes "(cls, I, P) \<in> kernel_classes" and "queue_ok I P k" and "few_runnable k"
  shows "if state (procs (mem k) p) = PROC_ZOMBIE then wakeup_proc cls p k = Inl Assert_Failed
    else \<exists>k'. wakeup_proc cls p k = Inr k' \<and> queue_ok I P k' \<and> current k' = current k \<and> idleproc k' = idleproc k \<and>
      (\<forall>q. state (procs (mem k') q) = (if q = p then PROC_RUNNABLE else state (procs (mem k) q)))"
proof (cases "state (procs (mem k) p) = PROC_ZOMBIE")
  case False
  then show ?thesis
    using scheduling_class.wakeup_ok [OF kernel_classes_locale [OF assms(1)] assms(2,3) False] by auto
qed (simp add: wakeup_proc_def)

theorem wakeup_enqueues_witness:
  "\<exists>k'. wakeup_proc RR_scheduler 3 demo_kern = Inr k' \<and> 3 \<in> rr_pool (mem k')"
  using wakeup_enqueues [of RR_scheduler rr_inv rr_pool demo_kern 3] demo_kern_facts
  by (auto simp: kernel_classes_def few_runnable_def queue_ok_def runnable_def demo_kern_def wakeup_proc_def)

text \<open>
  Adding a timer to the list of differences: the expiry times of the others stay, the new
  one expires after its own time, it is placed after those that expire at the same time, and
  deleting it again restores the old expiry times.
\<close>

theorem add_del_timer:
  assumes "timers_at m ts" and "t \<notin> set ts" "list_empty (timer_links m) (Some t)"
    and "expires m t > 0" "tproc m t \<noteq> None" and "length ts < fuel"
    and "\<forall>x\<in>set (deadlines 0 (entries m ts)). snd x < 2 ^ 32"
  defines "d \<equiv> deadlines 0 (entries m ts)" and "e \<equiv> unat (expires m t)"
  shows "\<exists>m' us ws. add_timer fuel t m = Inr m' \<and> timers_at m' us \<and>
    deadlines 0 (entries m' us) = takeWhile (\<lambda>x. snd x \<le> e) d @ (t, e) # dropWhile (\<lambda>x. snd x \<le> e) d \<and>
    timers_at (del_timer t m') ws \<and> deadlines 0 (entries (del_timer t m') ws) = d"
proof -
  obtain m' us where a: "add_timer fuel t m = Inr m'" "timers_at m' us"
      "entries m' us = add_delta t e (entries m ts)" "set us = insert t (set ts)"
    using add_timer_at [OF assms(1-6)] unfolding e_def by metis
  have D: "deadlines 0 (entries m' us) = takeWhile (\<lambda>x. snd x \<le> e) d @ (t, e) # dropWhile (\<lambda>x. snd x \<le> e) d"
    using deadlines_add_delta [of 0 t e "entries m ts"] a(3) by (simp add: d_def)
  obtain xs ys where us: "us = xs @ t # ys" using a(4) by (metis insertI1 split_list)
  have small: "\<forall>x\<in>set (deadlines 0 (entries m' us)). snd x < 2 ^ 32"
    unfolding D using assms(7) unsigned_less [of "expires m t"]
    by (auto simp: d_def e_def dest: set_takeWhileD set_dropWhileD)
  have "unat (expires m' (hd ys)) + unat (expires m' t) < 2 ^ 32" if ys: "ys \<noteq> []"
  proof -
    obtain y zs where y: "ys = y # zs" using ys by (cases ys) auto
    have "\<exists>s. (y, s + unat (expires m' t) + unat (expires m' y)) \<in> set (deadlines 0 (entries m' (xs @ t # y # zs)))"
      using deadlines_two by simp
    then obtain s where "(y, s + unat (expires m' t) + unat (expires m' y)) \<in> set (deadlines 0 (entries m' us))"
      using us y by auto
    then show ?thesis using small y by fastforce
  qed
  note del = del_timer_at [OF a(2) [unfolded us] this]
  have dist: "distinct (map fst (entries m' us))" using a(2) by (simp add: timers_at_def ring_def entries_def comp_def distinct_map)
  have "t \<notin> fst ` set d" using assms(2) fst_deadlines [of 0 "entries m ts"]
    unfolding d_def set_map [symmetric] by (simp add: entries_def comp_def)
  then have keep: "filter (\<lambda>x. fst x \<noteq> t) zs = zs" if "set zs \<subseteq> set d" for zs
    using that by (intro filter_True) force
  have "deadlines 0 (entries (del_timer t m') (xs @ ys)) = filter (\<lambda>x. fst x \<noteq> t) (deadlines 0 (entries m' us))"
    using deadlines_del_delta [OF dist, of 0 t] del(2) us by simp
  also have "\<dots> = d"
  proof -
    have "set (takeWhile (\<lambda>x. snd x \<le> e) d) \<subseteq> set d" "set (dropWhile (\<lambda>x. snd x \<le> e) d) \<subseteq> set d"
      by (auto dest: set_takeWhileD set_dropWhileD)
    then show ?thesis unfolding D by (simp add: keep)
  qed
  finally show ?thesis using a(1,2) D del(1) by blast
qed

theorem add_del_timer_witness:
  "\<exists>m' us. add_timer 2 8 ((timers demo_kern)\<lparr>expires := (\<lambda>t. if t = 8 then 3 else 1)\<rparr>) = Inr m' \<and>
     deadlines 0 (entries m' us) = [(7, 1), (8, 3)]"
  using add_del_timer [of "(timers demo_kern)\<lparr>expires := (\<lambda>t. if t = 8 then 3 else 1)\<rparr>" "[7]" 8 2] demo_kern_facts(4)
  by (auto simp: timers_at_def entries_def demo_kern_def list_empty_def)

text \<open>
  C16. A tick (\<open>run_timer_list\<close>), with either class: every expiry time goes down by one, exactly the
  timers that had one tick left are deleted and their processes become runnable, no other
  state changes, and the loop ends within as many rounds as there are timers.
\<close>

theorem tick_wakes_expired:
  assumes "(cls, I, P) \<in> kernel_classes" and "queue_ok I P k"
    and "timers_at (timers k) ts" and "wakeable k ts" "room_for k ts"
    and "length ts \<le> fuel" and "ts = [] \<or> 0 < expires (timers k) (hd ts)"
  shows "\<exists>k' ts'. run_timer_list fuel cls k = Inr k' \<and> queue_ok I P k' \<and> timers_at (timers k') ts' \<and>
    deadlines 0 (entries (timers k') ts') =
      map (\<lambda>(t, d). (t, d - 1)) (filter (\<lambda>x. 1 < snd x) (deadlines 0 (entries (timers k) ts))) \<and>
    (\<forall>p. state (procs (mem k') p) =
      (if \<exists>t. (t, 1) \<in> set (deadlines 0 (entries (timers k) ts)) \<and> tproc (timers k) t = Some p
       then PROC_RUNNABLE else state (procs (mem k) p)))"
  using scheduling_class.run_timer_list_ok [OF kernel_classes_locale [OF assms(1)] assms(2-6)] assms(7) by blast

theorem tick_wakes_expired_witness:
  "\<exists>k'. run_timer_list 1 RR_scheduler demo_kern = Inr k' \<and> state (procs (mem k') 3) = PROC_RUNNABLE"
proof -
  have "wakeable demo_kern [7]" "room_for demo_kern [7]"
    using demo_kern_facts(3) by (auto simp: wakeable_def room_for_def demo_kern_def sleepers_def WT_INTERRUPTED_def)
  then show ?thesis
    using tick_wakes_expired [of RR_scheduler rr_inv rr_pool demo_kern "[7]" 1] demo_kern_facts
    by (auto simp: kernel_classes_def entries_def demo_kern_def)
qed

end
