(* ===== verification/Proc.thy ===== *)
theory Proc
  imports KList Errno Hash_Rand Proc_Const
begin

text \<open>
  \<open>Lab5/kern/process/proc.c\<close>, the tables of processes: the process structure, the list of all
  processes, the family links, the hash table by process number and the allocation of
  numbers. A process is named by its address. Allocators and the memory manager (\<open>kmalloc\<close>,
  \<open>alloc_pages\<close>, \<open>mm_create\<close>, \<open>dup_mmap\<close> and so on, whose files \<open>Lab5\<close> does not contain) are
  the fields of \<open>env\<close>; they act on a state of their own.
\<close>

subsection \<open>Processes\<close>

text \<open>\<open>struct context\<close>: the registers \<open>ra\<close>, \<open>sp\<close> and \<open>s0\<close> to \<open>s11\<close>.\<close>

record cpu_context =
  ctx_ra :: "64 word"
  ctx_sp :: "64 word"
  ctx_s :: "64 word list"

text \<open>\<open>struct trapframe\<close>: the 32 general registers by number and four control registers.\<close>

record trapframe =
  gpr :: "nat \<Rightarrow> 64 word"
  tf_status :: "64 word"
  tf_epc :: "64 word"
  tf_tval :: "64 word"
  tf_cause :: "64 word"

definition reg_sp :: nat where "reg_sp = 2"
definition reg_s0 :: nat where "reg_s0 = 8"
definition reg_s1 :: nat where "reg_s1 = 9"
definition reg_a0 :: nat where "reg_a0 = 10"

record proc_struct =
  state :: proc_state
  pid :: int
  runs :: "32 word"
  kstack :: "64 word"
  need_resched :: bool
  par :: "nat option"
  mm :: "nat option"
  ctx :: cpu_context
  tf :: "64 word"
  cr3 :: "64 word"
  flags :: "32 word"
  name :: "8 word list"
  exit_code :: int
  wait_state :: "32 word"
  cptr :: "nat option"
  yptr :: "nat option"
  optr :: "nat option"

text \<open>List entries: the head \<open>proc_list\<close> is \<open>None\<close>; the heads of the hash table are \<open>Inl i\<close>.\<close>

record 'x pstate =
  procs :: "nat \<Rightarrow> proc_struct"
  plinks :: "nat option links"
  hlinks :: "(nat + nat) links"
  idleproc :: nat
  initproc :: nat
  current :: nat
  nr_process :: int
  next_safe :: int
  last_pid :: int
  satp :: "64 word"
  regs :: cpu_context
  sstatus :: "64 word"
  frames :: "64 word \<Rightarrow> trapframe"
  mm_count :: "nat \<Rightarrow> int"
  user_ints :: "64 word \<Rightarrow> int"
  ext :: 'x

text \<open>
  The operations of other files. \<open>kmalloc_proc\<close> gives the address of a fresh process structure,
  \<open>kstack_alloc\<close> and \<open>kstack_free\<close> are \<open>alloc_pages(KSTACKPAGE)\<close> with \<open>page2kva\<close> and \<open>free_pages\<close>
  with \<open>kva2page\<close>.
\<close>

record 'x env =
  kmalloc_proc :: "'x \<Rightarrow> nat option \<times> 'x"
  kfree_proc :: "nat \<Rightarrow> 'x \<Rightarrow> 'x"
  kstack_alloc :: "'x \<Rightarrow> 64 word option \<times> 'x"
  kstack_free :: "64 word \<Rightarrow> 'x \<Rightarrow> 'x"
  mm_create :: "'x \<Rightarrow> nat option \<times> 'x"
  mm_destroy :: "nat \<Rightarrow> 'x \<Rightarrow> 'x"
  setup_pgdir_op :: "nat \<Rightarrow> 'x \<Rightarrow> int \<times> 'x"
  put_pgdir_op :: "nat \<Rightarrow> 'x \<Rightarrow> 'x"
  dup_mmap :: "nat \<Rightarrow> nat \<Rightarrow> 'x \<Rightarrow> int \<times> 'x"
  exit_mmap :: "nat \<Rightarrow> 'x \<Rightarrow> 'x"
  pgdir_pa :: "nat \<Rightarrow> 'x \<Rightarrow> 64 word"
  user_mem_check :: "nat option \<Rightarrow> 64 word \<Rightarrow> 64 word \<Rightarrow> bool \<Rightarrow> 'x \<Rightarrow> bool"
  boot_cr3 :: "64 word"
  bootstack :: "64 word"
  forkret_addr :: "64 word"
  kernel_thread_entry :: "64 word"
  init_main_addr :: "64 word"

definition on_proc :: "nat \<Rightarrow> (proc_struct \<Rightarrow> proc_struct) \<Rightarrow> 'x pstate \<Rightarrow> 'x pstate" where
  "on_proc p f s = s\<lparr>procs := (procs s)(p := f (procs s p))\<rparr>"

definition on_opt :: "nat option \<Rightarrow> (proc_struct \<Rightarrow> proc_struct) \<Rightarrow> 'x pstate \<Rightarrow> 'x pstate" where
  "on_opt q f s = (case q of None \<Rightarrow> s | Some p \<Rightarrow> on_proc p f s)"

definition zero_context :: cpu_context where
  "zero_context = \<lparr>ctx_ra = 0, ctx_sp = 0, ctx_s = replicate 12 0\<rparr>"

text \<open>
  The assignments of \<open>alloc_proc\<close>. \<open>memset(proc->name, 0, PROC_NAME_LEN)\<close> leaves the last of the
  16 bytes, and \<open>exit_code\<close> and the list entries are not set.
\<close>

definition init_proc :: "64 word \<Rightarrow> proc_struct \<Rightarrow> proc_struct" where
  "init_proc boot r =
     r\<lparr>state := PROC_UNINIT, pid := - 1, runs := 0, kstack := 0, need_resched := False, par := None,
       mm := None, ctx := zero_context, tf := 0, cr3 := boot, flags := 0,
       name := replicate PROC_NAME_LEN 0 @ drop PROC_NAME_LEN (name r), wait_state := 0,
       cptr := None, optr := None, yptr := None\<rparr>"

definition alloc_proc :: "'x env \<Rightarrow> 'x pstate \<Rightarrow> nat option \<times> 'x pstate" where
  "alloc_proc e s =
     (case kmalloc_proc e (ext s) of
        (None, x) \<Rightarrow> (None, s\<lparr>ext := x\<rparr>)
      | (Some p, x) \<Rightarrow> (Some p, on_proc p (init_proc (boot_cr3 e)) (s\<lparr>ext := x\<rparr>)))"

text \<open>Both name routines copy \<open>PROC_NAME_LEN\<close> bytes, whatever the length of the string.\<close>

definition set_proc_name :: "nat \<Rightarrow> (nat \<Rightarrow> 8 word) \<Rightarrow> 'x pstate \<Rightarrow> 'x pstate" where
  "set_proc_name p src s = on_proc p (name_update (\<lambda>_. map src [0..<PROC_NAME_LEN] @ [0])) s"

definition get_proc_name :: "nat \<Rightarrow> 'x pstate \<Rightarrow> 8 word list" where
  "get_proc_name p s = take PROC_NAME_LEN (name (procs s p)) @ [0]"

subsection \<open>Family links\<close>

definition set_links :: "nat \<Rightarrow> 'x pstate \<Rightarrow> 'x pstate res" where
  "set_links p s =
     (case par (procs s p) of
        None \<Rightarrow> Inl Bad_Access
      | Some q \<Rightarrow>
          let s1 = s\<lparr>plinks := list_add None (Some p) (plinks s)\<rparr>;
              s2 = on_proc p (yptr_update (\<lambda>_. None)) s1;
              s3 = on_proc p (optr_update (\<lambda>_. cptr (procs s2 q))) s2;
              s4 = on_opt (optr (procs s3 p)) (yptr_update (\<lambda>_. Some p)) s3;
              s5 = on_proc q (cptr_update (\<lambda>_. Some p)) s4
          in Inr (s5\<lparr>nr_process := nr_process s5 + 1\<rparr>))"

definition remove_links :: "nat \<Rightarrow> 'x pstate \<Rightarrow> 'x pstate res" where
  "remove_links p s =
     (let s1 = s\<lparr>plinks := list_del (Some p) (plinks s)\<rparr>;
          s2 = on_opt (optr (procs s1 p)) (yptr_update (\<lambda>_. yptr (procs s1 p))) s1
      in kbind (case yptr (procs s2 p) of
                  Some y \<Rightarrow> Inr (on_proc y (optr_update (\<lambda>_. optr (procs s2 p))) s2)
                | None \<Rightarrow>
                    (case par (procs s2 p) of
                       None \<Rightarrow> Inl Bad_Access
                     | Some q \<Rightarrow> Inr (on_proc q (cptr_update (\<lambda>_. optr (procs s2 p))) s2)))
           (\<lambda>s3. Inr (s3\<lparr>nr_process := nr_process s3 - 1\<rparr>)))"

subsection \<open>Process numbers\<close>

text \<open>
  The loop of \<open>get_pid\<close> at entry \<open>le\<close>, with the two static variables; it starts again from the
  head when the candidate has reached \<open>safe\<close>. The fuel bounds the number of entries passed.
\<close>

fun get_pid_scan :: "nat \<Rightarrow> 'x pstate \<Rightarrow> nat option \<Rightarrow> int \<Rightarrow> int \<Rightarrow> (int \<times> int) res" where
  "get_pid_scan 0 s le lst safe = Inl Out_Of_Fuel"
| "get_pid_scan (Suc fuel) s le lst safe =
     (case list_next (plinks s) le of
        None \<Rightarrow> Inr (lst, safe)
      | Some p \<Rightarrow>
          if pid (procs s p) = lst
          then if lst + 1 \<ge> safe
               then get_pid_scan fuel s None (if lst + 1 \<ge> MAX_PID then 1 else lst + 1) MAX_PID
               else get_pid_scan fuel s (Some p) (lst + 1) safe
          else if pid (procs s p) > lst \<and> safe > pid (procs s p)
               then get_pid_scan fuel s (Some p) lst (pid (procs s p))
               else get_pid_scan fuel s (Some p) lst safe)"

definition get_pid :: "nat \<Rightarrow> 'x pstate \<Rightarrow> (int \<times> 'x pstate) res" where
  "get_pid fuel s =
     (let lst = last_pid s + 1 in
      kbind (if lst \<ge> MAX_PID then get_pid_scan fuel s None 1 MAX_PID
             else if lst \<ge> next_safe s then get_pid_scan fuel s None lst MAX_PID
             else Inr (lst, next_safe s))
        (\<lambda>(l, safe). Inr (l, s\<lparr>last_pid := l, next_safe := safe\<rparr>)))"

subsection \<open>The hash table\<close>

definition HASH_SHIFT :: nat where "HASH_SHIFT = 10"
definition HASH_LIST_SIZE :: nat where "HASH_LIST_SIZE = 2 ^ HASH_SHIFT"

definition pid_hashfn :: "int \<Rightarrow> nat" where
  "pid_hashfn x = unat (hash32 (word_of_int x) HASH_SHIFT)"

definition hash_proc :: "nat \<Rightarrow> 'x pstate \<Rightarrow> 'x pstate" where
  "hash_proc p s = s\<lparr>hlinks := list_add (Inl (pid_hashfn (pid (procs s p)))) (Inr p) (hlinks s)\<rparr>"

definition unhash_proc :: "nat \<Rightarrow> 'x pstate \<Rightarrow> 'x pstate" where
  "unhash_proc p s = s\<lparr>hlinks := list_del (Inr p) (hlinks s)\<rparr>"

fun find_in_bucket :: "nat \<Rightarrow> nat \<Rightarrow> int \<Rightarrow> (nat + nat) \<Rightarrow> 'x pstate \<Rightarrow> nat option res" where
  "find_in_bucket 0 h n le s = Inl Out_Of_Fuel"
| "find_in_bucket (Suc fuel) h n le s =
     (case list_next (hlinks s) le of
        Inl i \<Rightarrow> if i = h then Inr None else Inl Bad_Access
      | Inr p \<Rightarrow> if pid (procs s p) = n then Inr (Some p) else find_in_bucket fuel h n (Inr p) s)"

definition find_proc :: "nat \<Rightarrow> int \<Rightarrow> 'x pstate \<Rightarrow> nat option res" where
  "find_proc fuel n s =
     (if 0 < n \<and> n < MAX_PID then find_in_bucket fuel (pid_hashfn n) n (Inl (pid_hashfn n)) s else Inr None)"

subsection \<open>A new number is free\<close>

text \<open>No process of the list has a number from \<open>lo\<close> up to but not including \<open>hi\<close>.\<close>

definition gap :: "'x pstate \<Rightarrow> nat list \<Rightarrow> int \<Rightarrow> int \<Rightarrow> bool" where
  "gap s ps lo hi \<longleftrightarrow> (\<forall>p\<in>set ps. \<not> (lo \<le> pid (procs s p) \<and> pid (procs s p) < hi))"

lemma gap_simps [simp]:
  "gap s [] lo hi" "gap s (xs @ ys) lo hi \<longleftrightarrow> gap s xs lo hi \<and> gap s ys lo hi"
  "gap s (p # xs) lo hi \<longleftrightarrow> \<not> (lo \<le> pid (procs s p) \<and> pid (procs s p) < hi) \<and> gap s xs lo hi"
  by (auto simp: gap_def)

lemma gap_shrink: "gap s xs lo hi \<Longrightarrow> lo \<le> lo' \<Longrightarrow> hi' \<le> hi \<Longrightarrow> gap s xs lo' hi'"
  by (force simp: gap_def)

text \<open>The number of candidates before a free number \<open>f\<close> is reached, going round once.\<close>

definition dist_to :: "int \<Rightarrow> int \<Rightarrow> nat" where
  "dist_to f l = nat (if l \<le> f then f - l else MAX_PID - l + f - 1)"

lemma dist_to_step:
  assumes "1 \<le> l" "l < MAX_PID" "1 \<le> f" "f < MAX_PID" "l \<noteq> f"
  shows "dist_to f l = Suc (dist_to f (if l + 1 \<ge> MAX_PID then 1 else l + 1))"
  using assms by (auto simp: dist_to_def MAX_PID_eq)

definition all_procs :: "'x pstate \<Rightarrow> nat list \<Rightarrow> bool" where
  "all_procs s ps \<longleftrightarrow> ring (plinks s) None (map Some ps)"

lemma all_procs_next:
  assumes "all_procs s (xs @ ys)"
  shows "list_next (plinks s) (last (None # map Some xs)) = hd (map Some ys @ [None])"
  using ring_next_at [of "plinks s" None "map Some xs" "map Some ys"] assms
  by (simp add: all_procs_def list_next_def)

lemma get_pid_scan_ok:
  assumes ring: "all_procs s ps" and f: "1 \<le> f" "f < MAX_PID" "\<forall>p\<in>set ps. pid (procs s p) \<noteq> f"
  shows "ps = xs @ ys \<Longrightarrow> 1 \<le> lst \<Longrightarrow> lst < safe \<Longrightarrow> safe \<le> MAX_PID \<Longrightarrow> gap s xs lst safe \<Longrightarrow>
    dist_to f lst * Suc (length ps) + length ys < fuel \<Longrightarrow>
    \<exists>l sf. get_pid_scan fuel s (last (None # map Some xs)) lst safe = Inr (l, sf) \<and>
      1 \<le> l \<and> l < sf \<and> sf \<le> MAX_PID \<and> gap s ps l sf"
proof (induction fuel arbitrary: xs ys lst safe)
  case (Suc fuel)
  note prems = Suc.prems and IH = Suc.IH
  have nx: "list_next (plinks s) (last (None # map Some xs)) = hd (map Some ys @ [None])"
    by (rule all_procs_next) (use ring prems(1) in simp)
  show ?case
  proof (cases ys)
    case Nil
    then show ?thesis using prems nx by simp
  next
    case (Cons p zs)
    have split: "ps = (xs @ [p]) @ zs" and len: "length ys = Suc (length zs)" using prems(1) Cons by simp_all
    have le: "last (None # map Some (xs @ [p])) = Some p" by simp
    have p: "p \<in> set ps" using split by simp
    let ?n = "pid (procs s p)"
    consider "?n = lst" "lst + 1 \<ge> safe" | "?n = lst" "lst + 1 < safe"
      | "?n \<noteq> lst" "?n > lst \<and> safe > ?n" | "?n \<noteq> lst" "\<not> (?n > lst \<and> safe > ?n)" by linarith
    then show ?thesis
    proof cases
      case 1
      let ?l = "if lst + 1 \<ge> MAX_PID then 1 else lst + 1"
      have d: "dist_to f lst = Suc (dist_to f ?l)" using dist_to_step [of lst f] prems(2-4) f 1 p by auto
      have fu: "dist_to f ?l * Suc (length ps) + length ps < fuel" using prems(6) unfolding d by simp
      have l: "1 \<le> ?l" "?l < MAX_PID" using prems(2) by (auto simp: MAX_PID_eq)
      have run: "get_pid_scan (Suc fuel) s (last (None # map Some xs)) lst safe = get_pid_scan fuel s None ?l MAX_PID"
        using nx Cons 1 by simp
      show ?thesis unfolding run using IH [of "[]" ps ?l MAX_PID, OF _ l(1) l(2) _ _ fu] by simp
    next
      case 2
      have nw: "\<not> lst + 1 \<ge> MAX_PID" using 2 prems(4) by linarith
      have d: "dist_to f lst = Suc (dist_to f (lst + 1))" using dist_to_step [of lst f] prems(2-4) f 2 p nw by auto
      have run: "get_pid_scan (Suc fuel) s (last (None # map Some xs)) lst safe = get_pid_scan fuel s (Some p) (lst + 1) safe"
        using nx Cons 2 by simp
      have fu: "dist_to f (lst + 1) * Suc (length ps) + length zs < fuel" using prems(6) len unfolding d by simp
      have g: "gap s (xs @ [p]) (lst + 1) safe" using gap_shrink [OF prems(5)] 2 by simp
      show ?thesis unfolding run using IH [OF split _ 2(2) prems(4) g fu] prems(2) le by simp
    next
      case 3
      have run: "get_pid_scan (Suc fuel) s (last (None # map Some xs)) lst safe = get_pid_scan fuel s (Some p) lst ?n"
        using nx Cons 3 by simp
      have fu: "dist_to f lst * Suc (length ps) + length zs < fuel" using prems(6) len by simp
      have g: "gap s (xs @ [p]) lst ?n" using gap_shrink [OF prems(5)] 3 by simp
      show ?thesis unfolding run using IH [OF split prems(2) _ _ g fu] 3 prems(4) le by simp
    next
      case 4
      have run: "get_pid_scan (Suc fuel) s (last (None # map Some xs)) lst safe = get_pid_scan fuel s (Some p) lst safe"
        using nx Cons 4 by auto
      have fu: "dist_to f lst * Suc (length ps) + length zs < fuel" using prems(6) len by simp
      have g: "gap s (xs @ [p]) lst safe" using prems(5) 4 by auto
      show ?thesis unfolding run using IH [OF split prems(2-4) g fu] le by simp
    qed
  qed
qed simp

text \<open>What the two static variables promise about the numbers in use.\<close>

definition pids_ok :: "'x pstate \<Rightarrow> nat list \<Rightarrow> bool" where
  "pids_ok s ps \<longleftrightarrow> 1 \<le> last_pid s \<and> last_pid s \<le> MAX_PID \<and> next_safe s \<le> MAX_PID \<and>
     gap s ps (last_pid s + 1) (next_safe s)"

definition pid_fuel :: "nat \<Rightarrow> nat" where
  "pid_fuel n = 8192 * Suc n + Suc n"

lemma dist_to_bound: "1 \<le> l \<Longrightarrow> f < MAX_PID \<Longrightarrow> dist_to f l \<le> 8191"
  by (auto simp: dist_to_def MAX_PID_eq)

lemma free_pid: "length ps < 8191 \<Longrightarrow> \<exists>f. 1 \<le> f \<and> f < MAX_PID \<and> (\<forall>p\<in>set ps. pid (procs s p) \<noteq> f)"
proof -
  assume len: "length ps < 8191"
  have "card ((\<lambda>p. pid (procs s p)) ` set ps) \<le> length ps"
    using card_image_le [of "set ps"] card_length [of ps] by (meson List.finite_set le_trans)
  then have "card ((\<lambda>p. pid (procs s p)) ` set ps) < card {1..<MAX_PID}" using len by (simp add: MAX_PID_eq)
  then have "\<not> {1..<MAX_PID} \<subseteq> (\<lambda>p. pid (procs s p)) ` set ps"
    using card_mono [of "(\<lambda>p. pid (procs s p)) ` set ps" "{1..<MAX_PID}"] by auto
  then show ?thesis by force
qed

lemma get_pid_ok:
  assumes ring: "all_procs s ps" and ok: "pids_ok s ps" and len: "length ps < 8191" and fuel: "pid_fuel (length ps) \<le> fuel"
  obtains n sf where "get_pid fuel s = Inr (n, s\<lparr>last_pid := n, next_safe := sf\<rparr>)"
    "1 \<le> n" "n < MAX_PID" "n < sf" "sf \<le> MAX_PID" "gap s ps n sf"
proof -
  obtain f where f: "1 \<le> f" "f < MAX_PID" "\<forall>p\<in>set ps. pid (procs s p) \<noteq> f" using free_pid [OF len] by blast
  have scan: "\<exists>l sf. get_pid_scan fuel s None l0 MAX_PID = Inr (l, sf) \<and> 1 \<le> l \<and> l < sf \<and> sf \<le> MAX_PID \<and> gap s ps l sf"
    if l0: "1 \<le> l0" "l0 < MAX_PID" for l0
  proof -
    have "dist_to f l0 * Suc (length ps) \<le> 8191 * Suc (length ps)" by (rule mult_le_mono1 [OF dist_to_bound [OF l0(1) f(2)]])
    then have "dist_to f l0 * Suc (length ps) + length ps < fuel" using fuel by (simp add: pid_fuel_def)
    then show ?thesis using get_pid_scan_ok [OF ring f, of "[]" ps l0 MAX_PID fuel] l0 by simp
  qed
  consider "last_pid s + 1 \<ge> MAX_PID" | "last_pid s + 1 < MAX_PID" "last_pid s + 1 \<ge> next_safe s"
    | "last_pid s + 1 < MAX_PID" "last_pid s + 1 < next_safe s" by linarith
  then show ?thesis
  proof cases
    case 1
    then show ?thesis using scan [of 1] that by (auto simp: get_pid_def MAX_PID_eq)
  next
    case 2
    then show ?thesis using scan [of "last_pid s + 1"] that ok by (fastforce simp: get_pid_def pids_ok_def)
  next
    case 3
    then show ?thesis using that [of "last_pid s + 1" "next_safe s"] ok by (auto simp: get_pid_def pids_ok_def Let_def)
  qed
qed

subsection \<open>Families\<close>

text \<open>The children of a process from the youngest on: \<open>optr\<close> leads to the older, \<open>yptr\<close> back.\<close>

fun sibs :: "(nat \<Rightarrow> proc_struct) \<Rightarrow> nat option \<Rightarrow> nat option \<Rightarrow> nat list \<Rightarrow> bool" where
  "sibs ps y c [] \<longleftrightarrow> c = None"
| "sibs ps y c (x # xs) \<longleftrightarrow> c = Some x \<and> yptr (ps x) = y \<and> sibs ps (Some x) (optr (ps x)) xs"

definition family :: "(nat \<Rightarrow> proc_struct) \<Rightarrow> (nat \<Rightarrow> nat list) \<Rightarrow> bool" where
  "family ps kids \<longleftrightarrow> (\<forall>q. sibs ps None (cptr (ps q)) (kids q) \<and> distinct (kids q) \<and>
     (\<forall>c\<in>set (kids q). par (ps c) = Some q))"

lemma sibs_frame:
  "\<forall>x\<in>set xs. yptr (ps' x) = yptr (ps x) \<and> optr (ps' x) = optr (ps x) \<Longrightarrow> sibs ps' y c xs = sibs ps y c xs"
  by (induction xs arbitrary: y c) auto

lemma sibs_head: "sibs ps y c xs \<Longrightarrow> c = (case xs of [] \<Rightarrow> None | x # _ \<Rightarrow> Some x)"
  by (cases xs) auto

lemma sibs_append:
  "sibs ps y c (xs @ z # zs) \<Longrightarrow>
     yptr (ps z) = (if xs = [] then y else Some (last xs)) \<and> sibs ps (Some z) (optr (ps z)) zs \<and>
     (xs = [] \<longrightarrow> c = Some z) \<and> (xs \<noteq> [] \<longrightarrow> optr (ps (last xs)) = Some z)"
proof (induction xs arbitrary: y c)
  case (Cons x xs)
  then show ?case by (cases xs) auto
qed auto

lemma family_parent: "family ps kids \<Longrightarrow> c \<in> set (kids q) \<Longrightarrow> par (ps c) = Some q"
  by (simp add: family_def)

lemma family_disjoint: "family ps kids \<Longrightarrow> c \<in> set (kids q) \<Longrightarrow> c \<in> set (kids r) \<Longrightarrow> q = r"
  using family_parent [of ps kids c q] family_parent [of ps kids c r] by simp

lemma family_sibs: "family ps kids \<Longrightarrow> sibs ps None (cptr (ps q)) (kids q)"
  by (simp add: family_def)

text \<open>What the link routines leave alone.\<close>

definition same_but_links :: "proc_struct \<Rightarrow> proc_struct \<Rightarrow> bool" where
  "same_but_links r r' \<longleftrightarrow> state r' = state r \<and> pid r' = pid r \<and> runs r' = runs r \<and> kstack r' = kstack r \<and>
     need_resched r' = need_resched r \<and> par r' = par r \<and> mm r' = mm r \<and> ctx r' = ctx r \<and> tf r' = tf r \<and>
     cr3 r' = cr3 r \<and> flags r' = flags r \<and> name r' = name r \<and> exit_code r' = exit_code r \<and> wait_state r' = wait_state r"

lemmas same_but_links_fields = same_but_links_def [THEN iffD1]

lemma proc_upd_simps [simp]:
  "procs (on_proc p f s) = (procs s)(p := f (procs s p))" "plinks (on_proc p f s) = plinks s"
  "hlinks (on_proc p f s) = hlinks s" "nr_process (on_proc p f s) = nr_process s"
  "current (on_proc p f s) = current s" "idleproc (on_proc p f s) = idleproc s"
  "initproc (on_proc p f s) = initproc s" "last_pid (on_proc p f s) = last_pid s"
  "next_safe (on_proc p f s) = next_safe s" "ext (on_proc p f s) = ext s"
  "frames (on_proc p f s) = frames s" "mm_count (on_proc p f s) = mm_count s" "user_ints (on_proc p f s) = user_ints s"
  "regs (on_proc p f s) = regs s" "satp (on_proc p f s) = satp s" "sstatus (on_proc p f s) = sstatus s"
  by (simp_all add: on_proc_def)

lemma on_opt_simps [simp]:
  "on_opt None f s = s" "on_opt (Some p) f s = on_proc p f s"
  "plinks (on_opt q f s) = plinks s" "nr_process (on_opt q f s) = nr_process s" "hlinks (on_opt q f s) = hlinks s"
  "current (on_opt q f s) = current s" "idleproc (on_opt q f s) = idleproc s" "initproc (on_opt q f s) = initproc s"
  "last_pid (on_opt q f s) = last_pid s" "next_safe (on_opt q f s) = next_safe s" "ext (on_opt q f s) = ext s"
  by (simp_all add: on_opt_def split: option.splits)

lemma set_links_ok:
  assumes fam: "family (procs s) kids" and p: "par (procs s p) = Some q" "p \<noteq> q" "\<forall>r. p \<notin> set (kids r)"
    and ring: "all_procs s ps" "p \<notin> set ps"
  obtains s' where "set_links p s = Inr s'" "family (procs s') (kids(q := p # kids q))" "all_procs s' (p # ps)"
    "\<forall>r. same_but_links (procs s r) (procs s' r)" "nr_process s' = nr_process s + 1" "hlinks s' = hlinks s"
    "s' = s\<lparr>procs := procs s', plinks := plinks s', nr_process := nr_process s'\<rparr>"
proof -
  let ?c = "cptr (procs s q)"
  define p1 where "p1 = (procs s)(p := (procs s p)\<lparr>yptr := None, optr := ?c\<rparr>)"
  define p2 where "p2 = (case ?c of None \<Rightarrow> p1 | Some x \<Rightarrow> p1(x := (p1 x)\<lparr>yptr := Some p\<rparr>))"
  define p3 where "p3 = p2(q := (p2 q)\<lparr>cptr := Some p\<rparr>)"
  let ?s' = "s\<lparr>procs := p3, plinks := list_add None (Some p) (plinks s), nr_process := nr_process s + 1\<rparr>"
  have hd: "?c = (case kids q of [] \<Rightarrow> None | x # _ \<Rightarrow> Some x)"
    using sibs_head [OF family_sibs [OF fam]] by simp
  have pc: "?c \<noteq> Some p"
  proof
    assume "?c = Some p"
    then have "p \<in> set (kids q)" using hd by (auto split: list.splits)
    then show False using p(3) by blast
  qed
  have run: "set_links p s = Inr ?s'"
    using p(1,2) pc by (cases ?c) (auto simp: set_links_def on_proc_def on_opt_def Let_def p1_def p2_def p3_def fun_eq_iff)
  have same: "same_but_links (procs s r) (p3 r)" for r
    by (simp add: p3_def p2_def p1_def same_but_links_def split: option.splits)
  have ysame: "yptr (p3 r) = (if r = p then None else if ?c = Some r then Some p else yptr (procs s r))"
    and osame: "optr (p3 r) = (if r = p then ?c else optr (procs s r))"
    and csame: "cptr (p3 r) = (if r = q then Some p else cptr (procs s r))" for r
    using p(2) pc by (auto simp: p3_def p2_def p1_def split: option.splits)
  have "family p3 (kids(q := p # kids q))" unfolding family_def
  proof (intro allI conjI)
    fix r
    show "sibs p3 None (cptr (p3 r)) ((kids(q := p # kids q)) r)"
    proof (cases "r = q")
      case False
      have "sibs p3 None (cptr (procs s r)) (kids r) = sibs (procs s) None (cptr (procs s r)) (kids r)"
      proof (rule sibs_frame, intro ballI)
        fix x assume x: "x \<in> set (kids r)"
        have "x \<noteq> p" using x p(3) by auto
        moreover have "?c \<noteq> Some x"
        proof
          assume "?c = Some x"
          then have "x \<in> set (kids q)" using hd by (auto split: list.splits)
          then show False using family_disjoint [OF fam x] False by blast
        qed
        ultimately show "yptr (p3 x) = yptr (procs s x) \<and> optr (p3 x) = optr (procs s x)" using ysame osame by simp
      qed
      then show ?thesis using False csame family_sibs [OF fam] by simp
    next
      case True
      have "sibs p3 (Some p) ?c (kids q)"
      proof (cases "kids q")
        case Nil
        then show ?thesis using hd by simp
      next
        case (Cons x xs)
        have s: "sibs (procs s) None (cptr (procs s q)) (x # xs)" and d: "distinct (x # xs)"
          using fam Cons unfolding family_def by metis+
        have np: "p \<notin> set (x # xs)" using p(3) Cons by metis
        have cx: "?c = Some x" using hd Cons by simp
        have "sibs p3 (Some x) (optr (procs s x)) xs = sibs (procs s) (Some x) (optr (procs s x)) xs"
          by (rule sibs_frame) (use d np cx ysame osame in auto)
        then show ?thesis using s Cons cx ysame osame np by auto
      qed
      then show ?thesis using True csame ysame osame by simp
    qed
    show "distinct ((kids(q := p # kids q)) r)" using fam p(3) by (auto simp: family_def)
    show "\<forall>c\<in>set ((kids(q := p # kids q)) r). par (p3 c) = Some r"
      using same_but_links_fields [OF same] family_parent [OF fam] p(1) by auto
  qed
  moreover have "all_procs ?s' (p # ps)"
    using ring_add_after_head [of "plinks s" None "map Some ps" "Some p"] ring by (auto simp: all_procs_def list_add_def)
  ultimately show ?thesis using that run same by simp
qed

lemma sibs_remove:
  assumes s: "sibs f y c (xs @ p # zs)" and d: "distinct (xs @ p # zs)"
    and opt: "\<forall>r. optr (f' r) = (if xs \<noteq> [] \<and> r = last xs then optr (f p) else optr (f r))"
    and ypt: "\<forall>r. yptr (f' r) = (if optr (f p) = Some r then yptr (f p) else yptr (f r))"
  shows "sibs f' y (if xs = [] then optr (f p) else c) (xs @ zs)"
  using s d opt
proof (induction xs arbitrary: y c)
  case Nil
  then have at: "c = Some p" "yptr (f p) = y" "sibs f (Some p) (optr (f p)) zs" by auto
  show ?case
  proof (cases zs)
    case Nil
    then show ?thesis using at by simp
  next
    case (Cons z ws)
    have z: "optr (f p) = Some z" "sibs f (Some z) (optr (f z)) ws" using at(3) Cons by auto
    have "sibs f' (Some z) (optr (f z)) ws = sibs f (Some z) (optr (f z)) ws"
      by (rule sibs_frame) (use Nil.prems(2,3) Cons ypt z(1) in auto)
    then show ?thesis using Cons z at Nil.prems(3) ypt by simp
  qed
next
  case (Cons x xs)
  have x: "c = Some x" "yptr (f x) = y" "sibs f (Some x) (optr (f x)) (xs @ p # zs)" using Cons.prems(1) by auto
  have no_x: "optr (f p) \<noteq> Some x"
  proof
    assume o: "optr (f p) = Some x"
    have "sibs f (Some p) (optr (f p)) zs" using sibs_append [OF x(3)] by simp
    then have "x \<in> set zs" using o by (cases zs) auto
    then show False using Cons.prems(2) by auto
  qed
  have yx: "yptr (f' x) = y" using ypt no_x x(2) by simp
  show ?case
  proof (cases xs)
    case Nil
    have s1: "sibs f (Some x) (optr (f x)) (p # zs)" using x(3) Nil by simp
    then have at: "optr (f x) = Some p" "yptr (f p) = Some x" "sibs f (Some p) (optr (f p)) zs" by auto
    have ox: "optr (f' x) = optr (f p)" using Cons.prems(3) Nil by simp
    have "sibs f' (Some x) (optr (f p)) zs"
    proof (cases zs)
      case Nil
      then show ?thesis using at by simp
    next
      case (Cons z ws)
      have z: "optr (f p) = Some z" "sibs f (Some z) (optr (f z)) ws" using at(3) Cons by auto
      have nx: "x \<notin> set zs" "distinct zs" using Cons.prems(2) by auto
      have o: "optr (f' r) = optr (f r)" if "r \<noteq> x" for r using Cons.prems(3) \<open>xs = []\<close> that by simp
      have "sibs f' (Some z) (optr (f z)) ws = sibs f (Some z) (optr (f z)) ws"
        by (rule sibs_frame) (use nx Cons ypt z(1) o in force)
      then show ?thesis using Cons z at ypt o nx by auto
    qed
    then show ?thesis using Nil x yx ox by simp
  next
    case (Cons w ws)
    have lx: "last (x # xs) = last xs" "last xs \<noteq> x" using Cons Cons.prems(2) by auto
    have "sibs f' (Some x) (if xs = [] then optr (f p) else optr (f x)) (xs @ zs)"
      by (rule Cons.IH) (use x(3) Cons.prems(2,3) Cons in auto)
    then show ?thesis using Cons x yx lx Cons.prems(3) by simp
  qed
qed

lemma remove_links_ok:
  assumes fam: "family (procs s) kids" and p: "par (procs s p) = Some q" "p \<in> set (kids q)" "p \<noteq> q" "q \<notin> set (kids q)"
    and ring: "all_procs s (us @ p # vs)"
  obtains s' where "remove_links p s = Inr s'" "family (procs s') (kids(q := remove1 p (kids q)))" "all_procs s' (us @ vs)"
    "\<forall>r. same_but_links (procs s r) (procs s' r)" "nr_process s' = nr_process s - 1" "hlinks s' = hlinks s"
    "s' = s\<lparr>procs := procs s', plinks := plinks s', nr_process := nr_process s'\<rparr>"
proof -
  obtain xs zs where k: "kids q = xs @ p # zs" using p(2) by (auto simp: in_set_conv_decomp)
  have d: "distinct (xs @ p # zs)" and s: "sibs (procs s) None (cptr (procs s q)) (xs @ p # zs)"
    using fam k unfolding family_def by metis+
  note at = sibs_append [OF s]
  let ?f = "procs s"
  define p1 where "p1 = (case optr (?f p) of None \<Rightarrow> ?f | Some x \<Rightarrow> ?f(x := (?f x)\<lparr>yptr := yptr (?f p)\<rparr>))"
  have ox: "optr (?f p) \<noteq> Some p"
    using at d by (cases zs) auto
  have oq: "optr (?f p) = Some x \<Longrightarrow> x \<in> set (kids q)" for x using at k by (cases zs) auto
  have p1: "yptr (p1 r) = (if optr (?f p) = Some r then yptr (?f p) else yptr (?f r))" "optr (p1 r) = optr (?f r)"
    "cptr (p1 r) = cptr (?f r)" "same_but_links (?f r) (p1 r)" "p1 p = ?f p" for r
    using ox by (auto simp: p1_def same_but_links_def split: option.splits)
  define p2 where "p2 = (case yptr (?f p) of Some y \<Rightarrow> p1(y := (p1 y)\<lparr>optr := optr (?f p)\<rparr>)
     | None \<Rightarrow> p1(q := (p1 q)\<lparr>cptr := optr (?f p)\<rparr>))"
  let ?s' = "s\<lparr>procs := p2, plinks := list_del (Some p) (plinks s), nr_process := nr_process s - 1\<rparr>"
  have par1: "par (p1 p) = Some q" using p1(5) p(1) by simp
  have yp: "yptr (?f p) = (if xs = [] then None else Some (last xs))" using at by simp
  have run: "remove_links p s = Inr ?s'"
    using p(1) ox
    by (cases "optr (?f p)"; cases "yptr (?f p)")
      (simp_all add: remove_links_def on_proc_def on_opt_def Let_def p1_def p2_def)
  have same: "same_but_links (?f r) (p2 r)" for r
    using p1(4) by (auto simp: p2_def same_but_links_def split: option.splits)
  have opt: "optr (p2 r) = (if xs \<noteq> [] \<and> r = last xs then optr (?f p) else optr (?f r))"
    and ypt: "yptr (p2 r) = (if optr (?f p) = Some r then yptr (?f p) else yptr (?f r))"
    and cpt: "cptr (p2 r) = (if xs = [] \<and> r = q then optr (?f p) else cptr (?f r))" for r
    using p1 yp by (auto simp: p2_def)
  have "family p2 (kids(q := remove1 p (kids q)))" unfolding family_def
  proof (intro allI conjI)
    fix r
    show "sibs p2 None (cptr (p2 r)) ((kids(q := remove1 p (kids q))) r)"
    proof (cases "r = q")
      case True
      have "sibs p2 None (if xs = [] then optr (?f p) else cptr (?f q)) (xs @ zs)"
        by (rule sibs_remove [OF s d]) (use opt ypt in auto)
      then show ?thesis using True cpt k d by (auto simp: remove1_append)
    next
      case False
      have "sibs p2 None (cptr (?f r)) (kids r) = sibs ?f None (cptr (?f r)) (kids r)"
      proof (rule sibs_frame, intro ballI)
        fix x assume x: "x \<in> set (kids r)"
        have "x \<notin> set (kids q)" using family_disjoint [OF fam x] False by blast
        then have "optr (?f p) \<noteq> Some x" "xs \<noteq> [] \<Longrightarrow> x \<noteq> last xs" using oq k by auto
        then show "yptr (p2 x) = yptr (?f x) \<and> optr (p2 x) = optr (?f x)" using opt ypt by auto
      qed
      then show ?thesis using False cpt family_sibs [OF fam] by simp
    qed
    show "distinct ((kids(q := remove1 p (kids q))) r)" using fam by (auto simp: family_def)
    show "\<forall>c\<in>set ((kids(q := remove1 p (kids q))) r). par (p2 c) = Some r"
      using same_but_links_fields [OF same] family_parent [OF fam] by (auto dest: notin_set_remove1 set_remove1_subset [THEN subsetD] split: if_splits)
  qed
  moreover have "all_procs ?s' (us @ vs)"
    using ring_del [of "plinks s" None "map Some us" "Some p" "map Some vs"] ring by (simp add: all_procs_def)
  ultimately show ?thesis using that run same by simp
qed

subsection \<open>The hash table holds the listed processes\<close>

definition hash_ok :: "'x pstate \<Rightarrow> nat set \<Rightarrow> bool" where
  "hash_ok s A \<longleftrightarrow> (\<exists>hs. (\<forall>i<HASH_LIST_SIZE. ring (hlinks s) (Inl i) (map Inr (hs i)) \<and>
     set (hs i) = {p \<in> A. pid_hashfn (pid (procs s p)) = i}))"

lemma pid_hashfn_bound: "pid_hashfn n < HASH_LIST_SIZE"
  using hash32_bound [of HASH_SHIFT "word_of_int n"] by (simp add: pid_hashfn_def HASH_LIST_SIZE_def HASH_SHIFT_def)

lemma hash_ok_cong:
  "hash_ok s A \<Longrightarrow> hlinks s' = hlinks s \<Longrightarrow> \<forall>p\<in>A. pid (procs s' p) = pid (procs s p) \<Longrightarrow> hash_ok s' A"
proof -
  assume h: "hash_ok s A" and l: "hlinks s' = hlinks s" and p: "\<forall>p\<in>A. pid (procs s' p) = pid (procs s p)"
  have "{x \<in> A. pid_hashfn (pid (procs s' x)) = i} = {x \<in> A. pid_hashfn (pid (procs s x)) = i}" for i
    using p by auto
  then show ?thesis using h l by (simp add: hash_ok_def)
qed

lemma bucket_disjoint:
  "ring l (Inl i :: nat + nat) xs \<Longrightarrow> set xs \<subseteq> range Inr \<Longrightarrow> i \<noteq> j \<Longrightarrow> set xs \<inter> set ys = {} \<Longrightarrow> set ys \<subseteq> range Inr \<Longrightarrow>
     set (Inl i # xs) \<inter> set (Inl j # ys) = {}"
  by auto

lemma hash_proc_ok:
  assumes h: "hash_ok s A" and p: "p \<notin> A"
  shows "hash_ok (hash_proc p s) (insert p A)"
proof -
  obtain hs where hs: "\<And>i. i < HASH_LIST_SIZE \<Longrightarrow> ring (hlinks s) (Inl i) (map Inr (hs i))"
    "\<And>i. i < HASH_LIST_SIZE \<Longrightarrow> set (hs i) = {p \<in> A. pid_hashfn (pid (procs s p)) = i}"
    using h by (auto simp: hash_ok_def)
  let ?i = "pid_hashfn (pid (procs s p))"
  let ?l = "list_add (Inl ?i) (Inr p) (hlinks s)"
  have i: "?i < HASH_LIST_SIZE" by (rule pid_hashfn_bound)
  have np: "Inr p \<notin> set (map Inr (hs j))" if "j < HASH_LIST_SIZE" for j using hs(2) [OF that] p by auto
  have here: "ring ?l (Inl ?i) (map Inr (p # hs ?i))"
    using ring_add_after_head [OF hs(1) [OF i], of "Inr p"] np [OF i] by (simp add: list_add_def)
  have "ring ?l (Inl j) (map Inr ((hs(?i := p # hs ?i)) j)) \<and>
      set ((hs(?i := p # hs ?i)) j) = {x \<in> insert p A. pid_hashfn (pid (procs (hash_proc p s) x)) = j}"
    if j: "j < HASH_LIST_SIZE" for j
  proof (cases "j = ?i")
    case True
    then show ?thesis using here hs(2) [OF i] by (auto simp: hash_proc_def)
  next
    case False
    have dis: "set (Inl ?i # map Inr (hs ?i)) \<inter> set (Inl j # map Inr (hs j)) = {}"
      using False hs(2) [OF i] hs(2) [OF j] by auto
    have "ring ?l (Inl j) (map Inr (hs j)) = ring (hlinks s) (Inl j) (map Inr (hs j))"
      unfolding list_add_def by (rule ring_frame_add_after [OF hs(1) [OF i] _ dis]) (use np [OF j] in auto)
    then show ?thesis using False hs [OF j] by (auto simp: hash_proc_def)
  qed
  then show ?thesis unfolding hash_ok_def
    by (intro exI [of _ "hs(?i := p # hs ?i)"]) (simp add: hash_proc_def)
qed

lemma unhash_proc_ok:
  assumes h: "hash_ok s A" and p: "p \<in> A"
  shows "hash_ok (unhash_proc p s) (A - {p})"
proof -
  obtain hs where hs: "\<And>i. i < HASH_LIST_SIZE \<Longrightarrow> ring (hlinks s) (Inl i) (map Inr (hs i))"
    "\<And>i. i < HASH_LIST_SIZE \<Longrightarrow> set (hs i) = {p \<in> A. pid_hashfn (pid (procs s p)) = i}"
    using h by (auto simp: hash_ok_def)
  let ?i = "pid_hashfn (pid (procs s p))"
  let ?l = "list_del (Inr p) (hlinks s)"
  have i: "?i < HASH_LIST_SIZE" by (rule pid_hashfn_bound)
  have "p \<in> set (hs ?i)" using hs(2) [OF i] p by auto
  then obtain xs ys where xs: "hs ?i = xs @ p # ys" by (auto simp: in_set_conv_decomp)
  have r: "ring (hlinks s) (Inl ?i) (map Inr xs @ Inr p # map Inr ys)" using hs(1) [OF i] xs by simp
  have d: "p \<notin> set xs" "p \<notin> set ys" using ring_distinct [OF r] by auto
  have "ring ?l (Inl j) (map Inr ((hs(?i := xs @ ys)) j)) \<and>
      set ((hs(?i := xs @ ys)) j) = {x \<in> A - {p}. pid_hashfn (pid (procs (unhash_proc p s) x)) = j}"
    if j: "j < HASH_LIST_SIZE" for j
  proof (cases "j = ?i")
    case True
    have "set (xs @ ys) = set (hs ?i) - {p}" using xs d by auto
    then show ?thesis using ring_del [OF r] True hs(2) [OF i] by (auto simp: unhash_proc_def)
  next
    case False
    have dis: "set (Inl ?i # map Inr (hs ?i)) \<inter> set (Inl j # map Inr (hs j)) = {}"
      using False hs(2) [OF i] hs(2) [OF j] by auto
    have "ring ?l (Inl j) (map Inr (hs j)) = ring (hlinks s) (Inl j) (map Inr (hs j))"
      by (rule ring_frame_del [OF hs(1) [OF i] _ dis]) (use xs in auto)
    then show ?thesis using False hs [OF j] by (auto simp: unhash_proc_def)
  qed
  then show ?thesis unfolding hash_ok_def
    by (intro exI [of _ "hs(?i := xs @ ys)"]) (simp add: unhash_proc_def)
qed

lemma find_in_bucket_ok:
  "ring (hlinks s) (Inl i) (map Inr (xs @ ys)) \<Longrightarrow> length ys < fuel \<Longrightarrow>
   find_in_bucket fuel i n (last (Inl i # map Inr xs)) s = Inr (find (\<lambda>p. pid (procs s p) = n) ys)"
proof (induction ys arbitrary: xs fuel)
  case Nil
  then obtain f where f: "fuel = Suc f" by (cases fuel) auto
  have "list_next (hlinks s) (last (Inl i # map Inr xs)) = Inl i"
    using ring_next_at [of "hlinks s" "Inl i" "map Inr xs" "[]"] Nil by (simp only: list_next_def) simp
  then show ?case using f by simp
next
  case (Cons y ys)
  then obtain f where f: "fuel = Suc f" by (cases fuel) auto
  have nx: "list_next (hlinks s) (last (Inl i # map Inr xs)) = Inr y"
    using ring_next_at [of "hlinks s" "Inl i" "map Inr xs" "map Inr (y # ys)"] Cons.prems(1) by (simp only: list_next_def) simp
  have "find_in_bucket f i n (last (Inl i # map Inr (xs @ [y]))) s = Inr (find (\<lambda>p. pid (procs s p) = n) ys)"
    by (rule Cons.IH) (use Cons.prems f in simp_all)
  then show ?case using nx f by simp
qed

lemma find_proc_ok:
  assumes h: "hash_ok s (set ps)" and d: "distinct ps" "inj_on (\<lambda>p. pid (procs s p)) (set ps)" and fuel: "length ps < fuel"
  shows "find_proc fuel n s =
    Inr (if 0 < n \<and> n < MAX_PID then find (\<lambda>p. pid (procs s p) = n) ps else None)"
proof (cases "0 < n \<and> n < MAX_PID")
  case True
  obtain hs where hs: "\<And>i. i < HASH_LIST_SIZE \<Longrightarrow> ring (hlinks s) (Inl i) (map Inr (hs i))"
    "\<And>i. i < HASH_LIST_SIZE \<Longrightarrow> set (hs i) = {p \<in> set ps. pid_hashfn (pid (procs s p)) = i}"
    using h by (auto simp: hash_ok_def)
  let ?i = "pid_hashfn n"
  note i = pid_hashfn_bound [of n]
  have "distinct (hs ?i)" using ring_distinct [OF hs(1) [OF i]] by (simp add: distinct_map)
  then have "length (hs ?i) = card (set (hs ?i))" by (simp add: distinct_card)
  also have "\<dots> \<le> card (set ps)" by (rule card_mono) (use hs(2) [OF i] in auto)
  also have "\<dots> \<le> length ps" by (rule card_length)
  finally have len: "length (hs ?i) < fuel" using fuel by simp
  have "find_in_bucket fuel ?i n (Inl ?i) s = Inr (find (\<lambda>p. pid (procs s p) = n) (hs ?i))"
    using find_in_bucket_ok [of s ?i "[]" "hs ?i" fuel n] hs(1) [OF i] len by simp
  moreover have "find (\<lambda>p. pid (procs s p) = n) (hs ?i) = find (\<lambda>p. pid (procs s p) = n) ps"
  proof (cases "\<exists>p\<in>set ps. pid (procs s p) = n")
    case True
    then obtain p where p: "p \<in> set ps" "pid (procs s p) = n" by blast
    have uniq: "q = p" if "q \<in> set ps" "pid (procs s q) = n" for q
      using d(2) p that by (auto simp: inj_on_def)
    have "find (\<lambda>p. pid (procs s p) = n) zs = Some p" if "p \<in> set zs" "set zs \<subseteq> set ps" for zs
    proof -
      have "find (\<lambda>p. pid (procs s p) = n) zs \<noteq> None" using that p by (auto simp: find_None_iff)
      then obtain q where q: "find (\<lambda>p. pid (procs s p) = n) zs = Some q" by blast
      then have "q \<in> set zs" "pid (procs s q) = n" by (auto simp: find_Some_iff)
      then show ?thesis using q uniq that by auto
    qed
    from this [of "hs ?i"] this [of ps] show ?thesis using p hs(2) [OF i] by auto
  next
    case False
    then have "find (\<lambda>p. pid (procs s p) = n) zs = None" if "set zs \<subseteq> set ps" for zs
      using that by (auto simp: find_None_iff)
    from this [of "hs ?i"] this [of ps] show ?thesis using hs(2) [OF i] by auto
  qed
  ultimately show ?thesis using True by (simp add: find_proc_def)
qed (auto simp: find_proc_def)

end
