(* ===== verification/Proc_Life.thy ===== *)
theory Proc_Life
  imports Proc
begin

text \<open>
  \<open>Lab5/kern/process/proc.c\<close> and \<open>Lab5/kern/schedule/sched.c\<close>, the life of processes: switching,
  scheduling over the list of all processes, forking, exiting, waiting and killing. The
  sections with interrupts disabled are single steps; messages are not modelled.
\<close>

subsection \<open>Switching and scheduling\<close>

definition lcr3 :: "64 word \<Rightarrow> 'x pstate \<Rightarrow> 'x pstate" where
  "lcr3 a s = s\<lparr>satp := 0x8000000000000000 OR drop_bit 12 a\<rparr>"

definition switch_to :: "nat \<Rightarrow> nat \<Rightarrow> 'x pstate \<Rightarrow> 'x pstate" where
  "switch_to prev nxt s =
     (let s1 = on_proc prev (ctx_update (\<lambda>_. regs s)) s in s1\<lparr>regs := ctx (procs s1 nxt)\<rparr>)"

definition proc_run :: "nat \<Rightarrow> 'x pstate \<Rightarrow> 'x pstate" where
  "proc_run p s =
     (if p \<noteq> current s
      then switch_to (current s) p (lcr3 (cr3 (procs s p)) (s\<lparr>current := p\<rparr>)) else s)"

definition wakeup_proc :: "nat \<Rightarrow> 'x pstate \<Rightarrow> 'x pstate res" where
  "wakeup_proc p s =
     kassert (state (procs s p) \<noteq> PROC_ZOMBIE)
       (Inr (if state (procs s p) \<noteq> PROC_RUNNABLE
             then on_proc p (\<lambda>r. r\<lparr>state := PROC_RUNNABLE, wait_state := 0\<rparr>) s else s))"

text \<open>
  The do-while loop of \<open>schedule\<close>: \<open>nxt\<close> is the variable \<open>next\<close>. The fuel bounds the number
  of entries passed; the length of the list plus one is enough.
\<close>

fun find_next :: "nat \<Rightarrow> nat option \<Rightarrow> nat option \<Rightarrow> nat option \<Rightarrow> 'x pstate \<Rightarrow> nat option res" where
  "find_next 0 lst le nxt s = Inl Out_Of_Fuel"
| "find_next (Suc fuel) lst le nxt s =
     (case list_next (plinks s) le of
        Some p \<Rightarrow>
          if state (procs s p) = PROC_RUNNABLE then Inr (Some p)
          else if Some p \<noteq> lst then find_next fuel lst (Some p) (Some p) s
          else Inr (Some p)
      | None \<Rightarrow> if None \<noteq> lst then find_next fuel lst None nxt s else Inr nxt)"

definition schedule :: "nat \<Rightarrow> 'x pstate \<Rightarrow> 'x pstate res" where
  "schedule fuel s =
     (let s1 = on_proc (current s) (need_resched_update (\<lambda>_. False)) s;
          lst = (if current s1 = idleproc s1 then None else Some (current s1))
      in kbind (find_next fuel lst lst None s1) (\<lambda>nxt.
           let n = (case nxt of None \<Rightarrow> idleproc s1
                    | Some p \<Rightarrow> if state (procs s1 p) \<noteq> PROC_RUNNABLE then idleproc s1 else p);
               s2 = on_proc n (\<lambda>r. r\<lparr>runs := runs r + 1\<rparr>) s1
           in Inr (if n \<noteq> current s2 then proc_run n s2 else s2)))"

subsection \<open>Fork\<close>

definition KSTACKSIZE :: "64 word" where "KSTACKSIZE = 2 * 4096"

text \<open>\<open>sizeof(struct trapframe)\<close>: 36 registers of 8 bytes.\<close>

definition TF_SIZE :: "64 word" where "TF_SIZE = 36 * 8"

definition setup_kstack :: "'x env \<Rightarrow> nat \<Rightarrow> 'x pstate \<Rightarrow> int \<times> 'x pstate" where
  "setup_kstack e p s =
     (case kstack_alloc e (ext s) of
        (Some a, x) \<Rightarrow> (0, on_proc p (kstack_update (\<lambda>_. a)) (s\<lparr>ext := x\<rparr>))
      | (None, x) \<Rightarrow> (- E_NO_MEM, s\<lparr>ext := x\<rparr>))"

definition put_kstack :: "'x env \<Rightarrow> nat \<Rightarrow> 'x pstate \<Rightarrow> 'x pstate" where
  "put_kstack e p s = s\<lparr>ext := kstack_free e (kstack (procs s p)) (ext s)\<rparr>"

definition kfree_struct :: "'x env \<Rightarrow> nat \<Rightarrow> 'x pstate \<Rightarrow> 'x pstate" where
  "kfree_struct e p s = s\<lparr>ext := kfree_proc e p (ext s)\<rparr>"

definition share_mm :: "'x env \<Rightarrow> nat \<Rightarrow> nat \<Rightarrow> 'x pstate \<Rightarrow> int \<times> 'x pstate" where
  "share_mm e m p s =
     (0, on_proc p (\<lambda>r. r\<lparr>mm := Some m, cr3 := pgdir_pa e m (ext s)\<rparr>)
           (s\<lparr>mm_count := (mm_count s)(m := mm_count s m + 1)\<rparr>))"

definition copy_mm :: "'x env \<Rightarrow> 32 word \<Rightarrow> nat \<Rightarrow> 'x pstate \<Rightarrow> int \<times> 'x pstate" where
  "copy_mm e clone_flags p s =
     (case mm (procs s (current s)) of
        None \<Rightarrow> (0, s)
      | Some oldmm \<Rightarrow>
          if clone_flags AND CLONE_VM \<noteq> 0 then share_mm e oldmm p s
          else (case mm_create e (ext s) of
             (None, x1) \<Rightarrow> (- E_NO_MEM, s\<lparr>ext := x1\<rparr>)
           | (Some m, x1) \<Rightarrow>
               (case setup_pgdir_op e m x1 of (r, x2) \<Rightarrow>
                  if r \<noteq> 0 then (- E_NO_MEM, s\<lparr>ext := mm_destroy e m x2\<rparr>)
                  else (case dup_mmap e m oldmm x2 of (ret, x3) \<Rightarrow>
                    if ret \<noteq> 0
                    then (ret, s\<lparr>ext := mm_destroy e m (put_pgdir_op e m (exit_mmap e m x3))\<rparr>)
                    else share_mm e m p (s\<lparr>ext := x3\<rparr>)))))"

definition copy_thread :: "'x env \<Rightarrow> nat \<Rightarrow> 64 word \<Rightarrow> trapframe \<Rightarrow> 'x pstate \<Rightarrow> 'x pstate" where
  "copy_thread e p esp frame s =
     (let a = kstack (procs s p) + KSTACKSIZE - TF_SIZE;
          f = frame\<lparr>gpr := (gpr frame)(reg_a0 := 0, reg_sp := if esp = 0 then a else esp)\<rparr>
      in on_proc p (\<lambda>r. r\<lparr>tf := a, ctx := (ctx r)\<lparr>ctx_ra := forkret_addr e, ctx_sp := a\<rparr>\<rparr>)
           (s\<lparr>frames := (frames s)(a := f)\<rparr>))"

text \<open>The section that gives the child its number and enters it into the tables.\<close>

definition enter_proc :: "nat \<Rightarrow> nat \<Rightarrow> 'x pstate \<Rightarrow> 'x pstate res" where
  "enter_proc fuel p s =
     kbind (get_pid fuel s) (\<lambda>(n, s1). set_links p (hash_proc p (on_proc p (pid_update (\<lambda>_. n)) s1)))"

definition do_fork :: "'x env \<Rightarrow> nat \<Rightarrow> 32 word \<Rightarrow> 64 word \<Rightarrow> trapframe \<Rightarrow> 'x pstate \<Rightarrow> (int \<times> 'x pstate) res" where
  "do_fork e fuel clone_flags stack frame s =
     (if nr_process s \<ge> MAX_PROCESS then Inr (- E_NO_FREE_PROC, s)
      else case alloc_proc e s of
        (None, s1) \<Rightarrow> Inr (- E_NO_MEM, s1)
      | (Some p, s1) \<Rightarrow>
          let s2 = on_proc p (par_update (\<lambda>_. Some (current s1))) s1 in
          kassert (wait_state (procs s2 (current s2)) = 0)
            (case setup_kstack e p s2 of (r, s3) \<Rightarrow>
               if r = - E_NO_MEM then Inr (- E_NO_MEM, kfree_struct e p s3)
               else (case copy_mm e clone_flags p s3 of (r', s4) \<Rightarrow>
                 if r' \<noteq> 0 then Inr (- E_NO_MEM, kfree_struct e p (put_kstack e p s4))
                 else kbind (enter_proc fuel p (copy_thread e p stack frame s4)) (\<lambda>s5.
                      kbind (wakeup_proc p s5) (\<lambda>s6. Inr (pid (procs s6 p), s6))))))"

definition SSTATUS_SIE :: "64 word" where "SSTATUS_SIE = 0x2"
definition SSTATUS_SPIE :: "64 word" where "SSTATUS_SPIE = 0x20"
definition SSTATUS_SPP :: "64 word" where "SSTATUS_SPP = 0x100"

definition kernel_thread :: "'x env \<Rightarrow> nat \<Rightarrow> 64 word \<Rightarrow> 64 word \<Rightarrow> 32 word \<Rightarrow> 'x pstate \<Rightarrow> (int \<times> 'x pstate) res" where
  "kernel_thread e fuel fn arg clone_flags s =
     do_fork e fuel (clone_flags OR CLONE_VM) 0
       \<lparr>gpr = (\<lambda>_. 0)(reg_s0 := fn, reg_s1 := arg),
        tf_status = (sstatus s OR SSTATUS_SPP OR SSTATUS_SPIE) AND NOT SSTATUS_SIE,
        tf_epc = kernel_thread_entry e, tf_tval = 0, tf_cause = 0\<rparr> s"

subsection \<open>Exit\<close>

definition drop_mm :: "'x env \<Rightarrow> 'x pstate \<Rightarrow> 'x pstate" where
  "drop_mm e s =
     (case mm (procs s (current s)) of
        None \<Rightarrow> s
      | Some m \<Rightarrow>
          let s1 = lcr3 (boot_cr3 e) s;
              s2 = s1\<lparr>mm_count := (mm_count s1)(m := mm_count s1 m - 1)\<rparr>;
              s3 = (if mm_count s2 m = 0
                    then s2\<lparr>ext := mm_destroy e m (put_pgdir_op e m (exit_mmap e m (ext s2)))\<rparr> else s2)
          in on_proc (current s3) (mm_update (\<lambda>_. None)) s3)"

text \<open>The loop that hands the children of the exiting process to \<open>initproc\<close>.\<close>

fun reparent :: "nat \<Rightarrow> 'x pstate \<Rightarrow> 'x pstate res" where
  "reparent 0 s = Inl Out_Of_Fuel"
| "reparent (Suc fuel) s =
     (case cptr (procs s (current s)) of
        None \<Rightarrow> Inr s
      | Some p \<Rightarrow>
          let s1 = on_proc (current s) (cptr_update (\<lambda>_. optr (procs s p))) s;
              s2 = on_proc p (yptr_update (\<lambda>_. None)) s1;
              s3 = on_proc p (optr_update (\<lambda>_. cptr (procs s2 (initproc s2)))) s2;
              s4 = on_opt (cptr (procs s3 (initproc s3))) (yptr_update (\<lambda>_. Some p)) s3;
              s5 = on_proc p (par_update (\<lambda>_. Some (initproc s4))) s4;
              s6 = on_proc (initproc s5) (cptr_update (\<lambda>_. Some p)) s5
          in kbind (if state (procs s6 p) = PROC_ZOMBIE \<and> wait_state (procs s6 (initproc s6)) = WT_CHILD
                    then wakeup_proc (initproc s6) s6 else Inr s6)
               (reparent fuel))"

text \<open>The part of \<open>do_exit\<close> before \<open>schedule\<close>.\<close>

definition exit_section :: "'x env \<Rightarrow> nat \<Rightarrow> int \<Rightarrow> 'x pstate \<Rightarrow> 'x pstate res" where
  "exit_section e fuel error_code s =
     (let s1 = drop_mm e s;
          s2 = on_proc (current s1) (\<lambda>r. r\<lparr>state := PROC_ZOMBIE, exit_code := error_code\<rparr>) s1
      in kbind (case par (procs s2 (current s2)) of
                  None \<Rightarrow> Inl Bad_Access
                | Some q \<Rightarrow> if wait_state (procs s2 q) = WT_CHILD then wakeup_proc q s2 else Inr s2)
           (reparent fuel))"

text \<open>\<open>schedule\<close> does not come back to a zombie: if it did, \<open>do_exit\<close> would panic.\<close>

definition do_exit :: "'x env \<Rightarrow> nat \<Rightarrow> int \<Rightarrow> 'x pstate \<Rightarrow> 'x pstate res" where
  "do_exit e fuel error_code s =
     (if current s = idleproc s \<or> current s = initproc s then Inl Panicked
      else kbind (exit_section e fuel error_code s) (\<lambda>s1.
             kbind (schedule fuel s1) (\<lambda>s2.
               if current s2 = current s then Inl Panicked else Inr s2)))"

definition do_yield :: "'x pstate \<Rightarrow> int \<times> 'x pstate" where
  "do_yield s = (0, on_proc (current s) (need_resched_update (\<lambda>_. True)) s)"

subsection \<open>Wait and kill\<close>

text \<open>The search of \<open>do_wait\<close>: whether there is a child to wait for, and one that is a zombie.\<close>

fun find_zombie :: "nat \<Rightarrow> nat option \<Rightarrow> bool \<Rightarrow> 'x pstate \<Rightarrow> (bool \<times> nat option) res" where
  "find_zombie 0 c haskid s = Inl Out_Of_Fuel"
| "find_zombie (Suc fuel) c haskid s =
     (case c of
        None \<Rightarrow> Inr (haskid, None)
      | Some p \<Rightarrow> if state (procs s p) = PROC_ZOMBIE then Inr (True, Some p)
                 else find_zombie fuel (optr (procs s p)) True s)"

definition wait_search :: "nat \<Rightarrow> int \<Rightarrow> 'x pstate \<Rightarrow> (bool \<times> nat option) res" where
  "wait_search fuel n s =
     (if n \<noteq> 0
      then kbind (find_proc fuel n s) (\<lambda>r.
             case r of
               None \<Rightarrow> Inr (False, None)
             | Some p \<Rightarrow> if par (procs s p) = Some (current s)
                        then Inr (True, if state (procs s p) = PROC_ZOMBIE then Some p else None)
                        else Inr (False, None))
      else find_zombie fuel (cptr (procs s (current s))) False s)"

definition reap :: "'x env \<Rightarrow> nat \<Rightarrow> 64 word \<Rightarrow> 'x pstate \<Rightarrow> 'x pstate res" where
  "reap e p code_store s =
     (if p = idleproc s \<or> p = initproc s then Inl Panicked
      else let s1 = (if code_store \<noteq> 0
                     then s\<lparr>user_ints := (user_ints s)(code_store := exit_code (procs s p))\<rparr> else s)
           in kbind (remove_links p (unhash_proc p s1)) (\<lambda>s2.
                Inr (kfree_struct e p (put_kstack e p s2))))"

text \<open>
  One pass of \<open>do_wait\<close>. It returns a code, or it puts the process to sleep and switches away;
  when the process is chosen again, \<open>wait_resume\<close> continues: it exits if it was killed in the
  meantime, otherwise it makes another pass.
\<close>

datatype outcome = Returned int | Blocked

definition wait_pass :: "'x env \<Rightarrow> nat \<Rightarrow> int \<Rightarrow> 64 word \<Rightarrow> 'x pstate \<Rightarrow> (outcome \<times> 'x pstate) res" where
  "wait_pass e fuel n code_store s =
     kbind (wait_search fuel n s) (\<lambda>(haskid, found).
       case found of
         Some p \<Rightarrow> kbind (reap e p code_store s) (\<lambda>s1. Inr (Returned 0, s1))
       | None \<Rightarrow>
           if haskid
           then kbind (schedule fuel (on_proc (current s) (\<lambda>r. r\<lparr>state := PROC_SLEEPING, wait_state := WT_CHILD\<rparr>) s))
                  (\<lambda>s1. Inr (Blocked, s1))
           else Inr (Returned (- E_BAD_PROC), s))"

definition do_wait :: "'x env \<Rightarrow> nat \<Rightarrow> int \<Rightarrow> 64 word \<Rightarrow> 'x pstate \<Rightarrow> (outcome \<times> 'x pstate) res" where
  "do_wait e fuel n code_store s =
     (if code_store \<noteq> 0 \<and> \<not> user_mem_check e (mm (procs s (current s))) code_store 4 True (ext s)
      then Inr (Returned (- E_INVAL), s) else wait_pass e fuel n code_store s)"

definition wait_resume :: "'x env \<Rightarrow> nat \<Rightarrow> int \<Rightarrow> 64 word \<Rightarrow> 'x pstate \<Rightarrow> (outcome \<times> 'x pstate) res" where
  "wait_resume e fuel n code_store s =
     (if flags (procs s (current s)) AND PF_EXITING \<noteq> 0
      then kbind (do_exit e fuel (- E_KILLED) s) (\<lambda>s1. Inr (Blocked, s1))
      else wait_pass e fuel n code_store s)"

definition do_kill :: "nat \<Rightarrow> int \<Rightarrow> 'x pstate \<Rightarrow> (int \<times> 'x pstate) res" where
  "do_kill fuel n s =
     kbind (find_proc fuel n s) (\<lambda>r.
       case r of
         None \<Rightarrow> Inr (- E_INVAL, s)
       | Some p \<Rightarrow>
           if flags (procs s p) AND PF_EXITING = 0
           then let s1 = on_proc p (\<lambda>r. r\<lparr>flags := flags r OR PF_EXITING\<rparr>) s
                in kbind (if wait_state (procs s1 p) AND WT_INTERRUPTED \<noteq> 0 then wakeup_proc p s1 else Inr s1)
                     (\<lambda>s2. Inr (0, s2))
           else Inr (- E_KILLED, s))"

subsection \<open>Start\<close>

definition init_hash :: "(nat + nat) links \<Rightarrow> (nat + nat) links" where
  "init_hash l = fold (\<lambda>i. list_init (Inl i)) [0..<HASH_LIST_SIZE] l"

text \<open>\<open>proc_init\<close>; the two names are the addresses of the strings, as byte memories.\<close>

definition proc_init :: "'x env \<Rightarrow> nat \<Rightarrow> (nat \<Rightarrow> 8 word) \<Rightarrow> (nat \<Rightarrow> 8 word) \<Rightarrow> 'x pstate \<Rightarrow> 'x pstate res" where
  "proc_init e fuel idle_name init_name s =
     (let s0 = s\<lparr>plinks := list_init None (plinks s), hlinks := init_hash (hlinks s)\<rparr> in
      case alloc_proc e s0 of
        (None, s1) \<Rightarrow> Inl Panicked
      | (Some p, s1) \<Rightarrow>
          let s2 = on_proc p (\<lambda>r. r\<lparr>pid := 0, state := PROC_RUNNABLE, kstack := bootstack e, need_resched := True\<rparr>)
                     (s1\<lparr>idleproc := p\<rparr>);
              s3 = set_proc_name p idle_name s2;
              s4 = s3\<lparr>nr_process := nr_process s3 + 1, current := p\<rparr>
          in kbind (kernel_thread e fuel (init_main_addr e) 0 0 s4) (\<lambda>(n, s5).
               if n \<le> 0 then Inl Panicked
               else kbind (find_proc fuel n s5) (\<lambda>r.
                 case r of
                   None \<Rightarrow> Inl Bad_Access
                 | Some q \<Rightarrow>
                     let s6 = set_proc_name q init_name (s5\<lparr>initproc := q\<rparr>)
                     in kassert (pid (procs s6 (idleproc s6)) = 0)
                          (kassert (pid (procs s6 (initproc s6)) = 1) (Inr s6)))))"

definition cpu_idle_step :: "nat \<Rightarrow> 'x pstate \<Rightarrow> 'x pstate res" where
  "cpu_idle_step fuel s = (if need_resched (procs s (current s)) then schedule fuel s else Inr s)"

lemma find_SomeD_split:
  "find P xs = Some p \<Longrightarrow> \<exists>ys zs. xs = ys @ p # zs \<and> P p \<and> (\<forall>y\<in>set ys. \<not> P y)"
proof (induction xs)
  case (Cons x xs)
  show ?case
  proof (cases "P x")
    case True
    then have "x # xs = [] @ p # xs \<and> P p" using Cons.prems by simp
    then show ?thesis by (metis empty_iff empty_set)
  next
    case False
    then obtain ys zs where "xs = ys @ p # zs" "P p" "\<forall>y\<in>set ys. \<not> P y" using Cons by auto
    then have "x # xs = (x # ys) @ p # zs \<and> P p \<and> (\<forall>y\<in>set (x # ys). \<not> P y)" using False by simp
    then show ?thesis by blast
  qed
qed simp

lemma find_append: "find P (xs @ ys) = (case find P xs of None \<Rightarrow> find P ys | Some x \<Rightarrow> Some x)"
  by (induction xs) auto

subsection \<open>The next process\<close>

lemma find_next_walk:
  "all_procs s (us @ xs @ ys) \<Longrightarrow> \<forall>x\<in>set xs. state (procs s x) \<noteq> PROC_RUNNABLE \<and> lst \<noteq> Some x \<Longrightarrow>
   find_next (length xs + f) lst (last (None # map Some us)) nxt s =
   find_next f lst (last (None # map Some (us @ xs))) (if xs = [] then nxt else Some (last xs)) s"
proof (induction xs arbitrary: us nxt)
  case (Cons x xs)
  have nx: "list_next (plinks s) (last (None # map Some us)) = Some x"
    using all_procs_next [of s us "x # xs @ ys"] Cons.prems(1) by simp
  have "find_next (length xs + f) lst (last (None # map Some (us @ [x]))) (Some x) s =
    find_next f lst (last (None # map Some ((us @ [x]) @ xs))) (if xs = [] then Some x else Some (last xs)) s"
    by (rule Cons.IH) (use Cons.prems in auto)
  then show ?case using nx Cons.prems(2) by (auto split: if_splits)
qed simp

lemma find_next_hit:
  assumes ring: "all_procs s (us @ xs @ p # ys)" and x: "\<forall>x\<in>set xs. state (procs s x) \<noteq> PROC_RUNNABLE \<and> lst \<noteq> Some x"
    and p: "state (procs s p) = PROC_RUNNABLE" and f: "length xs < fuel"
  shows "find_next fuel lst (last (None # map Some us)) nxt s = Inr (Some p)"
proof -
  obtain f' where f': "fuel = length xs + Suc f'" using f by (metis add_Suc_right less_imp_Suc_add)
  have "list_next (plinks s) (last (None # map Some (us @ xs))) = Some p"
    using all_procs_next [of s "us @ xs" "p # ys"] ring by simp
  then show ?thesis unfolding f' find_next_walk [OF ring x] using p by simp
qed

text \<open>The order in which processes are considered: those after the running one, then the others.\<close>

definition sched_order :: "'x pstate \<Rightarrow> nat list \<Rightarrow> nat list" where
  "sched_order s ps =
     (if current s = idleproc s then ps
      else tl (dropWhile (\<lambda>p. p \<noteq> current s) ps) @ takeWhile (\<lambda>p. p \<noteq> current s) ps @ [current s])"

definition chosen :: "'x pstate \<Rightarrow> nat list \<Rightarrow> nat" where
  "chosen s ps = (case find (\<lambda>p. state (procs s p) = PROC_RUNNABLE) (sched_order s ps) of
     None \<Rightarrow> idleproc s | Some p \<Rightarrow> p)"

lemma find_next_idle:
  assumes ring: "all_procs s ps" and f: "Suc (length ps) < fuel"
  shows "\<exists>r. find_next fuel None None None s = Inr r \<and>
    (case find (\<lambda>p. state (procs s p) = PROC_RUNNABLE) ps of
       Some p \<Rightarrow> r = Some p | None \<Rightarrow> (\<forall>p. r = Some p \<longrightarrow> state (procs s p) \<noteq> PROC_RUNNABLE))"
proof (cases "find (\<lambda>p. state (procs s p) = PROC_RUNNABLE) ps")
  case (Some p)
  then obtain xs ys where ps: "ps = xs @ p # ys" "state (procs s p) = PROC_RUNNABLE"
      and no: "\<forall>x\<in>set xs. state (procs s x) \<noteq> PROC_RUNNABLE"
    using find_SomeD_split [OF Some] by blast
  have "find_next fuel None (last (None # map Some [])) None s = Inr (Some p)"
  proof (rule find_next_hit)
    show "all_procs s ([] @ xs @ p # ys)" using ring ps(1) by simp
    show "\<forall>x\<in>set xs. state (procs s x) \<noteq> PROC_RUNNABLE \<and> None \<noteq> Some x" using no by simp
    show "length xs < fuel" using f ps(1) by simp
  qed (rule ps(2))
  then show ?thesis using Some by simp
next
  case None
  then have no: "\<forall>x\<in>set ps. state (procs s x) \<noteq> PROC_RUNNABLE" by (auto simp: find_None_iff)
  obtain f' where f': "fuel = length ps + Suc f'" using f by (metis add_Suc_right less_imp_Suc_add Suc_lessD)
  have "list_next (plinks s) (last (None # map Some ps)) = None"
    using all_procs_next [of s ps "[]"] ring by simp
  then have "find_next fuel None (last (None # map Some [])) None s = Inr (if ps = [] then None else Some (last ps))"
    unfolding f' using find_next_walk [of s "[]" ps "[]" None "Suc f'" None] ring no by simp
  then show ?thesis using None no by auto
qed

lemma find_next_from:
  assumes ring: "all_procs s (us @ c # vs)" and f: "Suc (Suc (length (us @ vs))) < fuel"
  shows "\<exists>r. find_next fuel (Some c) (Some c) None s = Inr r \<and>
    (case find (\<lambda>p. state (procs s p) = PROC_RUNNABLE) (vs @ us @ [c]) of
       Some p \<Rightarrow> r = Some p | None \<Rightarrow> (\<forall>p. r = Some p \<longrightarrow> state (procs s p) \<noteq> PROC_RUNNABLE))"
proof -
  let ?R = "\<lambda>p. state (procs s p) = PROC_RUNNABLE"
  have c: "c \<notin> set us" "c \<notin> set vs" using ring by (auto simp: all_procs_def ring_def)
  have le: "last (None # map Some (us @ [c])) = Some c" by simp
  show ?thesis
  proof (cases "find ?R vs")
    case (Some p)
    then obtain xs ys where vs: "vs = xs @ p # ys" "?R p" "\<forall>x\<in>set xs. \<not> ?R x"
      using find_SomeD_split [OF Some] by blast
    have "find_next fuel (Some c) (last (None # map Some (us @ [c]))) None s = Inr (Some p)"
    proof (rule find_next_hit)
      show "all_procs s ((us @ [c]) @ xs @ p # ys)" using ring vs(1) by simp
      show "\<forall>x\<in>set xs. state (procs s x) \<noteq> PROC_RUNNABLE \<and> Some c \<noteq> Some x" using vs(1,3) c(2) by auto
      show "length xs < fuel" using f vs(1) by simp
    qed (rule vs(2))
    then show ?thesis using Some by (simp add: find_append)
  next
    case None
    then have nv: "\<forall>x\<in>set vs. \<not> ?R x" by (auto simp: find_None_iff)
    obtain f' where f': "fuel = length vs + Suc f'" "Suc (length us) < f'"
      using f by (intro that [of "fuel - length vs - 1"]) auto
    let ?n = "if vs = [] then None else Some (last vs)"
    have nx: "list_next (plinks s) (last (None # map Some (us @ c # vs))) = None"
      using all_procs_next [of s "us @ c # vs" "[]"] ring by simp
    have "find_next fuel (Some c) (last (None # map Some (us @ [c]))) None s =
        find_next (Suc f') (Some c) (last (None # map Some ((us @ [c]) @ vs))) ?n s"
      unfolding f'(1) by (rule find_next_walk [of s "us @ [c]" vs "[]"]) (use ring nv c in auto)
    then have start: "find_next fuel (Some c) (Some c) None s = find_next f' (Some c) None ?n s"
      using nx le by simp
    show ?thesis
    proof (cases "find ?R us")
      case (Some p)
      then obtain xs ys where us: "us = xs @ p # ys" "?R p" "\<forall>x\<in>set xs. \<not> ?R x"
        using find_SomeD_split [OF Some] by blast
      have "find_next f' (Some c) (last (None # map Some [])) ?n s = Inr (Some p)"
      proof (rule find_next_hit)
        show "all_procs s ([] @ xs @ p # (ys @ c # vs))" using ring us(1) by simp
        show "\<forall>x\<in>set xs. state (procs s x) \<noteq> PROC_RUNNABLE \<and> Some c \<noteq> Some x" using us(1,3) c(1) by auto
        show "length xs < f'" using f'(2) us(1) by simp
      qed (rule us(2))
      then show ?thesis using Some None start by (simp add: find_append)
    next
      case nou: None
      then have nu: "\<forall>x\<in>set us. \<not> ?R x" by (auto simp: find_None_iff)
      show ?thesis
      proof (cases "?R c")
        case True
        have "find_next f' (Some c) (last (None # map Some [])) ?n s = Inr (Some c)"
        proof (rule find_next_hit)
          show "all_procs s ([] @ us @ c # vs)" using ring by simp
          show "\<forall>x\<in>set us. state (procs s x) \<noteq> PROC_RUNNABLE \<and> Some c \<noteq> Some x" using nu c(1) by auto
          show "length us < f'" using f'(2) by simp
        qed (rule True)
        then show ?thesis using None nou start True by (simp add: find_append)
      next
        case False
        obtain g where g: "f' = length us + Suc g" using f'(2) by (intro that [of "f' - length us - 1"]) auto
        have nx: "list_next (plinks s) (last (None # map Some ([] @ us))) = Some c"
          using all_procs_next [of s us "c # vs"] ring by simp
        have ring': "all_procs s ([] @ us @ c # vs)" using ring by simp
        have "\<forall>x\<in>set us. state (procs s x) \<noteq> PROC_RUNNABLE \<and> Some c \<noteq> Some x" using nu c(1) by auto
        note w = find_next_walk [OF ring' this, of "Suc g" ?n]
        have "find_next f' (Some c) (last (None # map Some [])) ?n s = Inr (Some c)"
          unfolding g w using nx False by simp
        then show ?thesis using None nou start False by (simp add: find_append)
      qed
    qed
  qed
qed

end
