(* ===== verification/Proc_Inv.thy ===== *)
theory Proc_Inv
  imports Proc_Life
begin

text \<open>
  What the routines of \<open>Proc\<close> and \<open>Proc_Life\<close> keep: the invariant of the process tables, and the
  effect of scheduling, forking, exiting and waiting in its terms.
\<close>

subsection \<open>The invariant\<close>

text \<open>
  \<open>ps\<close> are the processes of \<open>proc_list\<close> (all but the idle one), \<open>kids q\<close> the children of \<open>q\<close>
  from the youngest on.
\<close>

definition tables :: "'x pstate \<Rightarrow> nat list \<Rightarrow> (nat \<Rightarrow> nat list) \<Rightarrow> bool" where
  "tables s ps kids \<longleftrightarrow> all_procs s ps \<and> hash_ok s (set ps) \<and> family (procs s) kids \<and> pids_ok s ps \<and>
     inj_on (\<lambda>p. pid (procs s p)) (set ps) \<and> (\<forall>p\<in>set ps. 1 \<le> pid (procs s p) \<and> pid (procs s p) < MAX_PID) \<and>
     idleproc s \<notin> set ps \<and> nr_process s = int (length ps) + 1 \<and>
     (\<forall>q. \<forall>p\<in>set (kids q). p \<in> set ps) \<and>
     (\<forall>p\<in>set ps. \<exists>q. par (procs s p) = Some q \<and> p \<in> set (kids q) \<and> q \<noteq> p \<and> q \<in> insert (idleproc s) (set ps))"

lemma tablesD:
  assumes "tables s ps kids"
  shows "all_procs s ps" "hash_ok s (set ps)" "family (procs s) kids" "pids_ok s ps"
    "inj_on (\<lambda>p. pid (procs s p)) (set ps)" "idleproc s \<notin> set ps" "nr_process s = int (length ps) + 1"
    "\<And>q p. p \<in> set (kids q) \<Longrightarrow> p \<in> set ps"
    "\<And>p. p \<in> set ps \<Longrightarrow> 1 \<le> pid (procs s p) \<and> pid (procs s p) < MAX_PID"
  using assms by (auto simp: tables_def)

lemma tables_parent:
  assumes "tables s ps kids" "p \<in> set ps"
  obtains q where "par (procs s p) = Some q" "p \<in> set (kids q)" "q \<noteq> p" "q \<in> insert (idleproc s) (set ps)"
  using assms unfolding tables_def by blast

lemma tables_kids_parent: "tables s ps kids \<Longrightarrow> p \<in> set (kids q) \<Longrightarrow> par (procs s p) = Some q"
  using family_parent tablesD(3) by blast

lemma tables_no_kids:
  assumes t: "tables s ps kids" and q: "q \<notin> insert (idleproc s) (set ps)"
  shows "kids q = []"
proof (rule ccontr)
  assume "kids q \<noteq> []"
  then obtain p where p: "p \<in> set (kids q)" by (cases "kids q") auto
  obtain r where "par (procs s p) = Some r" "r \<in> insert (idleproc s) (set ps)"
    by (rule tables_parent [OF t tablesD(8) [OF t p]]) blast
  then show False using tables_kids_parent [OF t p] q by simp
qed

lemma tables_distinct: "tables s ps kids \<Longrightarrow> distinct ps"
  using ring_distinct [OF tablesD(1) [unfolded all_procs_def]] by (auto simp: distinct_map)

text \<open>The tables depend on the links and on these fields of the processes only.\<close>

definition same_tables :: "'x pstate \<Rightarrow> 'x pstate \<Rightarrow> bool" where
  "same_tables s s' \<longleftrightarrow> plinks s' = plinks s \<and> hlinks s' = hlinks s \<and> idleproc s' = idleproc s \<and>
     initproc s' = initproc s \<and> nr_process s' = nr_process s \<and> last_pid s' = last_pid s \<and> next_safe s' = next_safe s \<and>
     (\<forall>p. pid (procs s' p) = pid (procs s p) \<and> par (procs s' p) = par (procs s p) \<and>
        cptr (procs s' p) = cptr (procs s p) \<and> yptr (procs s' p) = yptr (procs s p) \<and> optr (procs s' p) = optr (procs s p))"

lemma same_tables_refl [simp]: "same_tables s s" by (simp add: same_tables_def)

lemma same_tables_trans: "same_tables a b \<Longrightarrow> same_tables b c \<Longrightarrow> same_tables a c" by (simp add: same_tables_def)

lemma family_cong:
  assumes "\<forall>p. par (f p) = par (g p) \<and> cptr (f p) = cptr (g p) \<and> yptr (f p) = yptr (g p) \<and> optr (f p) = optr (g p)"
  shows "family f kids = family g kids"
proof -
  have "sibs f y c xs = sibs g y c xs" for y c xs by (rule sibs_frame) (use assms in simp)
  then show ?thesis using assms by (simp add: family_def)
qed

lemma same_tables_tables: "same_tables s s' \<Longrightarrow> tables s ps kids \<Longrightarrow> tables s' ps kids"
proof -
  assume s: "same_tables s s'" and t: "tables s ps kids"
  have "hash_ok s' (set ps)" by (rule hash_ok_cong [OF tablesD(2) [OF t]]) (use s in \<open>auto simp: same_tables_def\<close>)
  moreover have "family (procs s') kids = family (procs s) kids"
    by (rule family_cong) (use s in \<open>simp add: same_tables_def\<close>)
  ultimately show ?thesis
    using s t by (simp add: tables_def same_tables_def all_procs_def pids_ok_def gap_def)
qed

lemma same_tables_on_proc:
  "(\<And>r. pid (f r) = pid r \<and> par (f r) = par r \<and> cptr (f r) = cptr r \<and> yptr (f r) = yptr r \<and> optr (f r) = optr r) \<Longrightarrow>
   same_tables s (on_proc p f s)"
  by (simp add: same_tables_def)

subsection \<open>Scheduling\<close>

lemma find_cong_set: "\<forall>x\<in>set xs. P x = Q x \<Longrightarrow> find P xs = find Q xs"
  by (induction xs) auto

lemma proc_run_same: "same_tables s (proc_run p s)" "current (proc_run p s) = p"
  "state (procs (proc_run p s) q) = state (procs s q)" "wait_state (procs (proc_run p s) q) = wait_state (procs s q)"
  "ext (proc_run p s) = ext s" "exit_code (procs (proc_run p s) q) = exit_code (procs s q)"
  by (auto simp: proc_run_def switch_to_def lcr3_def same_tables_def Let_def)

lemma list_schedule_ok:
  assumes t: "tables s ps kids" and c: "current s \<in> insert (idleproc s) (set ps)" and f: "Suc (Suc (length ps)) < fuel"
  obtains s' where "schedule fuel s = Inr s'" "current s' = chosen s ps" "same_tables s s'" "ext s' = ext s"
    "\<forall>p. state (procs s' p) = state (procs s p) \<and> wait_state (procs s' p) = wait_state (procs s p) \<and>
       exit_code (procs s' p) = exit_code (procs s p)"
proof -
  let ?s1 = "on_proc (current s) (need_resched_update (\<lambda>_. False)) s"
  let ?R = "\<lambda>s p. state (procs s p) = PROC_RUNNABLE"
  let ?l = "if current s = idleproc s then None else Some (current s)"
  have st: "state (procs ?s1 p) = state (procs s p)" for p by simp
  have ring: "all_procs ?s1 ps" using tablesD(1) [OF t] by (simp add: all_procs_def)
  have ord: "sched_order ?s1 ps = sched_order s ps" by (simp add: sched_order_def)
  have fnd: "find (?R ?s1) (sched_order ?s1 ps) = find (?R s) (sched_order s ps)"
    unfolding ord by (rule find_cong_set) simp
  have "\<exists>r. find_next fuel ?l ?l None ?s1 = Inr r \<and>
    (case find (?R ?s1) (sched_order ?s1 ps) of
       Some p \<Rightarrow> r = Some p | None \<Rightarrow> (\<forall>p. r = Some p \<longrightarrow> \<not> ?R ?s1 p))"
  proof (cases "current s = idleproc s")
    case True
    then show ?thesis using find_next_idle [OF ring, of fuel] f by (simp add: sched_order_def)
  next
    case False
    then obtain us vs where ps: "ps = us @ current s # vs" using c by (auto simp: in_set_conv_decomp)
    then have cu: "current s \<notin> set us" using tables_distinct [OF t] by auto
    have tw: "takeWhile (\<lambda>p. p \<noteq> current s) ps = us" "dropWhile (\<lambda>p. p \<noteq> current s) ps = current s # vs"
      unfolding ps using cu by (auto simp: takeWhile_append dropWhile_append)
    have "Suc (Suc (length (us @ vs))) < fuel" using f ps by simp
    from find_next_from [OF ring [unfolded ps] this] show ?thesis
      using False tw by (simp add: sched_order_def)
  qed
  then obtain r where r1: "find_next fuel ?l ?l None ?s1 = Inr r"
    and r0: "case find (?R ?s1) (sched_order ?s1 ps) of Some p \<Rightarrow> r = Some p | None \<Rightarrow> (\<forall>p. r = Some p \<longrightarrow> \<not> ?R ?s1 p)"
    by blast
  have r2: "case find (?R s) (sched_order s ps) of Some p \<Rightarrow> r = Some p | None \<Rightarrow> (\<forall>p. r = Some p \<longrightarrow> \<not> ?R s p)"
    using r0 unfolding ord st .
  let ?n = "chosen s ps"
  have n: "(case r of None \<Rightarrow> idleproc s | Some p \<Rightarrow> if state (procs ?s1 p) \<noteq> PROC_RUNNABLE then idleproc s else p) = ?n"
  proof (cases "find (?R s) (sched_order s ps)")
    case None
    then show ?thesis using r2 st by (auto simp: chosen_def split: option.splits)
  next
    case (Some p)
    then have "?R s p" by (auto simp: find_Some_iff)
    then show ?thesis using r2 Some st by (simp add: chosen_def)
  qed
  have ci: "current ?s1 = current s" "idleproc ?s1 = idleproc s" by simp_all
  let ?s2 = "on_proc ?n (\<lambda>r. r\<lparr>runs := runs r + 1\<rparr>) ?s1"
  let ?s' = "proc_run ?n ?s2"
  have run_if: "(if ?n \<noteq> current ?s2 then ?s' else ?s2) = ?s'" by (simp add: proc_run_def)
  have run: "schedule fuel s = Inr ?s'"
    unfolding schedule_def Let_def ci r1 kbind_simps n run_if ..
  have s2: "same_tables s ?s2" by (simp add: same_tables_def)
  have "same_tables s ?s'" by (rule same_tables_trans [OF s2 proc_run_same(1)])
  moreover have "current ?s' = ?n" by (rule proc_run_same(2))
  moreover have "state (procs ?s' p) = state (procs s p) \<and> wait_state (procs ?s' p) = wait_state (procs s p) \<and>
     exit_code (procs ?s' p) = exit_code (procs s p)" for p
    by (simp add: proc_run_same)
  moreover have "ext ?s' = ext s" by (simp add: proc_run_same)
  ultimately show ?thesis using that run by blast
qed

subsection \<open>Forking\<close>

definition fresh :: "nat \<Rightarrow> 'x pstate \<Rightarrow> nat list \<Rightarrow> bool" where
  "fresh p s ps \<longleftrightarrow> p \<notin> insert (idleproc s) (set ps)"

lemma tables_fresh_upd:
  assumes t: "tables s ps kids" and p: "fresh p s ps" and c: "cptr (f (procs s p)) = None"
  shows "tables (on_proc p f s) ps kids"
proof -
  have k: "kids p = []" using tables_no_kids [OF t] p by (simp add: fresh_def)
  have nk: "p \<notin> set (kids q)" for q using tablesD(8) [OF t] p by (auto simp: fresh_def)
  have ne: "x \<in> set ps \<Longrightarrow> x \<noteq> p" for x using p by (auto simp: fresh_def)
  have "family (procs (on_proc p f s)) kids" unfolding family_def
  proof (intro allI conjI)
    fix q
    have "sibs (procs (on_proc p f s)) None (cptr (procs s q)) (kids q) = sibs (procs s) None (cptr (procs s q)) (kids q)"
      by (rule sibs_frame) (use nk in auto)
    then show "sibs (procs (on_proc p f s)) None (cptr (procs (on_proc p f s) q)) (kids q)"
      using family_sibs [OF tablesD(3) [OF t]] k c by auto
    show "distinct (kids q)" "\<forall>c\<in>set (kids q). par (procs (on_proc p f s) c) = Some q"
      using tablesD(3) [OF t] nk by (auto simp: family_def)
  qed
  moreover have "hash_ok (on_proc p f s) (set ps)"
    by (rule hash_ok_cong [OF tablesD(2) [OF t]]) (use ne in auto)
  moreover have "inj_on (\<lambda>x. pid (procs (on_proc p f s) x)) (set ps) = inj_on (\<lambda>x. pid (procs s x)) (set ps)"
    by (rule inj_on_cong) (use ne in auto)
  ultimately show ?thesis
    using t ne p by (auto simp: tables_def all_procs_def pids_ok_def gap_def fresh_def)
qed

lemma enter_proc_ok:
  assumes t: "tables s ps kids" and p: "fresh p s ps" and q: "par (procs s p) = Some q" "q \<in> insert (idleproc s) (set ps)"
    and c: "cptr (procs s p) = None" and len: "length ps < 8191" and fuel: "pid_fuel (length ps) \<le> fuel"
  obtains n s' where "enter_proc fuel p s = Inr s'" "tables s' (p # ps) (kids(q := p # kids q))"
    "pid (procs s' p) = n" "\<forall>x\<in>set ps. pid (procs s x) \<noteq> n"
    "\<forall>r. same_but_links (if r = p then (procs s p)\<lparr>pid := n\<rparr> else procs s r) (procs s' r)"
    "current s' = current s" "idleproc s' = idleproc s" "initproc s' = initproc s" "ext s' = ext s" "frames s' = frames s"
proof -
  obtain n sf where n: "get_pid fuel s = Inr (n, s\<lparr>last_pid := n, next_safe := sf\<rparr>)"
    "1 \<le> n" "n < MAX_PID" "n < sf" "sf \<le> MAX_PID" "gap s ps n sf"
    by (rule get_pid_ok [OF tablesD(1,4) [OF t] len fuel]) blast
  let ?s1 = "s\<lparr>last_pid := n, next_safe := sf\<rparr>"
  let ?s2 = "on_proc p (pid_update (\<lambda>_. n)) ?s1"
  have newp: "\<forall>x\<in>set ps. pid (procs s x) \<noteq> n" using n(4,6) by (auto simp: gap_def)
  have np: "p \<notin> set ps" "p \<noteq> idleproc s" using p by (auto simp: fresh_def)
  have t1: "tables ?s1 ps kids"
  proof -
    have "hash_ok ?s1 (set ps)" by (rule hash_ok_cong [OF tablesD(2) [OF t]]) simp_all
    moreover have "gap s ps (n + 1) sf" by (rule gap_shrink [OF n(6)]) simp_all
    then have "pids_ok ?s1 ps" using n(2-5) by (simp add: pids_ok_def gap_def)
    ultimately show ?thesis using t by (simp add: tables_def all_procs_def)
  qed
  have t2: "tables ?s2 ps kids" by (rule tables_fresh_upd [OF t1]) (use p c in \<open>simp_all add: fresh_def\<close>)
  let ?s3 = "hash_proc p ?s2"
  have h3: "hash_ok ?s3 (insert p (set ps))" by (rule hash_proc_ok [OF tablesD(2) [OF t2] np(1)])
  have pr3: "procs ?s3 = procs ?s2" "plinks ?s3 = plinks s" "nr_process ?s3 = nr_process s"
    by (simp_all add: hash_proc_def)
  have pq: "p \<noteq> q" using q(2) np by auto
  have nk: "\<forall>r. p \<notin> set (kids r)" using tablesD(8) [OF t] np(1) by blast
  have fam3: "family (procs ?s3) kids" using tablesD(3) [OF t2] pr3 by simp
  have par3: "par (procs ?s3 p) = Some q" using q(1) pr3 by simp
  have ring3: "all_procs ?s3 ps" using tablesD(1) [OF t] pr3 by (simp add: all_procs_def)
  obtain s' where s': "set_links p ?s3 = Inr s'" "family (procs s') (kids(q := p # kids q))" "all_procs s' (p # ps)"
    "\<forall>r. same_but_links (procs ?s3 r) (procs s' r)" "nr_process s' = nr_process ?s3 + 1" "hlinks s' = hlinks ?s3"
    "s' = ?s3\<lparr>procs := procs s', plinks := plinks s', nr_process := nr_process s'\<rparr>"
    by (rule set_links_ok [OF fam3 par3 pq nk ring3 np(1)]) blast
  have run: "enter_proc fuel p s = Inr s'" using n(1) s'(1) by (simp add: enter_proc_def)
  have fld: "pid (procs s' r) = (if r = p then n else pid (procs s r))" "par (procs s' r) = par (procs s r)" for r
    using same_but_links_fields [OF s'(4) [rule_format, of r]] pr3 by auto
  have others: "last_pid s' = n" "next_safe s' = sf" "idleproc s' = idleproc s" "initproc s' = initproc s"
    "current s' = current s" "ext s' = ext s" "frames s' = frames s"
    by (subst s'(7), simp add: hash_proc_def)+
  have "tables s' (p # ps) (kids(q := p # kids q))" unfolding tables_def
  proof (intro conjI allI ballI)
    show "all_procs s' (p # ps)" "family (procs s') (kids(q := p # kids q))" by (rule s')+
    have "hash_ok s' (insert p (set ps))"
      by (rule hash_ok_cong [OF h3 s'(6)]) (use fld pr3 in auto)
    then show "hash_ok s' (set (p # ps))" by simp
    show "pids_ok s' (p # ps)" using n others fld np(1) by (auto simp: pids_ok_def gap_def)
    show "inj_on (\<lambda>x. pid (procs s' x)) (set (p # ps))"
      using tablesD(5) [OF t] newp np(1) by (auto simp: inj_on_def fld)
    show "idleproc s' \<notin> set (p # ps)" using others(3) tablesD(6) [OF t] np by simp
    show "nr_process s' = int (length (p # ps)) + 1" using s'(5) pr3 tablesD(7) [OF t] by simp
  next
    fix x assume "x \<in> set (p # ps)"
    then show "1 \<le> pid (procs s' x)" "pid (procs s' x) < MAX_PID"
      using fld n(2,3) tablesD(9) [OF t] by auto
  next
    fix x assume x: "x \<in> set (p # ps)"
    show "\<exists>r. par (procs s' x) = Some r \<and> x \<in> set ((kids(q := p # kids q)) r) \<and> r \<noteq> x \<and>
        r \<in> insert (idleproc s') (set (p # ps))"
    proof (cases "x = p")
      case True
      then show ?thesis using fld q pq others by (intro exI [of _ q]) auto
    next
      case False
      then obtain r where "par (procs s x) = Some r" "x \<in> set (kids r)" "r \<noteq> x" "r \<in> insert (idleproc s) (set ps)"
        using tables_parent [OF t] x by auto
      then show ?thesis using fld others by (intro exI [of _ r]) auto
    qed
  next
    fix r x assume "x \<in> set ((kids(q := p # kids q)) r)"
    then show "x \<in> set (p # ps)" using tablesD(8) [OF t] by (auto split: if_splits)
  qed
  moreover have "\<forall>r. same_but_links (if r = p then (procs s p)\<lparr>pid := n\<rparr> else procs s r) (procs s' r)"
    using s'(4) pr3 by (auto split: if_splits)
  ultimately show ?thesis using that run fld newp others by simp
qed

text \<open>
  A count of the resources in use: each allocator adds one when it succeeds and nothing when
  it fails, each release takes one away, and \<open>exit_mmap\<close> gives back what \<open>dup_mmap\<close> has taken.
\<close>

definition counted :: "'x env \<Rightarrow> ('x \<Rightarrow> int) \<Rightarrow> bool" where
  "counted e used \<longleftrightarrow>
     (\<forall>x. used (snd (kmalloc_proc e x)) = used x + (if fst (kmalloc_proc e x) = None then 0 else 1)) \<and>
     (\<forall>p x. used (kfree_proc e p x) = used x - 1) \<and>
     (\<forall>x. used (snd (kstack_alloc e x)) = used x + (if fst (kstack_alloc e x) = None then 0 else 1)) \<and>
     (\<forall>a x. used (kstack_free e a x) = used x - 1) \<and>
     (\<forall>x. used (snd (mm_create e x)) = used x + (if fst (mm_create e x) = None then 0 else 1)) \<and>
     (\<forall>m x. used (mm_destroy e m x) = used x - 1) \<and>
     (\<forall>m x. used (snd (setup_pgdir_op e m x)) = used x + (if fst (setup_pgdir_op e m x) = 0 then 1 else 0)) \<and>
     (\<forall>m x. used (put_pgdir_op e m x) = used x - 1) \<and>
     (\<forall>m n x. used (exit_mmap e m (snd (dup_mmap e m n x))) = used x)"

lemma counted_pair:
  assumes c: "counted e used"
  shows "kmalloc_proc e x = (r, y) \<Longrightarrow> used y = used x + (if r = None then 0 else 1)"
    and "kstack_alloc e x = (r2, y) \<Longrightarrow> used y = used x + (if r2 = None then 0 else 1)"
    and "mm_create e x = (r3, y) \<Longrightarrow> used y = used x + (if r3 = None then 0 else 1)"
    and "setup_pgdir_op e m x = (i, y) \<Longrightarrow> used y = used x + (if i = 0 then 1 else 0)"
    and "dup_mmap e m n x = (i, y) \<Longrightarrow> used (exit_mmap e m y) = used x"
    and "used (kfree_proc e p x) = used x - 1" and "used (kstack_free e a x) = used x - 1"
    and "used (mm_destroy e m x) = used x - 1" and "used (put_pgdir_op e m x) = used x - 1"
proof -
  have "used (snd (kmalloc_proc e x)) = used x + (if fst (kmalloc_proc e x) = None then 0 else 1)"
    "used (snd (kstack_alloc e x)) = used x + (if fst (kstack_alloc e x) = None then 0 else 1)"
    "used (snd (mm_create e x)) = used x + (if fst (mm_create e x) = None then 0 else 1)"
    "used (snd (setup_pgdir_op e m x)) = used x + (if fst (setup_pgdir_op e m x) = 0 then 1 else 0)"
    "used (exit_mmap e m (snd (dup_mmap e m n x))) = used x"
    "used (kfree_proc e p x) = used x - 1" "used (kstack_free e a x) = used x - 1"
    "used (mm_destroy e m x) = used x - 1" "used (put_pgdir_op e m x) = used x - 1"
    using c unfolding counted_def by blast+
  then show "kmalloc_proc e x = (r, y) \<Longrightarrow> used y = used x + (if r = None then 0 else 1)"
    and "kstack_alloc e x = (r2, y) \<Longrightarrow> used y = used x + (if r2 = None then 0 else 1)"
    and "mm_create e x = (r3, y) \<Longrightarrow> used y = used x + (if r3 = None then 0 else 1)"
    and "setup_pgdir_op e m x = (i, y) \<Longrightarrow> used y = used x + (if i = 0 then 1 else 0)"
    and "dup_mmap e m n x = (i, y) \<Longrightarrow> used (exit_mmap e m y) = used x"
    and "used (kfree_proc e p x) = used x - 1" and "used (kstack_free e a x) = used x - 1"
    and "used (mm_destroy e m x) = used x - 1" and "used (put_pgdir_op e m x) = used x - 1"
    by simp_all
qed

text \<open>What \<open>copy_mm\<close> changes in the child.\<close>

definition mm_change :: "nat \<Rightarrow> 'x pstate \<Rightarrow> 'x pstate \<Rightarrow> bool" where
  "mm_change p s s' \<longleftrightarrow> (\<exists>m a c x. s' = on_proc p (\<lambda>u. u\<lparr>mm := m, cr3 := a\<rparr>) (s\<lparr>ext := x, mm_count := c\<rparr>))"

lemma mm_change_ext: "mm_change p s (s\<lparr>ext := x\<rparr>)"
  unfolding mm_change_def
  by (intro exI [of _ "mm (procs s p)"] exI [of _ "cr3 (procs s p)"] exI [of _ "mm_count s"] exI [of _ x])
    (simp add: on_proc_def)

lemma mm_change_share: "share_mm e m p (s\<lparr>ext := y\<rparr>) = (r, s') \<Longrightarrow> r = 0 \<and> mm_change p s s'"
  by (auto simp: share_mm_def mm_change_def on_proc_def)

lemma copy_mm_shape: "copy_mm e fl p s = (r, s') \<Longrightarrow> mm_change p s s'"
  using mm_change_ext [of p s] mm_change_ext [of p s "ext s"] mm_change_share [where s = s and p = p]
    mm_change_share [where s = s and p = p and y = "ext s"]
  by (auto simp: copy_mm_def split: option.splits if_splits prod.splits)

lemma copy_mm_counted:
  assumes "copy_mm e fl p s = (r, s')" "r \<noteq> 0" and c: "counted e used"
  shows "used (ext s') = used (ext s)"
  using assms(1,2) counted_pair [OF c] mm_change_share [where s = s and p = p] mm_change_share [where s = s and p = p and y = "ext s"]
  by (auto simp: copy_mm_def split: option.splits if_splits prod.splits)

lemma tables_ext: "tables s ps kids \<Longrightarrow> tables (s\<lparr>ext := x\<rparr>) ps kids"
  by (erule same_tables_tables [rotated]) (simp add: same_tables_def)

lemma list_wakeup_ok:
  assumes "state (procs s p) \<noteq> PROC_ZOMBIE"
  obtains s' where "wakeup_proc p s = Inr s'" "same_tables s s'" "state (procs s' p) = PROC_RUNNABLE"
    "\<forall>q. q \<noteq> p \<longrightarrow> procs s' q = procs s q" "current s' = current s" "ext s' = ext s" "frames s' = frames s"
    "\<forall>q. exit_code (procs s' q) = exit_code (procs s q) \<and> pid (procs s' q) = pid (procs s q) \<and> tf (procs s' q) = tf (procs s q) \<and>
       par (procs s' q) = par (procs s q)" "user_ints s' = user_ints s"
proof -
  let ?s' = "if state (procs s p) \<noteq> PROC_RUNNABLE then on_proc p (\<lambda>r. r\<lparr>state := PROC_RUNNABLE, wait_state := 0\<rparr>) s else s"
  have "wakeup_proc p s = Inr ?s'" using assms by (simp add: wakeup_proc_def)
  then show ?thesis by (rule that) (auto simp: same_tables_def)
qed

text \<open>The child when the tables are entered: everything up to \<open>copy_thread\<close> acts on it alone.\<close>

lemma fork_child:
  assumes t: "tables s ps kids" and p: "fresh p s ps" and cur: "current s \<in> insert (idleproc s) (set ps)"
    and len: "length ps < 8191" and fuel: "pid_fuel (length ps) \<le> fuel"
    and s4: "s4 = on_proc p f (s\<lparr>ext := x, mm_count := mc\<rparr>)"
    and f: "state (f (procs s p)) = PROC_UNINIT" "par (f (procs s p)) = Some (current s)" "cptr (f (procs s p)) = None"
  obtains n s6 where "kbind (enter_proc fuel p (copy_thread e p stack frame s4)) (\<lambda>s5.
        kbind (wakeup_proc p s5) (\<lambda>s6. Inr (pid (procs s6 p), s6))) = Inr (n, s6)"
    "tables s6 (p # ps) (kids(current s := p # kids (current s)))" "1 \<le> n" "pid (procs s6 p) = n"
    "\<forall>q\<in>set ps. pid (procs s q) \<noteq> n" "state (procs s6 p) = PROC_RUNNABLE" "par (procs s6 p) = Some (current s)"
    "gpr (frames s6 (tf (procs s6 p))) reg_a0 = 0" "current s6 = current s"
    "\<forall>q. q \<noteq> p \<longrightarrow> state (procs s6 q) = state (procs s q)"
proof -
  let ?s5 = "copy_thread e p stack frame s4"
  define g :: "proc_struct \<Rightarrow> proc_struct" where "g r = (let a = kstack r + KSTACKSIZE - TF_SIZE in r\<lparr>tf := a, ctx := (ctx r)\<lparr>ctx_ra := forkret_addr e, ctx_sp := a\<rparr>\<rparr>)" for r
  define fr where "fr = frames ?s5"
  have s5: "?s5 = on_proc p (g \<circ> f) (s\<lparr>ext := x, mm_count := mc, frames := fr\<rparr>)"
    unfolding fr_def by (simp add: copy_thread_def s4 on_proc_def Let_def g_def)
  have a0: "gpr (frames ?s5 (tf (procs ?s5 p))) reg_a0 = 0"
    by (simp add: copy_thread_def Let_def reg_a0_def reg_sp_def)
  have t0: "tables (s\<lparr>ext := x, mm_count := mc, frames := fr\<rparr>) ps kids"
    by (rule same_tables_tables [OF _ t]) (simp add: same_tables_def)
  have t5: "tables ?s5 ps kids"
    unfolding s5 by (rule tables_fresh_upd [OF t0]) (use p f in \<open>simp_all add: fresh_def g_def Let_def\<close>)
  have at5: "fresh p ?s5 ps" "par (procs ?s5 p) = Some (current s)" "current s \<in> insert (idleproc ?s5) (set ps)"
    "cptr (procs ?s5 p) = None" "state (procs ?s5 p) = PROC_UNINIT"
    unfolding s5 using p f cur by (simp_all add: fresh_def g_def Let_def)
  obtain n s' where n: "enter_proc fuel p ?s5 = Inr s'" "tables s' (p # ps) (kids(current s := p # kids (current s)))"
    "pid (procs s' p) = n" "\<forall>x\<in>set ps. pid (procs ?s5 x) \<noteq> n"
    "\<forall>r. same_but_links (if r = p then (procs ?s5 p)\<lparr>pid := n\<rparr> else procs ?s5 r) (procs s' r)"
    "current s' = current ?s5" "idleproc s' = idleproc ?s5" "initproc s' = initproc ?s5" "ext s' = ext ?s5" "frames s' = frames ?s5"
    by (rule enter_proc_ok [OF t5 at5(1-4) len fuel]) blast
  have sp: "state (procs s' p) = PROC_UNINIT" "tf (procs s' p) = tf (procs ?s5 p)" "par (procs s' p) = Some (current s)"
    using same_but_links_fields [OF n(5) [rule_format, of p]] at5 by simp_all
  have so: "state (procs s' q) = state (procs s q)" if "q \<noteq> p" for q
    using same_but_links_fields [OF n(5) [rule_format, of q]] that by (simp add: s5)
  have zz: "state (procs s' p) \<noteq> PROC_ZOMBIE" using sp by simp
  obtain s6 where s6: "wakeup_proc p s' = Inr s6" "same_tables s' s6" "state (procs s6 p) = PROC_RUNNABLE"
    "\<forall>q. q \<noteq> p \<longrightarrow> procs s6 q = procs s' q" "current s6 = current s'" "ext s6 = ext s'" "frames s6 = frames s'"
    "\<forall>q. exit_code (procs s6 q) = exit_code (procs s' q) \<and> pid (procs s6 q) = pid (procs s' q) \<and> tf (procs s6 q) = tf (procs s' q) \<and>
       par (procs s6 q) = par (procs s' q)"
    by (rule list_wakeup_ok [OF zz]) blast
  have run: "kbind (enter_proc fuel p ?s5) (\<lambda>s5. kbind (wakeup_proc p s5) (\<lambda>s6. Inr (pid (procs s6 p), s6))) = Inr (n, s6)"
    using n(1,3) s6(1,8) by simp
  have t6: "tables s6 (p # ps) (kids(current s := p # kids (current s)))" by (rule same_tables_tables [OF s6(2) n(2)])
  have "1 \<le> n" using tablesD(9) [OF n(2), of p] n(3) by simp
  moreover have "\<forall>q\<in>set ps. pid (procs s q) \<noteq> n"
  proof
    fix q assume q: "q \<in> set ps"
    then have "q \<noteq> p" using p by (auto simp: fresh_def)
    then show "pid (procs s q) \<noteq> n" using n(4) [rule_format, OF q] by (simp add: s5)
  qed
  moreover have "gpr (frames s6 (tf (procs s6 p))) reg_a0 = 0" using a0 s6(7,8) n(10) sp(2) by simp
  moreover have "current s6 = current s" using s6(5) n(6) by (simp add: s5)
  ultimately show ?thesis using that [OF run t6] s6(3,4,8) n(3) sp so by simp
qed

lemma do_fork_ok:
  assumes t: "tables s ps kids" and cur: "current s \<in> insert (idleproc s) (set ps)"
    and fr: "\<And>p x. kmalloc_proc e (ext s) = (Some p, x) \<Longrightarrow> fresh p s ps"
    and w: "wait_state (procs s (current s)) = 0" and fuel: "pid_fuel (length ps) \<le> fuel"
  shows "\<exists>n s'. do_fork e fuel fl stack frame s = Inr (n, s') \<and> current s' = current s \<and>
    (if 0 < n then \<exists>p. fresh p s ps \<and> tables s' (p # ps) (kids(current s := p # kids (current s))) \<and>
        pid (procs s' p) = n \<and> (\<forall>q\<in>set ps. pid (procs s q) \<noteq> n) \<and> state (procs s' p) = PROC_RUNNABLE \<and>
        par (procs s' p) = Some (current s) \<and> gpr (frames s' (tf (procs s' p))) reg_a0 = 0 \<and>
        (\<forall>q. q \<noteq> p \<longrightarrow> state (procs s' q) = state (procs s q))
     else n \<in> {- E_NO_FREE_PROC, - E_NO_MEM} \<and> tables s' ps kids \<and>
        (\<forall>used. counted e used \<longrightarrow> used (ext s') = used (ext s)))"
proof (cases "nr_process s \<ge> MAX_PROCESS")
  case True
  then show ?thesis using t by (simp add: do_fork_def errno_defs)
next
  case False
  then have len: "length ps < 8191" using tablesD(7) [OF t] by (simp add: MAX_PROCESS_def)
  show ?thesis
  proof (cases "kmalloc_proc e (ext s)")
    case (Pair r x)
    show ?thesis
    proof (cases r)
      case None
      have "used x = used (ext s)" if "counted e used" for used :: "'a \<Rightarrow> int"
        using counted_pair(1) [OF that Pair] None by simp
      then show ?thesis using False Pair None tables_ext [OF t] by (simp add: do_fork_def alloc_proc_def errno_defs)
    next
      case (Some p)
      have p: "fresh p s ps" using fr Pair Some by simp
      have pc: "current s \<noteq> p" using p cur by (auto simp: fresh_def)
      let ?f = "\<lambda>r. init_proc (boot_cr3 e) r\<lparr>par := Some (current s)\<rparr>"
      let ?s2 = "on_proc p ?f (s\<lparr>ext := x\<rparr>)"
      have s2: "alloc_proc e s = (Some p, on_proc p (init_proc (boot_cr3 e)) (s\<lparr>ext := x\<rparr>))"
        "on_proc p (par_update (\<lambda>_. Some (current s))) (on_proc p (init_proc (boot_cr3 e)) (s\<lparr>ext := x\<rparr>)) = ?s2"
        using Pair Some by (simp_all add: alloc_proc_def on_proc_def)
      have w2: "wait_state (procs ?s2 (current ?s2)) = 0" using w pc by simp
      have f2: "state (?f q) = PROC_UNINIT" "par (?f q) = Some (current s)" "cptr (?f q) = None" for q
        by (simp_all add: init_proc_def)
      have t2: "tables (on_proc p g (s\<lparr>ext := y, mm_count := c\<rparr>)) ps kids" if "cptr (g (procs s p)) = None" for g y c
      proof -
        have "tables (s\<lparr>ext := y, mm_count := c\<rparr>) ps kids"
          by (rule same_tables_tables [OF _ t]) (simp add: same_tables_def)
        then show ?thesis by (rule tables_fresh_upd) (use p that in \<open>simp_all add: fresh_def\<close>)
      qed
      obtain k y where ky: "kstack_alloc e x = (k, y)" by fastforce
      show ?thesis
      proof (cases k)
        case None
        have u: "used (kfree_proc e p y) = used (ext s)" if "counted e used" for used :: "'a \<Rightarrow> int"
          using counted_pair(1) [OF that Pair] counted_pair(2) [OF that ky] counted_pair(6) [OF that] None Some by simp
        have "do_fork e fuel fl stack frame s = Inr (- E_NO_MEM, ?s2\<lparr>ext := kfree_proc e p y\<rparr>)"
          using False w pc ky None by (simp add: s2 do_fork_def setup_kstack_def kfree_struct_def Let_def)
        moreover have "tables (on_proc p ?f (s\<lparr>ext := x, mm_count := mm_count s\<rparr>)) ps kids" by (rule t2) (rule f2(3))
        then have "tables (?s2\<lparr>ext := kfree_proc e p y\<rparr>) ps kids" by (intro tables_ext) simp
        ultimately show ?thesis using u by (simp add: errno_defs)
      next
        case (Some a)
        let ?s3 = "on_proc p (kstack_update (\<lambda>_. a)) (?s2\<lparr>ext := y\<rparr>)"
        obtain r' s4 where c: "copy_mm e fl p ?s3 = (r', s4)" by fastforce
        obtain m a' cc z where s4: "s4 = on_proc p (\<lambda>u. u\<lparr>mm := m, cr3 := a'\<rparr>) (?s3\<lparr>ext := z, mm_count := cc\<rparr>)"
          using copy_mm_shape [OF c] unfolding mm_change_def by blast
        let ?g = "\<lambda>r. (?f r)\<lparr>kstack := a, mm := m, cr3 := a'\<rparr>"
        have s4': "s4 = on_proc p ?g (s\<lparr>ext := z, mm_count := cc\<rparr>)"
          by (simp add: s4 on_proc_def)
        have g: "state (?g (procs s p)) = PROC_UNINIT" "par (?g (procs s p)) = Some (current s)" "cptr (?g (procs s p)) = None"
          by (simp_all add: init_proc_def)
        have run: "do_fork e fuel fl stack frame s =
            (if r' \<noteq> 0 then Inr (- E_NO_MEM, kfree_struct e p (put_kstack e p s4))
             else kbind (enter_proc fuel p (copy_thread e p stack frame s4)) (\<lambda>s5.
                      kbind (wakeup_proc p s5) (\<lambda>s6. Inr (pid (procs s6 p), s6))))"
          using False w pc ky Some c by (simp add: s2 do_fork_def setup_kstack_def Let_def errno_defs)
        show ?thesis
        proof (cases "r' = 0")
          case True
          obtain n s6 where "kbind (enter_proc fuel p (copy_thread e p stack frame s4)) (\<lambda>s5.
              kbind (wakeup_proc p s5) (\<lambda>s6. Inr (pid (procs s6 p), s6))) = Inr (n, s6)"
            "tables s6 (p # ps) (kids(current s := p # kids (current s)))" "1 \<le> n" "pid (procs s6 p) = n"
            "\<forall>q\<in>set ps. pid (procs s q) \<noteq> n" "state (procs s6 p) = PROC_RUNNABLE" "par (procs s6 p) = Some (current s)"
            "gpr (frames s6 (tf (procs s6 p))) reg_a0 = 0" "current s6 = current s"
            "\<forall>q. q \<noteq> p \<longrightarrow> state (procs s6 q) = state (procs s q)"
            by (rule fork_child [OF t p cur len fuel s4' g]) blast
          then show ?thesis using run True p by (intro exI [of _ n] exI [of _ s6]) auto
        next
          case nz: False
          let ?s' = "kfree_struct e p (put_kstack e p s4)"
          have u: "used (ext ?s') = used (ext s)" if cu: "counted e used" for used :: "'a \<Rightarrow> int"
            using counted_pair(1) [OF cu Pair] counted_pair(2) [OF cu ky] counted_pair(6,7) [OF cu]
              copy_mm_counted [OF c nz cu] Some \<open>r = Some p\<close>
            by (simp add: kfree_struct_def put_kstack_def)
          have "tables s4 ps kids" unfolding s4' by (rule t2) (rule g(3))
          then have "tables ?s' ps kids" using tables_ext by (simp add: kfree_struct_def put_kstack_def)
          moreover have "current ?s' = current s" by (simp add: kfree_struct_def put_kstack_def s4')
          ultimately show ?thesis using run nz u by (simp add: errno_defs)
        qed
      qed
    qed
  qed
qed

subsection \<open>Exiting: the children move to \<open>initproc\<close>\<close>

text \<open>
  While the loop runs, the youngest child left still points back to one that has been moved;
  the links are right again when no child is left.
\<close>

definition family_but :: "nat \<Rightarrow> (nat \<Rightarrow> proc_struct) \<Rightarrow> (nat \<Rightarrow> nat list) \<Rightarrow> bool" where
  "family_but c f kids \<longleftrightarrow> (\<forall>q. (\<exists>y. (q \<noteq> c \<longrightarrow> y = None) \<and> sibs f y (cptr (f q)) (kids q)) \<and> distinct (kids q) \<and>
     (\<forall>x\<in>set (kids q). par (f x) = Some q))"

lemma family_but: "family f kids \<Longrightarrow> family_but c f kids"
  by (auto simp: family_def family_but_def)

lemma family_but_done: "family_but c f kids \<Longrightarrow> kids c = [] \<Longrightarrow> family f kids"
proof -
  assume f: "family_but c f kids" and k: "kids c = []"
  have "sibs f None (cptr (f q)) (kids q)" for q
    using f k unfolding family_but_def by (cases "q = c") (metis sibs.simps(1), metis)
  then show ?thesis using f by (simp add: family_def family_but_def)
qed

lemma family_but_sibs: "family_but c f kids \<Longrightarrow> q \<noteq> c \<Longrightarrow> sibs f None (cptr (f q)) (kids q)"
  unfolding family_but_def by metis

lemma reparent_links:
  assumes fam: "family_but c f kids" and kc: "kids c = x # xs" and ne: "c \<noteq> i" "x \<noteq> i" "x \<noteq> c"
    and cp: "\<forall>r. cptr (g r) = (if r = i then Some x else if r = c then optr (f x) else cptr (f r))"
    and yp: "\<forall>r. yptr (g r) = (if r = x then None else if cptr (f i) = Some r then Some x else yptr (f r))"
    and op: "\<forall>r. optr (g r) = (if r = x then cptr (f i) else optr (f r))"
    and pp: "\<forall>r. par (g r) = (if r = x then Some i else par (f r))"
  shows "family_but c g (kids(c := xs, i := x # kids i))"
  unfolding family_but_def
proof (intro allI conjI)
  have par: "y \<in> set (kids q) \<Longrightarrow> par (f y) = Some q" for y q using fam by (auto simp: family_but_def)
  have dist: "distinct (kids q)" for q using fam by (auto simp: family_but_def)
  note sib = family_but_sibs [OF fam]
  have sc: "sibs f (Some x) (optr (f x)) xs"
    using fam kc by (auto simp: family_but_def dest!: spec [of _ c])
  have xs: "x \<notin> set xs" "x \<notin> set (kids i)" using dist [of c] kc par [of x c] par [of x i] ne by auto
  have disj: "y \<in> set (kids q) \<Longrightarrow> y \<in> set (kids r) \<Longrightarrow> q = r" for y q r using par [of y q] par [of y r] by simp
  have hi: "cptr (f i) = (case kids i of [] \<Rightarrow> None | y # _ \<Rightarrow> Some y)" by (rule sibs_head [OF sib [OF ne(1) [symmetric]]])
  then have hin: "cptr (f i) = Some y \<Longrightarrow> y \<in> set (kids i)" for y by (auto split: list.splits)
  fix q
  show "distinct ((kids(c := xs, i := x # kids i)) q)" using dist [of q] dist [of c] kc xs by auto
  show "\<forall>y\<in>set ((kids(c := xs, i := x # kids i)) q). par (g y) = Some q"
  proof
    fix y assume y: "y \<in> set ((kids(c := xs, i := x # kids i)) q)"
    show "par (g y) = Some q"
    proof (cases "y = x")
      case True
      have "q = i"
      proof (rule ccontr)
        assume "q \<noteq> i"
        then have "x \<in> set (kids q)" "q \<noteq> c" using y True kc xs(1) by (auto split: if_splits)
        then show False using disj [of x c q] kc by simp
      qed
      then show ?thesis using pp True by simp
    next
      case False
      then have "y \<in> set (kids q)" using y kc by (auto split: if_splits)
      then show ?thesis using pp par [of y q] False by simp
    qed
  qed
  consider "q = i" | "q = c" | "q \<noteq> i" "q \<noteq> c" by blast
  then show "\<exists>y. (q \<noteq> c \<longrightarrow> y = None) \<and> sibs g y (cptr (g q)) ((kids(c := xs, i := x # kids i)) q)"
  proof cases
    case 1
    have "sibs g (Some x) (cptr (f i)) (kids i)"
    proof (cases "kids i")
      case (Cons y ys)
      then have s: "cptr (f i) = Some y" "sibs f (Some y) (optr (f y)) ys" using sib [OF ne(1) [symmetric]] by auto
      have "sibs g (Some y) (optr (f y)) ys = sibs f (Some y) (optr (f y)) ys"
        by (rule sibs_frame) (use dist [of i] Cons xs s(1) yp op in auto)
      then show ?thesis using Cons s yp op xs(2) by auto
    qed (use hi in simp)
    then show ?thesis using 1 cp yp op ne by auto
  next
    case 2
    have "sibs g (Some x) (optr (f x)) xs = sibs f (Some x) (optr (f x)) xs"
    proof (rule sibs_frame, intro ballI)
      fix y assume y: "y \<in> set xs"
      then have "cptr (f i) \<noteq> Some y" using hin disj [of y i c] kc ne(1) by auto
      then show "yptr (g y) = yptr (f y) \<and> optr (g y) = optr (f y)" using y xs yp op by auto
    qed
    then show ?thesis using 2 sc cp ne by auto
  next
    case 3
    have "sibs g None (cptr (f q)) (kids q) = sibs f None (cptr (f q)) (kids q)"
    proof (rule sibs_frame, intro ballI)
      fix y assume y: "y \<in> set (kids q)"
      then have "cptr (f i) \<noteq> Some y" using hin disj [of y i q] 3 by auto
      moreover have "y \<noteq> x" using disj [of x c q] kc y 3 by auto
      ultimately show "yptr (g y) = yptr (f y) \<and> optr (g y) = optr (f y)" using yp op by auto
    qed
    then show ?thesis using 3 sib cp by auto
  qed
qed

text \<open>What the loop does to the other fields; \<open>initproc\<close> is woken if it waits and gets a zombie.\<close>

definition moved_fields :: "nat \<Rightarrow> nat list \<Rightarrow> (nat \<Rightarrow> proc_struct) \<Rightarrow> (nat \<Rightarrow> proc_struct) \<Rightarrow> bool" where
  "moved_fields i xs f g \<longleftrightarrow>
     (\<forall>r. pid (g r) = pid (f r) \<and> exit_code (g r) = exit_code (f r) \<and> kstack (g r) = kstack (f r) \<and>
        flags (g r) = flags (f r) \<and> mm (g r) = mm (f r) \<and> par (g r) = (if r \<in> set xs then Some i else par (f r)) \<and>
        state (g r) =
          (if r = i \<and> wait_state (f i) = WT_CHILD \<and> (\<exists>x\<in>set xs. state (f x) = PROC_ZOMBIE)
           then PROC_RUNNABLE else state (f r)) \<and>
        wait_state (g r) =
          (if r = i \<and> wait_state (f i) = WT_CHILD \<and> (\<exists>x\<in>set xs. state (f x) = PROC_ZOMBIE) \<and> state (f i) \<noteq> PROC_RUNNABLE
           then 0 else wait_state (f r)))"

definition moved :: "'x pstate \<Rightarrow> nat list \<Rightarrow> 'x pstate \<Rightarrow> bool" where
  "moved s xs s' \<longleftrightarrow> s' = s\<lparr>procs := procs s'\<rparr> \<and> moved_fields (initproc s) xs (procs s) (procs s')"

lemma wake_merge:
  fixes w :: "nat \<Rightarrow> 'w::zero" and t :: "nat \<Rightarrow> 's"
  assumes "c \<noteq> 0"
  shows "(if r = i \<and> (if i = i \<and> (z \<and> w i = c) \<and> t i \<noteq> R then 0 else w i) = c \<and> E then R
      else if r = i \<and> z \<and> w i = c then R else t r) = (if r = i \<and> w i = c \<and> (z \<or> E) then R else t r)"
    and "(if r = i \<and> (if i = i \<and> (z \<and> w i = c) \<and> t i \<noteq> R then 0 else w i) = c \<and> E \<and>
        (if i = i \<and> z \<and> w i = c then R else t i) \<noteq> R then 0
      else if r = i \<and> (z \<and> w i = c) \<and> t i \<noteq> R then 0 else w r) =
      (if r = i \<and> w i = c \<and> (z \<or> E) \<and> t i \<noteq> R then 0 else w r)"
  using assms by auto

lemma reparent_ok:
  "family_but (current s) (procs s) kids \<Longrightarrow> kids (current s) = xs \<Longrightarrow> current s \<noteq> initproc s \<Longrightarrow>
   initproc s \<notin> set xs \<Longrightarrow> current s \<notin> set xs \<Longrightarrow> state (procs s (initproc s)) \<noteq> PROC_ZOMBIE \<Longrightarrow> length xs < fuel \<Longrightarrow>
   \<exists>s'. reparent fuel s = Inr s' \<and> moved s xs s' \<and>
     family (procs s') (kids(current s := [], initproc s := rev xs @ kids (initproc s)))"
proof (induction xs arbitrary: s kids fuel)
  case Nil
  then obtain f where f: "fuel = Suc f" by (cases fuel) auto
  have fam: "family (procs s) kids" by (rule family_but_done [OF Nil(1,2)])
  then have "cptr (procs s (current s)) = None" using family_sibs [of "procs s" kids "current s"] Nil(2) by simp
  moreover have "kids(current s := [], initproc s := kids (initproc s)) = kids" using Nil(2,3) by auto
  ultimately show ?case using f fam by (auto simp: moved_def moved_fields_def simp del: fun_upd_apply)
next
  case (Cons x xs)
  note prems = Cons.prems
  obtain f where f: "fuel = Suc f" using prems(7) by (cases fuel) auto
  let ?c = "current s" and ?i = "initproc s"
  obtain y where "sibs (procs s) y (cptr (procs s ?c)) (x # xs)"
    using prems(1,2) by (auto simp: family_but_def dest!: spec [of _ ?c])
  then have cx: "cptr (procs s ?c) = Some x" by simp
  have nex: "x \<noteq> ?i" "x \<noteq> ?c" using prems(4,5) by auto
  have dx: "x \<notin> set xs" using prems(1,2) by (auto simp: family_but_def dest!: spec [of _ ?c])
  have par: "y \<in> set (kids q) \<Longrightarrow> par (procs s y) = Some q" for y q using prems(1) by (auto simp: family_but_def)
  have "sibs (procs s) None (cptr (procs s ?i)) (kids ?i)" using prems(3) by (intro family_but_sibs [OF prems(1)]) simp
  then have hi: "cptr (procs s ?i) = (case kids ?i of [] \<Rightarrow> None | y # _ \<Rightarrow> Some y)" by (rule sibs_head)
  have hx: "cptr (procs s ?i) \<noteq> Some x"
  proof
    assume "cptr (procs s ?i) = Some x"
    then have "x \<in> set (kids ?i)" using hi by (auto split: list.splits)
    then show False using par [of x ?i] par [of x ?c] prems(2,3) by simp
  qed
  define p1 where "p1 = (procs s)(?c := (procs s ?c)\<lparr>cptr := optr (procs s x)\<rparr>, x := (procs s x)\<lparr>yptr := None, optr := cptr (procs s ?i)\<rparr>)"
  define p2 where "p2 = (case cptr (procs s ?i) of None \<Rightarrow> p1 | Some h \<Rightarrow> p1(h := (p1 h)\<lparr>yptr := Some x\<rparr>))"
  define p3 where "p3 = p2(x := (p2 x)\<lparr>par := Some ?i\<rparr>)"
  define p4 where "p4 = p3(?i := (p3 ?i)\<lparr>cptr := Some x\<rparr>)"
  let ?s6 = "s\<lparr>procs := p4\<rparr>"
  have fields: "cptr (p4 r) = (if r = ?i then Some x else if r = ?c then optr (procs s x) else cptr (procs s r))"
    "yptr (p4 r) = (if r = x then None else if cptr (procs s ?i) = Some r then Some x else yptr (procs s r))"
    "optr (p4 r) = (if r = x then cptr (procs s ?i) else optr (procs s r))"
    "par (p4 r) = (if r = x then Some ?i else par (procs s r))"
    "state (p4 r) = state (procs s r)" "wait_state (p4 r) = wait_state (procs s r)" "pid (p4 r) = pid (procs s r)"
    "exit_code (p4 r) = exit_code (procs s r)" "kstack (p4 r) = kstack (procs s r)" "flags (p4 r) = flags (procs s r)"
    "mm (p4 r) = mm (procs s r)" for r
    using nex prems(3) hx by (auto simp: p4_def p3_def p2_def p1_def split: option.splits)
  let ?k1 = "kids(?c := xs, ?i := x # kids ?i)"
  have fam6: "family_but ?c p4 ?k1"
    by (rule reparent_links [OF prems(1,2,3) nex]) (use fields in auto)
  let ?w = "state (procs s x) = PROC_ZOMBIE \<and> wait_state (procs s ?i) = WT_CHILD"
  define s7 where "s7 = (if ?w \<and> state (procs s ?i) \<noteq> PROC_RUNNABLE
     then on_proc ?i (\<lambda>r. r\<lparr>state := PROC_RUNNABLE, wait_state := 0\<rparr>) ?s6 else ?s6)"
  have s7: "current s7 = ?c" "initproc s7 = ?i" "s7 = s\<lparr>procs := procs s7\<rparr>"
    by (auto simp: s7_def on_proc_def)
  have f7: "state (procs s7 r) = (if r = ?i \<and> ?w then PROC_RUNNABLE else state (procs s r))"
    "wait_state (procs s7 r) = (if r = ?i \<and> ?w \<and> state (procs s ?i) \<noteq> PROC_RUNNABLE then 0 else wait_state (procs s r))"
    "pid (procs s7 r) = pid (procs s r)" "exit_code (procs s7 r) = exit_code (procs s r)" "kstack (procs s7 r) = kstack (procs s r)"
    "flags (procs s7 r) = flags (procs s r)" "mm (procs s7 r) = mm (procs s r)" "par (procs s7 r) = par (p4 r)"
    "cptr (procs s7 r) = cptr (p4 r)" "yptr (procs s7 r) = yptr (p4 r)" "optr (procs s7 r) = optr (p4 r)" for r
    by (auto simp: s7_def fields)
  have "sibs (procs s7) y q zs = sibs p4 y q zs" for y q zs by (rule sibs_frame) (simp add: f7)
  then have fam7: "family_but (current s7) (procs s7) ?k1"
    using fam6 by (simp add: family_but_def s7(1,2) f7)
  have step: "reparent fuel s = reparent f s7"
  proof -
    have "on_proc ?i (cptr_update (\<lambda>_. Some x))
        (on_proc x (par_update (\<lambda>_. Some ?i))
          (on_opt (cptr (procs s ?i)) (yptr_update (\<lambda>_. Some x))
            (on_proc x (optr_update (\<lambda>_. cptr (procs s ?i))) (on_proc x (yptr_update (\<lambda>_. None))
              (on_proc ?c (cptr_update (\<lambda>_. optr (procs s x))) s))))) = ?s6"
      using nex prems(3) hx
      by (cases "cptr (procs s ?i)") (auto simp: on_proc_def p4_def p3_def p2_def p1_def)
    then show ?thesis
      using cx f prems(3,6) nex hx fields(5,6)
      by (cases "cptr (procs s ?i)") (auto simp: Let_def wakeup_proc_def s7_def)
  qed
  have "\<exists>s'. reparent f s7 = Inr s' \<and> moved s7 xs s' \<and>
     family (procs s') (?k1(current s7 := [], initproc s7 := rev xs @ ?k1 (initproc s7)))"
    by (rule Cons.IH [OF fam7]) (use prems s7(1,2) f f7(1) in auto)
  then obtain s' where s': "reparent f s7 = Inr s'" "moved s7 xs s'"
     "family (procs s') (?k1(current s7 := [], initproc s7 := rev xs @ ?k1 (initproc s7)))" by blast
  have keq: "?k1(current s7 := [], initproc s7 := rev xs @ ?k1 (initproc s7)) = kids(?c := [], ?i := rev (x # xs) @ kids ?i)"
    using prems(3) by (auto simp: s7(1,2))
  have mv: "moved s (x # xs) s'" unfolding moved_def
  proof
    have "s' = s7\<lparr>procs := procs s'\<rparr>" using s'(2) by (simp only: moved_def)
    then show "s' = s\<lparr>procs := procs s'\<rparr>" using s7(3) by (metis pstate.surjective pstate.update_convs(1))
    have m: "moved_fields ?i xs (procs s7) (procs s')" using s'(2) s7(2) by (simp only: moved_def)
    have "state (procs s7 z) = PROC_ZOMBIE \<longleftrightarrow> state (procs s z) = PROC_ZOMBIE" if "z \<in> set xs" for z
      using f7(1) that prems(4) by auto
    then have z: "(\<exists>z\<in>set xs. state (procs s7 z) = PROC_ZOMBIE) = (\<exists>z\<in>set xs. state (procs s z) = PROC_ZOMBIE)"
      by blast
    show "moved_fields ?i (x # xs) (procs s) (procs s')"
      unfolding moved_fields_def
    proof (intro allI conjI)
      fix r
      note mr = m [unfolded moved_fields_def z, rule_format, of r]
      show "pid (procs s' r) = pid (procs s r)" "exit_code (procs s' r) = exit_code (procs s r)"
        "kstack (procs s' r) = kstack (procs s r)" "flags (procs s' r) = flags (procs s r)" "mm (procs s' r) = mm (procs s r)"
        using mr f7(3-7) [of r] by simp_all
      show "par (procs s' r) = (if r \<in> set (x # xs) then Some ?i else par (procs s r))"
        using mr f7(8) [of r] fields(4) [of r] by auto
      have st: "state (procs s' r) = (if r = ?i \<and> wait_state (procs s7 ?i) = WT_CHILD \<and> (\<exists>z\<in>set xs. state (procs s z) = PROC_ZOMBIE)
          then PROC_RUNNABLE else state (procs s7 r))"
        and wt: "wait_state (procs s' r) = (if r = ?i \<and> wait_state (procs s7 ?i) = WT_CHILD \<and>
          (\<exists>z\<in>set xs. state (procs s z) = PROC_ZOMBIE) \<and> state (procs s7 ?i) \<noteq> PROC_RUNNABLE then 0 else wait_state (procs s7 r))"
        using mr by simp_all
      show "state (procs s' r) = (if r = ?i \<and> wait_state (procs s ?i) = WT_CHILD \<and> (\<exists>z\<in>set (x # xs). state (procs s z) = PROC_ZOMBIE)
          then PROC_RUNNABLE else state (procs s r))"
        unfolding st f7(1,2) list.set bex_simps(5) by (rule wake_merge(1)) (rule WT_CHILD_nonzero)
      show "wait_state (procs s' r) = (if r = ?i \<and> wait_state (procs s ?i) = WT_CHILD \<and>
          (\<exists>z\<in>set (x # xs). state (procs s z) = PROC_ZOMBIE) \<and> state (procs s ?i) \<noteq> PROC_RUNNABLE then 0 else wait_state (procs s r))"
        unfolding wt f7(1,2) list.set bex_simps(5) by (rule wake_merge(2)) (rule WT_CHILD_nonzero)
    qed
  qed
  show ?case unfolding step using s'(1) mv s'(3) [unfolded keq] by blast
qed

lemma drop_mm_same: "same_tables s (drop_mm e s)" "current (drop_mm e s) = current s"
  "state (procs (drop_mm e s) p) = state (procs s p)" "wait_state (procs (drop_mm e s) p) = wait_state (procs s p)"
  by (auto simp: drop_mm_def same_tables_def Let_def lcr3_def split: option.splits)

definition after_exit :: "nat \<Rightarrow> nat \<Rightarrow> (nat \<Rightarrow> nat list) \<Rightarrow> nat \<Rightarrow> nat list" where
  "after_exit c i kids = kids(c := [], i := rev (kids c) @ kids i)"

lemma tables_moved:
  assumes t: "tables s ps kids" and c: "current s \<noteq> initproc s" and i: "initproc s \<in> set ps" "initproc s \<notin> set (kids (current s))"
    and m: "moved s (kids (current s)) s'" and fam: "family (procs s') (after_exit (current s) (initproc s) kids)"
  shows "tables s' ps (after_exit (current s) (initproc s) kids)"
proof -
  let ?c = "current s" and ?i = "initproc s"
  have "s' = s\<lparr>procs := procs s'\<rparr>" using m by (simp only: moved_def)
  then obtain g where s': "s' = s\<lparr>procs := g\<rparr>" by metis
  have f: "pid (g r) = pid (procs s r)" "par (g r) = (if r \<in> set (kids ?c) then Some ?i else par (procs s r))" for r
    using m by (simp_all add: moved_def moved_fields_def s')
  have "hash_ok s' (set ps)" by (rule hash_ok_cong [OF tablesD(2) [OF t]]) (simp_all add: s' f)
  moreover have "\<exists>q. par (g p) = Some q \<and> p \<in> set (after_exit ?c ?i kids q) \<and> q \<noteq> p \<and> q \<in> insert (idleproc s) (set ps)"
    if p: "p \<in> set ps" for p
  proof (cases "p \<in> set (kids ?c)")
    case True
    then show ?thesis using f i c by (intro exI [of _ ?i]) (auto simp: after_exit_def)
  next
    case False
    obtain q where q: "par (procs s p) = Some q" "p \<in> set (kids q)" "q \<noteq> p" "q \<in> insert (idleproc s) (set ps)"
      by (rule tables_parent [OF t p])
    have "q \<noteq> ?c" using q(2) False by auto
    then show ?thesis using f q False by (intro exI [of _ q]) (auto simp: after_exit_def)
  qed
  moreover have "p \<in> set ps" if "p \<in> set (after_exit ?c ?i kids q)" for p q
    using that tablesD(8) [OF t] by (auto simp: after_exit_def split: if_splits)
  ultimately show ?thesis
    using t fam by (auto simp: tables_def s' f all_procs_def pids_ok_def gap_def)
qed

lemma chosen_cases: "state (procs s (chosen s ps)) = PROC_RUNNABLE \<or> chosen s ps = idleproc s"
  by (auto simp: chosen_def find_Some_iff split: option.splits)

lemma do_exit_ok:
  assumes t: "tables s ps kids" and c: "current s \<in> set ps" "current s \<noteq> initproc s"
    and i: "initproc s \<in> set ps" "par (procs s (initproc s)) = Some (idleproc s)" "state (procs s (initproc s)) \<noteq> PROC_ZOMBIE"
    and q: "par (procs s (current s)) = Some q" "state (procs s q) \<noteq> PROC_ZOMBIE" and fuel: "Suc (Suc (length ps)) < fuel"
  shows "\<exists>s'. do_exit e fuel code s = Inr s' \<and> tables s' ps (after_exit (current s) (initproc s) kids) \<and>
    state (procs s' (current s)) = PROC_ZOMBIE \<and> exit_code (procs s' (current s)) = code \<and>
    current s' \<noteq> current s \<and> (state (procs s' (current s')) = PROC_RUNNABLE \<or> current s' = idleproc s') \<and>
    (wait_state (procs s q) = WT_CHILD \<longrightarrow> state (procs s' q) = PROC_RUNNABLE) \<and>
    ((\<exists>p\<in>set (kids (current s)). state (procs s p) = PROC_ZOMBIE) \<and> wait_state (procs s (initproc s)) = WT_CHILD \<longrightarrow>
       state (procs s' (initproc s)) = PROC_RUNNABLE) \<and>
    (\<forall>p. p \<notin> {current s, initproc s, q} \<longrightarrow> state (procs s' p) = state (procs s p))"
proof -
  let ?c = "current s" and ?i = "initproc s"
  have cid: "?c \<noteq> idleproc s" using c(1) tablesD(6) [OF t] by auto
  have qc: "q \<noteq> ?c" using tables_parent [OF t c(1)] q(1) by auto
  let ?s1 = "drop_mm e s"
  define s2 where "s2 = on_proc ?c (\<lambda>r. r\<lparr>state := PROC_ZOMBIE, exit_code := code\<rparr>) ?s1"
  have same1: "same_tables s ?s1" by (rule drop_mm_same(1))
  have same2: "same_tables s s2" using same1 by (simp add: same_tables_def s2_def)
  have f2: "state (procs s2 p) = (if p = ?c then PROC_ZOMBIE else state (procs s p))"
    "wait_state (procs s2 p) = wait_state (procs s p)" "current s2 = ?c" "exit_code (procs s2 ?c) = code"
    "par (procs s2 p) = par (procs s p)" for p
    using same1 by (simp_all add: s2_def drop_mm_same same_tables_def)
  define s3 where "s3 = (if wait_state (procs s q) = WT_CHILD \<and> state (procs s q) \<noteq> PROC_RUNNABLE
    then on_proc q (\<lambda>r. r\<lparr>state := PROC_RUNNABLE, wait_state := 0\<rparr>) s2 else s2)"
  have wake: "(if wait_state (procs s2 q) = WT_CHILD then wakeup_proc q s2 else Inr s2) = Inr s3"
    unfolding wakeup_proc_def s3_def f2(1,2) using q(2) qc
    by (cases "wait_state (procs s q) = WT_CHILD"; cases "state (procs s q) = PROC_RUNNABLE") simp_all
  have same3: "same_tables s s3"
    unfolding s3_def using same2 same_tables_trans [OF same2 same_tables_on_proc] by simp
  have f3: "state (procs s3 p) = (if p = ?c then PROC_ZOMBIE else if p = q \<and> wait_state (procs s q) = WT_CHILD then PROC_RUNNABLE
      else state (procs s p))"
    "wait_state (procs s3 p) = (if p = q \<and> wait_state (procs s q) = WT_CHILD \<and> state (procs s q) \<noteq> PROC_RUNNABLE then 0
      else wait_state (procs s p))" "current s3 = ?c" "exit_code (procs s3 ?c) = code" for p
    using f2 qc by (auto simp: s3_def)
  have i3: "initproc s3 = ?i" "idleproc s3 = idleproc s" using same3 by (simp_all add: same_tables_def)
  have t3: "tables s3 ps kids" by (rule same_tables_tables [OF same3 t])
  have nc: "?c \<notin> set (kids ?c)"
  proof
    assume "?c \<in> set (kids ?c)"
    then have "par (procs s ?c) = Some ?c" using tables_kids_parent [OF t] by blast
    then show False using q(1) qc by simp
  qed
  have ni: "?i \<notin> set (kids ?c)" using tables_kids_parent [OF t, of ?i ?c] i(2) cid by auto
  have "length (kids ?c) = card (set (kids ?c))" using tablesD(3) [OF t] by (simp add: family_def distinct_card)
  also have "\<dots> \<le> card (set ps)" by (rule card_mono) (use tablesD(8) [OF t] in auto)
  also have "\<dots> \<le> length ps" by (rule card_length)
  finally have len: "length (kids ?c) < fuel" using fuel by simp
  have fb: "family_but (current s3) (procs s3) kids" by (rule family_but [OF tablesD(3) [OF t3]])
  have "\<exists>s'. reparent fuel s3 = Inr s' \<and> moved s3 (kids ?c) s' \<and>
     family (procs s') (kids(current s3 := [], initproc s3 := rev (kids ?c) @ kids (initproc s3)))"
    by (rule reparent_ok [OF fb]) (use f3 i3 c i(3) ni nc len in auto)
  then obtain s4 where s4: "reparent fuel s3 = Inr s4" "moved s3 (kids ?c) s4"
     "family (procs s4) (after_exit ?c ?i kids)" using i3 f3(3) by (auto simp: after_exit_def)
  have sect: "exit_section e fuel code s = Inr s4"
  proof -
    have s2': "on_proc (current ?s1) (\<lambda>r. r\<lparr>state := PROC_ZOMBIE, exit_code := code\<rparr>) ?s1 = s2"
      by (simp add: s2_def drop_mm_same)
    show ?thesis unfolding exit_section_def Let_def s2' f2(3,5) q(1) using wake s4(1) by simp
  qed
  have t4: "tables s4 ps (after_exit ?c ?i kids)"
    using tables_moved [OF t3] c(2) i(1) ni s4(2,3) i3 f3(3) by simp
  have s4eq: "s4 = s3\<lparr>procs := procs s4\<rparr>" using s4(2) by (simp only: moved_def)
  have c4: "current s4 = ?c" "idleproc s4 = idleproc s" by (subst s4eq, simp add: f3 i3)+
  have m4: "moved_fields ?i (kids ?c) (procs s3) (procs s4)" using s4(2) i3 by (simp add: moved_def)
  have ex4: "exit_code (procs s4 ?c) = code" using m4 f3(4) by (simp add: moved_fields_def)
  let ?Z = "wait_state (procs s3 ?i) = WT_CHILD \<and> (\<exists>x\<in>set (kids ?c). state (procs s3 x) = PROC_ZOMBIE)"
  have st4: "state (procs s4 r) = (if r = ?i \<and> ?Z then PROC_RUNNABLE else state (procs s3 r))" for r
    using m4 by (simp add: moved_fields_def)
  have z4: "state (procs s4 ?c) = PROC_ZOMBIE" using st4 f3(1) c(2) by simp
  have cin: "current s4 \<in> insert (idleproc s4) (set ps)" using c4 c(1) by simp
  obtain s5 where s5: "schedule fuel s4 = Inr s5" "current s5 = chosen s4 ps" "same_tables s4 s5"
    "\<forall>p. state (procs s5 p) = state (procs s4 p) \<and> wait_state (procs s5 p) = wait_state (procs s4 p) \<and>
       exit_code (procs s5 p) = exit_code (procs s4 p)"
    by (rule list_schedule_ok [OF t4 cin fuel]) blast
  have ch: "state (procs s5 (current s5)) = PROC_RUNNABLE \<or> current s5 = idleproc s5"
    using chosen_cases [of s4 ps] s5(2,3,4) by (auto simp: same_tables_def)
  have ne: "current s5 \<noteq> ?c"
    using ch z4 s5(4) cid c4 s5(3) by (auto simp: same_tables_def)
  have run: "do_exit e fuel code s = Inr s5" using sect s5(1) ne cid c(2) by (simp add: do_exit_def)
  have t5: "tables s5 ps (after_exit ?c ?i kids)" by (rule same_tables_tables [OF s5(3) t4])
  have par: "wait_state (procs s q) = WT_CHILD \<longrightarrow> state (procs s5 q) = PROC_RUNNABLE"
    using s5(4) st4 f3(1) qc by simp
  have ini: "(\<exists>p\<in>set (kids ?c). state (procs s p) = PROC_ZOMBIE) \<and> wait_state (procs s ?i) = WT_CHILD \<longrightarrow>
       state (procs s5 ?i) = PROC_RUNNABLE"
  proof
    assume a: "(\<exists>p\<in>set (kids ?c). state (procs s p) = PROC_ZOMBIE) \<and> wait_state (procs s ?i) = WT_CHILD"
    show "state (procs s5 ?i) = PROC_RUNNABLE"
    proof (cases "q = ?i")
      case True
      then show ?thesis using par a by simp
    next
      case False
      obtain p where p: "p \<in> set (kids ?c)" "state (procs s p) = PROC_ZOMBIE" using a by blast
      have "state (procs s3 p) = PROC_ZOMBIE" using f3(1) p(2) q(2) by auto
      then have "?Z" using a p(1) False f3(2) by auto
      then show ?thesis using s5(4) st4 by simp
    qed
  qed
  have oth: "\<forall>p. p \<notin> {?c, ?i, q} \<longrightarrow> state (procs s5 p) = state (procs s p)"
    using s5(4) st4 f3(1) by auto
  show ?thesis
    using run t5 z4 s5(4) ex4 ne ch par ini oth by (intro exI [of _ s5]) simp
qed

end
