(* ===== verification/Proc_Wait.thy ===== *)
theory Proc_Wait
  imports Proc_Inv
begin

text \<open>
  Waiting for children: the search over the children and over the hash table, and one pass of
  \<open>do_wait\<close>.
\<close>

subsection \<open>Waiting\<close>

lemma find_zombie_ok:
  "sibs (procs s) y c xs \<Longrightarrow> length xs < fuel \<Longrightarrow>
   find_zombie fuel c b s = Inr
     (case find (\<lambda>p. state (procs s p) = PROC_ZOMBIE) xs of Some p \<Rightarrow> (True, Some p) | None \<Rightarrow> (b \<or> xs \<noteq> [], None))"
proof (induction xs arbitrary: y c b fuel)
  case Nil
  then show ?case by (cases fuel) auto
next
  case (Cons x xs)
  then obtain f where f: "fuel = Suc f" by (cases fuel) auto
  have "find_zombie f (optr (procs s x)) True s = Inr
     (case find (\<lambda>p. state (procs s p) = PROC_ZOMBIE) xs of Some p \<Rightarrow> (True, Some p) | None \<Rightarrow> (True \<or> xs \<noteq> [], None))"
    by (rule Cons.IH [of "Some x"]) (use Cons.prems f in auto)
  then show ?case using Cons.prems f by (auto split: option.splits)
qed

text \<open>The children that \<open>do_wait\<close> considers.\<close>

definition awaited :: "'x pstate \<Rightarrow> nat list \<Rightarrow> (nat \<Rightarrow> nat list) \<Rightarrow> int \<Rightarrow> nat list" where
  "awaited s ps kids n =
     (if n = 0 then kids (current s) else filter (\<lambda>p. pid (procs s p) = n \<and> par (procs s p) = Some (current s)) ps)"

lemma kids_length:
  assumes t: "tables s ps kids"
  shows "length (kids q) \<le> length ps"
proof -
  have "length (kids q) = card (set (kids q))" using tablesD(3) [OF t] by (simp add: family_def distinct_card)
  also have "\<dots> \<le> card (set ps)" by (rule card_mono) (use tablesD(8) [OF t] in auto)
  also have "\<dots> \<le> length ps" by (rule card_length)
  finally show ?thesis .
qed

lemma find_filter_unique:
  assumes "find P xs = Some p" and "\<forall>x\<in>set xs. P x \<longrightarrow> x = p"
  shows "find P xs = Some p \<and> set (filter (\<lambda>x. P x \<and> Q x) xs) = (if Q p then {p} else {})"
proof -
  have p: "p \<in> set xs" "P p" using find_SomeD_split [OF assms(1)] by auto
  have "set (filter (\<lambda>x. P x \<and> Q x) xs) = {x \<in> set xs. P x \<and> Q x}" by simp
  also have "\<dots> = (if Q p then {p} else {})"
  proof (cases "Q p")
    case True
    then have "{x \<in> set xs. P x \<and> Q x} = {p}" using p assms(2) by blast
    then show ?thesis using True by simp
  next
    case False
    then have "{x \<in> set xs. P x \<and> Q x} = {}" using assms(2) by blast
    then show ?thesis using False by simp
  qed
  finally show ?thesis using assms(1) by simp
qed

lemma wait_search_ok:
  assumes t: "tables s ps kids" and fuel: "length ps < fuel"
  shows "\<exists>f. wait_search fuel n s = Inr (awaited s ps kids n \<noteq> [], f) \<and>
    (case f of Some p \<Rightarrow> p \<in> set (awaited s ps kids n) \<and> state (procs s p) = PROC_ZOMBIE
     | None \<Rightarrow> \<forall>p\<in>set (awaited s ps kids n). state (procs s p) \<noteq> PROC_ZOMBIE)"
proof (cases "n = 0")
  case True
  have len: "length (kids (current s)) < fuel" using kids_length [OF t, of "current s"] fuel by simp
  let ?Z = "\<lambda>p. state (procs s p) = PROC_ZOMBIE"
  note fz = find_zombie_ok [OF family_sibs [OF tablesD(3) [OF t]] len, of False]
  show ?thesis
  proof (cases "find ?Z (kids (current s))")
    case None
    then have "\<forall>p\<in>set (kids (current s)). \<not> ?Z p" by (auto simp: find_None_iff)
    then show ?thesis using True fz None by (simp add: wait_search_def awaited_def)
  next
    case (Some p)
    then have "p \<in> set (kids (current s))" "?Z p" using find_SomeD_split [OF Some] by auto
    then show ?thesis using True fz Some by (auto simp: wait_search_def awaited_def)
  qed
next
  case False
  let ?P = "\<lambda>p. pid (procs s p) = n"
  note fp = find_proc_ok [OF tablesD(2) [OF t] tables_distinct [OF t] tablesD(5) [OF t] fuel, of n]
  show ?thesis
  proof (cases "0 < n \<and> n < MAX_PID \<and> find ?P ps \<noteq> None")
    case no: False
    have "\<not> ?P p" if "p \<in> set ps" for p
      using no tablesD(9) [OF t that] that by (auto simp: find_None_iff)
    then have "awaited s ps kids n = []" using False by (auto simp: awaited_def filter_empty_conv)
    moreover have "find_proc fuel n s = Inr None" using fp no by auto
    ultimately show ?thesis using False by (simp add: wait_search_def)
  next
    case True
    then obtain p where p: "find ?P ps = Some p" by blast
    have "p \<in> set ps" "?P p" using find_SomeD_split [OF p] by auto
    then have "\<forall>x\<in>set ps. ?P x \<longrightarrow> x = p" using tablesD(5) [OF t] by (auto simp: inj_on_def)
    from find_filter_unique [OF p this, of "\<lambda>p. par (procs s p) = Some (current s)"]
    have aw: "set (awaited s ps kids n) = (if par (procs s p) = Some (current s) then {p} else {})"
      using False by (simp add: awaited_def)
    have "find_proc fuel n s = Inr (Some p)" using fp True p by simp
    then show ?thesis using False aw by (cases "awaited s ps kids n") (auto simp: wait_search_def split: if_splits)
  qed
qed

text \<open>Zombies have no children: \<open>do_exit\<close> has given them away.\<close>

definition zombies_childless :: "'x pstate \<Rightarrow> (nat \<Rightarrow> nat list) \<Rightarrow> bool" where
  "zombies_childless s kids \<longleftrightarrow> (\<forall>p. state (procs s p) = PROC_ZOMBIE \<longrightarrow> kids p = [])"

lemma reap_ok:
  assumes t: "tables s ps kids" and p: "p \<in> set (kids q)" "kids p = []" "p \<noteq> initproc s" and q: "q \<notin> set (kids q)"
  obtains s' where "reap e p code_store s = Inr s'" "tables s' (remove1 p ps) (kids(q := remove1 p (kids q)))"
    "code_store \<noteq> 0 \<longrightarrow> user_ints s' code_store = exit_code (procs s p)"
    "\<forall>r. same_but_links (procs s r) (procs s' r)" "current s' = current s"
    "ext s' = kfree_proc e p (kstack_free e (kstack (procs s p)) (ext s))"
proof -
  have pp: "p \<in> set ps" "par (procs s p) = Some q" using tablesD(8) [OF t p(1)] tables_kids_parent [OF t p(1)] by auto
  have npq: "p \<noteq> q" using p(1) q by auto
  have pid: "p \<noteq> idleproc s" using pp(1) tablesD(6) [OF t] by auto
  let ?s1 = "if code_store \<noteq> 0 then s\<lparr>user_ints := (user_ints s)(code_store := exit_code (procs s p))\<rparr> else s"
  have s1: "same_tables s ?s1" "procs ?s1 = procs s" "plinks ?s1 = plinks s" "ext ?s1 = ext s" by (simp_all add: same_tables_def)
  let ?s2 = "unhash_proc p ?s1"
  have h2: "hash_ok ?s2 (set ps - {p})"
    by (rule unhash_proc_ok [OF hash_ok_cong [OF tablesD(2) [OF t]] pp(1)]) (use s1 in \<open>auto simp: same_tables_def\<close>)
  have s2: "procs ?s2 = procs s" "plinks ?s2 = plinks s" "nr_process ?s2 = nr_process s" "idleproc ?s2 = idleproc s"
    "last_pid ?s2 = last_pid s" "next_safe ?s2 = next_safe s" "current ?s2 = current s" "ext ?s2 = ext s"
    by (simp_all add: unhash_proc_def)
  obtain us vs where ps: "ps = us @ p # vs" using pp(1) by (auto simp: in_set_conv_decomp)
  have d: "distinct ps" by (rule tables_distinct [OF t])
  have fam2: "family (procs ?s2) kids" and ring2: "all_procs ?s2 (us @ p # vs)" and par2: "par (procs ?s2 p) = Some q"
    using tablesD(1,3) [OF t] pp(2) ps by (simp_all add: s2 all_procs_def)
  obtain s3 where s3: "remove_links p ?s2 = Inr s3" "family (procs s3) (kids(q := remove1 p (kids q)))"
    "all_procs s3 (us @ vs)" "\<forall>r. same_but_links (procs ?s2 r) (procs s3 r)" "nr_process s3 = nr_process ?s2 - 1"
    "hlinks s3 = hlinks ?s2" "s3 = ?s2\<lparr>procs := procs s3, plinks := plinks s3, nr_process := nr_process s3\<rparr>"
    by (rule remove_links_ok [OF fam2 par2 p(1) npq q ring2]) blast
  have o3: "idleproc s3 = idleproc s" "last_pid s3 = last_pid s" "next_safe s3 = next_safe s" "current s3 = current s"
    "ext s3 = ext s" "user_ints s3 = user_ints ?s1"
    by (subst s3(7), simp add: s2 unhash_proc_def)+
  have f3: "pid (procs s3 r) = pid (procs s r)" "par (procs s3 r) = par (procs s r)" "kstack (procs s3 r) = kstack (procs s r)" for r
    using same_but_links_fields [OF s3(4) [rule_format, of r]] s2 by simp_all
  have set': "set (us @ vs) = set ps - {p}" and rem: "remove1 p ps = us @ vs" using ps d by (auto simp: remove1_append)
  have "tables s3 (us @ vs) (kids(q := remove1 p (kids q)))" unfolding tables_def
  proof (intro conjI allI ballI)
    show "all_procs s3 (us @ vs)" "family (procs s3) (kids(q := remove1 p (kids q)))" by (rule s3)+
    show "hash_ok s3 (set (us @ vs))" unfolding set' by (rule hash_ok_cong [OF h2 s3(6)]) (use f3 s2 in auto)
    show "pids_ok s3 (us @ vs)" using tablesD(4) [OF t] f3 o3 unfolding pids_ok_def gap_def set' by auto
    show "inj_on (\<lambda>p. pid (procs s3 p)) (set (us @ vs))"
      using tablesD(5) [OF t] unfolding set' f3 by (rule inj_on_subset) auto
    show "idleproc s3 \<notin> set (us @ vs)" using tablesD(6) [OF t] o3 set' by auto
    show "nr_process s3 = int (length (us @ vs)) + 1" using s3(5) s2 tablesD(7) [OF t] ps by simp
  next
    fix x assume "x \<in> set (us @ vs)"
    then have "x \<in> set ps" using set' by blast
    then show "1 \<le> pid (procs s3 x)" "pid (procs s3 x) < MAX_PID" using tablesD(9) [OF t] f3 by auto
  next
    fix r x assume x: "x \<in> set ((kids(q := remove1 p (kids q))) r)"
    then have xk: "x \<in> set (kids r)" using set_remove1_subset [of p "kids q"] by (auto split: if_splits)
    have "x \<noteq> p"
    proof
      assume "x = p"
      then have "r = q" using xk family_disjoint [OF tablesD(3) [OF t] _ p(1)] by blast
      then show False using x \<open>x = p\<close> tablesD(3) [OF t] by (simp add: family_def)
    qed
    then show "x \<in> set (us @ vs)" using tablesD(8) [OF t xk] set' by auto
  next
    fix x assume x: "x \<in> set (us @ vs)"
    then have xp: "x \<in> set ps" "x \<noteq> p" using set' by auto
    obtain r where r: "par (procs s x) = Some r" "x \<in> set (kids r)" "r \<noteq> x" "r \<in> insert (idleproc s) (set ps)"
      by (rule tables_parent [OF t xp(1)])
    have "r \<noteq> p" using r(2) p(2) by auto
    then show "\<exists>r. par (procs s3 x) = Some r \<and> x \<in> set ((kids(q := remove1 p (kids q))) r) \<and> r \<noteq> x \<and>
        r \<in> insert (idleproc s3) (set (us @ vs))"
      using r xp f3 o3 set' by (intro exI [of _ r]) auto
  qed
  then have "tables (kfree_struct e p (put_kstack e p s3)) (remove1 p ps) (kids(q := remove1 p (kids q)))"
    unfolding rem kfree_struct_def put_kstack_def by (intro tables_ext)
  moreover have "reap e p code_store s = Inr (kfree_struct e p (put_kstack e p s3))"
    using s3(1) pid p(3) by (simp add: reap_def Let_def)
  ultimately show ?thesis
    using that [of "kfree_struct e p (put_kstack e p s3)"] s3(4) s2 o3 f3 by (simp add: kfree_struct_def put_kstack_def)
qed

definition dead_awaited :: "'x pstate \<Rightarrow> nat list \<Rightarrow> (nat \<Rightarrow> nat list) \<Rightarrow> int \<Rightarrow> nat list" where
  "dead_awaited s ps kids n = filter (\<lambda>p. state (procs s p) = PROC_ZOMBIE) (awaited s ps kids n)"

lemma wait_pass_ok:
  assumes t: "tables s ps kids" and c: "current s \<in> insert (idleproc s) (set ps)" "current s \<notin> set (kids (current s))"
    and z: "zombies_childless s kids" and i: "initproc s \<notin> set (kids (current s))" and fuel: "Suc (Suc (length ps)) < fuel"
  shows "\<exists>r s'. wait_pass e fuel n code_store s = Inr (r, s') \<and>
    (if awaited s ps kids n = [] then r = Returned (- E_BAD_PROC) \<and> s' = s
     else if dead_awaited s ps kids n = [] then r = Blocked \<and> tables s' ps kids \<and> state (procs s' (current s)) = PROC_SLEEPING \<and>
       wait_state (procs s' (current s)) = WT_CHILD \<and> (current s' \<noteq> current s \<or> current s = idleproc s)
     else r = Returned 0 \<and> (\<exists>p\<in>set (dead_awaited s ps kids n). tables s' (remove1 p ps) (kids(current s := remove1 p (kids (current s)))) \<and>
       (code_store \<noteq> 0 \<longrightarrow> user_ints s' code_store = exit_code (procs s p)) \<and>
       ext s' = kfree_proc e p (kstack_free e (kstack (procs s p)) (ext s))))"
proof -
  have fuel1: "length ps < fuel" using fuel by simp
  obtain f where f: "wait_search fuel n s = Inr (awaited s ps kids n \<noteq> [], f)"
    "case f of Some p \<Rightarrow> p \<in> set (awaited s ps kids n) \<and> state (procs s p) = PROC_ZOMBIE
     | None \<Rightarrow> \<forall>p\<in>set (awaited s ps kids n). state (procs s p) \<noteq> PROC_ZOMBIE"
    using wait_search_ok [OF t fuel1, of n] by blast
  show ?thesis
  proof (cases f)
    case (Some p)
    then have p: "p \<in> set (awaited s ps kids n)" "state (procs s p) = PROC_ZOMBIE" using f(2) by auto
    have pk: "p \<in> set (kids (current s))"
    proof (cases "n = 0")
      case True
      then show ?thesis using p(1) by (simp add: awaited_def)
    next
      case False
      then have "p \<in> set ps" "par (procs s p) = Some (current s)" using p(1) by (auto simp: awaited_def)
      then show ?thesis using tables_parent [OF t] by (metis option.inject)
    qed
    have "kids p = []" using z p(2) by (simp add: zombies_childless_def)
    moreover have "p \<noteq> initproc s" using i pk by auto
    ultimately obtain s' where s': "reap e p code_store s = Inr s'" "tables s' (remove1 p ps) (kids(current s := remove1 p (kids (current s))))"
      "code_store \<noteq> 0 \<longrightarrow> user_ints s' code_store = exit_code (procs s p)"
      "ext s' = kfree_proc e p (kstack_free e (kstack (procs s p)) (ext s))"
      using reap_ok [OF t pk _ _ c(2)] by metis
    have zs: "p \<in> set (dead_awaited s ps kids n)" using p by (simp add: dead_awaited_def)
    have ne: "awaited s ps kids n \<noteq> []" "dead_awaited s ps kids n \<noteq> []" using p(1) zs by auto
    show ?thesis
      using f(1) Some s' zs ne by (intro exI [of _ "Returned 0"] exI [of _ s']) (auto simp: wait_pass_def)
  next
    case None
    then have zs: "dead_awaited s ps kids n = []" using f(2) by (simp add: dead_awaited_def filter_empty_conv)
    show ?thesis
    proof (cases "awaited s ps kids n = []")
      case True
      then show ?thesis using f(1) None by (simp add: wait_pass_def)
    next
      case False
      let ?s1 = "on_proc (current s) (\<lambda>r. r\<lparr>state := PROC_SLEEPING, wait_state := WT_CHILD\<rparr>) s"
      have t1: "tables ?s1 ps kids" by (rule same_tables_tables [OF same_tables_on_proc t]) simp
      have c1: "current ?s1 \<in> insert (idleproc ?s1) (set ps)" using c(1) by simp
      obtain s' where s': "schedule fuel ?s1 = Inr s'" "current s' = chosen ?s1 ps" "same_tables ?s1 s'"
        "\<forall>p. state (procs s' p) = state (procs ?s1 p) \<and> wait_state (procs s' p) = wait_state (procs ?s1 p) \<and>
           exit_code (procs s' p) = exit_code (procs ?s1 p)"
        by (rule list_schedule_ok [OF t1 c1 fuel]) blast
      have t': "tables s' ps kids" by (rule same_tables_tables [OF s'(3) t1])
      have "current s' \<noteq> current s \<or> current s = idleproc s"
        using chosen_cases [of ?s1 ps] s'(2) by auto
      then show ?thesis using f(1) None False zs s'(1,4) t'
        by (intro exI [of _ Blocked] exI [of _ s']) (auto simp: wait_pass_def)
    qed
  qed
qed

end
