(* ===== verification/Proc_Props.thy ===== *)
theory Proc_Props
  imports Proc_Wait
begin

text \<open>
  The properties of the process tables and of the life of processes in \<open>Lab5\<close>, with a small
  state to which each is applied.
\<close>

unbundle bit_operations_syntax

subsection \<open>Properties\<close>

text \<open>
  Idle process 0, \<open>initproc\<close> 1, its child 2, which runs, and the zombie 3, a child of 2; each
  has its address as number.
\<close>

definition demo_procs :: "nat \<Rightarrow> proc_struct" where
  "demo_procs p =
     \<lparr>state = if p = 3 then PROC_ZOMBIE else PROC_RUNNABLE, pid = int p, runs = 0, kstack = 0, need_resched = False,
      par = if p = 0 then None else Some (p - 1), mm = None, ctx = zero_context, tf = 0, cr3 = 0, flags = 0,
      name = [], exit_code = 7, wait_state = 0,
      cptr = if p < 3 then Some (p + 1) else None, yptr = None, optr = None\<rparr>"

definition demo_kids :: "nat \<Rightarrow> nat list" where
  "demo_kids p = (if p < 3 then [p + 1] else [])"

definition demo_state :: "int pstate" where
  "demo_state =
     \<lparr>procs = demo_procs,
      plinks = \<lparr>lprev = (\<lambda>x. if x = None then Some 1 else if x = Some 1 then Some 2 else if x = Some 2 then Some 3 else None),
                lnext = (\<lambda>x. if x = None then Some 3 else if x = Some 3 then Some 2 else if x = Some 2 then Some 1 else None)\<rparr>,
      hlinks = (let flip = (\<lambda>x. if x = Inl 632 then Inr 1 else if x = Inr 1 then Inl 632 else if x = Inl 241 then Inr 2
                  else if x = Inr 2 then Inl 241 else if x = Inl 874 then Inr 3 else if x = Inr 3 then Inl 874 else x)
                in \<lparr>lprev = flip, lnext = flip\<rparr>),
      idleproc = 0, initproc = 1, current = 2, nr_process = 4, next_safe = 8192, last_pid = 3, satp = 0,
      regs = zero_context, sstatus = 0, frames = (\<lambda>_. \<lparr>gpr = (\<lambda>_. 0), tf_status = 0, tf_epc = 0, tf_tval = 0, tf_cause = 0\<rparr>),
      mm_count = (\<lambda>_. 0), user_ints = (\<lambda>_. 0), ext = 0\<rparr>"

text \<open>An environment with unlimited memory; its state counts what is in use.\<close>

definition demo_env :: "int env" where
  "demo_env =
     \<lparr>kmalloc_proc = (\<lambda>x. (Some (nat (x + 4)), x + 1)), kfree_proc = (\<lambda>p x. x - 1), kstack_alloc = (\<lambda>x. (Some 4096, x + 1)),
      kstack_free = (\<lambda>a x. x - 1), mm_create = (\<lambda>x. (Some 0, x + 1)), mm_destroy = (\<lambda>m x. x - 1),
      setup_pgdir_op = (\<lambda>m x. (0, x + 1)), put_pgdir_op = (\<lambda>m x. x - 1), dup_mmap = (\<lambda>m n x. (0, x)), exit_mmap = (\<lambda>m x. x),
      pgdir_pa = (\<lambda>m x. 0), user_mem_check = (\<lambda>m a l w x. True), boot_cr3 = 0, bootstack = 0, forkret_addr = 0,
      kernel_thread_entry = 0, init_main_addr = 0\<rparr>"

lemma demo_hash: "pid_hashfn 1 = 632" "pid_hashfn 2 = 241" "pid_hashfn 3 = 874"
  by (simp_all add: pid_hashfn_def hash32_def HASH_SHIFT_def GOLDEN_RATIO_PRIME_32_def)

lemma demo_tables: "tables demo_state [3, 2, 1] demo_kids"
proof -
  have "all_procs demo_state [3, 2, 1]"
    by (simp add: all_procs_def demo_state_def ring_def)
  moreover have "hash_ok demo_state (set [3, 2, 1])" unfolding hash_ok_def
  proof (intro exI [of _ "\<lambda>i. if i = 632 then [1] else if i = 241 then [2] else if i = 874 then [3] else []"] allI impI conjI)
    fix i :: nat
    show "ring (hlinks demo_state) (Inl i) (map Inr (if i = 632 then [1] else if i = 241 then [2] else if i = 874 then [3] else []))"
      by (simp add: ring_def demo_state_def Let_def)
    show "set (if i = 632 then [1] else if i = 241 then [2] else if i = 874 then [3] else []) =
        {p \<in> set [3, 2, 1]. pid_hashfn (pid (procs demo_state p)) = i}"
      using demo_hash by (auto simp: demo_state_def demo_procs_def)
  qed
  moreover have "family (procs demo_state) demo_kids"
    by (auto simp: family_def demo_state_def demo_procs_def demo_kids_def)
  ultimately show ?thesis
    by (simp add: tables_def) (auto simp: pids_ok_def gap_def demo_state_def demo_procs_def demo_kids_def MAX_PID_eq inj_on_def)
qed

subsection \<open>Properties\<close>

text \<open>
  C22. \<open>get_pid\<close> ends with a number in range that no process has, changes only its two static
  variables, and keeps what they promise, as long as fewer than \<open>MAX_PID - 1\<close> processes exist.
\<close>

theorem get_pid_fresh:
  assumes "all_procs s ps" "pids_ok s ps" "length ps < 8191" "pid_fuel (length ps) \<le> fuel"
  shows "\<exists>n sf. get_pid fuel s = Inr (n, s\<lparr>last_pid := n, next_safe := sf\<rparr>) \<and> 1 \<le> n \<and> n < MAX_PID \<and>
    (\<forall>p\<in>set ps. pid (procs s p) \<noteq> n) \<and> pids_ok (s\<lparr>last_pid := n, next_safe := sf\<rparr>) ps"
proof -
  obtain n sf where n: "get_pid fuel s = Inr (n, s\<lparr>last_pid := n, next_safe := sf\<rparr>)"
    "1 \<le> n" "n < MAX_PID" "n < sf" "sf \<le> MAX_PID" "gap s ps n sf" by (rule get_pid_ok [OF assms])
  have "\<forall>p\<in>set ps. pid (procs s p) \<noteq> n" using n(4,6) by (auto simp: gap_def)
  moreover have "pids_ok (s\<lparr>last_pid := n, next_safe := sf\<rparr>) ps" using n by (auto simp: pids_ok_def gap_def)
  ultimately show ?thesis using n by blast
qed

lemma demo_all: "all_procs demo_state [3, 2, 1]" "pids_ok demo_state [3, 2, 1]"
  using demo_tables by (simp_all add: tables_def)

theorem get_pid_fresh_witness:
  "\<exists>n sf. get_pid (pid_fuel 3) demo_state = Inr (n, demo_state\<lparr>last_pid := n, next_safe := sf\<rparr>) \<and> 1 \<le> n \<and> n < MAX_PID \<and>
    (\<forall>p\<in>set [3, 2, 1]. pid (procs demo_state p) \<noteq> n) \<and> pids_ok (demo_state\<lparr>last_pid := n, next_safe := sf\<rparr>) [3, 2, 1]"
  by (rule get_pid_fresh [OF demo_all]) (simp_all add: pid_fuel_def)

text \<open>
  \<open>schedule\<close> switches to the next runnable process of the list after the running one, going
  round once, to the running one itself if it is the only one, and to the idle process if
  there is none; the tables, the states of the processes and the memory in use stay.
\<close>

theorem schedule_round:
  assumes "tables s ps kids" "current s \<in> insert (idleproc s) (set ps)" "Suc (Suc (length ps)) < fuel"
  shows "\<exists>s'. schedule fuel s = Inr s' \<and> current s' = chosen s ps \<and> tables s' ps kids \<and> ext s' = ext s \<and>
    (\<forall>p. state (procs s' p) = state (procs s p) \<and> wait_state (procs s' p) = wait_state (procs s p))"
proof -
  obtain s' where s': "schedule fuel s = Inr s'" "current s' = chosen s ps" "same_tables s s'" "ext s' = ext s"
    "\<forall>p. state (procs s' p) = state (procs s p) \<and> wait_state (procs s' p) = wait_state (procs s p) \<and>
       exit_code (procs s' p) = exit_code (procs s p)"
    by (rule list_schedule_ok [OF assms])
  then show ?thesis using same_tables_tables [OF s'(3) assms(1)] by blast
qed

lemma demo_current: "current demo_state \<in> insert (idleproc demo_state) (set [3, 2, 1])"
  "current demo_state \<in> set [3, 2, 1]" "current demo_state = 2" "idleproc demo_state = 0" "initproc demo_state = 1"
  by (simp_all add: demo_state_def)

theorem schedule_round_witness:
  "\<exists>s'. schedule 9 demo_state = Inr s' \<and> current s' = 1 \<and> tables s' [3, 2, 1] demo_kids \<and> ext s' = ext demo_state \<and>
    (\<forall>p. state (procs s' p) = state (procs demo_state p) \<and> wait_state (procs s' p) = wait_state (procs demo_state p))"
proof -
  have "chosen demo_state [3, 2, 1] = 1" by (simp add: chosen_def sched_order_def demo_state_def demo_procs_def)
  then show ?thesis using schedule_round [OF demo_tables demo_current(1), of 9] by simp
qed



text \<open>
  C18. \<open>do_exit\<close> leaves the running process a zombie with its exit code, gives its children to
  \<open>initproc\<close>, keeps the tables, wakes the parent if that waits for a child, wakes \<open>initproc\<close> if
  it waits and got a zombie, changes no other process's state, and does not return: another
  process runs, a runnable one or the idle process.
\<close>

theorem exit_hands_over:
  assumes "tables s ps kids" "current s \<in> set ps" "current s \<noteq> initproc s"
    and "initproc s \<in> set ps" "par (procs s (initproc s)) = Some (idleproc s)" "state (procs s (initproc s)) \<noteq> PROC_ZOMBIE"
    and "par (procs s (current s)) = Some q" "state (procs s q) \<noteq> PROC_ZOMBIE" "Suc (Suc (length ps)) < fuel"
  shows "\<exists>s'. do_exit e fuel code s = Inr s' \<and> tables s' ps (after_exit (current s) (initproc s) kids) \<and>
    state (procs s' (current s)) = PROC_ZOMBIE \<and> exit_code (procs s' (current s)) = code \<and>
    current s' \<noteq> current s \<and> (state (procs s' (current s')) = PROC_RUNNABLE \<or> current s' = idleproc s') \<and>
    (wait_state (procs s q) = WT_CHILD \<longrightarrow> state (procs s' q) = PROC_RUNNABLE) \<and>
    ((\<exists>p\<in>set (kids (current s)). state (procs s p) = PROC_ZOMBIE) \<and> wait_state (procs s (initproc s)) = WT_CHILD \<longrightarrow>
       state (procs s' (initproc s)) = PROC_RUNNABLE) \<and>
    (\<forall>p. p \<notin> {current s, initproc s, q} \<longrightarrow> state (procs s' p) = state (procs s p))"
  using assms by (rule do_exit_ok)

theorem exit_hands_over_witness:
  "\<exists>s'. do_exit demo_env 9 5 demo_state = Inr s' \<and> tables s' [3, 2, 1] (after_exit 2 1 demo_kids) \<and>
    state (procs s' 2) = PROC_ZOMBIE \<and> exit_code (procs s' 2) = 5 \<and> current s' \<noteq> 2"
  using exit_hands_over [OF demo_tables demo_current(2), of 1 9 demo_env 5]
  by (auto simp: demo_current) (auto simp: demo_state_def demo_procs_def)

text \<open>
  C19. A pass of \<open>do_wait\<close> with a writable \<open>code_store\<close>: with no child of that number (or no child
  at all for number 0) it returns \<open>-E_BAD_PROC\<close>; with a zombie among the children it removes one
  from all tables, stores its exit code, frees its stack and its structure and returns 0;
  otherwise the process sleeps, waiting for a child, and another one runs. With a
  \<open>code_store\<close> that is not writable it returns \<open>-E_INVAL\<close> and changes nothing.
\<close>

theorem wait_reaps:
  assumes "tables s ps kids" "current s \<in> insert (idleproc s) (set ps)" "current s \<notin> set (kids (current s))"
    and "zombies_childless s kids" "initproc s \<notin> set (kids (current s))" "Suc (Suc (length ps)) < fuel"
  shows "\<exists>r s'. do_wait e fuel n code_store s = Inr (r, s') \<and>
    (if code_store \<noteq> 0 \<and> \<not> user_mem_check e (mm (procs s (current s))) code_store 4 True (ext s)
     then r = Returned (- E_INVAL) \<and> s' = s
     else if awaited s ps kids n = [] then r = Returned (- E_BAD_PROC) \<and> s' = s
     else if dead_awaited s ps kids n = [] then r = Blocked \<and> tables s' ps kids \<and> state (procs s' (current s)) = PROC_SLEEPING \<and>
       wait_state (procs s' (current s)) = WT_CHILD \<and> (current s' \<noteq> current s \<or> current s = idleproc s)
     else r = Returned 0 \<and> (\<exists>p\<in>set (dead_awaited s ps kids n). tables s' (remove1 p ps) (kids(current s := remove1 p (kids (current s)))) \<and>
       (code_store \<noteq> 0 \<longrightarrow> user_ints s' code_store = exit_code (procs s p)) \<and>
       ext s' = kfree_proc e p (kstack_free e (kstack (procs s p)) (ext s))))"
proof (cases "code_store \<noteq> 0 \<and> \<not> user_mem_check e (mm (procs s (current s))) code_store 4 True (ext s)")
  case True
  then show ?thesis by (simp add: do_wait_def)
next
  case False
  then show ?thesis using wait_pass_ok [OF assms, of e n code_store] unfolding do_wait_def by (simp only: if_not_P if_False)
qed

theorem wait_reaps_witness:
  "\<exists>r s'. do_wait demo_env 9 0 64 demo_state = Inr (r, s') \<and> r = Returned 0 \<and> user_ints s' 64 = 7 \<and> ext s' = - 2 \<and>
     tables s' [2, 1] (demo_kids(2 := []))"
proof -
  have z: "zombies_childless demo_state demo_kids"
    by (simp add: zombies_childless_def demo_state_def demo_procs_def demo_kids_def)
  have k: "current demo_state \<notin> set (demo_kids (current demo_state))" "initproc demo_state \<notin> set (demo_kids (current demo_state))"
    by (simp_all add: demo_state_def demo_kids_def)
  have a: "awaited demo_state [3, 2, 1] demo_kids 0 = [3]" "dead_awaited demo_state [3, 2, 1] demo_kids 0 = [3]"
    by (simp_all add: dead_awaited_def awaited_def demo_state_def demo_procs_def demo_kids_def)
  have v: "exit_code (procs demo_state 3) = 7" "ext demo_state = 0" "user_mem_check demo_env m c l w x"
    "kfree_proc demo_env p (kstack_free demo_env b x) = x - 2" "demo_kids 2 = [3]" for m c l w x p b
    by (simp_all add: demo_state_def demo_procs_def demo_env_def demo_kids_def)
  have f: "Suc (Suc (length [3, 2, 1::nat])) < 9" by simp
  show ?thesis
    using wait_reaps [OF demo_tables demo_current(1) k(1) z k(2) f, of demo_env 0 64]
    by (simp add: a v demo_current del: One_nat_def) blast
qed

text \<open>
  \<open>do_kill\<close> returns \<open>-E_INVAL\<close> when no process has the number and \<open>-E_KILLED\<close> when the process
  is already being killed, both without effect; otherwise it marks the process, wakes it up
  if it sleeps interruptibly, returns 0 and keeps the tables.
\<close>

theorem kill_spec:
  assumes "tables s ps kids" "length ps < fuel"
    and "\<forall>p. state (procs s p) = PROC_ZOMBIE \<longrightarrow> wait_state (procs s p) AND WT_INTERRUPTED = 0"
  shows "\<exists>r s'. do_kill fuel n s = Inr (r, s') \<and>
    (case find (\<lambda>p. pid (procs s p) = n) ps of
       None \<Rightarrow> r = - E_INVAL \<and> s' = s
     | Some p \<Rightarrow> if flags (procs s p) AND PF_EXITING \<noteq> 0 then r = - E_KILLED \<and> s' = s
         else r = 0 \<and> tables s' ps kids \<and> flags (procs s' p) = flags (procs s p) OR PF_EXITING \<and>
           state (procs s' p) = (if wait_state (procs s p) AND WT_INTERRUPTED \<noteq> 0 then PROC_RUNNABLE else state (procs s p)) \<and>
           (\<forall>q. q \<noteq> p \<longrightarrow> procs s' q = procs s q))"
proof -
  note t = assms(1)
  have d: "distinct ps" using ring_distinct [OF tablesD(1) [OF t, unfolded all_procs_def]] by (simp add: distinct_map)
  have fp: "find_proc fuel n s = Inr (if 0 < n \<and> n < MAX_PID then find (\<lambda>p. pid (procs s p) = n) ps else None)"
    by (rule find_proc_ok [OF tablesD(2) [OF t] d tablesD(5) [OF t] assms(2)])
  have "find (\<lambda>p. pid (procs s p) = n) ps = None" if "\<not> (0 < n \<and> n < MAX_PID)"
    using tablesD(9) [OF t] that by (force simp: find_None_iff)
  then have fp': "find_proc fuel n s = Inr (find (\<lambda>p. pid (procs s p) = n) ps)" using fp by (auto split: if_splits)
  show ?thesis
  proof (cases "find (\<lambda>p. pid (procs s p) = n) ps")
    case None
    then show ?thesis using fp' by (simp add: do_kill_def)
  next
    case (Some p)
    let ?s1 = "on_proc p (\<lambda>r. r\<lparr>flags := flags r OR PF_EXITING\<rparr>) s"
    have t1: "tables ?s1 ps kids" by (rule same_tables_tables [OF same_tables_on_proc t]) simp
    have t2: "tables (on_proc p (\<lambda>r. r\<lparr>state := PROC_RUNNABLE, wait_state := 0\<rparr>) ?s1) ps kids"
      by (rule same_tables_tables [OF same_tables_on_proc t1]) simp
    show ?thesis
      using Some fp' t1 t2 assms(3) by (auto simp: do_kill_def wakeup_proc_def kassert_def Let_def)
  qed
qed

theorem kill_spec_witness:
  "\<exists>r s'. do_kill 9 2 demo_state = Inr (r, s') \<and> r = 0 \<and> tables s' [3, 2, 1] demo_kids \<and>
     flags (procs s' 2) = PF_EXITING \<and> state (procs s' 2) = PROC_RUNNABLE"
proof -
  have z: "\<forall>p. state (procs demo_state p) = PROC_ZOMBIE \<longrightarrow> wait_state (procs demo_state p) AND WT_INTERRUPTED = 0"
    by (simp add: demo_state_def demo_procs_def)
  have "find (\<lambda>p. pid (procs demo_state p) = 2) [3, 2, 1] = Some 2" "flags (procs demo_state 2) = 0"
    "wait_state (procs demo_state 2) = 0" "state (procs demo_state 2) = PROC_RUNNABLE"
    by (simp_all add: demo_state_def demo_procs_def)
  then show ?thesis using kill_spec [OF demo_tables _ z, of 9 2] by (simp del: One_nat_def) blast
qed

end
