(* ===== verification/Vm_State.thy ===== *)
theory Vm_State
  imports Pmm_Manager
begin

text \<open>
  The virtual memory of lab3: the Sv39 format of \<open>kern/mm/mmu.h\<close>, the conversions between
  page descriptors, physical addresses and page table entries of \<open>kern/mm/pmm.h\<close>, and the
  state on which the routines of \<open>pmm.c\<close>, \<open>vmm.c\<close>, \<open>swap.c\<close> and the two swap managers work.
  A page is its index in the \<open>pages\<close> array; its contents are 512 words of 64 bits, since all
  its kernel addresses go through \<open>KADDR\<close>. Page tables are such pages. The translation cache
  (\<open>flush_tlb\<close>) is not modelled.
\<close>

subsection \<open>Sv39 (kern/mm/mmu.h)\<close>

definition PDX1 :: "64 word \<Rightarrow> nat" where "PDX1 la = unat (drop_bit 30 la AND 0x1FF)"
definition PDX0 :: "64 word \<Rightarrow> nat" where "PDX0 la = unat (drop_bit 21 la AND 0x1FF)"
definition PTX :: "64 word \<Rightarrow> nat" where "PTX la = unat (drop_bit 12 la AND 0x1FF)"
definition PPN :: "64 word \<Rightarrow> 64 word" where "PPN la = drop_bit 12 la"
definition PTE_ADDR :: "64 word \<Rightarrow> 64 word" where "PTE_ADDR pte = push_bit 2 (pte AND NOT 0x3FF)"

definition PGSIZE :: "64 word" where "PGSIZE = 4096"
definition PTE_V :: "64 word" where "PTE_V = 0x001"
definition PTE_R :: "64 word" where "PTE_R = 0x002"
definition PTE_W :: "64 word" where "PTE_W = 0x004"
definition PTE_X :: "64 word" where "PTE_X = 0x008"
definition PTE_U :: "64 word" where "PTE_U = 0x010"

text \<open>\<open>ROUNDDOWN(a, n)\<close> of \<open>libs/defs.h\<close>.\<close>

definition ROUNDDOWN :: "64 word \<Rightarrow> 64 word \<Rightarrow> 64 word" where
  "ROUNDDOWN a n = a - a mod n"

subsection \<open>The state\<close>

record vma_struct =
  vm_mm :: nat
  vm_start :: "64 word"
  vm_end :: "64 word"
  vm_flags :: "64 word"

definition VM_READ :: "64 word" where "VM_READ = 1"
definition VM_WRITE :: "64 word" where "VM_WRITE = 2"
definition VM_EXEC :: "64 word" where "VM_EXEC = 4"

text \<open>
  The head of the list of swappable pages, \<open>pra_list_head\<close>, is \<open>None\<close>; the private data of
  the swap manager is a pointer to it, or \<open>NULL\<close>.
\<close>

record mm_struct =
  mmap_cache :: "nat option"
  pgdir :: "nat option"
  map_count :: int
  sm_priv :: "nat option option"

text \<open>
  \<open>phys\<close> holds the descriptors, the free list and the number of pages; \<open>visited\<close> and
  \<open>pra_vaddr\<close> are the fields that lab3 adds to a descriptor. The list entry of an \<open>mm_struct\<close>
  is \<open>Inl\<close>, that of a \<open>vma_struct\<close> \<open>Inr\<close>; both structures are named by the page that
  \<open>kmalloc\<close> gave for them. \<open>ide\<close> is the array of that name in words of 64 bits.
\<close>

record vm =
  phys :: free_area
  mem :: "nat \<Rightarrow> nat \<Rightarrow> 64 word"
  visited :: "nat \<Rightarrow> 64 word"
  pra_vaddr :: "nat \<Rightarrow> 64 word"
  pra_links :: "nat option links"
  curr_ptr :: "nat option"
  vmas :: "nat \<Rightarrow> vma_struct"
  mms :: "nat \<Rightarrow> mm_struct"
  vlinks :: "(nat + nat) links"
  check_mm_struct :: "nat option"
  swap_init_ok :: bool
  max_swap_offset :: "64 word"
  ide :: "nat \<Rightarrow> 64 word"
  pgfault_num :: "32 word"

definition on_vma :: "nat \<Rightarrow> (vma_struct \<Rightarrow> vma_struct) \<Rightarrow> vm \<Rightarrow> vm" where
  "on_vma v f s = s\<lparr>vmas := (vmas s)(v := f (vmas s v))\<rparr>"

definition on_mm :: "nat \<Rightarrow> (mm_struct \<Rightarrow> mm_struct) \<Rightarrow> vm \<Rightarrow> vm" where
  "on_mm m f s = s\<lparr>mms := (mms s)(m := f (mms s m))\<rparr>"

definition on_page :: "nat \<Rightarrow> (page \<Rightarrow> page) \<Rightarrow> vm \<Rightarrow> vm" where
  "on_page p f s = s\<lparr>phys := upd_page p f (phys s)\<rparr>"

definition put_word :: "nat \<times> nat \<Rightarrow> 64 word \<Rightarrow> vm \<Rightarrow> vm" where
  "put_word a w s = s\<lparr>mem := (mem s)(fst a := (mem s (fst a))(snd a := w))\<rparr>"

definition get_word :: "nat \<times> nat \<Rightarrow> vm \<Rightarrow> 64 word" where
  "get_word a s = mem s (fst a) (snd a)"

text \<open>The page directory of an \<open>mm_struct\<close>; using a \<open>NULL\<close> directory is an access fault.\<close>

definition with_pgdir :: "nat \<Rightarrow> vm \<Rightarrow> (nat \<Rightarrow> 'a res) \<Rightarrow> 'a res" where
  "with_pgdir m s f = (case pgdir (mms s m) of None \<Rightarrow> Inl Bad_Access | Some g \<Rightarrow> f g)"

subsection \<open>Conversions (kern/mm/pmm.h)\<close>

text \<open>The first page of the array is that of \<open>DRAM_BASE\<close>, \<open>0x80000000\<close>.\<close>

definition nbase :: nat where "nbase = 0x80000"

definition page2ppn :: "nat \<Rightarrow> 64 word" where "page2ppn p = of_nat (p + nbase)"

definition page2pa :: "nat \<Rightarrow> 64 word" where "page2pa p = push_bit 12 (page2ppn p)"

text \<open>
  \<open>pa2page\<close>, and \<open>KADDR\<close> of a physical page address: both stop at an address above the
  memory; below \<open>DRAM_BASE\<close> there are neither descriptors nor memory.
\<close>

definition pa2page :: "64 word \<Rightarrow> vm \<Rightarrow> nat res" where
  "pa2page pa s =
     (let ppn = unat (PPN pa) in
      if ppn \<ge> npages (phys s) + nbase then Inl Panicked
      else if ppn < nbase then Inl Bad_Access else Inr (ppn - nbase))"

definition pte2page :: "64 word \<Rightarrow> vm \<Rightarrow> nat res" where
  "pte2page pte s = (if pte AND PTE_V = 0 then Inl Panicked else pa2page (PTE_ADDR pte) s)"

definition pde2page :: "64 word \<Rightarrow> vm \<Rightarrow> nat res" where
  "pde2page pde s = pa2page (PTE_ADDR pde) s"

definition page_ref :: "nat \<Rightarrow> vm \<Rightarrow> 32 word" where
  "page_ref p s = ref (pages (phys s) p)"

definition page_ref_inc :: "nat \<Rightarrow> vm \<Rightarrow> vm" where
  "page_ref_inc p s = on_page p (ref_update (\<lambda>r. r + 1)) s"

definition page_ref_dec :: "nat \<Rightarrow> vm \<Rightarrow> vm" where
  "page_ref_dec p s = on_page p (ref_update (\<lambda>r. r - 1)) s"

text \<open>The parameter \<open>type\<close> is an \<open>int\<close>, which is extended with its sign.\<close>

definition pte_create :: "64 word \<Rightarrow> 32 word \<Rightarrow> 64 word" where
  "pte_create ppn typ = push_bit 10 ppn OR PTE_V OR scast typ"

subsection \<open>Facts about entries and addresses\<close>

lemma vm_upd_simps [simp]:
  "mem (put_word a w s) = (mem s)(fst a := (mem s (fst a))(snd a := w))"
  "phys (put_word a w s) = phys s" "npages (phys (on_page p f s)) = npages (phys s)"
  "mem (on_page p f s) = mem s" "pages (phys (on_page p f s)) = (pages (phys s))(p := f (pages (phys s) p))"
  "swap_init_ok (put_word a w s) = swap_init_ok s" "swap_init_ok (on_page p f s) = swap_init_ok s"
  by (simp_all add: put_word_def on_page_def)

lemma index_bound: "PDX1 la < 512" "PDX0 la < 512" "PTX la < 512"
proof -
  have "unat (w AND 0x1FF) < 512" for w :: "64 word"
  proof -
    have "w AND 0x1FF \<le> 0x1FF" by (rule word_and_le1)
    then have "unat (w AND 0x1FF) \<le> unat (0x1FF :: 64 word)" by (simp only: word_le_nat_alt)
    then show ?thesis by simp
  qed
  then show "PDX1 la < 512" "PDX0 la < 512" "PTX la < 512" by (simp_all add: PDX1_def PDX0_def PTX_def)
qed

lemma bit_bound: "unat (w :: 'a::len word) < 2 ^ n \<Longrightarrow> bit w k \<Longrightarrow> k < n"
proof -
  assume w: "unat w < 2 ^ n" and b: "bit w k"
  have "k < LENGTH('a)" using b by (rule bit_imp_le_length)
  then have "bit (unat w) k" using b by (simp add: bit_unsigned_iff)
  moreover have "take_bit n (unat w) = unat w" using w by (rule take_bit_nat_eq_self)
  ultimately show "k < n" by (metis bit_take_bit_iff)
qed

lemma small_bit: "(t :: 32 word) < 1024 \<Longrightarrow> bit t k \<Longrightarrow> k < 10"
  by (rule bit_bound) (simp_all add: word_less_nat_alt)

lemma small_scast: "(t :: 32 word) < 1024 \<Longrightarrow> bit (scast t :: 64 word) k \<longleftrightarrow> bit t k"
proof -
  assume t: "t < 1024"
  have "\<not> bit t (min 31 k)" if "31 \<le> k" using small_bit [OF t, of 31] that by auto
  moreover have "\<not> bit t k" if "31 \<le> k" using small_bit [OF t, of k] that by auto
  ultimately show ?thesis using bit_imp_le_length [of t k]
    by (cases "31 \<le> k") (auto simp: bit_signed_iff min_def)
qed

lemma low_mask: "(0x3FF :: 64 word) = mask 10"
  by (simp add: mask_eq_exp_minus_1)

lemma pte_create_addr:
  assumes "t < 1024"
  shows "PTE_ADDR (pte_create n t) = push_bit 12 n"
proof -
  have "(push_bit 10 n OR PTE_V OR scast t) AND NOT 0x3FF = push_bit 10 n"
    unfolding low_mask PTE_V_def
  proof (rule bit_word_eqI)
    fix k assume "k < LENGTH(64)"
    then show "bit ((push_bit 10 n OR 1 OR scast t) AND NOT (mask 10)) k \<longleftrightarrow> bit (push_bit 10 n) k"
      using small_bit [OF assms, of k]
      by (auto simp: bit_or_iff bit_and_iff bit_not_iff bit_mask_iff bit_push_bit_iff bit_1_iff small_scast [OF assms])
  qed
  then show ?thesis by (simp add: PTE_ADDR_def pte_create_def push_bit_push_bit)
qed

lemma pte_create_valid [simp]: "pte_create n t AND PTE_V \<noteq> 0"
proof
  assume "pte_create n t AND PTE_V = 0"
  then have "bit (pte_create n t AND PTE_V) 0 = False" by simp
  then show False by (simp add: pte_create_def PTE_V_def bit_simps)
qed

lemma pa2page_of_page:
  assumes "p < npages (phys s)" "npages (phys s) < 2 ^ 31"
  shows "pa2page (push_bit 12 (page2ppn p)) s = Inr p"
proof -
  have ppn: "unat (page2ppn p) = p + nbase" unfolding page2ppn_def
    by (rule unat_of_nat_small) (use assms in \<open>simp add: nbase_def\<close>)
  have "drop_bit 12 (push_bit 12 (page2ppn p)) = page2ppn p"
  proof (rule bit_word_eqI)
    fix k assume k: "k < LENGTH(64)"
    have "bit (page2ppn p) k \<Longrightarrow> k < 52"
      using bit_bound [of "page2ppn p" 52 k] ppn assms by (simp add: nbase_def)
    then show "bit (drop_bit 12 (push_bit 12 (page2ppn p))) k \<longleftrightarrow> bit (page2ppn p) k"
      using k by (auto simp: bit_simps)
  qed
  then show ?thesis using assms ppn by (simp add: pa2page_def PPN_def Let_def)
qed

lemma pte_create_page:
  assumes "p < npages (phys s)" "npages (phys s) < 2 ^ 31" "t < 1024"
  shows "pte2page (pte_create (page2ppn p) t) s = Inr p" "pde2page (pte_create (page2ppn p) t) s = Inr p"
  using assms by (simp_all add: pte2page_def pde2page_def pte_create_addr pa2page_of_page)

lemma pa2page_Inr: "pa2page a s = Inr p \<Longrightarrow> p < npages (phys s)"
  by (auto simp: pa2page_def Let_def split: if_splits)

lemma pa2page_cong: "npages (phys s') = npages (phys s) \<Longrightarrow> pa2page a s' = pa2page a s"
  by (simp add: pa2page_def)

end
