(* ===== verification/Paging.thy ===== *)
theory Paging
  imports Vm_State Errno
begin

text \<open>
  The walk through the three levels of a page table, \<open>get_pte\<close> of \<open>lab3/kern/mm/pmm.c\<close>, and
  what it does to the map that a page directory represents.
\<close>

subsection \<open>The walk\<close>

text \<open>
  \<open>alloc_page\<close> may swap a page out and then walks the table itself, without creating tables;
  so the walk takes the allocation as an argument.
\<close>

definition zero_page :: "nat \<Rightarrow> vm \<Rightarrow> vm" where
  "zero_page p s = s\<lparr>mem := (mem s)(p := \<lambda>_. 0)\<rparr>"

definition ensure_table :: "(vm \<Rightarrow> (nat option \<times> vm) res) \<Rightarrow> bool \<Rightarrow> nat \<times> nat \<Rightarrow> vm \<Rightarrow> (bool \<times> vm) res" where
  "ensure_table al create a s =
     (if get_word a s AND PTE_V = 0
      then if \<not> create then Inr (False, s)
           else kbind (al s) (\<lambda>(page, s1).
             case page of
               None \<Rightarrow> Inr (False, s1)
             | Some p \<Rightarrow>
                 let s2 = zero_page p (on_page p (\<lambda>r. set_page_ref r 1) s1)
                 in Inr (True, put_word a (pte_create (page2ppn p) (ucast (PTE_U OR PTE_V))) s2))
      else Inr (True, s))"

definition get_pte :: "(vm \<Rightarrow> (nat option \<times> vm) res) \<Rightarrow> nat \<Rightarrow> 64 word \<Rightarrow> bool \<Rightarrow> vm \<Rightarrow> ((nat \<times> nat) option \<times> vm) res" where
  "get_pte al g la create s =
     kbind (ensure_table al create (g, PDX1 la) s) (\<lambda>(ok1, s1).
       if \<not> ok1 then Inr (None, s1)
       else kbind (pde2page (get_word (g, PDX1 la) s1) s1) (\<lambda>t.
         kbind (ensure_table al create (t, PDX0 la) s1) (\<lambda>(ok2, s2).
           if \<not> ok2 then Inr (None, s2)
           else kbind (pde2page (get_word (t, PDX0 la) s2) s2) (\<lambda>u. Inr (Some (u, PTX la), s2)))))"

subsection \<open>The tree of tables\<close>

text \<open>The table below entry \<open>i\<close> of table \<open>t\<close>, and the table that a path of indices leads to.\<close>

definition sub_table :: "vm \<Rightarrow> nat \<Rightarrow> nat \<Rightarrow> nat option" where
  "sub_table s t i =
     (if mem s t i AND PTE_V = 0 then None
      else case pde2page (mem s t i) s of Inr p \<Rightarrow> Some p | Inl _ \<Rightarrow> None)"

fun node :: "vm \<Rightarrow> nat \<Rightarrow> nat list \<Rightarrow> nat option" where
  "node s t [] = Some t"
| "node s t (i # is) = (case sub_table s t i of None \<Rightarrow> None | Some u \<Rightarrow> node s u is)"

definition leaf :: "vm \<Rightarrow> nat \<Rightarrow> 64 word \<Rightarrow> (nat \<times> nat) option" where
  "leaf s g la = (case node s g [PDX1 la, PDX0 la] of None \<Rightarrow> None | Some u \<Rightarrow> Some (u, PTX la))"

text \<open>The abstract page table: the entry of an address, 0 where there is no table.\<close>

definition entry :: "vm \<Rightarrow> nat \<Rightarrow> 64 word \<Rightarrow> 64 word" where
  "entry s g la = (case leaf s g la of None \<Rightarrow> 0 | Some a \<Rightarrow> get_word a s)"

text \<open>
  A well-formed directory: no page serves twice as a table, valid directory entries lead to
  pages, and no table is in the set \<open>F\<close> of free pages.
\<close>

definition pt_ok :: "vm \<Rightarrow> nat \<Rightarrow> nat set \<Rightarrow> bool" where
  "pt_ok s g F \<longleftrightarrow>
     (\<forall>is js p. length is \<le> 2 \<and> length js \<le> 2 \<and> node s g is = Some p \<and> node s g js = Some p \<longrightarrow> is = js) \<and>
     (\<forall>is p i. length is \<le> 1 \<and> node s g is = Some p \<and> mem s p i AND PTE_V \<noteq> 0 \<longrightarrow>
        (\<exists>q. pde2page (mem s p i) s = Inr q)) \<and>
     (\<forall>is p. length is \<le> 2 \<and> node s g is = Some p \<longrightarrow> p \<notin> F)"

lemma pt_okD:
  assumes "pt_ok s g F"
  shows "\<And>is js p. length is \<le> 2 \<Longrightarrow> length js \<le> 2 \<Longrightarrow> node s g is = Some p \<Longrightarrow> node s g js = Some p \<Longrightarrow> is = js"
    "\<And>is p i. length is \<le> 1 \<Longrightarrow> node s g is = Some p \<Longrightarrow> mem s p i AND PTE_V \<noteq> 0 \<Longrightarrow> \<exists>q. pde2page (mem s p i) s = Inr q"
    "\<And>is p. length is \<le> 2 \<Longrightarrow> node s g is = Some p \<Longrightarrow> p \<notin> F"
  using assms unfolding pt_ok_def by blast+

lemma node_append: "node s t (is @ js) = (case node s t is of None \<Rightarrow> None | Some u \<Rightarrow> node s u js)"
proof (induction "is" arbitrary: t)
  case (Cons i "is")
  then show ?case by (cases "sub_table s t i") simp_all
qed simp

lemma node_snoc: "node s t (is @ [i]) = (case node s t is of None \<Rightarrow> None | Some u \<Rightarrow> sub_table s u i)"
  by (cases "node s t is") (simp_all add: node_append split: option.split)

lemma sub_table_cong: "mem s' t i = mem s t i \<Longrightarrow> npages (phys s') = npages (phys s) \<Longrightarrow> sub_table s' t i = sub_table s t i"
  by (simp only: sub_table_def pde2page_def pa2page_cong [of s' s])

text \<open>A walk depends on the directory levels only.\<close>

lemma node_cong:
  assumes same: "\<And>js p. length js \<le> 1 \<Longrightarrow> node s g js = Some p \<Longrightarrow> mem s' p = mem s p"
    and n: "npages (phys s') = npages (phys s)" and len: "length is \<le> 2"
  shows "node s' g is = node s g is"
  using len
proof (induction "is" rule: rev_induct)
  case (snoc i "is")
  then have "node s' g is = node s g is" by simp
  moreover have "sub_table s' u i = sub_table s u i" if "node s g is = Some u" for u
    by (rule sub_table_cong) (use same [OF _ that] snoc.prems n in auto)
  ultimately show ?case by (simp add: node_snoc split: option.splits)
qed simp

lemma node_table_entry:
  assumes "length is \<le> 1" "node s g is = Some t" "pt_ok s g F" "mem s t i AND PTE_V \<noteq> 0"
  shows "\<exists>u. pde2page (mem s t i) s = Inr u \<and> node s g (is @ [i]) = Some u"
  using pt_okD(2) [OF assms(3,1,2,4)] assms(2,4) by (auto simp: node_snoc sub_table_def)

subsection \<open>Writing entries\<close>

lemma entry_cong:
  assumes "\<And>js p. length js \<le> 2 \<Longrightarrow> node s g js = Some p \<Longrightarrow> mem s' p = mem s p" and "npages (phys s') = npages (phys s)"
  shows "leaf s' g la = leaf s g la" "entry s' g la = entry s g la"
proof -
  have n: "node s' g [PDX1 la, PDX0 la] = node s g [PDX1 la, PDX0 la]"
    by (rule node_cong [OF assms(1) assms(2)]) simp_all
  then show "leaf s' g la = leaf s g la" by (simp add: leaf_def)
  then show "entry s' g la = entry s g la"
    using assms(1) [of "[PDX1 la, PDX0 la]"] by (simp add: entry_def leaf_def get_word_def split: option.split)
qed

text \<open>A new table \<open>p\<close>, all zero, below the invalid entry \<open>i\<close> of table \<open>t\<close>.\<close>

definition new_table :: "vm \<Rightarrow> vm \<Rightarrow> nat \<Rightarrow> nat \<Rightarrow> nat \<Rightarrow> bool" where
  "new_table s s' t i p \<longleftrightarrow> npages (phys s') = npages (phys s) \<and>
     mem s' = (mem s)(p := \<lambda>_. 0, t := (mem s t)(i := pte_create (page2ppn p) (ucast (PTE_U OR PTE_V))))"

definition grows :: "vm \<Rightarrow> vm \<Rightarrow> nat \<Rightarrow> nat set \<Rightarrow> nat list \<Rightarrow> nat \<Rightarrow> nat \<Rightarrow> nat \<Rightarrow> bool" where
  "grows s s' g F is t i p \<longleftrightarrow> pt_ok s g F \<and> length is \<le> 1 \<and> node s g is = Some t \<and> mem s t i AND PTE_V = 0 \<and>
     p \<in> F \<and> p < npages (phys s) \<and> npages (phys s) < 2 ^ 31 \<and> new_table s s' t i p"

lemma growsD:
  assumes "grows s s' g F is t i p"
  shows "pt_ok s g F" "length is \<le> 1" "node s g is = Some t" "mem s t i AND PTE_V = 0"
    "p \<in> F" "p < npages (phys s)" "npages (phys s) < 2 ^ 31" "new_table s s' t i p"
    "\<And>js u. length js \<le> 2 \<Longrightarrow> node s g js = Some u \<Longrightarrow> u \<noteq> p" "t \<noteq> p"
    "node s g (is @ [i]) = None" "node s g (is @ [i, j]) = None"
proof -
  show D: "pt_ok s g F" "length is \<le> 1" "node s g is = Some t" "mem s t i AND PTE_V = 0"
    "p \<in> F" "p < npages (phys s)" "npages (phys s) < 2 ^ 31" "new_table s s' t i p"
    using assms by (simp_all add: grows_def)
  show o: "u \<noteq> p" if "length js \<le> 2" "node s g js = Some u" for js u
    using pt_okD(3) [OF D(1) that] D(5) by auto
  show "t \<noteq> p" using o [OF _ D(3)] D(2) by simp
  show "node s g (is @ [i]) = None" "node s g (is @ [i, j]) = None"
    using D(3,4) by (simp_all add: node_append sub_table_def)
qed

lemma sub_new:
  assumes gr: "grows s s' g F is t i p"
  shows "sub_table s' u j = (if u = t \<and> j = i then Some p else if u = p then None else sub_table s u j)"
proof -
  note D = growsD [OF gr]
  have "(ucast (PTE_U OR PTE_V) :: 32 word) < 1024" by (simp add: PTE_U_def PTE_V_def)
  then have "pde2page (pte_create (page2ppn p) (ucast (PTE_U OR PTE_V))) s' = Inr p"
    using pte_create_page(2) [of p s'] D(6-8) by (simp add: new_table_def)
  moreover have "sub_table s' u j = sub_table s u j" if "u \<noteq> t \<or> j \<noteq> i" "u \<noteq> p"
    by (rule sub_table_cong) (use D(8) that in \<open>auto simp: new_table_def\<close>)
  ultimately show ?thesis using D(8,10) by (auto simp: sub_table_def new_table_def)
qed

lemma node_new:
  assumes gr: "grows s s' g F is t i p"
  shows "length js \<le> 2 \<Longrightarrow> node s' g js = (if js = is @ [i] then Some p else if \<exists>j. js = is @ [i, j] then None else node s g js)"
proof (induction js rule: rev_induct)
  case (snoc j js)
  note D = growsD [OF gr] and sub = sub_new [OF gr]
  have IH: "node s' g js = (if js = is @ [i] then Some p else if \<exists>j. js = is @ [i, j] then None else node s g js)"
    using snoc by simp
  have long: "\<not> (\<exists>j. js = is @ [i, j])" using snoc.prems D(2) by auto
  consider "js = is" "j = i" | "js = is @ [i]" | "js \<noteq> is @ [i]" "\<not> (js = is \<and> j = i)" by blast
  then show ?case
  proof cases
    case 1
    then have "node s' g js = Some t" using IH D(3) by simp
    then show ?thesis using 1 by (simp add: node_snoc sub)
  next
    case 2
    then have "node s' g js = Some p" using IH by simp
    moreover have "sub_table s' p j = None" using D(10) sub [of p j] by simp
    ultimately have "node s' g (js @ [j]) = None" by (simp add: node_snoc)
    then show ?thesis using 2 by simp
  next
    case 3
    then have eq: "node s' g js = node s g js" using IH long by simp
    have "sub_table s' u j = sub_table s u j" if u: "node s g js = Some u" for u
    proof -
      have "u \<noteq> p" using D(9) [OF _ u] snoc.prems by simp
      moreover have "\<not> (u = t \<and> j = i)"
        using pt_okD(1) [OF D(1) _ _ u, of "is"] D(2,3) 3 snoc.prems by auto
      ultimately show ?thesis by (auto simp: sub)
    qed
    then have "node s' g (js @ [j]) = node s g (js @ [j])" using eq by (simp add: node_snoc split: option.split)
    moreover have "\<not> (\<exists>k. js @ [j] = is @ [i, k])" using 3(1) by (auto simp: append_eq_append_conv2)
    ultimately show ?thesis using 3 by auto
  qed
qed simp

lemma node_kept:
  assumes gr: "grows s s' g F is t i p"
  shows "length js \<le> 2 \<Longrightarrow> node s g js = Some u \<Longrightarrow> node s' g js = Some u"
  using node_new [OF gr, of js] growsD(11,12) [OF gr] by auto

lemma node_back:
  assumes gr: "grows s s' g F is t i p"
  shows "length js \<le> 2 \<Longrightarrow> node s' g js = Some u \<Longrightarrow> (js = is @ [i] \<and> u = p) \<or> node s g js = Some u"
  using node_new [OF gr, of js] by (auto split: if_splits)

lemma entry_new:
  assumes gr: "grows s s' g F is t i p"
  shows "entry s' g la = entry s g la"
proof -
  note D = growsD [OF gr]
  let ?js = "[PDX1 la, PDX0 la]"
  show ?thesis
  proof (cases "node s' g ?js")
    case None
    then have "node s g ?js = None" using node_kept [OF gr, of ?js] by (cases "node s g ?js") auto
    then show ?thesis using None by (simp add: entry_def leaf_def)
  next
    case (Some u)
    show ?thesis
    proof (cases "?js = is @ [i]")
      case True
      then have u: "u = p" "node s g ?js = None" using Some node_new [OF gr, of ?js] D(11) by auto
      have "mem s' p (PTX la) = 0" using D(8,10) by (simp add: new_table_def)
      then show ?thesis using Some u by (simp add: entry_def leaf_def get_word_def del: node.simps)
    next
      case False
      then have u: "node s g ?js = Some u" using node_back [OF gr _ Some] by auto
      have "u \<noteq> p" using D(9) [OF _ u] by simp
      moreover have "u \<noteq> t" using pt_okD(1) [OF D(1) _ _ u, of "is"] D(2,3) by auto
      ultimately have "mem s' u = mem s u" using D(8) by (simp add: new_table_def)
      then show ?thesis using Some u by (simp add: entry_def leaf_def get_word_def del: node.simps)
    qed
  qed
qed

lemma pt_ok_new:
  assumes gr: "grows s s' g F is t i p"
  shows "pt_ok s' g (F - {p})"
  unfolding pt_ok_def
proof (intro conjI allI impI; elim conjE)
  fix js ks u
  assume a: "length js \<le> 2" "length ks \<le> 2" "node s' g js = Some u" "node s' g ks = Some u"
  have "node s g xs \<noteq> Some p" if "length xs \<le> 2" for xs using growsD(9) [OF gr that] by blast
  then show "js = ks"
    using node_back [OF gr a(1,3)] node_back [OF gr a(2,4)] pt_okD(1) [OF growsD(1) [OF gr] a(1,2)] a(1,2) by auto
next
  fix js u k
  assume a: "length js \<le> 1" "node s' g js = Some u" "mem s' u k AND PTE_V \<noteq> 0"
  note D = growsD [OF gr]
  show "\<exists>q. pde2page (mem s' u k) s' = Inr q"
  proof (cases "u = t \<and> k = i")
    case True
    then show ?thesis using sub_new [OF gr, of t i] a(3) by (auto simp: sub_table_def split: sum.splits)
  next
    case False
    then have up: "u \<noteq> p" using a(3) D(8,10) by (auto simp: new_table_def)
    then have m: "mem s' u k = mem s u k" using D(8) False up by (auto simp: new_table_def)
    have "node s g js = Some u" using node_back [OF gr _ a(2)] a(1) up by auto
    then obtain q where "pde2page (mem s u k) s = Inr q" using pt_okD(2) [OF D(1) a(1)] a(3) m by auto
    then show ?thesis using m D(8) by (auto simp: pde2page_def new_table_def pa2page_cong [of s' s])
  qed
next
  fix js u assume "length js \<le> 2" "node s' g js = Some u"
  then show "u \<notin> F - {p}" using node_back [OF gr] pt_okD(3) [OF growsD(1) [OF gr]] by blast
qed

text \<open>Writing an entry of a table of the last level changes the entry of one address only.\<close>

lemma leaf_write:
  assumes pt: "pt_ok s g F" and l: "leaf s g la = Some (u, k)"
  shows "pt_ok (put_word (u, k) w s) g F" "entry (put_word (u, k) w s) g la = w" "leaf (put_word (u, k) w s) g x = leaf s g x"
    "(PDX1 x, PDX0 x, PTX x) \<noteq> (PDX1 la, PDX0 la, PTX la) \<Longrightarrow> entry (put_word (u, k) w s) g x = entry s g x"
proof -
  let ?s = "put_word (u, k) w s"
  have u: "node s g [PDX1 la, PDX0 la] = Some u" "k = PTX la" using l by (auto simp: leaf_def split: option.splits)
  have m: "mem ?s p = mem s p" if "length js \<le> 1" "node s g js = Some p" for js p
  proof -
    have "p \<noteq> u" using pt_okD(1) [OF pt _ _ that(2), of "[PDX1 la, PDX0 la]"] that(1) u(1) by auto
    then show ?thesis by simp
  qed
  have n: "node ?s g js = node s g js" if "length js \<le> 2" for js by (rule node_cong [OF m _ that]) simp_all
  show lf: "leaf ?s g x = leaf s g x" for x by (simp add: leaf_def n del: node.simps)
  show "entry ?s g la = w" using lf [of la] l by (simp add: entry_def get_word_def)
  show "entry ?s g x = entry s g x" if d: "(PDX1 x, PDX0 x, PTX x) \<noteq> (PDX1 la, PDX0 la, PTX la)"
  proof (cases "node s g [PDX1 x, PDX0 x]")
    case (Some v)
    have "(v, PTX x) \<noteq> (u, k)"
      using pt_okD(1) [OF pt _ _ Some, of "[PDX1 la, PDX0 la]"] u d by auto
    then show ?thesis using lf [of x] Some by (auto simp: entry_def leaf_def get_word_def simp del: node.simps)
  next
    case None
    then show ?thesis using lf [of x] by (simp add: entry_def leaf_def del: node.simps)
  qed
  show "pt_ok ?s g F" unfolding pt_ok_def
  proof (intro conjI allI impI; elim conjE)
    fix js ks p assume "length js \<le> 2" "length ks \<le> 2" "node ?s g js = Some p" "node ?s g ks = Some p"
    then show "js = ks" using pt_okD(1) [OF pt] n by simp
  next
    fix js p i assume a: "length js \<le> 1" "node ?s g js = Some p" "mem ?s p i AND PTE_V \<noteq> 0"
    then have "node s g js = Some p" using n by simp
    then show "\<exists>q. pde2page (mem ?s p i) ?s = Inr q"
      using pt_okD(2) [OF pt a(1)] m [OF a(1)] a(3) by (simp add: pde2page_def pa2page_cong [of ?s s])
  next
    fix js p assume "length js \<le> 2" "node ?s g js = Some p"
    then show "p \<notin> F" using pt_okD(3) [OF pt] n by simp
  qed
qed


subsection \<open>The walk with a source of pages\<close>

text \<open>
  What the walk needs of \<open>alloc_page\<close>: it returns; it gives a page that was free, changes the
  descriptors only, and of these none of a page in use; counting references leaves it alone.
\<close>

locale frame_source =
  fixes al :: "vm \<Rightarrow> (nat option \<times> vm) res" and ok :: "vm \<Rightarrow> bool" and free :: "vm \<Rightarrow> nat set"
  assumes al_returns: "ok s \<Longrightarrow> \<exists>r s'. al s = Inr (r, s')"
    and al_none: "ok s \<Longrightarrow> al s = Inr (None, s') \<Longrightarrow> s' = s"
    and al_some: "ok s \<Longrightarrow> al s = Inr (Some p, s') \<Longrightarrow>
      p \<in> free s \<and> p < npages (phys s) \<and> ok s' \<and> free s' = free s - {p} \<and>
      (\<exists>ph. s' = s\<lparr>phys := ph\<rparr> \<and> npages ph = npages (phys s) \<and> (\<forall>q. q \<notin> free s \<longrightarrow> pages ph q = pages (phys s) q))"
    and ok_size: "ok s \<Longrightarrow> npages (phys s) < 2 ^ 31"
    and ok_ref: "ok s \<Longrightarrow> p \<notin> free s \<Longrightarrow> ok (on_page p (ref_update f) s) \<and> free (on_page p (ref_update f) s) = free s"
    and ok_mem: "ok (s\<lparr>mem := m\<rparr>) = ok s" "free (s\<lparr>mem := m\<rparr>) = free s"

text \<open>What a walk may do to the state: add tables, taken from the free pages.\<close>

definition grown :: "(vm \<Rightarrow> bool) \<Rightarrow> (vm \<Rightarrow> nat set) \<Rightarrow> nat \<Rightarrow> vm \<Rightarrow> vm \<Rightarrow> bool" where
  "grown ok free g s s' \<longleftrightarrow> ok s' \<and> pt_ok s' g (free s') \<and> free s' \<subseteq> free s \<and>
     (\<forall>js p. length js \<le> 2 \<and> node s g js = Some p \<longrightarrow> node s' g js = Some p) \<and>
     (\<forall>js p. length js \<le> 2 \<and> node s' g js = Some p \<longrightarrow> node s g js = Some p \<or> p \<in> free s) \<and>
     (\<forall>la. entry s' g la = entry s g la) \<and>
     (\<exists>ph m. s' = s\<lparr>phys := ph, mem := m\<rparr> \<and> npages ph = npages (phys s)) \<and>
     (\<forall>q. q \<notin> free s \<longrightarrow> pages (phys s') q = pages (phys s) q) \<and>
     (\<forall>q. q \<notin> free s \<and> (\<forall>js. length js \<le> 1 \<longrightarrow> node s g js \<noteq> Some q) \<longrightarrow> mem s' q = mem s q)"

lemma grownD:
  assumes "grown ok free g s s'"
  shows "ok s'" "pt_ok s' g (free s')" "free s' \<subseteq> free s"
    "\<And>js p. length js \<le> 2 \<Longrightarrow> node s g js = Some p \<Longrightarrow> node s' g js = Some p"
    "\<And>js p. length js \<le> 2 \<Longrightarrow> node s' g js = Some p \<Longrightarrow> node s g js = Some p \<or> p \<in> free s"
    "\<And>la. entry s' g la = entry s g la"
    "\<exists>ph m. s' = s\<lparr>phys := ph, mem := m\<rparr> \<and> npages ph = npages (phys s)"
    "\<And>q. q \<notin> free s \<Longrightarrow> pages (phys s') q = pages (phys s) q"
    "\<And>q. q \<notin> free s \<Longrightarrow> (\<And>js. length js \<le> 1 \<Longrightarrow> node s g js \<noteq> Some q) \<Longrightarrow> mem s' q = mem s q"
  using assms unfolding grown_def by blast+

lemma grown_refl: "ok s \<Longrightarrow> pt_ok s g (free s) \<Longrightarrow> grown ok free g s s"
  by (auto simp: grown_def intro!: exI [of _ "phys s"] exI [of _ "mem s"])

lemma grown_trans:
  assumes a: "grown ok free g s s1" and b: "grown ok free g s1 s2"
  shows "grown ok free g s s2"
  unfolding grown_def
proof (intro conjI allI impI; (elim conjE)?)
  note A = grownD [OF a] and B = grownD [OF b]
  show "ok s2" "pt_ok s2 g (free s2)" "free s2 \<subseteq> free s" using A(3) B(1-3) by auto
  show "entry s2 g la = entry s g la" for la using A(6) B(6) by simp
  show "node s2 g js = Some p" if "length js \<le> 2" "node s g js = Some p" for js p using A(4) B(4) that by blast
  show "node s g js = Some p \<or> p \<in> free s" if "length js \<le> 2" "node s2 g js = Some p" for js p
    using A(3,5) B(5) that by blast
  show "\<exists>ph m. s2 = s\<lparr>phys := ph, mem := m\<rparr> \<and> npages ph = npages (phys s)"
  proof -
    obtain ph m ph' m' where "s1 = s\<lparr>phys := ph, mem := m\<rparr>" "s2 = s1\<lparr>phys := ph', mem := m'\<rparr>"
      "npages ph = npages (phys s)" "npages ph' = npages (phys s1)" using A(7) B(7) by blast
    then show ?thesis by (intro exI [of _ ph'] exI [of _ m']) simp
  qed
  show "pages (phys s2) q = pages (phys s) q" if "q \<notin> free s" for q using A(3) A(8) [OF that] B(8) [of q] that by auto
  show "mem s2 q = mem s q" if q: "q \<notin> free s" "\<forall>js. length js \<le> 1 \<longrightarrow> node s g js \<noteq> Some q" for q
  proof -
    have "node s1 g js \<noteq> Some q" if "length js \<le> 1" for js using A(5) [of js q] that q by auto
    then show ?thesis using A(3) A(9) [of q] B(9) [of q] q by auto
  qed
qed

context frame_source
begin

lemma ensure_table_ok:
  assumes ok: "ok s" and pt: "pt_ok s g (free s)" and path: "length is \<le> 1" "node s g is = Some t"
  shows "\<exists>b s'. ensure_table al True (t, i) s = Inr (b, s') \<and> grown ok free g s s' \<and>
    (b \<longrightarrow> mem s' t i AND PTE_V \<noteq> 0) \<and> (\<not> b \<longrightarrow> al s' = Inr (None, s')) \<and> (\<exists>p. free s - {p} \<subseteq> free s')"
proof (cases "mem s t i AND PTE_V = 0")
  case False
  then show ?thesis using grown_refl [of ok s g free] ok pt
    by (intro exI [of _ True] exI [of _ s]) (simp add: ensure_table_def get_word_def)
next
  case True
  obtain r s1 where r: "al s = Inr (r, s1)" using al_returns [OF ok] by blast
  show ?thesis
  proof (cases r)
    case None
    then show ?thesis using True r al_none [OF ok, of s1] grown_refl [of ok s g free] ok pt
      by (intro exI [of _ False] exI [of _ s]) (auto simp: ensure_table_def get_word_def)
  next
    case (Some p)
    obtain ph where s1: "s1 = s\<lparr>phys := ph\<rparr>" "npages ph = npages (phys s)" "\<forall>q. q \<notin> free s \<longrightarrow> pages ph q = pages (phys s) q"
      and P: "p \<in> free s" "p < npages (phys s)" "ok s1" "free s1 = free s - {p}"
      using al_some [OF ok, of p s1] r Some by blast
    let ?s2 = "on_page p (ref_update (\<lambda>_. 1)) s1"
    let ?m = "(mem s)(p := \<lambda>_. 0, t := ((mem s)(p := \<lambda>_. 0)) t)"
    let ?w = "pte_create (page2ppn p) (ucast (PTE_U OR PTE_V))"
    define s' where "s' = put_word (t, i) ?w (zero_page p ?s2)"
    have run: "ensure_table al True (t, i) s = Inr (True, s')"
      using True r Some by (simp add: ensure_table_def get_word_def s'_def set_page_ref_def)
    have tp: "t \<noteq> p" using pt_okD(3) [OF pt _ path(2)] path(1) P(1) by auto
    have "s' = ?s2\<lparr>mem := (mem s)(p := \<lambda>_. 0, t := (mem s t)(i := ?w))\<rparr>"
      using tp s1(1) by (simp add: s'_def zero_page_def put_word_def on_page_def)
    then have o: "ok s'" "free s' = free s - {p}"
      using ok_ref [of s1 p "\<lambda>_. 1"] P(3,4) by (simp_all add: ok_mem)
    have m: "mem s' = (mem s)(p := \<lambda>_. 0, t := (mem s t)(i := ?w))" "npages (phys s') = npages (phys s)"
      "pages (phys s') = (pages ph)(p := (pages ph p)\<lparr>ref := 1\<rparr>)"
      using tp s1 by (simp_all add: s'_def zero_page_def put_word_def on_page_def)
    have gr: "grows s s' g (free s) is t i p"
      using pt path True P ok_size [OF ok] m by (simp add: grows_def new_table_def)
    have "grown ok free g s s'" unfolding grown_def
    proof (intro conjI allI impI; (elim conjE)?)
      show "ok s'" "pt_ok s' g (free s')" "free s' \<subseteq> free s" using o pt_ok_new [OF gr] by auto
      show "entry s' g la = entry s g la" for la by (rule entry_new [OF gr])
      show "node s' g js = Some q" if "length js \<le> 2" "node s g js = Some q" for js q
        using node_kept [OF gr] that by blast
      show "node s g js = Some q \<or> q \<in> free s" if "length js \<le> 2" "node s' g js = Some q" for js q
        using node_back [OF gr that] P(1) by blast
      show "\<exists>ph m. s' = s\<lparr>phys := ph, mem := m\<rparr> \<and> npages ph = npages (phys s)"
        using s1 by (intro exI [of _ "phys s'"] exI [of _ "mem s'"])
          (simp add: s'_def zero_page_def put_word_def on_page_def)
      show "pages (phys s') q = pages (phys s) q" if "q \<notin> free s" for q using that P(1) m s1(3) by auto
      show "mem s' q = mem s q" if q: "q \<notin> free s" "\<forall>js. length js \<le> 1 \<longrightarrow> node s g js \<noteq> Some q" for q
        using m q path P(1) by auto
    qed
    moreover have "mem s' t i AND PTE_V \<noteq> 0" using m by simp
    ultimately show ?thesis using run o(2) by auto
  qed
qed

lemma get_pte_ok:
  assumes ok: "ok s" and pt: "pt_ok s g (free s)"
  shows "\<exists>r s'. get_pte al g la True s = Inr (r, s') \<and> grown ok free g s s' \<and>
    (case r of Some a \<Rightarrow> leaf s' g la = Some a | None \<Rightarrow> al s' = Inr (None, s')) \<and>
    (\<exists>p q. free s - {p, q} \<subseteq> free s')"
proof -
  obtain b s1 where 1: "ensure_table al True (g, PDX1 la) s = Inr (b, s1)" "grown ok free g s s1"
    "b \<longrightarrow> mem s1 g (PDX1 la) AND PTE_V \<noteq> 0" "\<not> b \<longrightarrow> al s1 = Inr (None, s1)"
    "\<exists>p. free s - {p} \<subseteq> free s1"
    using ensure_table_ok [OF ok pt, of "[]" g "PDX1 la"] by auto
  show ?thesis
  proof (cases b)
    case False
    have "\<exists>p q. free s - {p, q} \<subseteq> free s1" using 1(5) by blast
    moreover have "get_pte al g la True s = Inr (None, s1) \<and> al s1 = Inr (None, s1)"
      using 1(1,4) False by (simp add: get_pte_def)
    ultimately show ?thesis using 1(2) by (intro exI [of _ None] exI [of _ s1]) simp
  next
    case True
    note G = grownD [OF 1(2)]
    obtain t where t: "pde2page (mem s1 g (PDX1 la)) s1 = Inr t" "node s1 g [PDX1 la] = Some t"
      using node_table_entry [OF _ _ G(2), of "[]" g "PDX1 la"] 1(3) True by auto
    obtain b2 s2 where 2: "ensure_table al True (t, PDX0 la) s1 = Inr (b2, s2)" "grown ok free g s1 s2"
      "b2 \<longrightarrow> mem s2 t (PDX0 la) AND PTE_V \<noteq> 0" "\<not> b2 \<longrightarrow> al s2 = Inr (None, s2)"
      "\<exists>p. free s1 - {p} \<subseteq> free s2"
      using ensure_table_ok [OF G(1,2) _ t(2), of "PDX0 la"] by auto
    have tr: "grown ok free g s s2" by (rule grown_trans [OF 1(2) 2(2)])
    obtain p q where pq: "free s - {p} \<subseteq> free s1" "free s1 - {q} \<subseteq> free s2" using 1(5) 2(5) by blast
    have "free s - {p, q} \<subseteq> free s2" using pq by auto
    then have two: "\<exists>p q. free s - {p, q} \<subseteq> free s2" by blast
    show ?thesis
    proof (cases b2)
      case False
      then have "get_pte al g la True s = Inr (None, s2) \<and> al s2 = Inr (None, s2)"
        using 1(1) 2(1) 2(4) True t(1) False unfolding get_pte_def get_word_def by simp
      then show ?thesis using tr two by (intro exI [of _ None] exI [of _ s2]) simp
    next
      case T2: True
      have t2: "node s2 g [PDX1 la] = Some t" using grownD(4) [OF 2(2) _ t(2)] by simp
      obtain u where u: "pde2page (mem s2 t (PDX0 la)) s2 = Inr u" "node s2 g [PDX1 la, PDX0 la] = Some u"
        using node_table_entry [OF _ t2 grownD(2) [OF 2(2)], of "PDX0 la"] 2(3) T2 by auto
      then have "leaf s2 g la = Some (u, PTX la)" by (simp add: leaf_def del: node.simps)
      moreover have "get_pte al g la True s = Inr (Some (u, PTX la), s2)"
        using 1(1) 2(1) True T2 t(1) u(1) unfolding get_pte_def get_word_def by simp
      ultimately show ?thesis using tr two by (intro exI [of _ "Some (u, PTX la)"] exI [of _ s2]) simp
    qed
  qed
qed

end

text \<open>Without creation the walk only reads.\<close>

lemma get_pte_reads:
  assumes pt: "pt_ok s g F"
  shows "get_pte al g la False s = Inr (leaf s g la, s)"
proof (cases "mem s g (PDX1 la) AND PTE_V = 0")
  case True
  then show ?thesis by (simp add: get_pte_def ensure_table_def get_word_def leaf_def sub_table_def)
next
  case False
  obtain t where t: "pde2page (mem s g (PDX1 la)) s = Inr t" "node s g [PDX1 la] = Some t"
    using node_table_entry [OF _ _ pt, of "[]" g "PDX1 la"] False by auto
  show ?thesis
  proof (cases "mem s t (PDX0 la) AND PTE_V = 0")
    case True
    then show ?thesis using False t by (simp add: get_pte_def ensure_table_def get_word_def leaf_def sub_table_def)
  next
    case F2: False
    obtain u where u: "pde2page (mem s t (PDX0 la)) s = Inr u" "node s g [PDX1 la, PDX0 la] = Some u"
      using node_table_entry [OF _ t(2) pt, of "PDX0 la"] F2 by auto
    then show ?thesis using False F2 t by (simp add: get_pte_def ensure_table_def get_word_def leaf_def del: node.simps)
  qed
qed

end
