(* ===== verification/Swap.thy ===== *)
theory Swap
  imports Paging
begin

text \<open>
  Page replacement in lab3: the interface \<open>struct swap_manager\<close> of \<open>kern/mm/swap.h\<close> with its
  two instances \<open>swap_fifo.c\<close> and \<open>swap_clock.c\<close>, the swap disk (\<open>swapfs.c\<close>, \<open>ide.c\<close>), swapping
  out (\<open>swap.c\<close>) and the allocation of pages that swaps out when memory is exhausted
  (\<open>pmm.c\<close>).
\<close>

subsection \<open>The swap manager interface and its instances\<close>

record swap_manager =
  sw_name :: string
  sw_init :: "vm \<Rightarrow> int \<times> vm"
  sw_init_mm :: "nat \<Rightarrow> vm \<Rightarrow> int \<times> vm"
  sw_tick_event :: "nat \<Rightarrow> vm \<Rightarrow> int \<times> vm"
  sw_map_swappable :: "nat \<Rightarrow> 64 word \<Rightarrow> nat \<Rightarrow> bool \<Rightarrow> vm \<Rightarrow> (int \<times> vm) res"
  sw_set_unswappable :: "nat \<Rightarrow> 64 word \<Rightarrow> vm \<Rightarrow> int \<times> vm"
  sw_swap_out_victim :: "nat \<Rightarrow> bool \<Rightarrow> vm \<Rightarrow> (int \<times> nat option \<times> vm) res"

definition upd_pra :: "(nat option links \<Rightarrow> nat option links) \<Rightarrow> vm \<Rightarrow> vm" where
  "upd_pra f s = s\<lparr>pra_links := f (pra_links s)\<rparr>"

definition fifo_init_mm :: "nat \<Rightarrow> vm \<Rightarrow> int \<times> vm" where
  "fifo_init_mm m s = (0, on_mm m (sm_priv_update (\<lambda>_. Some None)) (upd_pra (list_init None) s))"

definition fifo_map_swappable :: "nat \<Rightarrow> 64 word \<Rightarrow> nat \<Rightarrow> bool \<Rightarrow> vm \<Rightarrow> (int \<times> vm) res" where
  "fifo_map_swappable m addr page swap_in s =
     (case sm_priv (mms s m) of
        None \<Rightarrow> Inl Assert_Failed
      | Some head \<Rightarrow> Inr (0, upd_pra (list_add head (Some page)) s))"

text \<open>An entry other than the head is converted to its page; only the head has none.\<close>

definition fifo_swap_out_victim :: "nat \<Rightarrow> bool \<Rightarrow> vm \<Rightarrow> (int \<times> nat option \<times> vm) res" where
  "fifo_swap_out_victim m in_tick s =
     (case sm_priv (mms s m) of
        None \<Rightarrow> Inl Assert_Failed
      | Some head \<Rightarrow>
          kassert (\<not> in_tick)
            (let ent = list_prev (pra_links s) head in
             if ent \<noteq> head
             then (case ent of None \<Rightarrow> Inl Bad_Access | Some p \<Rightarrow> Inr (0, Some p, upd_pra (list_del ent) s))
             else Inr (0, None, s)))"

definition clock_init_mm :: "nat \<Rightarrow> vm \<Rightarrow> int \<times> vm" where
  "clock_init_mm m s =
     (0, on_mm m (sm_priv_update (\<lambda>_. Some None)) ((upd_pra (list_init None) s)\<lparr>curr_ptr := None\<rparr>))"

definition set_visited :: "nat \<Rightarrow> 64 word \<Rightarrow> vm \<Rightarrow> vm" where
  "set_visited p b s = s\<lparr>visited := (visited s)(p := b)\<rparr>"

definition clock_map_swappable :: "nat \<Rightarrow> 64 word \<Rightarrow> nat \<Rightarrow> bool \<Rightarrow> vm \<Rightarrow> (int \<times> vm) res" where
  "clock_map_swappable m addr page swap_in s =
     Inr (0, set_visited page 1 (upd_pra (list_add_before None (Some page)) s))"

text \<open>
  The loop of \<open>_clock_swap_out_victim\<close>. With an empty list the hand stays on the head, which
  is then taken for the entry of a page. The fuel bounds the number of entries passed.
\<close>

definition hand_next :: "vm \<Rightarrow> nat option \<Rightarrow> nat option" where
  "hand_next s c =
     (let n = list_next (pra_links s) c in if n = None then list_next (pra_links s) n else n)"

fun clock_scan :: "nat \<Rightarrow> vm \<Rightarrow> (nat \<times> vm) res" where
  "clock_scan 0 s = Inl Out_Of_Fuel"
| "clock_scan (Suc fuel) s =
     (let c = hand_next s (curr_ptr s); s1 = s\<lparr>curr_ptr := c\<rparr> in
      case c of
        None \<Rightarrow> Inl Bad_Access
      | Some p \<Rightarrow>
          if visited s1 p = 0 then Inr (p, upd_pra (list_del c) s1)
          else clock_scan fuel (set_visited p 0 s1))"

definition clock_swap_out_victim :: "nat \<Rightarrow> bool \<Rightarrow> vm \<Rightarrow> (int \<times> nat option \<times> vm) res" where
  "clock_swap_out_victim m in_tick s =
     kassert (sm_priv (mms s m) \<noteq> None)
       (kassert (\<not> in_tick)
          (kbind (clock_scan (2 * npages (phys s) + 2) s) (\<lambda>(p, s1). Inr (0, Some p, s1))))"

definition swap_manager_fifo :: swap_manager where
  "swap_manager_fifo =
     \<lparr>sw_name = ''fifo swap manager'', sw_init = Pair 0, sw_init_mm = fifo_init_mm, sw_tick_event = (\<lambda>m. Pair 0),
      sw_map_swappable = fifo_map_swappable, sw_set_unswappable = (\<lambda>m a. Pair 0),
      sw_swap_out_victim = fifo_swap_out_victim\<rparr>"

definition swap_manager_clock :: swap_manager where
  "swap_manager_clock =
     \<lparr>sw_name = ''clock swap manager'', sw_init = Pair 0, sw_init_mm = clock_init_mm, sw_tick_event = (\<lambda>m. Pair 0),
      sw_map_swappable = clock_map_swappable, sw_set_unswappable = (\<lambda>m a. Pair 0),
      sw_swap_out_victim = clock_swap_out_victim\<rparr>"

subsection \<open>The swap disk\<close>

definition SWAP_DEV_NO :: nat where "SWAP_DEV_NO = 1"
definition MAX_IDE :: nat where "MAX_IDE = 2"
definition MAX_DISK_NSECS :: nat where "MAX_DISK_NSECS = 56"

text \<open>\<open>SECTSIZE\<close> (512 bytes) in words of 64 bits, and \<open>PAGE_NSECT\<close>.\<close>

definition SECT_WORDS :: nat where "SECT_WORDS = 512 div 8"
definition PAGE_NSECT :: nat where "PAGE_NSECT = 4096 div 512"

definition ide_device_valid :: "nat \<Rightarrow> bool" where "ide_device_valid ideno \<longleftrightarrow> ideno < MAX_IDE"
definition ide_device_size :: "nat \<Rightarrow> nat" where "ide_device_size ideno = MAX_DISK_NSECS"

text \<open>The copies between the array \<open>ide\<close> and a page; both stay inside the array or are faults.\<close>

definition ide_read_secs :: "nat \<Rightarrow> 32 word \<Rightarrow> nat \<Rightarrow> nat \<Rightarrow> vm \<Rightarrow> (int \<times> vm) res" where
  "ide_read_secs ideno secno dst nsecs s =
     (let iobase = unat secno * SECT_WORDS; n = nsecs * SECT_WORDS in
      if iobase + n > MAX_DISK_NSECS * SECT_WORDS then Inl Bad_Access
      else Inr (0, s\<lparr>mem := (mem s)(dst := \<lambda>k. if k < n then ide s (iobase + k) else mem s dst k)\<rparr>))"

definition ide_write_secs :: "nat \<Rightarrow> 32 word \<Rightarrow> nat \<Rightarrow> nat \<Rightarrow> vm \<Rightarrow> (int \<times> vm) res" where
  "ide_write_secs ideno secno src nsecs s =
     (let iobase = unat secno * SECT_WORDS; n = nsecs * SECT_WORDS in
      if iobase + n > MAX_DISK_NSECS * SECT_WORDS then Inl Bad_Access
      else Inr (0, s\<lparr>ide := \<lambda>k. if iobase \<le> k \<and> k < iobase + n then mem s src (k - iobase) else ide s k\<rparr>))"

definition swap_offset :: "64 word \<Rightarrow> vm \<Rightarrow> 64 word res" where
  "swap_offset ent s =
     (let off = drop_bit 8 ent in if 0 < off \<and> off < max_swap_offset s then Inr off else Inl Panicked)"

definition swapfs_init :: "vm \<Rightarrow> vm res" where
  "swapfs_init s =
     (if \<not> ide_device_valid SWAP_DEV_NO then Inl Panicked
      else Inr (s\<lparr>max_swap_offset := of_nat (ide_device_size SWAP_DEV_NO div PAGE_NSECT)\<rparr>))"

definition swapfs_read :: "64 word \<Rightarrow> nat \<Rightarrow> vm \<Rightarrow> (int \<times> vm) res" where
  "swapfs_read ent page s =
     kbind (swap_offset ent s) (\<lambda>off. ide_read_secs SWAP_DEV_NO (ucast (off * of_nat PAGE_NSECT)) page PAGE_NSECT s)"

definition swapfs_write :: "64 word \<Rightarrow> nat \<Rightarrow> vm \<Rightarrow> (int \<times> vm) res" where
  "swapfs_write ent page s =
     kbind (swap_offset ent s) (\<lambda>off. ide_write_secs SWAP_DEV_NO (ucast (off * of_nat PAGE_NSECT)) page PAGE_NSECT s)"

definition MAX_SWAP_OFFSET_LIMIT :: "64 word" where "MAX_SWAP_OFFSET_LIMIT = 2 ^ 24"

text \<open>\<open>swap_init\<close> without the self test; the kernel passes \<open>swap_manager_clock\<close>.\<close>

definition swap_init :: "swap_manager \<Rightarrow> vm \<Rightarrow> (int \<times> vm) res" where
  "swap_init sm s =
     kbind (swapfs_init s) (\<lambda>s1.
       if \<not> (7 \<le> max_swap_offset s1 \<and> max_swap_offset s1 < MAX_SWAP_OFFSET_LIMIT) then Inl Panicked
       else case sw_init sm s1 of (r, s2) \<Rightarrow> Inr (r, if r = 0 then s2\<lparr>swap_init_ok := True\<rparr> else s2))"

subsection \<open>Swapping out and allocating\<close>

definition free_pages :: "free_area pmm_manager \<Rightarrow> nat \<Rightarrow> 64 word \<Rightarrow> vm \<Rightarrow> vm res" where
  "free_pages mgr base n s = kbind (pm_free_pages mgr base n (phys s)) (\<lambda>ph. Inr (s\<lparr>phys := ph\<rparr>))"

text \<open>The swap entry of a virtual address, whose page number is the place on the disk.\<close>

definition swap_entry :: "64 word \<Rightarrow> 64 word" where
  "swap_entry v = push_bit 8 (v div PGSIZE + 1)"

text \<open>The loop of \<open>swap_out\<close>, \<open>n\<close> rounds from the count \<open>i\<close> on.\<close>

fun swap_out_loop :: "swap_manager \<Rightarrow> free_area pmm_manager \<Rightarrow> nat \<Rightarrow> nat \<Rightarrow> nat \<Rightarrow> bool \<Rightarrow> vm \<Rightarrow> (nat \<times> vm) res" where
  "swap_out_loop sm mgr m i 0 in_tick s = Inr (i, s)"
| "swap_out_loop sm mgr m i (Suc n) in_tick s =
     kbind (sw_swap_out_victim sm m in_tick s) (\<lambda>(r, page, s1).
       if r \<noteq> 0 then Inr (i, s1)
       else case page of
         None \<Rightarrow> Inl Bad_Access
       | Some p \<Rightarrow>
           let v = pra_vaddr s1 p in
           kbind (with_pgdir m s1 (\<lambda>g. get_pte (\<lambda>s. Inr (None, s)) g v False s1)) (\<lambda>(ptep, s2).
             case ptep of
               None \<Rightarrow> Inl Bad_Access
             | Some a \<Rightarrow>
                 kassert (get_word a s2 AND PTE_V \<noteq> 0)
                   (kbind (swapfs_write (swap_entry v) p s2) (\<lambda>(w, s3).
                      if w \<noteq> 0
                      then kbind (sw_map_swappable sm m v p False s3) (\<lambda>(_, s4).
                             swap_out_loop sm mgr m (i + 1) n in_tick s4)
                      else kbind (free_pages mgr p 1 (put_word a (swap_entry v) s3))
                             (swap_out_loop sm mgr m (i + 1) n in_tick)))))"

definition swap_out :: "swap_manager \<Rightarrow> free_area pmm_manager \<Rightarrow> nat \<Rightarrow> nat \<Rightarrow> bool \<Rightarrow> vm \<Rightarrow> (nat \<times> vm) res" where
  "swap_out sm mgr m n in_tick s = swap_out_loop sm mgr m 0 n in_tick s"

text \<open>The loop of \<open>alloc_pages\<close>; the fuel bounds the number of attempts.\<close>

fun alloc_pages :: "nat \<Rightarrow> swap_manager \<Rightarrow> free_area pmm_manager \<Rightarrow> 64 word \<Rightarrow> vm \<Rightarrow> (nat option \<times> vm) res" where
  "alloc_pages 0 sm mgr n s = Inl Out_Of_Fuel"
| "alloc_pages (Suc fuel) sm mgr n s =
     kbind (pm_alloc_pages mgr n (phys s)) (\<lambda>(page, ph).
       let s1 = s\<lparr>phys := ph\<rparr> in
       if page \<noteq> None \<or> n > 1 \<or> \<not> swap_init_ok s1 then Inr (page, s1)
       else case check_mm_struct s1 of
         None \<Rightarrow> Inl Bad_Access
       | Some m \<Rightarrow> kbind (swap_out sm mgr m (unat n) False s1) (\<lambda>(_, s2). alloc_pages fuel sm mgr n s2))"

definition nr_free_pages :: "free_area pmm_manager \<Rightarrow> vm \<Rightarrow> 64 word" where
  "nr_free_pages mgr s = pm_nr_free_pages mgr (phys s)"

end
