(* ===== verification/Vm_Map.thy ===== *)
theory Vm_Map
  imports Swap
begin

text \<open>
  Mapping pages in lab3 (\<open>kern/mm/pmm.c\<close>): \<open>get_page\<close>, \<open>page_insert\<close>, \<open>page_remove\<close>,
  \<open>pgdir_alloc_page\<close>, the mapping of segments at boot, and \<open>kmalloc\<close>, which gives whole pages.
  \<open>fuel\<close> bounds the attempts of \<open>alloc_pages\<close>.
\<close>

subsection \<open>Single pages\<close>

abbreviation alloc_page :: "nat \<Rightarrow> swap_manager \<Rightarrow> free_area pmm_manager \<Rightarrow> vm \<Rightarrow> (nat option \<times> vm) res" where
  "alloc_page fuel sm mgr \<equiv> alloc_pages fuel sm mgr 1"

abbreviation free_page :: "free_area pmm_manager \<Rightarrow> nat \<Rightarrow> vm \<Rightarrow> vm res" where
  "free_page mgr p \<equiv> free_pages mgr p 1"

text \<open>\<open>get_page\<close>, with what it stores through \<open>ptep_store\<close>.\<close>

definition get_page :: "nat \<Rightarrow> 64 word \<Rightarrow> vm \<Rightarrow> (nat option \<times> (nat \<times> nat) option) res" where
  "get_page g la s =
     kbind (get_pte (\<lambda>s. Inr (None, s)) g la False s) (\<lambda>(ptep, s1).
       case ptep of
         Some a \<Rightarrow> if get_word a s1 AND PTE_V \<noteq> 0
                  then kbind (pte2page (get_word a s1) s1) (\<lambda>p. Inr (Some p, ptep)) else Inr (None, ptep)
       | None \<Rightarrow> Inr (None, ptep))"

definition page_remove_pte :: "free_area pmm_manager \<Rightarrow> 64 word \<Rightarrow> nat \<times> nat \<Rightarrow> vm \<Rightarrow> vm res" where
  "page_remove_pte mgr la a s =
     (if get_word a s AND PTE_V \<noteq> 0
      then kbind (pte2page (get_word a s) s) (\<lambda>p.
             let s1 = page_ref_dec p s in
             kbind (if page_ref p s1 = 0 then free_page mgr p s1 else Inr s1) (\<lambda>s2. Inr (put_word a 0 s2)))
      else Inr s)"

definition page_remove :: "free_area pmm_manager \<Rightarrow> nat \<Rightarrow> 64 word \<Rightarrow> vm \<Rightarrow> vm res" where
  "page_remove mgr g la s =
     kbind (get_pte (\<lambda>s. Inr (None, s)) g la False s) (\<lambda>(ptep, s1).
       case ptep of None \<Rightarrow> Inr s1 | Some a \<Rightarrow> page_remove_pte mgr la a s1)"

definition page_insert :: "nat \<Rightarrow> swap_manager \<Rightarrow> free_area pmm_manager \<Rightarrow> nat \<Rightarrow> nat \<Rightarrow> 64 word \<Rightarrow> 32 word \<Rightarrow> vm \<Rightarrow> (int \<times> vm) res" where
  "page_insert fuel sm mgr g page la perm s =
     kbind (get_pte (alloc_page fuel sm mgr) g la True s) (\<lambda>(ptep, s1).
       case ptep of
         None \<Rightarrow> Inr (- E_NO_MEM, s1)
       | Some a \<Rightarrow>
           let s2 = page_ref_inc page s1 in
           kbind (if get_word a s2 AND PTE_V \<noteq> 0
                  then kbind (pte2page (get_word a s2) s2) (\<lambda>p.
                         if p = page then Inr (page_ref_dec page s2) else page_remove_pte mgr la a s2)
                  else Inr s2) (\<lambda>s3.
             Inr (0, put_word a (pte_create (page2ppn page) (ucast PTE_V OR perm)) s3)))"

definition pgdir_alloc_page :: "nat \<Rightarrow> swap_manager \<Rightarrow> free_area pmm_manager \<Rightarrow> nat \<Rightarrow> 64 word \<Rightarrow> 32 word \<Rightarrow> vm \<Rightarrow> (nat option \<times> vm) res" where
  "pgdir_alloc_page fuel sm mgr g la perm s =
     kbind (alloc_page fuel sm mgr s) (\<lambda>(page, s1).
       case page of
         None \<Rightarrow> Inr (None, s1)
       | Some p \<Rightarrow>
           kbind (page_insert fuel sm mgr g p la perm s1) (\<lambda>(r, s2).
             if r \<noteq> 0 then kbind (free_page mgr p s2) (\<lambda>s3. Inr (None, s3))
             else if swap_init_ok s2
             then (case check_mm_struct s2 of
                     None \<Rightarrow> Inl Bad_Access
                   | Some m \<Rightarrow>
                       kbind (sw_map_swappable sm m la p False s2) (\<lambda>(_, s3).
                         let s4 = s3\<lparr>pra_vaddr := (pra_vaddr s3)(p := la)\<rparr> in
                         kassert (page_ref p s4 = 1) (Inr (Some p, s4))))
             else Inr (Some p, s2)))"

subsection \<open>Segments and kernel memory\<close>

text \<open>The loop of \<open>boot_map_segment\<close>, \<open>n\<close> pages.\<close>

fun map_pages :: "nat \<Rightarrow> swap_manager \<Rightarrow> free_area pmm_manager \<Rightarrow> nat \<Rightarrow> 64 word \<Rightarrow> nat \<Rightarrow> 64 word \<Rightarrow> 32 word \<Rightarrow> vm \<Rightarrow> vm res" where
  "map_pages fuel sm mgr g la 0 pa perm s = Inr s"
| "map_pages fuel sm mgr g la (Suc n) pa perm s =
     kbind (get_pte (alloc_page fuel sm mgr) g la True s) (\<lambda>(ptep, s1).
       case ptep of
         None \<Rightarrow> Inl Assert_Failed
       | Some a \<Rightarrow> map_pages fuel sm mgr g (la + PGSIZE) n (pa + PGSIZE) perm
                    (put_word a (pte_create (drop_bit 12 pa) (ucast PTE_V OR perm)) s1))"

definition PGOFF :: "64 word \<Rightarrow> 64 word" where "PGOFF la = la AND 0xFFF"

definition ROUNDUP :: "64 word \<Rightarrow> 64 word \<Rightarrow> 64 word" where
  "ROUNDUP a n = ROUNDDOWN (a + n - 1) n"

definition boot_map_segment :: "nat \<Rightarrow> swap_manager \<Rightarrow> free_area pmm_manager \<Rightarrow> nat \<Rightarrow> 64 word \<Rightarrow> 64 word \<Rightarrow> 64 word \<Rightarrow> 32 word \<Rightarrow> vm \<Rightarrow> vm res" where
  "boot_map_segment fuel sm mgr g la sz pa perm s =
     kassert (PGOFF la = PGOFF pa)
       (map_pages fuel sm mgr g (ROUNDDOWN la PGSIZE) (unat (ROUNDUP (sz + PGOFF la) PGSIZE div PGSIZE))
          (ROUNDDOWN pa PGSIZE) perm s)"

definition boot_alloc_page :: "nat \<Rightarrow> swap_manager \<Rightarrow> free_area pmm_manager \<Rightarrow> vm \<Rightarrow> (nat \<times> vm) res" where
  "boot_alloc_page fuel sm mgr s =
     kbind (alloc_page fuel sm mgr s) (\<lambda>(p, s1). case p of None \<Rightarrow> Inl Panicked | Some q \<Rightarrow> Inr (q, s1))"

text \<open>
  \<open>kmalloc\<close> and \<open>kfree\<close>: the address of the first page stands for the pointer. The limit
  \<open>1024 * 0124\<close> is written with an octal constant, 84.
\<close>

definition kmalloc_limit :: "64 word" where "kmalloc_limit = 1024 * 84"

definition size_pages :: "64 word \<Rightarrow> 64 word" where
  "size_pages n = (n + PGSIZE - 1) div PGSIZE"

definition kmalloc :: "nat \<Rightarrow> swap_manager \<Rightarrow> free_area pmm_manager \<Rightarrow> 64 word \<Rightarrow> vm \<Rightarrow> (nat \<times> vm) res" where
  "kmalloc fuel sm mgr n s =
     kassert (n > 0 \<and> n < kmalloc_limit)
       (kbind (alloc_pages fuel sm mgr (size_pages n) s) (\<lambda>(base, s1).
          case base of None \<Rightarrow> Inl Assert_Failed | Some p \<Rightarrow> Inr (p, s1)))"

definition kfree :: "free_area pmm_manager \<Rightarrow> nat \<Rightarrow> 64 word \<Rightarrow> vm \<Rightarrow> vm res" where
  "kfree mgr ptr n s =
     kassert (n > 0 \<and> n < kmalloc_limit) (free_pages mgr ptr (size_pages n) s)"

end
