(* ===== verification/Vma.thy ===== *)
theory Vma
  imports Vm_Map
begin

text \<open>
  The areas of virtual memory of lab3 (\<open>kern/mm/vmm.c\<close>): \<open>mm_struct\<close>, its sorted list of
  \<open>vma_struct\<close>, the search with the one-entry cache, and the insertion with its checks.
\<close>

subsection \<open>Areas\<close>

text \<open>\<open>sizeof(struct mm_struct)\<close> and \<open>sizeof(struct vma_struct)\<close>.\<close>

definition MM_SIZE :: "64 word" where "MM_SIZE = 48"
definition VMA_SIZE :: "64 word" where "VMA_SIZE = 48"

definition mm_create :: "nat \<Rightarrow> swap_manager \<Rightarrow> free_area pmm_manager \<Rightarrow> vm \<Rightarrow> (nat \<times> vm) res" where
  "mm_create fuel sm mgr s =
     kbind (kmalloc fuel sm mgr MM_SIZE s) (\<lambda>(m, s1).
       let s2 = on_mm m (\<lambda>r. r\<lparr>mmap_cache := None, pgdir := None, map_count := 0\<rparr>)
                  (s1\<lparr>vlinks := list_init (Inl m) (vlinks s1)\<rparr>)
       in Inr (m, if swap_init_ok s2 then snd (sw_init_mm sm m s2)
                  else on_mm m (sm_priv_update (\<lambda>_. None)) s2))"

definition vma_create :: "nat \<Rightarrow> swap_manager \<Rightarrow> free_area pmm_manager \<Rightarrow> 64 word \<Rightarrow> 64 word \<Rightarrow> 64 word \<Rightarrow> vm \<Rightarrow> (nat \<times> vm) res" where
  "vma_create fuel sm mgr st en fl s =
     kbind (kmalloc fuel sm mgr VMA_SIZE s) (\<lambda>(v, s1).
       Inr (v, on_vma v (\<lambda>r. r\<lparr>vm_start := st, vm_end := en, vm_flags := fl\<rparr>) s1))"

definition in_vma :: "vma_struct \<Rightarrow> 64 word \<Rightarrow> bool" where
  "in_vma v addr \<longleftrightarrow> vm_start v \<le> addr \<and> addr < vm_end v"

text \<open>The loop of \<open>find_vma\<close> over the list of \<open>m\<close>, from the entry behind \<open>le\<close>.\<close>

fun find_vma_loop :: "nat \<Rightarrow> nat \<Rightarrow> (nat + nat) \<Rightarrow> 64 word \<Rightarrow> vm \<Rightarrow> nat option res" where
  "find_vma_loop 0 m le addr s = Inl Out_Of_Fuel"
| "find_vma_loop (Suc fuel) m le addr s =
     (case list_next (vlinks s) le of
        Inl h \<Rightarrow> if h = m then Inr None else Inl Bad_Access
      | Inr v \<Rightarrow> if in_vma (vmas s v) addr then Inr (Some v) else find_vma_loop fuel m (Inr v) addr s)"

definition find_vma :: "nat \<Rightarrow> nat option \<Rightarrow> 64 word \<Rightarrow> vm \<Rightarrow> (nat option \<times> vm) res" where
  "find_vma fuel mm addr s =
     (case mm of
        None \<Rightarrow> Inr (None, s)
      | Some m \<Rightarrow>
          kbind (case mmap_cache (mms s m) of
                   Some v \<Rightarrow> if in_vma (vmas s v) addr then Inr (Some v) else find_vma_loop fuel m (Inl m) addr s
                 | None \<Rightarrow> find_vma_loop fuel m (Inl m) addr s)
            (\<lambda>vma. Inr (vma, case vma of None \<Rightarrow> s | Some v \<Rightarrow> on_mm m (mmap_cache_update (\<lambda>_. Some v)) s)))"

definition check_vma_overlap :: "vma_struct \<Rightarrow> vma_struct \<Rightarrow> bool" where
  "check_vma_overlap prv nxt \<longleftrightarrow>
     vm_start prv < vm_end prv \<and> vm_end prv \<le> vm_start nxt \<and> vm_start nxt < vm_end nxt"

text \<open>The loop of \<open>insert_vma_struct\<close>: the entry behind which the area belongs.\<close>

fun insert_pos :: "nat \<Rightarrow> nat \<Rightarrow> (nat + nat) \<Rightarrow> 64 word \<Rightarrow> vm \<Rightarrow> (nat + nat) res" where
  "insert_pos 0 m le st s = Inl Out_Of_Fuel"
| "insert_pos (Suc fuel) m le st s =
     (case list_next (vlinks s) le of
        Inl h \<Rightarrow> if h = m then Inr le else Inl Bad_Access
      | Inr v \<Rightarrow> if vm_start (vmas s v) > st then Inr le else insert_pos fuel m (Inr v) st s)"

definition insert_vma_struct :: "nat \<Rightarrow> nat \<Rightarrow> nat \<Rightarrow> vm \<Rightarrow> vm res" where
  "insert_vma_struct fuel m v s =
     kassert (vm_start (vmas s v) < vm_end (vmas s v))
       (kbind (insert_pos fuel m (Inl m) (vm_start (vmas s v)) s) (\<lambda>le_prev.
          kassert (case le_prev of Inr u \<Rightarrow> check_vma_overlap (vmas s u) (vmas s v) | Inl _ \<Rightarrow> True)
            (kassert (case list_next (vlinks s) le_prev of
                        Inr w \<Rightarrow> check_vma_overlap (vmas s v) (vmas s w) | Inl _ \<Rightarrow> True)
               (let s1 = on_vma v (vm_mm_update (\<lambda>_. m)) s;
                    s2 = s1\<lparr>vlinks := list_add_after le_prev (Inr v) (vlinks s1)\<rparr>
                in Inr (on_mm m (map_count_update (\<lambda>n. n + 1)) s2)))))"

text \<open>The loop of \<open>mm_destroy\<close>, which frees the first area until the list is empty.\<close>

fun destroy_vmas :: "nat \<Rightarrow> free_area pmm_manager \<Rightarrow> nat \<Rightarrow> vm \<Rightarrow> vm res" where
  "destroy_vmas 0 mgr m s = Inl Out_Of_Fuel"
| "destroy_vmas (Suc fuel) mgr m s =
     (case list_next (vlinks s) (Inl m) of
        Inl h \<Rightarrow> if h = m then Inr s else Inl Bad_Access
      | Inr v \<Rightarrow> kbind (kfree mgr v VMA_SIZE (s\<lparr>vlinks := list_del (Inr v) (vlinks s)\<rparr>)) (destroy_vmas fuel mgr m))"

definition mm_destroy :: "nat \<Rightarrow> free_area pmm_manager \<Rightarrow> nat \<Rightarrow> vm \<Rightarrow> vm res" where
  "mm_destroy fuel mgr m s = kbind (destroy_vmas fuel mgr m s) (kfree mgr m MM_SIZE)"

subsection \<open>Page faults\<close>

text \<open>\<open>swap_in\<close> of \<open>swap.c\<close>; a read never fails, so its \<open>assert\<close> is not reached.\<close>

definition swap_in :: "nat \<Rightarrow> swap_manager \<Rightarrow> free_area pmm_manager \<Rightarrow> nat \<Rightarrow> 64 word \<Rightarrow> vm \<Rightarrow> (nat \<times> vm) res" where
  "swap_in fuel sm mgr m addr s =
     kbind (alloc_page fuel sm mgr s) (\<lambda>(res, s1).
       case res of
         None \<Rightarrow> Inl Assert_Failed
       | Some p \<Rightarrow>
           kbind (with_pgdir m s1 (\<lambda>g. get_pte (\<lambda>s. Inr (None, s)) g addr False s1)) (\<lambda>(ptep, s2).
             case ptep of
               None \<Rightarrow> Inl Bad_Access
             | Some a \<Rightarrow> kbind (swapfs_read (get_word a s2) p s2) (\<lambda>(r, s3). Inr (p, s3))))"

text \<open>
  \<open>do_pgfault\<close>: the result of \<open>get_pte\<close> is used without a test for \<open>NULL\<close>, and any entry
  other than 0 is taken for a swap entry.
\<close>

definition do_pgfault :: "nat \<Rightarrow> swap_manager \<Rightarrow> free_area pmm_manager \<Rightarrow> nat option \<Rightarrow> 64 word \<Rightarrow> vm \<Rightarrow> (int \<times> vm) res" where
  "do_pgfault fuel sm mgr mm addr s =
     kbind (find_vma fuel mm addr s) (\<lambda>(vma, s0).
       let s1 = s0\<lparr>pgfault_num := pgfault_num s0 + 1\<rparr> in
       case (mm, vma) of
         (Some m, Some v) \<Rightarrow>
           if vm_start (vmas s1 v) > addr then Inr (- E_INVAL, s1)
           else
             let perm = (if vm_flags (vmas s1 v) AND VM_WRITE \<noteq> 0
                         then ucast PTE_U OR (ucast PTE_R OR ucast PTE_W) else ucast PTE_U);
                 la = ROUNDDOWN addr PGSIZE
             in kbind (with_pgdir m s1 (\<lambda>g. get_pte (alloc_page fuel sm mgr) g la True s1)) (\<lambda>(ptep, s2).
                  case ptep of
                    None \<Rightarrow> Inl Bad_Access
                  | Some a \<Rightarrow>
                      if get_word a s2 = 0
                      then kbind (with_pgdir m s2 (\<lambda>g. pgdir_alloc_page fuel sm mgr g la perm s2)) (\<lambda>(page, s3).
                             case page of None \<Rightarrow> Inr (- E_NO_MEM, s3) | Some _ \<Rightarrow> Inr (0, s3))
                      else if swap_init_ok s2
                      then kbind (swap_in fuel sm mgr m la s2) (\<lambda>(p, s3).
                             kbind (with_pgdir m s3 (\<lambda>g. page_insert fuel sm mgr g p la perm s3)) (\<lambda>(_, s4).
                               kbind (sw_map_swappable sm m la p True s4) (\<lambda>(_, s5).
                                 Inr (0, s5\<lparr>pra_vaddr := (pra_vaddr s5)(p := la)\<rparr>))))
                      else Inr (- E_NO_MEM, s2))
       | _ \<Rightarrow> Inr (- E_INVAL, s1))"

subsection \<open>The list of areas\<close>

text \<open>The areas in the list: nonempty, in order, disjoint; the cache is empty or one of them.\<close>

definition apart :: "vm \<Rightarrow> nat \<Rightarrow> nat \<Rightarrow> bool" where
  "apart s u w \<longleftrightarrow> vm_end (vmas s u) \<le> vm_start (vmas s w)"

definition mm_ok :: "vm \<Rightarrow> nat \<Rightarrow> nat list \<Rightarrow> bool" where
  "mm_ok s m vs \<longleftrightarrow> ring (vlinks s) (Inl m) (map Inr vs) \<and> sorted_wrt (apart s) vs \<and>
     (\<forall>v\<in>set vs. vm_start (vmas s v) < vm_end (vmas s v)) \<and> map_count (mms s m) = int (length vs) \<and>
     (\<forall>c. mmap_cache (mms s m) = Some c \<longrightarrow> c \<in> set vs)"

lemma mm_okD:
  assumes "mm_ok s m vs"
  shows "ring (vlinks s) (Inl m) (map Inr vs)" "sorted_wrt (apart s) vs"
    "\<And>v. v \<in> set vs \<Longrightarrow> vm_start (vmas s v) < vm_end (vmas s v)" "map_count (mms s m) = int (length vs)"
    "\<And>c. mmap_cache (mms s m) = Some c \<Longrightarrow> c \<in> set vs" "distinct vs"
  using assms by (auto simp: mm_ok_def ring_def distinct_map)

lemma apart_on_mm [simp]: "apart (on_mm m f s) = apart s"
  by (simp add: fun_eq_iff apart_def on_mm_def)

lemma vlist_next: "ring (vlinks s) (Inl m) (map Inr (xs @ ys)) \<Longrightarrow>
  list_next (vlinks s) (last (Inl m # map Inr xs)) = hd (map Inr ys @ [Inl m])"
  using ring_next_at [of "vlinks s" "Inl m" "map Inr xs" "map Inr ys"] by (simp add: list_next_def)

lemma find_vma_loop_ok:
  "ring (vlinks s) (Inl m) (map Inr (xs @ ys)) \<Longrightarrow> length ys < fuel \<Longrightarrow>
   find_vma_loop fuel m (last (Inl m # map Inr xs)) addr s = Inr (find (\<lambda>v. in_vma (vmas s v) addr) ys)"
proof (induction ys arbitrary: xs fuel)
  case Nil
  then show ?case using vlist_next [of s m xs "[]"] by (cases fuel) auto
next
  case (Cons v ys)
  then obtain f where f: "fuel = Suc f" by (cases fuel) auto
  have "find_vma_loop f m (last (Inl m # map Inr (xs @ [v]))) addr s = Inr (find (\<lambda>v. in_vma (vmas s v) addr) ys)"
    by (rule Cons.IH) (use Cons.prems f in auto)
  then show ?case using vlist_next [OF Cons.prems(1)] f by simp
qed

lemma apart_order:
  assumes "sorted_wrt (apart s) (xs @ v # ys)" "w \<in> set xs" "z \<in> set ys"
  shows "apart s w v" "apart s v z" "apart s w z"
  using assms by (auto simp: sorted_wrt_append)

text \<open>At most one area of the list contains an address.\<close>

lemma in_vma_unique:
  assumes ok: "mm_ok s m vs" and a: "u \<in> set vs" "w \<in> set vs" "in_vma (vmas s u) addr" "in_vma (vmas s w) addr"
  shows "u = w"
proof -
  note D = mm_okD [OF ok]
  have less: "\<not> apart s x y" if "in_vma (vmas s x) addr" "in_vma (vmas s y) addr" for x y
    using that by (auto simp: in_vma_def apart_def)
  obtain i j where i: "i < length vs" "vs ! i = u" and j: "j < length vs" "vs ! j = w"
    using a(1,2) unfolding in_set_conv_nth by blast
  have "\<not> i < j" using sorted_wrt_nth_less [OF D(2), of i j] i j less [OF a(3,4)] by auto
  moreover have "\<not> j < i" using sorted_wrt_nth_less [OF D(2), of j i] i j less [OF a(4,3)] by auto
  ultimately have "i = j" by simp
  then show ?thesis using i j by simp
qed

lemma find_unique: "P x \<Longrightarrow> x \<in> set xs \<Longrightarrow> (\<And>y. y \<in> set xs \<Longrightarrow> P y \<Longrightarrow> y = x) \<Longrightarrow> find P xs = Some x"
proof (induction xs)
  case (Cons a xs)
  show ?case
  proof (cases "P a")
    case True
    then show ?thesis using Cons.prems(3) [of a] by simp
  next
    case False
    then have "x \<in> set xs" using Cons.prems(1,2) by auto
    then have "find P xs = Some x" using Cons.IH [OF Cons.prems(1)] Cons.prems(3) by simp
    then show ?thesis using False by simp
  qed
qed simp

lemma find_member: "find P xs = Some x \<Longrightarrow> x \<in> set xs \<and> P x"
  by (induction xs) (auto split: if_splits)

text \<open>The state after a lookup with the result \<open>r\<close>.\<close>

definition found :: "nat \<Rightarrow> nat option \<Rightarrow> vm \<Rightarrow> vm" where
  "found m r s = (case r of None \<Rightarrow> s | Some v \<Rightarrow> on_mm m (mmap_cache_update (\<lambda>_. Some v)) s)"

lemma found_simps [simp]:
  "vmas (found m r s) = vmas s" "phys (found m r s) = phys s" "mem (found m r s) = mem s" "swap_init_ok (found m r s) = swap_init_ok s"
  "pgdir (mms (found m r s) m') = pgdir (mms s m')" "pgfault_num (found m r s) = pgfault_num s"
  "r \<noteq> None \<Longrightarrow> mmap_cache (mms (found m r s) m) = r"
  by (auto simp: found_def on_mm_def split: option.split)

lemma find_vma_ok:
  assumes ok: "mm_ok s m vs" and fuel: "length vs < fuel"
  shows "find_vma fuel (Some m) addr s =
      Inr (find (\<lambda>v. in_vma (vmas s v) addr) vs, found m (find (\<lambda>v. in_vma (vmas s v) addr) vs) s)"
    "mm_ok (found m (find (\<lambda>v. in_vma (vmas s v) addr) vs) s) m vs"
proof -
  note D = mm_okD [OF ok]
  let ?P = "\<lambda>v. in_vma (vmas s v) addr"
  have walk: "find_vma_loop fuel m (Inl m) addr s = Inr (find ?P vs)"
    using find_vma_loop_ok [of s m "[]" vs fuel addr] D(1) fuel by simp
  have hit: "find ?P vs = Some c" if "mmap_cache (mms s m) = Some c" "?P c" for c
    by (rule find_unique [where P = ?P, OF that(2) D(5) [OF that(1)]]) (rule in_vma_unique [OF ok _ D(5) [OF that(1)] _ that(2)])
  show "find_vma fuel (Some m) addr s = Inr (find ?P vs, found m (find ?P vs) s)"
    using walk hit by (auto simp: find_vma_def found_def split: option.split)
  show "mm_ok (found m (find ?P vs) s) m vs"
  proof (cases "find ?P vs")
    case None
    then show ?thesis using ok by (simp add: found_def)
  next
    case (Some v)
    have "mm_ok (on_mm m (mmap_cache_update (\<lambda>_. Some v)) s) m vs"
      using ok find_member [OF Some] unfolding mm_ok_def apart_on_mm by (simp add: on_mm_def)
    then show ?thesis using Some by (simp add: found_def)
  qed
qed

lemma find_area:
  assumes "mm_ok s m vs"
  shows "find (\<lambda>v. in_vma (vmas s v) addr) vs = Some v \<longleftrightarrow> v \<in> set vs \<and> in_vma (vmas s v) addr"
  using find_member [of "\<lambda>v. in_vma (vmas s v) addr" vs v] in_vma_unique [OF assms, of _ v addr]
    find_unique [of "\<lambda>v. in_vma (vmas s v) addr" v vs] by blast

lemma insert_pos_ok:
  "ring (vlinks s) (Inl m) (map Inr (xs @ ys)) \<Longrightarrow> length ys < fuel \<Longrightarrow>
   insert_pos fuel m (last (Inl m # map Inr xs)) st s =
     Inr (last (Inl m # map Inr (xs @ takeWhile (\<lambda>v. vm_start (vmas s v) \<le> st) ys)))"
proof (induction ys arbitrary: xs fuel)
  case Nil
  then show ?case using vlist_next [of s m xs "[]"] by (cases fuel) auto
next
  case (Cons v ys)
  then obtain f where f: "fuel = Suc f" by (cases fuel) auto
  have nx: "list_next (vlinks s) (last (Inl m # map Inr xs)) = Inr v" using vlist_next [OF Cons.prems(1)] by simp
  show ?case
  proof (cases "vm_start (vmas s v) \<le> st")
    case True
    have "insert_pos f m (last (Inl m # map Inr (xs @ [v]))) st s =
        Inr (last (Inl m # map Inr ((xs @ [v]) @ takeWhile (\<lambda>v. vm_start (vmas s v) \<le> st) ys)))"
      by (rule Cons.IH) (use Cons.prems f in auto)
    moreover have "\<not> st < vm_start (vmas s v)" using True by simp
    ultimately show ?thesis using nx f True by simp
  next
    case False
    then have "st < vm_start (vmas s v)" by simp
    then show ?thesis using nx f False by simp
  qed
qed

text \<open>An area fits when it overlaps no area of the list; the code looks at the neighbours only.\<close>

definition fits :: "vm \<Rightarrow> nat \<Rightarrow> nat list \<Rightarrow> bool" where
  "fits s v vs \<longleftrightarrow> vm_start (vmas s v) < vm_end (vmas s v) \<and> (\<forall>w\<in>set vs. apart s w v \<or> apart s v w)"

definition insert_at :: "vm \<Rightarrow> nat \<Rightarrow> nat list \<Rightarrow> nat list" where
  "insert_at s v vs =
     takeWhile (\<lambda>w. vm_start (vmas s w) \<le> vm_start (vmas s v)) vs @ v #
     dropWhile (\<lambda>w. vm_start (vmas s w) \<le> vm_start (vmas s v)) vs"

lemma neighbours_fit:
  assumes ok: "mm_ok s m (us @ ws)" and v: "vm_start (vmas s v) < vm_end (vmas s v)"
    and u: "\<forall>u\<in>set us. vm_start (vmas s u) \<le> vm_start (vmas s v)"
    and w: "\<And>x xs. ws = x # xs \<Longrightarrow> vm_start (vmas s v) < vm_start (vmas s x)"
  shows "fits s v (us @ ws) \<longleftrightarrow> (us = [] \<or> apart s (last us) v) \<and> (ws = [] \<or> apart s v (hd ws))"
    and "fits s v (us @ ws) \<Longrightarrow> (\<forall>u\<in>set us. apart s u v) \<and> (\<forall>w\<in>set ws. apart s v w)"
proof -
  note D = mm_okD [OF ok]
  have pos: "vm_start (vmas s x) < vm_end (vmas s x)" if "x \<in> set us \<union> set ws" for x using D(3) that by simp
  have U: "apart s x v" if "us \<noteq> []" "apart s (last us) v" "x \<in> set us" for x
  proof (cases us rule: rev_cases)
    case (snoc ys y)
    show ?thesis
    proof (cases "x = y")
      case False
      then have "apart s x y" using that(3) snoc D(2) by (auto simp: sorted_wrt_append)
      then show ?thesis using that(2) pos [of y] snoc by (auto simp: apart_def)
    qed (use that snoc in simp)
  qed (use that in simp)
  have W: "apart s v x" if "ws \<noteq> []" "apart s v (hd ws)" "x \<in> set ws" for x
  proof (cases ws)
    case (Cons y ys)
    show ?thesis
    proof (cases "x = y")
      case False
      then have "apart s y x" using that(3) Cons D(2) by (auto simp: sorted_wrt_append)
      then show ?thesis using that(2) pos [of y] Cons by (auto simp: apart_def)
    qed (use that Cons in simp)
  qed (use that in simp)
  have nu: "\<not> apart s v x" if "x \<in> set us" for x using u v that by (force simp: apart_def)
  have nw: "\<not> apart s x v" if "x \<in> set ws" for x
  proof (cases ws)
    case (Cons y ys)
    have "vm_start (vmas s v) < vm_start (vmas s y)" using w Cons by blast
    then have "vm_start (vmas s v) < vm_start (vmas s x)"
      using that Cons D(2) pos [of y] by (auto simp: sorted_wrt_append apart_def)
    then show ?thesis using pos [of x] that by (auto simp: apart_def)
  qed (use that in simp)
  show "fits s v (us @ ws) \<longleftrightarrow> (us = [] \<or> apart s (last us) v) \<and> (ws = [] \<or> apart s v (hd ws))"
  proof
    assume "fits s v (us @ ws)"
    then show "(us = [] \<or> apart s (last us) v) \<and> (ws = [] \<or> apart s v (hd ws))"
      using nu [of "last us"] nw [of "hd ws"] by (cases us; cases ws) (auto simp: fits_def)
  next
    assume n: "(us = [] \<or> apart s (last us) v) \<and> (ws = [] \<or> apart s v (hd ws))"
    then have "apart s x v" if "x \<in> set us" for x using U [of x] that by force
    moreover have "apart s v x" if "x \<in> set ws" for x using W [of x] that n by force
    ultimately show "fits s v (us @ ws)" using v by (auto simp: fits_def)
  qed
  show "(\<forall>u\<in>set us. apart s u v) \<and> (\<forall>w\<in>set ws. apart s v w)" if "fits s v (us @ ws)"
    using that nu nw by (auto simp: fits_def)
qed

lemma insert_vma_ok:
  assumes ok: "mm_ok s m vs" and v: "v \<notin> set vs" and fuel: "length vs < fuel"
  shows "if fits s v vs
    then \<exists>s'. insert_vma_struct fuel m v s = Inr s' \<and> mm_ok s' m (insert_at s v vs) \<and>
      vmas s' = (vmas s)(v := (vmas s v)\<lparr>vm_mm := m\<rparr>) \<and> phys s' = phys s \<and> mem s' = mem s
    else insert_vma_struct fuel m v s = Inl Assert_Failed"
proof (cases "vm_start (vmas s v) < vm_end (vmas s v)")
  case False
  then show ?thesis by (simp add: fits_def insert_vma_struct_def)
next
  case st: True
  let ?Q = "\<lambda>w. vm_start (vmas s w) \<le> vm_start (vmas s v)"
  define us where "us = takeWhile ?Q vs"
  define ws where "ws = dropWhile ?Q vs"
  have vs: "vs = us @ ws" by (simp add: us_def ws_def)
  have U: "\<forall>u\<in>set us. ?Q u" using set_takeWhileD [of _ ?Q vs] by (auto simp: us_def)
  have W: "vm_start (vmas s v) < vm_start (vmas s x)" if "ws = x # xs" for x xs
  proof -
    have "\<not> ?Q x" using hd_dropWhile [of ?Q vs] that unfolding ws_def by (metis list.sel(1) list.distinct(1))
    then show ?thesis by simp
  qed
  have ok': "mm_ok s m (us @ ws)" using ok vs by simp
  note D = mm_okD [OF ok']
  have pos: "insert_pos fuel m (Inl m) (vm_start (vmas s v)) s = Inr (last (Inl m # map Inr us))"
    using insert_pos_ok [of s m "[]" vs fuel "vm_start (vmas s v)"] mm_okD(1) [OF ok] fuel by (simp add: us_def)
  have nx: "list_next (vlinks s) (last (Inl m # map Inr us)) = hd (map Inr ws @ [Inl m])"
    by (rule vlist_next [OF D(1)])
  have prv: "(case last (Inl m # map Inr us) of Inr u \<Rightarrow> check_vma_overlap (vmas s u) (vmas s v) | Inl _ \<Rightarrow> True) \<longleftrightarrow>
      us = [] \<or> apart s (last us) v"
    using st D(3) [of "last us"] by (cases us rule: rev_cases) (simp_all add: check_vma_overlap_def apart_def)
  have nxt: "(case hd (map Inr ws @ [Inl m]) of Inr w \<Rightarrow> check_vma_overlap (vmas s v) (vmas s w) | Inl _ \<Rightarrow> True) \<longleftrightarrow>
      ws = [] \<or> apart s v (hd ws)"
    using st D(3) [of "hd ws"] by (cases ws) (simp_all add: check_vma_overlap_def apart_def)
  note N = neighbours_fit [OF ok' st U W]
  have at: "insert_at s v vs = us @ v # ws" by (simp add: insert_at_def us_def ws_def)
  show ?thesis
  proof (cases "fits s v vs")
    case False
    then show ?thesis using pos nx prv nxt N(1) st vs by (auto simp: insert_vma_struct_def kassert_def)
  next
    case True
    define s' where "s' = on_mm m (map_count_update (\<lambda>n. n + 1))
      ((on_vma v (vm_mm_update (\<lambda>_. m)) s)\<lparr>vlinks := list_add_after (last (Inl m # map Inr us)) (Inr v) (vlinks s)\<rparr>)"
    have run: "insert_vma_struct fuel m v s = Inr s'"
      using pos nx prv nxt N(1) st True vs by (simp add: insert_vma_struct_def kassert_def s'_def on_vma_def Let_def)
    have f: "vmas s' = (vmas s)(v := (vmas s v)\<lparr>vm_mm := m\<rparr>)" "phys s' = phys s" "mem s' = mem s"
      "vlinks s' = list_add_after (last (Inl m # map Inr us)) (Inr v) (vlinks s)"
      "mms s' = (mms s)(m := map_count_update (\<lambda>n. n + 1) (mms s m))"
      by (simp_all add: s'_def on_mm_def on_vma_def)
    have bounds: "vm_start (vmas s' x) = vm_start (vmas s x)" "vm_end (vmas s' x) = vm_end (vmas s x)" for x by (simp_all add: f)
    have "ring (vlinks s') (Inl m) (map Inr us @ Inr v # map Inr ws)" unfolding f
      by (rule ring_add_after_at) (use D(1) v vs in auto)
    moreover have "sorted_wrt (apart s) (us @ v # ws)"
      using D(2) N(2) True vs by (auto simp: sorted_wrt_append)
    moreover have "apart s' = apart s" by (simp add: fun_eq_iff apart_def bounds)
    ultimately have "mm_ok s' m (us @ v # ws)"
      using D(3,4,5) st by (auto simp: mm_ok_def bounds f)
    then show ?thesis using True run f at by auto
  qed
qed

end
