(* ===== verification/Swap_Policy.thy ===== *)
theory Swap_Policy
  imports Swap
begin

text \<open>
  The contract of a swap manager as a locale, with first-in first-out and the clock as its
  interpretations, the order in which each chooses its victims, and the first fit allocator
  as the source of pages of a walk.
\<close>

subsection \<open>The first fit allocator as a source of pages\<close>

lemma free_inv_ref:
  "free_inv (upd_page p (ref_update f) a) = free_inv a" "free_set (upd_page p (ref_update f) a) = free_set a"
  "free_blocks (upd_page p (ref_update f) a) = free_blocks a"
proof -
  have pr: "property (pages (upd_page p (ref_update f) a) q) = property (pages a q)"
    "flags (pages (upd_page p (ref_update f) a) q) = flags (pages a q)" for q by simp_all
  show fb: "free_blocks (upd_page p (ref_update f) a) = free_blocks a"
    unfolding free_blocks_def pr by simp
  then show "free_set (upd_page p (ref_update f) a) = free_set a" by (simp add: free_set_def)
  show "free_inv (upd_page p (ref_update f) a) = free_inv a"
    unfolding free_inv_def fb free_rel_def block_ok_def pr by simp
qed

lemma run_pages_1: "run_pages (p, 1) = {p}"
  by (auto simp: run_pages_def)

definition no_swap :: "vm \<Rightarrow> bool" where
  "no_swap s \<longleftrightarrow> free_inv (phys s) \<and> \<not> swap_init_ok s"

interpretation ff_source: frame_source "alloc_pages (Suc fuel) sm default_pmm_manager 1" no_swap "\<lambda>s. free_set (phys s)"
  for fuel sm
proof unfold_locales
  fix s s' :: vm and p f m
  have step: "alloc_pages (Suc fuel) sm default_pmm_manager 1 s =
      kbind (pm_alloc_pages default_pmm_manager 1 (phys s)) (\<lambda>(page, ph). Inr (page, s\<lparr>phys := ph\<rparr>))" if "\<not> swap_init_ok s"
    using that by (cases "pm_alloc_pages default_pmm_manager 1 (phys s)") auto
  assume ok: "no_swap s"
  then have inv: "free_inv (phys s)" and sw: "\<not> swap_init_ok s" by (simp_all add: no_swap_def)
  then have rel: "free_rel (phys s) (free_blocks (phys s))" by (simp add: free_inv_def)
  have pos: "(0 :: 64 word) < 1" by simp
  show "\<exists>r s'. alloc_pages (Suc fuel) sm default_pmm_manager 1 s = Inr (r, s')"
    using ff.alloc_returns [OF inv pos] step [OF sw] by auto
  show "alloc_pages (Suc fuel) sm default_pmm_manager 1 s = Inr (None, s') \<Longrightarrow> s' = s"
    using step [OF sw] ff.alloc_none [OF inv pos] by (auto simp: kbind_eq_Inr_iff)
  show "npages (phys s) < 2 ^ 31" using rel by (simp add: free_rel_def)
  show "no_swap (on_page p (ref_update f) s) \<and> free_set (phys (on_page p (ref_update f) s)) = free_set (phys s)"
    using inv sw by (simp add: no_swap_def on_page_def free_inv_ref)
  show "p \<in> free_set (phys s) \<and> p < npages (phys s) \<and> no_swap s' \<and> free_set (phys s') = free_set (phys s) - {p} \<and>
      (\<exists>ph. s' = s\<lparr>phys := ph\<rparr> \<and> npages ph = npages (phys s) \<and> (\<forall>q. q \<notin> free_set (phys s) \<longrightarrow> pages ph q = pages (phys s) q))"
    if run: "alloc_pages (Suc fuel) sm default_pmm_manager 1 s = Inr (Some p, s')"
  proof -
    obtain ph where ph: "pm_alloc_pages default_pmm_manager 1 (phys s) = Inr (Some p, ph)" "s' = s\<lparr>phys := ph\<rparr>"
      using run step [OF sw] by (auto simp: kbind_eq_Inr_iff)
    have e: "free_inv ph" "npages ph = npages (phys s)" "p \<in> free_set (phys s)" "free_set ph = free_set (phys s) - {p}"
      using ff.alloc_some [OF inv pos ph(1)] by (auto simp: run_pages_1)
    have "\<forall>q. q \<notin> free_set (phys s) \<longrightarrow> pages ph q = pages (phys s) q"
      using default_alloc_effect [OF rel pos, of "Some p" ph] ph(1) by (simp add: default_pmm_manager_def free_set_def)
    moreover have "p < npages (phys s)" using free_set_room [OF inv] e(3) by auto
    ultimately show ?thesis using e ph(2) sw by (auto simp: no_swap_def)
  qed
next
  fix s m
  show "no_swap (s\<lparr>mem := m\<rparr>) = no_swap s" "free_set (phys (s\<lparr>mem := m\<rparr>)) = free_set (phys s)"
    by (simp_all add: no_swap_def)
qed

subsection \<open>The contract of a swap manager\<close>

text \<open>What a swap manager may change: its own lists and marks.\<close>

definition bookkeeping :: "vm \<Rightarrow> vm \<Rightarrow> bool" where
  "bookkeeping s s' \<longleftrightarrow> (\<exists>v l c. s' = s\<lparr>visited := v, pra_links := l, curr_ptr := c\<rparr>)"

locale swap_policy =
  fixes sm :: swap_manager and inv :: "nat \<Rightarrow> vm \<Rightarrow> bool" and pool :: "vm \<Rightarrow> nat set"
  assumes victim: "inv m s \<Longrightarrow> pool s \<noteq> {} \<Longrightarrow>
      \<exists>p s'. sw_swap_out_victim sm m False s = Inr (0, Some p, s') \<and> p \<in> pool s \<and> inv m s' \<and>
        pool s' = pool s - {p} \<and> bookkeeping s s'"
    and mapping: "inv m s \<Longrightarrow> p \<notin> pool s \<Longrightarrow> p < npages (phys s) \<Longrightarrow>
      \<exists>s'. sw_map_swappable sm m a p b s = Inr (0, s') \<and> inv m s' \<and> pool s' = insert p (pool s) \<and> bookkeeping s s'"
    and frame: "npages ph = npages (phys s) \<Longrightarrow> inv m (s\<lparr>phys := ph, mem := me, ide := d\<rparr>) = inv m s"
      "npages ph = npages (phys s) \<Longrightarrow> pool (s\<lparr>phys := ph, mem := me, ide := d\<rparr>) = pool s"

text \<open>The pages in the list of the manager, from the head on.\<close>

definition pra_pages :: "vm \<Rightarrow> nat list" where
  "pra_pages s = map the (walk (npages (phys s)) (pra_links s) None None)"

definition pra_ok :: "nat \<Rightarrow> vm \<Rightarrow> bool" where
  "pra_ok m s \<longleftrightarrow> sm_priv (mms s m) = Some None \<and> ring (pra_links s) None (map Some (pra_pages s)) \<and>
     (\<forall>p\<in>set (pra_pages s). p < npages (phys s))"

lemma pra_pagesI:
  assumes r: "ring l None (map Some ps)" and b: "\<forall>p\<in>set ps. p < npages (phys s)"
  shows "pra_pages (s\<lparr>pra_links := l\<rparr>) = ps"
proof -
  have d: "distinct ps" using ring_distinct [OF r] by (simp add: distinct_map)
  have "card (set ps) \<le> card {..<npages (phys s)}" by (rule card_mono) (use b in auto)
  then have "length ps \<le> npages (phys s)" using d by (simp add: distinct_card)
  then show ?thesis using walk_ring [OF r] by (simp add: pra_pages_def comp_def)
qed

lemma pra_okI:
  assumes "ring l None (map Some ps)" "\<forall>p\<in>set ps. p < npages (phys s)" "sm_priv (mms s m) = Some None"
  shows "pra_ok m (s\<lparr>pra_links := l\<rparr>)" "pra_pages (s\<lparr>pra_links := l\<rparr>) = ps"
  using pra_pagesI [OF assms(1,2)] assms by (simp_all add: pra_ok_def)

lemma pra_distinct: "pra_ok m s \<Longrightarrow> distinct (pra_pages s)"
  using ring_distinct [of "pra_links s" None "map Some (pra_pages s)"] by (simp add: pra_ok_def distinct_map)

lemma pra_cong:
  "pra_links s' = pra_links s \<Longrightarrow> npages (phys s') = npages (phys s) \<Longrightarrow> pra_pages s' = pra_pages s"
  "pra_links s' = pra_links s \<Longrightarrow> npages (phys s') = npages (phys s) \<Longrightarrow> mms s' = mms s \<Longrightarrow> pra_ok m s' = pra_ok m s"
  by (simp_all add: pra_ok_def pra_pages_def)

subsection \<open>First in, first out\<close>

lemma fifo_map_ok:
  assumes ok: "pra_ok m s" and p: "p \<notin> set (pra_pages s)" "p < npages (phys s)"
  shows "\<exists>l. fifo_map_swappable m a p b s = Inr (0, s\<lparr>pra_links := l\<rparr>) \<and> pra_ok m (s\<lparr>pra_links := l\<rparr>) \<and>
    pra_pages (s\<lparr>pra_links := l\<rparr>) = p # pra_pages s"
proof -
  let ?l = "list_add None (Some p) (pra_links s)"
  have "ring ?l None (Some p # map Some (pra_pages s))"
    unfolding list_add_def by (rule ring_add_after_head) (use ok p(1) in \<open>auto simp: pra_ok_def\<close>)
  then have "ring ?l None (map Some (p # pra_pages s))" by simp
  note I = pra_okI [OF this, of s m]
  have "\<forall>q\<in>set (p # pra_pages s). q < npages (phys s)" "sm_priv (mms s m) = Some None" using ok p(2) by (simp_all add: pra_ok_def)
  note I = I [OF this]
  show ?thesis using I ok by (intro exI [of _ ?l]) (simp add: fifo_map_swappable_def upd_pra_def pra_ok_def)
qed

lemma fifo_victim_ok:
  assumes ok: "pra_ok m s" and ne: "pra_pages s \<noteq> []"
  shows "\<exists>l. fifo_swap_out_victim m False s = Inr (0, Some (last (pra_pages s)), s\<lparr>pra_links := l\<rparr>) \<and>
    pra_ok m (s\<lparr>pra_links := l\<rparr>) \<and> pra_pages (s\<lparr>pra_links := l\<rparr>) = butlast (pra_pages s)"
proof -
  obtain qs q where qs: "pra_pages s = qs @ [q]" using ne by (cases "pra_pages s" rule: rev_cases) auto
  have r: "ring (pra_links s) None (map Some qs @ Some q # [])" using ok qs by (simp add: pra_ok_def)
  have prv: "list_prev (pra_links s) None = Some q" using ring_prev_head [OF r] by (simp add: list_prev_def)
  have "ring (list_del (Some q) (pra_links s)) None (map Some qs)" using ring_del [OF r] by simp
  note I = pra_okI [OF this, of s m]
  have "\<forall>x\<in>set qs. x < npages (phys s)" "sm_priv (mms s m) = Some None" using ok qs by (simp_all add: pra_ok_def)
  note I = I [OF this]
  show ?thesis using I ok qs prv
    by (intro exI [of _ "list_del (Some q) (pra_links s)"]) (simp add: fifo_swap_out_victim_def upd_pra_def pra_ok_def Let_def)
qed

interpretation fifo: swap_policy swap_manager_fifo pra_ok "\<lambda>s. set (pra_pages s)"
proof unfold_locales
  fix m p a b me d and s :: vm and ph :: free_area
  have book: "bookkeeping s (s\<lparr>pra_links := l\<rparr>)" for l
    by (auto simp: bookkeeping_def intro!: exI [of _ "visited s"] exI [of _ l] exI [of _ "curr_ptr s"])
  show "\<exists>p s'. sw_swap_out_victim swap_manager_fifo m False s = Inr (0, Some p, s') \<and> p \<in> set (pra_pages s) \<and>
      pra_ok m s' \<and> set (pra_pages s') = set (pra_pages s) - {p} \<and> bookkeeping s s'"
    if ok: "pra_ok m s" and ne: "set (pra_pages s) \<noteq> {}"
  proof -
    obtain qs q where qs: "pra_pages s = qs @ [q]" using ne by (cases "pra_pages s" rule: rev_cases) auto
    have "distinct (pra_pages s)" by (rule pra_distinct [OF ok])
    then have "set (butlast (pra_pages s)) = set (pra_pages s) - {last (pra_pages s)}" using qs by auto
    then show ?thesis using fifo_victim_ok [OF ok] ne book qs by (auto simp: swap_manager_fifo_def)
  qed
  show "\<exists>s'. sw_map_swappable swap_manager_fifo m a p b s = Inr (0, s') \<and> pra_ok m s' \<and>
      set (pra_pages s') = insert p (set (pra_pages s)) \<and> bookkeeping s s'"
    if "pra_ok m s" "p \<notin> set (pra_pages s)" "p < npages (phys s)"
    using fifo_map_ok [OF that, of a b] book by (auto simp: swap_manager_fifo_def)
  assume n: "npages ph = npages (phys s)"
  show "pra_ok m (s\<lparr>phys := ph, mem := me, ide := d\<rparr>) = pra_ok m s"
    "set (pra_pages (s\<lparr>phys := ph, mem := me, ide := d\<rparr>)) = set (pra_pages s)"
    using n by (simp_all add: pra_ok_def pra_pages_def)
qed

subsection \<open>The clock\<close>

text \<open>\<open>follows s c xs\<close>: from \<open>c\<close> on, the hand passes the pages \<open>xs\<close>.\<close>

fun follows :: "vm \<Rightarrow> nat option \<Rightarrow> nat list \<Rightarrow> bool" where
  "follows s c [] \<longleftrightarrow> True"
| "follows s c (x # xs) \<longleftrightarrow> hand_next s c = Some x \<and> follows s (Some x) xs"

lemma follows_append: "follows s c (xs @ ys) \<longleftrightarrow> follows s c xs \<and> follows s (if xs = [] then c else Some (last xs)) ys"
  by (induction xs arbitrary: c) auto

lemma follows_cong: "pra_links s' = pra_links s \<Longrightarrow> follows s' c xs = follows s c xs"
proof -
  assume "pra_links s' = pra_links s"
  then have "hand_next s' = hand_next s" by (auto simp: fun_eq_iff hand_next_def Let_def)
  then show ?thesis by (induction xs arbitrary: c) auto
qed

lemma hand_in_ring:
  assumes r: "ring (pra_links s) None (map Some (us @ x # vs))"
  shows "hand_next s (Some x) = Some (hd (vs @ us @ [x]))"
proof -
  have r': "ring (pra_links s) None (map Some us @ Some x # map Some vs)" using r by simp
  have "lnext (pra_links s) None = Some (hd (us @ [x]))"
    using ring_next_head [OF r'] by (cases us) auto
  then show ?thesis using ring_next [OF r'] by (cases vs) (simp_all add: hand_next_def list_next_def Let_def)
qed

lemma follows_segment:
  "ring (pra_links s) None (map Some (us @ xs @ vs)) \<Longrightarrow> xs = [] \<or> hand_next s c = Some (hd xs) \<Longrightarrow> follows s c xs"
proof (induction xs arbitrary: us c)
  case (Cons x xs)
  have "follows s (Some x) xs"
  proof (rule Cons.IH)
    show "ring (pra_links s) None (map Some ((us @ [x]) @ xs @ vs))" using Cons.prems(1) by simp
    show "xs = [] \<or> hand_next s (Some x) = Some (hd xs)"
      using hand_in_ring [of s us x "xs @ vs"] Cons.prems(1) by (cases xs) auto
  qed
  then show ?case using Cons.prems(2) by simp
qed simp

text \<open>The pages in the order in which the hand meets them.\<close>

definition clock_order :: "vm \<Rightarrow> nat list" where
  "clock_order s =
     (case list_next (pra_links s) (curr_ptr s) of
        None \<Rightarrow> pra_pages s
      | Some p \<Rightarrow> dropWhile (\<lambda>q. q \<noteq> p) (pra_pages s) @ takeWhile (\<lambda>q. q \<noteq> p) (pra_pages s))"

definition clock_ok :: "nat \<Rightarrow> vm \<Rightarrow> bool" where
  "clock_ok m s \<longleftrightarrow> pra_ok m s \<and> list_next (pra_links s) (curr_ptr s) \<in> insert None (Some ` set (pra_pages s))"

lemma clock_order_ok:
  assumes ok: "clock_ok m s" and ne: "pra_pages s \<noteq> []"
  shows "set (clock_order s) = set (pra_pages s)" "length (clock_order s) = length (pra_pages s)"
    "follows s (curr_ptr s) (clock_order s @ [hd (clock_order s)])"
proof -
  have r: "ring (pra_links s) None (map Some (pra_pages s))" using ok by (simp add: clock_ok_def pra_ok_def)
  have first: "lnext (pra_links s) None = Some (hd (pra_pages s))"
    using ring_next_head [OF r] ne by (cases "pra_pages s") auto
  have "set (clock_order s) = set (pra_pages s) \<and> length (clock_order s) = length (pra_pages s) \<and>
      follows s (curr_ptr s) (clock_order s @ [hd (clock_order s)])"
  proof (cases "list_next (pra_links s) (curr_ptr s)")
    case None
    then have h: "hand_next s (curr_ptr s) = Some (hd (pra_pages s))"
      using first by (simp add: hand_next_def list_next_def)
    have "follows s (curr_ptr s) (pra_pages s)"
      using follows_segment [of s "[]" "pra_pages s" "[]"] r h by simp
    moreover have "hand_next s (Some (last (pra_pages s))) = Some (hd (pra_pages s))"
      using hand_in_ring [of s "butlast (pra_pages s)" "last (pra_pages s)" "[]"] r ne by simp
    ultimately show ?thesis using None ne by (simp add: clock_order_def follows_append)
  next
    case (Some p)
    define us where "us = takeWhile (\<lambda>q. q \<noteq> p) (pra_pages s)"
    have "p \<in> set (pra_pages s)" using ok Some by (auto simp: clock_ok_def)
    then obtain vs where ws: "dropWhile (\<lambda>q. q \<noteq> p) (pra_pages s) = p # vs"
      by (metis (mono_tags, lifting) dropWhile_eq_Nil_conv hd_Cons_tl hd_dropWhile)
    have ps: "pra_pages s = us @ p # vs" using ws takeWhile_dropWhile_id unfolding us_def by metis
    have r': "ring (pra_links s) None (map Some (us @ p # vs))" using r ps by simp
    have h: "hand_next s (curr_ptr s) = Some p" using Some by (simp add: hand_next_def)
    have 1: "follows s (curr_ptr s) (p # vs)"
      by (rule follows_segment [of s us _ "[]"]) (use r' h in auto)
    have hl: "hand_next s (Some (last (p # vs))) = Some (hd (us @ [p]))"
    proof (cases vs rule: rev_cases)
      case Nil
      then show ?thesis using hand_in_ring [of s us p "[]"] r' by simp
    next
      case (snoc zs z)
      then have "hand_next s (Some z) = Some (hd ((us @ p # zs) @ [z]))"
        using hand_in_ring [of s "us @ p # zs" z "[]"] r' by simp
      then show ?thesis using snoc by (cases us) auto
    qed
    have 2: "follows s (Some (last (p # vs))) us"
      by (rule follows_segment [of s "[]" _ "p # vs"]) (use r' hl in \<open>auto simp: hd_append\<close>)
    have 3: "hand_next s (Some (last us)) = Some p" if "us \<noteq> []"
    proof -
      have "us = butlast us @ [last us]" using that by simp
      then have "ring (pra_links s) None (map Some (butlast us @ last us # p # vs))" using r'
        by (metis append.assoc append_Cons append_Nil)
      then show ?thesis using hand_in_ring [of s "butlast us" "last us" "p # vs"] by simp
    qed
    have co: "clock_order s = p # vs @ us" using Some ws by (simp add: clock_order_def us_def)
    have "set (clock_order s) = set (pra_pages s)" "length (clock_order s) = length (pra_pages s)"
      using ps co by auto
    moreover have "follows s (curr_ptr s) (clock_order s @ [hd (clock_order s)])"
      using 1 2 3 hl unfolding co by (cases "us = []"; cases "vs = []") (simp_all add: follows_append)
    ultimately show ?thesis by blast
  qed
  then show "set (clock_order s) = set (pra_pages s)" "length (clock_order s) = length (pra_pages s)"
    "follows s (curr_ptr s) (clock_order s @ [hd (clock_order s)])" by blast+
qed

text \<open>
  The search clears the marks of the marked pages it passes and takes the first unmarked one;
  when all are marked it goes round once and takes the first.
\<close>

definition clear_marks :: "nat set \<Rightarrow> vm \<Rightarrow> vm" where
  "clear_marks A s = s\<lparr>visited := \<lambda>p. if p \<in> A then 0 else visited s p\<rparr>"

lemma clock_scan_pass:
  "follows s (curr_ptr s) (xs @ [y]) \<Longrightarrow> distinct xs \<Longrightarrow> \<forall>x\<in>set xs. visited s x \<noteq> 0 \<Longrightarrow> visited (clear_marks (set xs) s) y = 0 \<Longrightarrow>
   length xs < fuel \<Longrightarrow>
   clock_scan fuel s = Inr (y, upd_pra (list_del (Some y)) ((clear_marks (set xs) s)\<lparr>curr_ptr := Some y\<rparr>))"
proof (induction xs arbitrary: s fuel)
  case Nil
  then obtain f where "fuel = Suc f" by (cases fuel) auto
  then show ?case using Nil by (simp add: clear_marks_def Let_def)
next
  case (Cons x xs)
  obtain f where f: "fuel = Suc f" using Cons.prems(5) by (cases fuel) auto
  let ?s1 = "set_visited x 0 (s\<lparr>curr_ptr := Some x\<rparr>)"
  have fl: "follows ?s1 (curr_ptr ?s1) (xs @ [y])"
    using Cons.prems(1) follows_cong [of ?s1 s] by (simp add: set_visited_def)
  have cl: "clear_marks (set xs) ?s1 = (clear_marks (set (x # xs)) s)\<lparr>curr_ptr := Some x\<rparr>"
    by (auto simp: clear_marks_def set_visited_def fun_eq_iff)
  have "clock_scan f ?s1 = Inr (y, upd_pra (list_del (Some y)) ((clear_marks (set xs) ?s1)\<lparr>curr_ptr := Some y\<rparr>))"
    by (rule Cons.IH [OF fl]) (use Cons.prems f in \<open>auto simp: cl clear_marks_def set_visited_def\<close>)
  then show ?case using Cons.prems(1,3) f unfolding cl by (simp add: Let_def)
qed

definition second_chance :: "vm \<Rightarrow> nat list" where
  "second_chance s = takeWhile (\<lambda>p. visited s p \<noteq> 0) (clock_order s)"

definition clock_victim :: "vm \<Rightarrow> nat" where
  "clock_victim s =
     (case dropWhile (\<lambda>p. visited s p \<noteq> 0) (clock_order s) of p # _ \<Rightarrow> p | [] \<Rightarrow> hd (clock_order s))"

lemma clock_scan_ok:
  assumes ok: "clock_ok m s" and ne: "pra_pages s \<noteq> []" and fuel: "2 * length (pra_pages s) < fuel"
  shows "clock_scan fuel s = Inr (clock_victim s,
      upd_pra (list_del (Some (clock_victim s))) ((clear_marks (set (second_chance s)) s)\<lparr>curr_ptr := Some (clock_victim s)\<rparr>))"
    "clock_victim s \<in> set (pra_pages s)"
proof -
  note C = clock_order_ok [OF ok ne]
  have d: "distinct (clock_order s)"
    using C(1,2) pra_distinct [of m s] ok by (metis card_distinct distinct_card clock_ok_def)
  have cne: "clock_order s \<noteq> []" using C(2) ne by auto
  define xs where "xs = second_chance s"
  have split: "clock_order s = xs @ dropWhile (\<lambda>p. visited s p \<noteq> 0) (clock_order s)" by (simp add: xs_def second_chance_def)
  have marked: "\<forall>x\<in>set xs. visited s x \<noteq> 0" using set_takeWhileD [of _ _ "clock_order s"] by (auto simp: xs_def second_chance_def)
  have dx: "distinct xs" using d by (simp add: xs_def second_chance_def distinct_takeWhile)
  have "length xs \<le> length (clock_order s)" unfolding xs_def second_chance_def by (rule length_takeWhile_le)
  then have lx: "length xs \<le> length (pra_pages s)" using C(2) by simp
  have "follows s (curr_ptr s) (xs @ [clock_victim s]) \<and> visited (clear_marks (set xs) s) (clock_victim s) = 0 \<and>
      clock_victim s \<in> set (clock_order s)"
  proof (cases "dropWhile (\<lambda>p. visited s p \<noteq> 0) (clock_order s)")
    case Nil
    have "clock_order s = xs" using split unfolding Nil by simp
    moreover have "clock_victim s = hd (clock_order s)" unfolding clock_victim_def Nil by simp
    ultimately show ?thesis using C(3) cne by (auto simp: clear_marks_def)
  next
    case (Cons p ys)
    then have v: "clock_victim s = p" by (simp add: clock_victim_def)
    have e: "clock_order s = (xs @ [p]) @ ys" using split Cons by simp
    have "visited s p = 0" using hd_dropWhile [of "\<lambda>p. visited s p \<noteq> 0" "clock_order s"] Cons by auto
    moreover have "follows s (curr_ptr s) (xs @ [p])"
      using C(3) follows_append [of s "curr_ptr s" "xs @ [p]"] unfolding e by (simp add: follows_append)
    ultimately show ?thesis using v e by (simp add: clear_marks_def)
  qed
  then show "clock_victim s \<in> set (pra_pages s)" using C(1) by simp
  show "clock_scan fuel s = Inr (clock_victim s,
      upd_pra (list_del (Some (clock_victim s))) ((clear_marks (set (second_chance s)) s)\<lparr>curr_ptr := Some (clock_victim s)\<rparr>))"
    unfolding xs_def [symmetric]
    by (rule clock_scan_pass) (use \<open>_ \<and> _\<close> marked dx lx fuel in auto)
qed

lemma clock_victim_ok:
  assumes ok: "clock_ok m s" and ne: "pra_pages s \<noteq> []"
  shows "\<exists>s'. clock_swap_out_victim m False s = Inr (0, Some (clock_victim s), s') \<and> clock_ok m s' \<and>
    pra_pages s' = remove1 (clock_victim s) (pra_pages s) \<and> bookkeeping s s' \<and>
    visited s' = (\<lambda>p. if p \<in> set (second_chance s) then 0 else visited s p)"
proof -
  have p: "pra_ok m s" using ok by (simp add: clock_ok_def)
  have len: "length (pra_pages s) \<le> npages (phys s)"
  proof -
    have "card (set (pra_pages s)) \<le> card {..<npages (phys s)}" by (rule card_mono) (use p in \<open>auto simp: pra_ok_def\<close>)
    then show ?thesis using pra_distinct [OF p] by (simp add: distinct_card)
  qed
  define v where "v = clock_victim s"
  define l where "l = list_del (Some v) (pra_links s)"
  define w where "w = (\<lambda>p. if p \<in> set (second_chance s) then 0 else visited s p)"
  let ?s = "s\<lparr>visited := w, curr_ptr := Some v\<rparr>"
  have run: "clock_scan (2 * npages (phys s) + 2) s = Inr (v, ?s\<lparr>pra_links := l\<rparr>)" "v \<in> set (pra_pages s)"
    using clock_scan_ok [OF ok ne, of "2 * npages (phys s) + 2"] len
    by (simp_all add: upd_pra_def clear_marks_def v_def l_def w_def)
  obtain xs ys where ps: "pra_pages s = xs @ v # ys" "v \<notin> set xs" using split_list_first [OF run(2)] by blast
  have rem: "remove1 v (pra_pages s) = xs @ ys" using ps by (simp add: remove1_append)
  have r: "ring (pra_links s) None (map Some xs @ Some v # map Some ys)" using p ps by (simp add: pra_ok_def)
  have r': "ring l None (map Some (xs @ ys))" using ring_del [OF r] by (simp add: l_def)
  have nx: "lnext l (Some v) = hd (map Some ys @ [None])"
    unfolding l_def list_del_keeps_entry(1) [OF r] by (rule ring_next [OF r])
  have I: "pra_ok m (?s\<lparr>pra_links := l\<rparr>)" "pra_pages (?s\<lparr>pra_links := l\<rparr>) = xs @ ys"
    using pra_okI [OF r', of ?s m] p ps by (simp_all add: pra_ok_def)
  have "hd (map Some ys @ [None]) \<in> insert None (Some ` set (xs @ ys))" by (cases ys) auto
  then have "clock_ok m (?s\<lparr>pra_links := l\<rparr>)"
    using I nx by (simp add: clock_ok_def list_next_def)
  moreover have "bookkeeping s (?s\<lparr>pra_links := l\<rparr>)"
    by (auto simp: bookkeeping_def intro!: exI [of _ w] exI [of _ l] exI [of _ "Some v"])
  moreover have "clock_swap_out_victim m False s = Inr (0, Some v, ?s\<lparr>pra_links := l\<rparr>)"
    using run p by (simp add: clock_swap_out_victim_def pra_ok_def)
  ultimately show ?thesis using I rem unfolding v_def w_def by (intro exI [of _ "?s\<lparr>pra_links := l\<rparr>"]) (simp add: v_def w_def)
qed

lemma clock_map_ok:
  assumes ok: "clock_ok m s" and q: "q \<notin> set (pra_pages s)" "q < npages (phys s)"
  shows "\<exists>s'. clock_map_swappable m a q b s = Inr (0, s') \<and> clock_ok m s' \<and> pra_pages s' = pra_pages s @ [q] \<and>
    visited s' = (visited s)(q := 1) \<and> bookkeeping s s'"
proof -
  have p: "pra_ok m s" using ok by (simp add: clock_ok_def)
  have r: "ring (pra_links s) None (map Some (pra_pages s))" using p by (simp add: pra_ok_def)
  define l where "l = list_add_before None (Some q) (pra_links s)"
  let ?s = "s\<lparr>visited := (visited s)(q := 1)\<rparr>"
  have r': "ring l None (map Some (pra_pages s @ [q]))"
    using ring_add_before_head [OF r, of "Some q"] q by (auto simp: l_def)
  have I: "pra_ok m (?s\<lparr>pra_links := l\<rparr>)" "pra_pages (?s\<lparr>pra_links := l\<rparr>) = pra_pages s @ [q]"
    using pra_okI [OF r', of ?s m] p q by (simp_all add: pra_ok_def)
  have "lnext l = (lnext (pra_links s))(lprev (pra_links s) None := Some q, Some q := None)"
    by (simp add: l_def list_add_before_def list_add_between_def set_next_def set_prev_def)
  then have "lnext l (curr_ptr s) \<in> insert None (Some ` set (pra_pages s @ [q]))"
    using ok by (auto simp: clock_ok_def list_next_def)
  then have "clock_ok m (?s\<lparr>pra_links := l\<rparr>)" using I by (simp add: clock_ok_def list_next_def)
  moreover have "bookkeeping s (?s\<lparr>pra_links := l\<rparr>)"
    by (auto simp: bookkeeping_def intro!: exI [of _ "(visited s)(q := 1)"] exI [of _ l] exI [of _ "curr_ptr s"])
  moreover have "clock_map_swappable m a q b s = Inr (0, ?s\<lparr>pra_links := l\<rparr>)"
    by (simp add: clock_map_swappable_def set_visited_def upd_pra_def l_def)
  ultimately show ?thesis using I by auto
qed

interpretation clock: swap_policy swap_manager_clock clock_ok "\<lambda>s. set (pra_pages s)"
proof unfold_locales
  fix m p a b me d and s :: vm and ph :: free_area
  show "\<exists>p s'. sw_swap_out_victim swap_manager_clock m False s = Inr (0, Some p, s') \<and> p \<in> set (pra_pages s) \<and>
      clock_ok m s' \<and> set (pra_pages s') = set (pra_pages s) - {p} \<and> bookkeeping s s'"
    if ok: "clock_ok m s" and ne: "set (pra_pages s) \<noteq> {}"
  proof -
    have ne': "pra_pages s \<noteq> []" using ne by auto
    have "set (remove1 p (pra_pages s)) = set (pra_pages s) - {p}" for p
      using pra_distinct [of m s] ok by (simp add: clock_ok_def set_remove1_eq)
    then show ?thesis using clock_victim_ok [OF ok ne'] clock_scan_ok(2) [OF ok ne', of "Suc (2 * length (pra_pages s))"]
      by (auto simp: swap_manager_clock_def)
  qed
  show "\<exists>s'. sw_map_swappable swap_manager_clock m a p b s = Inr (0, s') \<and> clock_ok m s' \<and>
      set (pra_pages s') = insert p (set (pra_pages s)) \<and> bookkeeping s s'"
    if "clock_ok m s" "p \<notin> set (pra_pages s)" "p < npages (phys s)"
    using clock_map_ok [OF that, of a b] by (auto simp: swap_manager_clock_def)
  assume n: "npages ph = npages (phys s)"
  show "clock_ok m (s\<lparr>phys := ph, mem := me, ide := d\<rparr>) = clock_ok m s"
    "set (pra_pages (s\<lparr>phys := ph, mem := me, ide := d\<rparr>)) = set (pra_pages s)"
    using n by (simp_all add: clock_ok_def pra_ok_def pra_pages_def)
qed

end
