(* ===== verification/Vm_Props.thy ===== *)
theory Vm_Props
  imports Vma Swap_Policy
begin

text \<open>
  The virtual memory of lab3 as a whole: swapping out, mapping and unmapping pages, page faults,
  and the properties of the page tables, the areas and the swap managers.
\<close>

subsection \<open>Swapping a page out\<close>

lemma push_drop_8: "unat (o' :: 64 word) < 2 ^ 56 \<Longrightarrow> drop_bit 8 (push_bit 8 o') = o'"
proof (rule bit_word_eqI)
  fix k assume o: "unat o' < 2 ^ 56" and k: "k < LENGTH(64)"
  show "bit (drop_bit 8 (push_bit 8 o')) k \<longleftrightarrow> bit o' k"
    using bit_bound [OF o, of k] k by (auto simp: bit_simps)
qed

text \<open>The place of an entry on the disk.\<close>

definition on_disk :: "vm \<Rightarrow> 64 word \<Rightarrow> (nat \<Rightarrow> 64 word) \<Rightarrow> bool" where
  "on_disk s ent c \<longleftrightarrow> (\<forall>k<512. ide s (unat (drop_bit 8 ent) * 512 + k) = c k)"

definition entry_valid :: "64 word \<Rightarrow> vm \<Rightarrow> bool" where
  "entry_valid ent s \<longleftrightarrow> 0 < drop_bit 8 ent \<and> drop_bit 8 ent < max_swap_offset s \<and> max_swap_offset s = 7"

lemma disk_place:
  assumes "entry_valid ent s"
  shows "swap_offset ent s = Inr (drop_bit 8 ent)"
    "unat (ucast (drop_bit 8 ent * of_nat PAGE_NSECT) :: 32 word) * SECT_WORDS = unat (drop_bit 8 ent) * 512"
    "unat (drop_bit 8 ent) < 7" "PAGE_NSECT * SECT_WORDS = 512" "MAX_DISK_NSECS * SECT_WORDS = 3584"
proof -
  have "drop_bit 8 ent < 7" using assms unfolding entry_valid_def by (elim conjE) (erule subst)
  then have o: "unat (drop_bit 8 ent) < 7" by (simp add: word_less_nat_alt)
  then show "unat (drop_bit 8 ent) < 7" .
  have "unat (drop_bit 8 ent * 8) = unat (drop_bit 8 ent) * 8"
    using o by (simp add: unat_word_ariths)
  moreover have "unat (ucast (drop_bit 8 ent * 8) :: 32 word) = unat (drop_bit 8 ent * 8)"
    by (rule unat_ucast_64_32) (use calculation o in simp)
  ultimately show "unat (ucast (drop_bit 8 ent * of_nat PAGE_NSECT) :: 32 word) * SECT_WORDS = unat (drop_bit 8 ent) * 512"
    by (simp add: PAGE_NSECT_def SECT_WORDS_def)
  show "swap_offset ent s = Inr (drop_bit 8 ent)" using assms unfolding swap_offset_def entry_valid_def Let_def by (elim conjE) (rule if_P, blast)
  show "PAGE_NSECT * SECT_WORDS = 512" "MAX_DISK_NSECS * SECT_WORDS = 3584"
    by (simp_all add: PAGE_NSECT_def SECT_WORDS_def MAX_DISK_NSECS_def)
qed

lemma swapfs_write_ok:
  assumes v: "entry_valid ent s"
  shows "\<exists>d. swapfs_write ent p s = Inr (0, s\<lparr>ide := d\<rparr>) \<and> on_disk (s\<lparr>ide := d\<rparr>) ent (mem s p) \<and>
    (\<forall>ent' c. drop_bit 8 ent' \<noteq> drop_bit 8 ent \<longrightarrow> on_disk (s\<lparr>ide := d\<rparr>) ent' c = on_disk s ent' c)"
proof -
  note D = disk_place [OF v]
  let ?b = "unat (drop_bit 8 ent) * 512"
  let ?d = "\<lambda>k. if ?b \<le> k \<and> k < ?b + 512 then mem s p (k - ?b) else ide s k"
  have "swapfs_write ent p s = Inr (0, s\<lparr>ide := ?d\<rparr>)"
    unfolding swapfs_write_def ide_write_secs_def Let_def D(1) kbind_simps D(2,4,5) using D(3) by simp
  moreover have "on_disk (s\<lparr>ide := ?d\<rparr>) ent (mem s p)" by (simp add: on_disk_def)
  moreover have "on_disk (s\<lparr>ide := ?d\<rparr>) ent' c = on_disk s ent' c" if "drop_bit 8 ent' \<noteq> drop_bit 8 ent" for ent' c
  proof -
    have "unat (drop_bit 8 ent') \<noteq> unat (drop_bit 8 ent)" using that word_unat_eq_iff by blast
    then have "\<not> (?b \<le> unat (drop_bit 8 ent') * 512 + k \<and> unat (drop_bit 8 ent') * 512 + k < ?b + 512)" if "k < 512" for k
      using that by (cases "unat (drop_bit 8 ent') < unat (drop_bit 8 ent)") auto
    then show ?thesis by (auto simp: on_disk_def)
  qed
  ultimately show ?thesis by blast
qed

lemma swapfs_read_ok:
  assumes v: "entry_valid ent s" and d: "on_disk s ent c"
  shows "\<exists>m. swapfs_read ent p s = Inr (0, s\<lparr>mem := (mem s)(p := m)\<rparr>) \<and> (\<forall>k<512. m k = c k)"
proof -
  note D = disk_place [OF v]
  have "swapfs_read ent p s =
      Inr (0, s\<lparr>mem := (mem s)(p := \<lambda>k. if k < 512 then ide s (unat (drop_bit 8 ent) * 512 + k) else mem s p k)\<rparr>)"
    unfolding swapfs_read_def ide_read_secs_def Let_def D(1) kbind_simps D(2,4,5) using D(3) by simp
  then show ?thesis using d by (auto simp: on_disk_def)
qed

text \<open>Every page of the manager's list is mapped in the directory \<open>g\<close> at its \<open>pra_vaddr\<close>.\<close>

definition resident :: "nat \<Rightarrow> nat set \<Rightarrow> vm \<Rightarrow> bool" where
  "resident g A s \<longleftrightarrow> (\<forall>p\<in>A. entry s g (pra_vaddr s p) AND PTE_V \<noteq> 0 \<and> entry_valid (swap_entry (pra_vaddr s p)) s)"

lemma bookkeepingD:
  assumes "bookkeeping s s'"
  shows "phys s' = phys s" "mem s' = mem s" "pra_vaddr s' = pra_vaddr s" "mms s' = mms s" "ide s' = ide s"
    "max_swap_offset s' = max_swap_offset s" "swap_init_ok s' = swap_init_ok s" "check_mm_struct s' = check_mm_struct s"
  using assms by (auto simp: bookkeeping_def)

lemma leaf_same: "mem s' = mem s \<Longrightarrow> npages (phys s') = npages (phys s) \<Longrightarrow> leaf s' g la = leaf s g la"
  "mem s' = mem s \<Longrightarrow> npages (phys s') = npages (phys s) \<Longrightarrow> entry s' g la = entry s g la"
  using entry_cong [of s g s' la] by auto

lemma pt_ok_same:
  assumes "mem s' = mem s" "npages (phys s') = npages (phys s)"
  shows "pt_ok s' g F = pt_ok s g F"
proof -
  have "node s' g js = node s g js" if "length js \<le> 2" for js by (rule node_cong [OF _ assms(2) that]) (simp add: assms(1))
  moreover have "pde2page w s' = pde2page w s" for w by (simp add: pde2page_def pa2page_cong [OF assms(2)])
  ultimately show ?thesis by (simp add: pt_ok_def assms(1) cong: conj_cong)
qed

lemma pt_ok_mono: "pt_ok s g F \<Longrightarrow> F' \<subseteq> F \<Longrightarrow> pt_ok s g F'"
  unfolding pt_ok_def by blast

context swap_policy
begin

lemma swap_out_one:
  assumes ok: "inv m s" "pool s \<noteq> {}" and g: "pgdir (mms s m) = Some g" and pt: "pt_ok s g F"
    and res: "resident g (pool s) s" and free: "free_inv (phys s)"
    and page: "\<And>p. p \<in> pool s \<Longrightarrow> p < npages (phys s) \<and> p \<notin> free_set (phys s) \<and> owned (pages (phys s)) p 1 \<and> may_free (phys s) p"
  shows "\<exists>p s'. swap_out sm default_pmm_manager m 1 False s = Inr (1, s') \<and> p \<in> pool s \<and> inv m s' \<and> pool s' = pool s - {p} \<and>
    entry s' g (pra_vaddr s p) = swap_entry (pra_vaddr s p) \<and> on_disk s' (swap_entry (pra_vaddr s p)) (mem s p) \<and>
    free_inv (phys s') \<and> free_set (phys s') = insert p (free_set (phys s)) \<and>
    npages (phys s') = npages (phys s) \<and> pt_ok s' g F \<and> mms s' = mms s \<and> max_swap_offset s' = max_swap_offset s \<and>
    (\<forall>x. (PDX1 x, PDX0 x, PTX x) \<noteq> (PDX1 (pra_vaddr s p), PDX0 (pra_vaddr s p), PTX (pra_vaddr s p)) \<longrightarrow> entry s' g x = entry s g x)"
proof -
  obtain p s1 where v: "sw_swap_out_victim sm m False s = Inr (0, Some p, s1)" "p \<in> pool s" "inv m s1"
    "pool s1 = pool s - {p}" "bookkeeping s s1" using victim [OF ok] by blast
  note B = bookkeepingD [OF v(5)]
  let ?v = "pra_vaddr s p"
  have e: "entry s g ?v AND PTE_V \<noteq> 0" "entry_valid (swap_entry ?v) s" using res v(2) by (auto simp: resident_def)
  obtain u where u: "leaf s g ?v = Some (u, PTX ?v)"
    using e(1) by (auto simp: entry_def leaf_def split: option.splits)
  have w: "get_word (u, PTX ?v) s AND PTE_V \<noteq> 0" using e(1) u by (simp add: entry_def)
  have pt1: "pt_ok s1 g F" using pt pt_ok_same [of s1 s] B by simp
  have gp: "get_pte (\<lambda>s. Inr (None, s)) g ?v False s1 = Inr (Some (u, PTX ?v), s1)"
    using get_pte_reads [OF pt1] leaf_same(1) [of s1 s] u B by simp
  have ev: "entry_valid (swap_entry ?v) s1" using e(2) unfolding entry_valid_def B(6) .
  obtain d where d: "swapfs_write (swap_entry ?v) p s1 = Inr (0, s1\<lparr>ide := d\<rparr>)"
    "on_disk (s1\<lparr>ide := d\<rparr>) (swap_entry ?v) (mem s1 p)" using swapfs_write_ok [OF ev] by blast
  note P = page [OF v(2)]
  obtain ph where ph: "pm_free_pages default_pmm_manager p 1 (phys s) = Inr ph" "free_inv ph" "npages ph = npages (phys s)"
    "free_set ph = free_set (phys s) \<union> {p}"
    using ff.free_returns [OF free, of 1 p] P by (auto simp: run_pages_1)
  define s2 where "s2 = put_word (u, PTX ?v) (swap_entry ?v) s1"
  define s' where "s' = s2\<lparr>phys := ph, ide := d\<rparr>"
  have s'1: "s' = s1\<lparr>phys := ph, mem := mem s2, ide := d\<rparr>" by (simp add: s'_def s2_def put_word_def)
  have run: "swap_out sm default_pmm_manager m 1 False s = Inr (1, s')"
    using v(1) gp d(1) ph(1) w B g
    by (simp add: swap_out_def Let_def with_pgdir_def free_pages_def get_word_def s'_def s2_def put_word_def)
  have lf: "leaf s1 g ?v = Some (u, PTX ?v)" using leaf_same(1) [of s1 s] u B by simp
  note L = leaf_write [OF pt1 lf, where w = "swap_entry ?v", folded s2_def]
  have same: "entry s' g x = entry s2 g x" for x
    by (rule leaf_same) (use ph B in \<open>simp_all add: s'_def s2_def\<close>)
  have "inv m s'" "pool s' = pool s - {p}"
    using frame [where ph = ph and s = s1 and me = "mem s2" and d = d] v(3,4) ph(3) B unfolding s'1 by simp_all
  moreover have "entry s' g x = entry s g x" if "(PDX1 x, PDX0 x, PTX x) \<noteq> (PDX1 ?v, PDX0 ?v, PTX ?v)" for x
    using same L(4) [OF that] leaf_same(2) [of s1 s] B by simp
  moreover have "on_disk s' (swap_entry ?v) (mem s p)" using d(2) B by (simp add: on_disk_def s'_def)
  moreover have "pt_ok s' g F" using L(1) pt_ok_same [of s' s2] ph B by (simp add: s'_def s2_def)
  moreover have "mms s' = mms s" "max_swap_offset s' = max_swap_offset s" using B by (simp_all add: s'_def s2_def put_word_def)
  ultimately show ?thesis using run v(2) same L(2) ph by (intro exI [of _ p] exI [of _ s']) (simp add: s'_def)
qed

end

subsection \<open>Mapping and unmapping\<close>

lemma get_pte_hit:
  assumes pt: "pt_ok s g F" and l: "leaf s g la = Some a"
  shows "get_pte al g la c s = Inr (Some a, s)"
proof -
  obtain t where t: "sub_table s g (PDX1 la) = Some t" using l by (auto simp: leaf_def split: option.splits)
  then have v1: "mem s g (PDX1 la) AND PTE_V \<noteq> 0" by (auto simp: sub_table_def split: if_splits)
  have t': "pde2page (mem s g (PDX1 la)) s = Inr t" using t by (auto simp: sub_table_def split: if_splits sum.splits)
  obtain u where u: "sub_table s t (PDX0 la) = Some u" "a = (u, PTX la)"
    using l t by (auto simp: leaf_def split: option.splits)
  then have v2: "mem s t (PDX0 la) AND PTE_V \<noteq> 0" by (auto simp: sub_table_def split: if_splits)
  have u': "pde2page (mem s t (PDX0 la)) s = Inr u" using u(1) by (auto simp: sub_table_def split: if_splits sum.splits)
  show ?thesis using v1 t' v2 u' u(2) by (simp add: get_pte_def ensure_table_def get_word_def)
qed

text \<open>The page that an address is mapped to.\<close>

definition entry_page :: "vm \<Rightarrow> nat \<Rightarrow> 64 word \<Rightarrow> nat option" where
  "entry_page s g la =
     (if entry s g la AND PTE_V = 0 then None
      else case pte2page (entry s g la) s of Inr p \<Rightarrow> Some p | Inl _ \<Rightarrow> None)"

lemma entry_page_leaf:
  assumes "entry_page s g la = Some q"
  obtains u where "leaf s g la = Some (u, PTX la)" "get_word (u, PTX la) s = entry s g la"
    "entry s g la AND PTE_V \<noteq> 0" "pte2page (entry s g la) s = Inr q"
proof -
  have v: "entry s g la AND PTE_V \<noteq> 0" "pte2page (entry s g la) s = Inr q"
    using assms by (auto simp: entry_page_def split: if_splits sum.splits)
  then obtain a where a: "leaf s g la = Some a" by (cases "leaf s g la") (auto simp: entry_def)
  then have "a = (fst a, PTX la)" by (auto simp: leaf_def split: option.splits)
  then show ?thesis using that [of "fst a"] v a by (simp add: entry_def)
qed

text \<open>A page that can be given back: in use, not a table, its descriptor as the allocator left it.\<close>

definition releasable :: "vm \<Rightarrow> nat \<Rightarrow> nat \<Rightarrow> bool" where
  "releasable s g q \<longleftrightarrow> q < npages (phys s) \<and> q \<notin> free_set (phys s) \<and> owned (pages (phys s)) q 1 \<and>
     may_free (phys s) q \<and> (\<forall>js. length js \<le> 2 \<longrightarrow> node s g js \<noteq> Some q)"

lemma free_one:
  assumes inv: "free_inv a" and q: "q < npages a" "q \<notin> free_set a" "owned (pages a) q 1" "may_free a q"
  shows "\<exists>ph. pm_free_pages default_pmm_manager q 1 a = Inr ph \<and> free_inv ph \<and> npages ph = npages a \<and>
    free_set ph = insert q (free_set a) \<and> (\<forall>r. r \<notin> insert q (free_set a) \<longrightarrow> pages ph r = pages a r)"
proof -
  have rel: "free_rel a (free_blocks a)" using inv by (simp add: free_inv_def)
  have fr: "fresh_range q 1 (free_blocks a) (npages a)"
    using q by (simp add: fresh_range_def free_set_def)
  obtain ph where ph: "default_free_pages q 1 a = Inr ph" "free_rel ph (ff_free q (unat (1 :: 64 word)) (free_blocks a))"
    "npages ph = npages a" "\<forall>r. r \<notin> covered (free_blocks a) \<union> {q ..< q + unat (1 :: 64 word)} \<longrightarrow> pages ph r = pages a r"
    using default_free_refines [OF rel fr _ q(3)] q(4) by (auto simp: may_free_def)
  have fs: "free_inv ph" "free_set ph = insert q (free_set a)"
    using free_rel_inv [OF ph(2)] by (auto simp: covered_ff_free free_set_def)
  have "\<forall>r. r \<notin> insert q (free_set a) \<longrightarrow> pages ph r = pages a r" using ph(4) by (auto simp: free_set_def)
  then show ?thesis using ph(1,3) fs by (intro exI [of _ ph]) (simp add: default_pmm_manager_def)
qed

lemma pt_ok_insert: "pt_ok s g F \<Longrightarrow> \<forall>js. length js \<le> 2 \<longrightarrow> node s g js \<noteq> Some q \<Longrightarrow> pt_ok s g (insert q F)"
  unfolding pt_ok_def by blast

lemma node_same: "mem s' = mem s \<Longrightarrow> npages (phys s') = npages (phys s) \<Longrightarrow> length js \<le> 2 \<Longrightarrow> node s' g js = node s g js"
  by (rule node_cong) simp_all

lemma page_remove_pte_ok:
  assumes ns: "no_swap s" and pt: "pt_ok s g (free_set (phys s))" and q: "entry_page s g la = Some q"
    and l: "leaf s g la = Some a" and rel: "page_ref q s = 1 \<Longrightarrow> releasable s g q" and qF: "q \<notin> free_set (phys s)"
  shows "\<exists>s'. page_remove_pte default_pmm_manager la a s = Inr s' \<and> no_swap s' \<and> pt_ok s' g (free_set (phys s')) \<and>
    free_set (phys s') = (if page_ref q s = 1 then insert q (free_set (phys s)) else free_set (phys s)) \<and>
    entry s' g la = 0 \<and> leaf s' g la = Some a \<and> npages (phys s') = npages (phys s) \<and>
    (\<forall>x. (PDX1 x, PDX0 x, PTX x) \<noteq> (PDX1 la, PDX0 la, PTX la) \<longrightarrow> entry s' g x = entry s g x) \<and>
    (\<forall>p. p \<notin> free_set (phys s') \<longrightarrow> page_ref p s' = page_ref p s - (if p = q then 1 else 0))"
proof -
  obtain u where u: "leaf s g la = Some (u, PTX la)" "get_word (u, PTX la) s = entry s g la"
    "entry s g la AND PTE_V \<noteq> 0" "pte2page (entry s g la) s = Inr q" by (rule entry_page_leaf [OF q])
  have a: "a = (u, PTX la)" using u(1) l by simp
  let ?s1 = "page_ref_dec q s"
  let ?F = "if page_ref q s = 1 then insert q (free_set (phys s)) else free_set (phys s)"
  have "\<exists>ph. (if page_ref q ?s1 = 0 then free_pages default_pmm_manager q 1 ?s1 else Inr ?s1) = Inr (s\<lparr>phys := ph\<rparr>) \<and>
      free_inv ph \<and> free_set ph = ?F \<and> npages ph = npages (phys s) \<and>
      (\<forall>r. r \<notin> ?F \<longrightarrow> ref (pages ph r) = ref (pages (phys s) r) - (if r = q then 1 else 0))"
  proof (cases "page_ref q s = 1")
    case True
    let ?a = "upd_page q (ref_update (\<lambda>r. r - 1)) (phys s)"
    note R = rel [OF True, unfolded releasable_def]
    have fb: "free_blocks ?a = free_blocks (phys s)" by (rule free_inv_ref)
    have o: "owned (pages ?a) q 1" using R by (simp add: owned_def PageReserved_bit PageProperty_bit)
    have "\<exists>ph. pm_free_pages default_pmm_manager q 1 ?a = Inr ph \<and> free_inv ph \<and> npages ph = npages ?a \<and>
        free_set ph = insert q (free_set ?a) \<and> (\<forall>r. r \<notin> insert q (free_set ?a) \<longrightarrow> pages ph r = pages ?a r)"
      by (rule free_one) (use R ns o fb in \<open>simp_all add: free_inv_ref no_swap_def may_free_def del: upd_page_simps(1)\<close>)
    then show ?thesis using True
      by (auto simp: free_pages_def page_ref_dec_def page_ref_def on_page_def free_inv_ref)
  next
    case False
    then show ?thesis using ns
      by (intro exI [of _ "phys ?s1"])
        (auto simp: page_ref_dec_def page_ref_def on_page_def no_swap_def free_inv_ref)
  qed
  then obtain ph where ph: "(if page_ref q ?s1 = 0 then free_pages default_pmm_manager q 1 ?s1 else Inr ?s1) = Inr (s\<lparr>phys := ph\<rparr>)"
    "free_inv ph" "free_set ph = ?F" "npages ph = npages (phys s)"
    "\<forall>r. r \<notin> ?F \<longrightarrow> ref (pages ph r) = ref (pages (phys s) r) - (if r = q then 1 else 0)" by blast
  let ?s2 = "s\<lparr>phys := ph\<rparr>"
  let ?s' = "put_word (u, PTX la) 0 ?s2"
  have run: "page_remove_pte default_pmm_manager la a s = Inr ?s'"
    using u ph(1) by (simp add: page_remove_pte_def a Let_def)
  have "pt_ok s g ?F" using pt pt_ok_insert [OF pt] rel by (auto simp: releasable_def)
  then have pt2: "pt_ok ?s2 g ?F" using pt_ok_same [of ?s2 s] ph(4) by simp
  have l2: "leaf ?s2 g la = Some (u, PTX la)" using leaf_same(1) [of ?s2 s] ph(4) u(1) by simp
  note L = leaf_write [OF pt2 l2, where w = 0]
  have e: "entry ?s2 g x = entry s g x" for x using leaf_same(2) [of ?s2 s] ph(4) by simp
  have "no_swap ?s'" using ns ph(2) by (simp add: no_swap_def)
  moreover have "page_ref p ?s' = page_ref p s - (if p = q then 1 else 0)" if "p \<notin> ?F" for p
    using ph(5) that by (simp add: page_ref_def)
  ultimately show ?thesis using run ph(3,4) L l2 e a by (intro exI [of _ ?s']) simp
qed

lemma small_or:
  fixes v w :: "32 word"
  assumes "v < 1024" "w < 1024"
  shows "v OR w < 1024"
proof -
  have "take_bit 10 (v OR w) = v OR w"
    by (rule bit_word_eqI) (use small_bit [OF assms(1)] small_bit [OF assms(2)] in \<open>auto simp: bit_simps\<close>)
  then have "unat (v OR w) = take_bit 10 (unat (v OR w))" by (metis unsigned_take_bit_eq)
  also have "\<dots> < 2 ^ 10" by (rule take_bit_nat_less_exp)
  finally show ?thesis by (simp add: word_less_nat_alt)
qed

lemma page_ref_inc_simps:
  "page_ref p (page_ref_inc q s) = page_ref p s + (if p = q then 1 else 0)" "mem (page_ref_inc q s) = mem s"
  "npages (phys (page_ref_inc q s)) = npages (phys s)" "free_set (phys (page_ref_inc q s)) = free_set (phys s)"
  "no_swap (page_ref_inc q s) = no_swap s" "get_word a (page_ref_inc q s) = get_word a s"
  by (simp_all add: page_ref_inc_def page_ref_def on_page_def free_inv_ref no_swap_def get_word_def)

lemma page_ref_dec_inc: "page_ref_dec q (page_ref_inc q s) = s"
proof -
  have u: "ref_update (\<lambda>x. x) r = r" for r :: page by (cases r) simp
  show ?thesis by (simp add: page_ref_inc_def page_ref_dec_def on_page_def upd_page_def comp_def u)
qed

lemma pte2page_inc: "pte2page w (page_ref_inc q s) = pte2page w s"
  by (simp add: pte2page_def pa2page_cong [OF page_ref_inc_simps(3)])

lemma releasable_inc: "releasable (page_ref_inc p s) g q = releasable s g q"
proof -
  have "free_blocks (phys (page_ref_inc p s)) = free_blocks (phys s)" by (simp add: page_ref_inc_def on_page_def free_inv_ref(3))
  moreover have "owned (pages (phys (page_ref_inc p s))) q 1 = owned (pages (phys s)) q 1"
    by (auto simp: page_ref_inc_def on_page_def owned_def PageReserved_bit PageProperty_bit)
  moreover have "node (page_ref_inc p s) g js = node s g js" if "length js \<le> 2" for js
    by (rule node_same) (use that in \<open>simp_all add: page_ref_inc_simps\<close>)
  ultimately show ?thesis by (simp add: releasable_def page_ref_inc_simps may_free_def cong: conj_cong)
qed

text \<open>What an address may be mapped to when a new page is mapped there.\<close>

definition remappable :: "vm \<Rightarrow> nat \<Rightarrow> 64 word \<Rightarrow> nat \<Rightarrow> bool" where
  "remappable s g la page \<longleftrightarrow> entry s g la AND PTE_V = 0 \<or>
     (\<exists>q. entry_page s g la = Some q \<and> q \<notin> free_set (phys s) \<and> (q \<noteq> page \<and> page_ref q s = 1 \<longrightarrow> releasable s g q))"

definition mapped :: "vm \<Rightarrow> nat \<Rightarrow> nat \<Rightarrow> 64 word \<Rightarrow> 32 word \<Rightarrow> vm \<Rightarrow> bool" where
  "mapped s g page la perm s' \<longleftrightarrow>
     entry s' g la = pte_create (page2ppn page) (ucast PTE_V OR perm) \<and> entry_page s' g la = Some page \<and>
     (\<forall>p. p \<notin> free_set (phys s) \<and> p \<notin> free_set (phys s') \<longrightarrow>
        page_ref p s' = page_ref p s + (if p = page then 1 else 0) - (if entry_page s g la = Some p then 1 else 0))"

lemma mapped_write:
  assumes s: "no_swap s2" "pt_ok s2 g (free_set (phys s2))" "leaf s2 g la = Some a"
    and p: "page < npages (phys s2)" "perm < 1024"
    and r: "\<forall>p. p \<notin> free_set (phys s) \<and> p \<notin> free_set (phys s2) \<longrightarrow>
        page_ref p s2 = page_ref p s + (if p = page then 1 else 0) - (if entry_page s g la = Some p then 1 else 0)"
  shows "mapped s g page la perm (put_word a (pte_create (page2ppn page) (ucast PTE_V OR perm)) s2)"
    "pt_ok (put_word a (pte_create (page2ppn page) (ucast PTE_V OR perm)) s2) g (free_set (phys s2))"
    "no_swap (put_word a w s2)"
    "(PDX1 x, PDX0 x, PTX x) \<noteq> (PDX1 la, PDX0 la, PTX la) \<Longrightarrow>
       entry (put_word a (pte_create (page2ppn page) (ucast PTE_V OR perm)) s2) g x = entry s2 g x"
proof -
  obtain u k where a: "a = (u, k)" by (cases a)
  let ?w = "pte_create (page2ppn page) (ucast PTE_V OR perm)"
  let ?s = "put_word a ?w s2"
  note L = leaf_write [OF s(2) s(3) [unfolded a], where w = ?w]
  have n: "npages (phys s2) < 2 ^ 31" using s(1) by (simp add: no_swap_def free_inv_def free_rel_def)
  have "ucast PTE_V OR perm < (1024 :: 32 word)" by (rule small_or) (use p(2) in \<open>simp_all add: PTE_V_def\<close>)
  then have "pte2page ?w ?s = Inr page" using pte_create_page(1) [of page ?s] p(1) n by simp
  then show "mapped s g page la perm ?s" using L(2) r a by (simp add: mapped_def entry_page_def page_ref_def)
  show "pt_ok ?s g (free_set (phys s2))" using L(1) a by simp
  show "entry ?s g x = entry s2 g x" if "(PDX1 x, PDX0 x, PTX x) \<noteq> (PDX1 la, PDX0 la, PTX la)" using L(4) [OF that] a by simp
  show "no_swap (put_word a w s2)" using s(1) by (simp add: no_swap_def)
qed

lemma page_insert_ok:
  assumes ns: "no_swap s" and pt: "pt_ok s g (free_set (phys s))" and pg: "page < npages (phys s)" "page \<notin> free_set (phys s)"
    and perm: "perm < 1024" and old: "remappable s g la page"
  shows "\<exists>r s'. page_insert (Suc f) sm default_pmm_manager g page la perm s = Inr (r, s') \<and>
    no_swap s' \<and> pt_ok s' g (free_set (phys s')) \<and> npages (phys s') = npages (phys s) \<and>
    (\<forall>x. (PDX1 x, PDX0 x, PTX x) \<noteq> (PDX1 la, PDX0 la, PTX la) \<longrightarrow> entry s' g x = entry s g x) \<and>
    (if r = 0 then mapped s g page la perm s'
     else r = - E_NO_MEM \<and> leaf s g la = None \<and> entry s' g la = entry s g la \<and>
       (\<forall>p. p \<notin> free_set (phys s) \<longrightarrow> page_ref p s' = page_ref p s))"
proof (cases "entry s g la AND PTE_V = 0")
  case False
  then obtain q where q: "entry_page s g la = Some q" "q \<notin> free_set (phys s)" "q \<noteq> page \<Longrightarrow> page_ref q s = 1 \<Longrightarrow> releasable s g q"
    using old by (auto simp: remappable_def)
  obtain u where u: "leaf s g la = Some (u, PTX la)" "get_word (u, PTX la) s = entry s g la"
    "entry s g la AND PTE_V \<noteq> 0" "pte2page (entry s g la) s = Inr q" by (rule entry_page_leaf [OF q(1)])
  let ?a = "(u, PTX la)" and ?s1 = "page_ref_inc page s"
  note hit = get_pte_hit [OF pt u(1)]
  show ?thesis
  proof (cases "q = page")
    case True
    let ?s' = "put_word ?a (pte_create (page2ppn page) (ucast PTE_V OR perm)) s"
    have run: "page_insert (Suc f) sm default_pmm_manager g page la perm s = Inr (0, ?s')"
      using hit u True by (simp add: page_insert_def Let_def page_ref_inc_simps pte2page_inc page_ref_dec_inc del: alloc_pages.simps)
    have r: "\<forall>p. p \<notin> free_set (phys s) \<and> p \<notin> free_set (phys s) \<longrightarrow>
        page_ref p s = page_ref p s + (if p = page then 1 else 0) - (if entry_page s g la = Some p then 1 else 0)"
      using q(1) True by auto
    note M = mapped_write [OF ns pt u(1) pg(1) perm r]
    show ?thesis using run M by (intro exI [of _ 0] exI [of _ ?s']) simp
  next
    case False
    have pt1: "pt_ok ?s1 g (free_set (phys ?s1))" using pt pt_ok_same [of ?s1 s] by (simp add: page_ref_inc_simps)
    have e1: "entry ?s1 g x = entry s g x" "leaf ?s1 g x = leaf s g x" for x
      using leaf_same [of ?s1 s] by (simp_all add: page_ref_inc_simps)
    have q1: "entry_page ?s1 g la = Some q" using q(1) unfolding entry_page_def e1 pte2page_inc .
    have rq: "page_ref q ?s1 = page_ref q s" using False by (simp add: page_ref_inc_simps)
    obtain s2 where s2: "page_remove_pte default_pmm_manager la ?a ?s1 = Inr s2" "no_swap s2" "pt_ok s2 g (free_set (phys s2))"
      "free_set (phys s2) = (if page_ref q ?s1 = 1 then insert q (free_set (phys ?s1)) else free_set (phys ?s1))"
      "leaf s2 g la = Some ?a" "npages (phys s2) = npages (phys ?s1)"
      "\<forall>x. (PDX1 x, PDX0 x, PTX x) \<noteq> (PDX1 la, PDX0 la, PTX la) \<longrightarrow> entry s2 g x = entry ?s1 g x"
      "\<forall>p. p \<notin> free_set (phys s2) \<longrightarrow> page_ref p s2 = page_ref p ?s1 - (if p = q then 1 else 0)"
      using page_remove_pte_ok [OF _ pt1 q1, of ?a] ns q(2,3) u(1) e1 rq False
      by (auto simp: page_ref_inc_simps releasable_inc)
    let ?s' = "put_word ?a (pte_create (page2ppn page) (ucast PTE_V OR perm)) s2"
    have run: "page_insert (Suc f) sm default_pmm_manager g page la perm s = Inr (0, ?s')"
      using hit u False s2(1) by (simp add: page_insert_def Let_def page_ref_inc_simps pte2page_inc del: alloc_pages.simps)
    have r: "\<forall>p. p \<notin> free_set (phys s) \<and> p \<notin> free_set (phys s2) \<longrightarrow>
        page_ref p s2 = page_ref p s + (if p = page then 1 else 0) - (if entry_page s g la = Some p then 1 else 0)"
      using s2(8) q(1) False by (auto simp: page_ref_inc_simps)
    have pn: "page < npages (phys s2)" using pg(1) s2(6) by (simp add: page_ref_inc_simps)
    note M = mapped_write [OF s2(2,3,5) pn perm r]
    show ?thesis using run M s2(6,7) e1 by (intro exI [of _ 0] exI [of _ ?s']) (simp add: page_ref_inc_simps)
  qed
next
  case inval: True
  obtain r s1 where w: "get_pte (alloc_pages (Suc f) sm default_pmm_manager 1) g la True s = Inr (r, s1)"
    "grown no_swap (\<lambda>s. free_set (phys s)) g s s1" "case r of Some a \<Rightarrow> leaf s1 g la = Some a | None \<Rightarrow> True"
    using ff_source.get_pte_ok [OF ns pt, of f sm la] by (fastforce split: option.splits)
  note G = grownD [OF w(2)]
  have n1: "npages (phys s1) = npages (phys s)" using G(7) by auto
  have ref: "page_ref p s1 = page_ref p s" if "p \<notin> free_set (phys s)" for p using G(8) [OF that] by (simp add: page_ref_def)
  show ?thesis
  proof (cases r)
    case None
    have "leaf s g la = None"
    proof (rule ccontr)
      assume "leaf s g la \<noteq> None"
      then obtain a where "leaf s g la = Some a" by auto
      then show False using get_pte_hit [OF pt] w(1) None by (simp del: alloc_pages.simps)
    qed
    moreover have "page_insert (Suc f) sm default_pmm_manager g page la perm s = Inr (- E_NO_MEM, s1)"
      using w(1) None by (simp add: page_insert_def del: alloc_pages.simps)
    ultimately show ?thesis using G(1,2,6) n1 ref
      by (intro exI [of _ "- E_NO_MEM"] exI [of _ s1]) (simp add: errno_defs)
  next
    case (Some a)
    then have l1: "leaf s1 g la = Some a" using w(3) by simp
    let ?s2 = "page_ref_inc page s1"
    have inv1: "get_word a s1 AND PTE_V = 0" using inval G(6) [of la] l1 by (simp add: entry_def)
    let ?s' = "put_word a (pte_create (page2ppn page) (ucast PTE_V OR perm)) ?s2"
    have run: "page_insert (Suc f) sm default_pmm_manager g page la perm s = Inr (0, ?s')"
      using w(1) Some inv1 by (simp add: page_insert_def Let_def page_ref_inc_simps del: alloc_pages.simps)
    have s2: "no_swap ?s2" "pt_ok ?s2 g (free_set (phys ?s2))" "leaf ?s2 g la = Some a" "entry ?s2 g x = entry s g x" for x
      using G(1,2,6) pt_ok_same [of ?s2 s1] leaf_same [of ?s2 s1] l1 by (simp_all add: page_ref_inc_simps)
    have r: "\<forall>p. p \<notin> free_set (phys s) \<and> p \<notin> free_set (phys ?s2) \<longrightarrow>
        page_ref p ?s2 = page_ref p s + (if p = page then 1 else 0) - (if entry_page s g la = Some p then 1 else 0)"
      using ref inval by (auto simp: page_ref_inc_simps entry_page_def)
    have pn: "page < npages (phys ?s2)" using pg(1) n1 by (simp add: page_ref_inc_simps)
    note M = mapped_write [OF s2(1-3) pn perm r]
    show ?thesis using run M s2(4) n1 by (intro exI [of _ 0] exI [of _ ?s']) (simp add: page_ref_inc_simps)
  qed
qed

end
