(* ===== verification/Vm_Laws.thy ===== *)
theory Vm_Laws
  imports Vm_Props
begin

text \<open>
  The properties of the virtual memory of lab3: the areas of an address space, the map of a page
  table, page faults, and the two directions of swapping.
\<close>

subsection \<open>The areas of an address space\<close>

text \<open>An address space with two areas, the second of them in the cache.\<close>

definition demo_mm :: vm where
  "demo_mm =
     \<lparr>phys = demo_frames, mem = (\<lambda>p k. 0), visited = (\<lambda>p. 0), pra_vaddr = (\<lambda>p. 0), pra_links = list_init None \<lparr>lprev = (\<lambda>p. p), lnext = (\<lambda>p. p)\<rparr>,
      curr_ptr = None,
      vmas = (\<lambda>v. \<lparr>vm_mm = 9, vm_start = of_nat (4096 * v), vm_end = of_nat (4096 * v + 4096), vm_flags = VM_WRITE\<rparr>),
      mms = (\<lambda>m. \<lparr>mmap_cache = Some 3, pgdir = Some 4, map_count = 2, sm_priv = Some None\<rparr>),
      vlinks = list_add_before (Inl 9) (Inr 3) (list_add_before (Inl 9) (Inr 1) (list_init (Inl 9) \<lparr>lprev = (\<lambda>p. p), lnext = (\<lambda>p. p)\<rparr>)),
      check_mm_struct = Some 9, swap_init_ok = False, max_swap_offset = 0, ide = (\<lambda>k. 0), pgfault_num = 0\<rparr>"

lemma demo_mm_ok: "mm_ok demo_mm 9 [1, 3]"
  by (auto simp: mm_ok_def demo_mm_def ring_def list_write_defs apart_def)

text \<open>
  C37. The cache of \<open>find_vma\<close> changes no result: with any cached area, or with none, the lookup
  gives the area of the list that contains the address, and \<open>NULL\<close> when there is none; the list
  stays well formed, and the cache is the area that was found.
\<close>

theorem find_vma_spec:
  assumes "mm_ok s m vs" "length vs < fuel"
  shows "\<exists>r s' s''. find_vma fuel (Some m) addr s = Inr (r, s') \<and>
    find_vma fuel (Some m) addr (on_mm m (mmap_cache_update (\<lambda>_. None)) s) = Inr (r, s'') \<and>
    (\<forall>v. r = Some v \<longleftrightarrow> v \<in> set vs \<and> in_vma (vmas s v) addr) \<and> mm_ok s' m vs \<and>
    (r \<noteq> None \<longrightarrow> mmap_cache (mms s' m) = r)"
proof -
  let ?s0 = "on_mm m (mmap_cache_update (\<lambda>_. None)) s"
  have ok0: "mm_ok ?s0 m vs" using assms(1) unfolding mm_ok_def apart_on_mm by (simp add: on_mm_def)
  have v0: "vmas ?s0 = vmas s" by (simp add: on_mm_def)
  let ?r = "find (\<lambda>v. in_vma (vmas s v) addr) vs"
  show ?thesis
    using find_vma_ok [OF assms, of addr] find_vma_ok(1) [OF ok0 assms(2), of addr] find_area [OF assms(1), of addr]
    by (intro exI [of _ ?r] exI [of _ "found m ?r s"] exI [of _ "found m ?r ?s0"]) (simp add: v0)
qed

lemma find_vma_spec_witness:
  "\<exists>r s' s''. find_vma 5 (Some 9) 0x1010 demo_mm = Inr (r, s') \<and>
    find_vma 5 (Some 9) 0x1010 (on_mm 9 (mmap_cache_update (\<lambda>_. None)) demo_mm) = Inr (r, s'') \<and>
    (\<forall>v. r = Some v \<longleftrightarrow> v \<in> set [1, 3] \<and> in_vma (vmas demo_mm v) 0x1010) \<and> mm_ok s' 9 [1, 3] \<and>
    (r \<noteq> None \<longrightarrow> mmap_cache (mms s' 9) = r)"
  by (rule find_vma_spec [OF demo_mm_ok]) simp

lemma split_while:
  "insert x (set (takeWhile P xs) \<union> set (dropWhile P xs)) = insert x (set xs)"
  "length (takeWhile P xs) + length (dropWhile P xs) = length xs"
  by (metis set_append takeWhile_dropWhile_id, metis length_append takeWhile_dropWhile_id)

lemma option_same: "(\<And>w. a = Some w \<longleftrightarrow> b = Some w) \<Longrightarrow> a = b"
  by (cases a; cases b) auto

text \<open>
  Inserting an area: it is refused, with an assertion, exactly when it is empty or overlaps
  an area of the list, although the code looks at its two neighbours only. Otherwise the list
  stays sorted and disjoint, and a lookup gives the new area inside it and what it gave before
  elsewhere.
\<close>

theorem insert_vma_lookup:
  assumes "mm_ok s m vs" "v \<notin> set vs" "length vs < fuel"
  shows "if fits s v vs
    then \<exists>s'. insert_vma_struct fuel m v s = Inr s' \<and> mm_ok s' m (insert_at s v vs) \<and>
      (\<forall>addr. \<exists>s''. find_vma (Suc fuel) (Some m) addr s' =
         Inr (if in_vma (vmas s v) addr then Some v else find (\<lambda>w. in_vma (vmas s w) addr) vs, s''))
    else insert_vma_struct fuel m v s = Inl Assert_Failed"
proof (cases "fits s v vs")
  case True
  obtain s' where s': "insert_vma_struct fuel m v s = Inr s'" "mm_ok s' m (insert_at s v vs)"
    "vmas s' = (vmas s)(v := (vmas s v)\<lparr>vm_mm := m\<rparr>)"
    using insert_vma_ok [OF assms] True by auto
  have same: "in_vma (vmas s' w) a = in_vma (vmas s w) a" for w a by (simp add: s'(3) in_vma_def)
  have sv: "set (insert_at s v vs) = insert v (set vs)" by (simp add: insert_at_def split_while)
  have len: "length (insert_at s v vs) < Suc fuel" using assms(3) by (simp add: insert_at_def split_while)
  have uniq: "w = v" if "in_vma (vmas s v) a" "w \<in> set vs" "in_vma (vmas s w) a" for a w
    using find_area [OF s'(2), of a v, unfolded same sv] find_area [OF s'(2), of a w, unfolded same sv] that by simp
  have "find (\<lambda>w. in_vma (vmas s w) a) (insert_at s v vs) =
      (if in_vma (vmas s v) a then Some v else find (\<lambda>w. in_vma (vmas s w) a) vs)" for a
  proof (rule option_same)
    fix w
    show "find (\<lambda>w. in_vma (vmas s w) a) (insert_at s v vs) = Some w \<longleftrightarrow>
        (if in_vma (vmas s v) a then Some v else find (\<lambda>w. in_vma (vmas s w) a) vs) = Some w"
      using find_area [OF s'(2), of a, unfolded same sv] find_area [OF assms(1), of a]
      by (cases "in_vma (vmas s v) a") (auto dest: uniq)
  qed
  then show ?thesis using True s'(1,2) find_vma_ok(1) [OF s'(2) len] by (auto simp: same)
next
  case False
  then show ?thesis using insert_vma_ok [OF assms] by simp
qed

lemma insert_vma_lookup_witness:
  "\<exists>s'. insert_vma_struct 3 9 2 demo_mm = Inr s' \<and> mm_ok s' 9 [1, 2, 3]"
proof -
  have f: "fits demo_mm 2 [1, 3]" by (simp add: fits_def demo_mm_def apart_def)
  have i: "insert_at demo_mm 2 [1, 3] = [1, 2, 3]" by (simp add: insert_at_def demo_mm_def)
  show ?thesis using insert_vma_lookup [OF demo_mm_ok, of 2 3] f unfolding i by auto
qed

subsection \<open>The map of a page table\<close>










subsection \<open>Page faults\<close>

lemma alloc_one:
  assumes inv: "free_inv (phys s)" and ne: "free_set (phys s) \<noteq> {}"
  shows "\<exists>p ph. alloc_pages (Suc f) sm default_pmm_manager 1 s = Inr (Some p, s\<lparr>phys := ph\<rparr>) \<and> free_inv ph \<and>
    npages ph = npages (phys s) \<and> p \<in> free_set (phys s) \<and> p < npages (phys s) \<and> free_set ph = free_set (phys s) - {p} \<and>
    (\<forall>q. q \<notin> free_set (phys s) \<longrightarrow> pages ph q = pages (phys s) q)"
proof -
  have rel: "free_rel (phys s) (free_blocks (phys s))" using inv by (simp add: free_inv_def)
  have pos: "(0 :: 64 word) < 1" by simp
  obtain r ph where run: "pm_alloc_pages default_pmm_manager 1 (phys s) = Inr (r, ph)" using ff.alloc_returns [OF inv pos] by blast
  have "r \<noteq> None"
  proof
    assume "r = None"
    then have "default_alloc_pages 1 (phys s) = Inr (None, ph)" using run by (simp add: default_pmm_manager_def)
    then have small: "\<forall>bk\<in>set (free_blocks (phys s)). snd bk < 1"
      by (cases rule: default_alloc_cases [OF rel pos]) simp_all
    obtain bk where "bk \<in> set (free_blocks (phys s))" "block_pages bk \<noteq> {}" using ne by (auto simp: free_set_def covered_def)
    then show False using small by (auto simp: block_pages_def)
  qed
  then obtain p where p: "pm_alloc_pages default_pmm_manager 1 (phys s) = Inr (Some p, ph)" using run by auto
  have e: "free_inv ph" "npages ph = npages (phys s)" "p \<in> free_set (phys s)" "free_set ph = free_set (phys s) - {p}"
    using ff.alloc_some [OF inv pos p] by (auto simp: run_pages_1)
  have "\<forall>q. q \<notin> free_set (phys s) \<longrightarrow> pages ph q = pages (phys s) q"
    using default_alloc_effect [OF rel pos, of "Some p" ph] p by (simp add: default_pmm_manager_def free_set_def)
  moreover have "p < npages (phys s)" using free_set_room [OF inv] e(3) by auto
  ultimately show ?thesis using p e by (intro exI [of _ p] exI [of _ ph]) simp
qed








subsection \<open>Swapping\<close>

context swap_policy
begin

lemma swap_out_in:
  assumes ok: "inv m s" "pool s \<noteq> {}" and g: "pgdir (mms s m) = Some g" and pt: "pt_ok s g F"
    and res: "resident g (pool s) s" and free: "free_inv (phys s)"
    and page: "\<And>p. p \<in> pool s \<Longrightarrow> p < npages (phys s) \<and> p \<notin> free_set (phys s) \<and> owned (pages (phys s)) p 1 \<and> may_free (phys s) p"
  shows "\<exists>p s' q s''. swap_out sm default_pmm_manager m 1 False s = Inr (1, s') \<and> p \<in> pool s \<and> inv m s' \<and> pool s' = pool s - {p} \<and>
    free_set (phys s') = insert p (free_set (phys s)) \<and>
    swap_in (Suc f) sm default_pmm_manager m (pra_vaddr s p) s' = Inr (q, s'') \<and> q \<in> free_set (phys s') \<and> q \<notin> free_set (phys s'') \<and>
    (\<forall>k<512. mem s'' q k = mem s p k)"
proof -
  obtain p s' where o: "swap_out sm default_pmm_manager m 1 False s = Inr (1, s')" "p \<in> pool s" "inv m s'" "pool s' = pool s - {p}"
    "entry s' g (pra_vaddr s p) = swap_entry (pra_vaddr s p)" "on_disk s' (swap_entry (pra_vaddr s p)) (mem s p)"
    "free_inv (phys s')" "free_set (phys s') = insert p (free_set (phys s))" "pt_ok s' g F" "mms s' = mms s"
    "max_swap_offset s' = max_swap_offset s"
    using swap_out_one [OF ok g pt res free page] by blast
  let ?v = "pra_vaddr s p"
  have ev: "entry_valid (swap_entry ?v) s" using res o(2) by (simp add: resident_def)
  obtain q ph where q: "alloc_pages (Suc f) sm default_pmm_manager 1 s' = Inr (Some q, s'\<lparr>phys := ph\<rparr>)" "npages ph = npages (phys s')"
    "q \<in> free_set (phys s')" "free_set ph = free_set (phys s') - {q}"
    using alloc_one [OF o(7), of f sm] o(8) by auto
  let ?s1 = "s'\<lparr>phys := ph\<rparr>"
  have pt1: "pt_ok ?s1 g F" "leaf ?s1 g ?v = leaf s' g ?v" using o(9) pt_ok_same [of ?s1 s'] leaf_same [of ?s1 s'] q(2) by simp_all
  obtain a where a: "leaf s' g ?v = Some a"
    using ev o(5) by (cases "leaf s' g ?v") (auto simp: entry_def entry_valid_def dest: sym)
  have w: "get_word a ?s1 = swap_entry ?v" using o(5) a by (simp add: entry_def get_word_def)
  have mx: "max_swap_offset ?s1 = max_swap_offset s" using o(11) by simp
  have "entry_valid (swap_entry ?v) ?s1" using ev unfolding entry_valid_def mx .
  moreover have "on_disk ?s1 (swap_entry ?v) (mem s p)" using o(6) by (simp add: on_disk_def)
  ultimately obtain c where c: "swapfs_read (swap_entry ?v) q ?s1 = Inr (0, ?s1\<lparr>mem := (mem ?s1)(q := c)\<rparr>)" "\<forall>k<512. c k = mem s p k"
    using swapfs_read_ok by blast
  define s2 where "s2 = ?s1\<lparr>mem := (mem ?s1)(q := c)\<rparr>"
  have i: "swap_in (Suc f) sm default_pmm_manager m ?v s' = Inr (q, s2)"
    unfolding s2_def using q(1) g o(10) get_pte_reads [OF pt1(1)] pt1(2) a w c(1)
    by (simp add: swap_in_def with_pgdir_def del: alloc_pages.simps)
  have m: "q \<notin> free_set (phys s2)" "\<forall>k<512. mem s2 q k = mem s p k" using q(4) c(2) by (simp_all add: s2_def)
  show ?thesis
    by (rule exI [of _ p], rule exI [of _ s'], rule exI [of _ q], rule exI [of _ s2]) (intro conjI o i q m)
qed

end

text \<open>
  C33. The clock, which is the manager of the kernel: it passes the pages from the hand on in the
  order of the list; the victim is the first page that is not marked, and the marks of the pages
  passed are cleared; when all are marked, all marks are cleared and the victim is the page the
  hand met first. The victim leaves the list, and the search ends within its fuel.
\<close>

theorem clock_second_chance:
  assumes "clock_ok m s" "pra_pages s \<noteq> []"
  shows "\<exists>v s'. clock_swap_out_victim m False s = Inr (0, Some v, s') \<and> clock_ok m s' \<and> pra_pages s' = remove1 v (pra_pages s) \<and>
    (if \<exists>p\<in>set (pra_pages s). visited s p = 0
     then \<exists>pre post. clock_order s = pre @ v # post \<and> visited s v = 0 \<and> (\<forall>p\<in>set pre. visited s p \<noteq> 0) \<and>
       visited s' = (\<lambda>p. if p \<in> set pre then 0 else visited s p)
     else v = hd (clock_order s) \<and> visited s' = (\<lambda>p. if p \<in> set (pra_pages s) then 0 else visited s p))"
proof -
  let ?P = "\<lambda>p. visited s p \<noteq> 0"
  obtain s' where s': "clock_swap_out_victim m False s = Inr (0, Some (clock_victim s), s')" "clock_ok m s'"
    "pra_pages s' = remove1 (clock_victim s) (pra_pages s)" "visited s' = (\<lambda>p. if p \<in> set (second_chance s) then 0 else visited s p)"
    using clock_victim_ok [OF assms] by blast
  have set: "set (clock_order s) = set (pra_pages s)" by (rule clock_order_ok [OF assms])
  have split: "clock_order s = second_chance s @ dropWhile ?P (clock_order s)" by (simp add: second_chance_def)
  show ?thesis
  proof (cases "dropWhile ?P (clock_order s)")
    case Nil
    then have "\<forall>p\<in>set (pra_pages s). ?P p" using set by (simp add: dropWhile_eq_Nil_conv)
    moreover have "second_chance s = clock_order s" using split Nil by simp
    moreover have v: "clock_victim s = hd (clock_order s)" unfolding clock_victim_def Nil by simp
    ultimately show ?thesis using s' set unfolding v by (intro exI [of _ "hd (clock_order s)"] exI [of _ s']) simp
  next
    case (Cons v ys)
    have v: "clock_victim s = v" using Cons by (simp add: clock_victim_def)
    have z: "visited s v = 0" using hd_dropWhile [of ?P "clock_order s"] Cons by auto
    have co: "clock_order s = second_chance s @ v # ys" using split Cons by simp
    have pre: "\<forall>p\<in>set (second_chance s). ?P p" using set_takeWhileD [of _ ?P "clock_order s"] by (auto simp: second_chance_def)
    have "v \<in> set (pra_pages s)" using co set by auto
    then have ex: "\<exists>p\<in>set (pra_pages s). visited s p = 0" using z by blast
    have "\<exists>pre post. clock_order s = pre @ v # post \<and> visited s v = 0 \<and> (\<forall>p\<in>set pre. ?P p) \<and>
        visited s' = (\<lambda>p. if p \<in> set pre then 0 else visited s p)"
      using co z pre s'(4) by blast
    then show ?thesis using s'(1-3) ex v by (intro exI [of _ v] exI [of _ s']) simp
  qed
qed

text \<open>Pages 4, 1 and 5 in the list, the first of them marked, the hand at the head.\<close>

definition demo_clock :: vm where
  "demo_clock = demo_mm\<lparr>visited := (\<lambda>p. if p = 4 then 1 else 0),
     pra_links := list_add_before None (Some 5) (list_add_before None (Some 1) (list_add_before None (Some 4) (pra_links demo_mm)))\<rparr>"

lemma demo_clock_ok: "clock_ok 9 demo_clock" "pra_pages demo_clock = [4, 1, 5]" "clock_order demo_clock = [4, 1, 5]"
proof -
  let ?l = "pra_links demo_clock"
  have r: "ring ?l None (map Some [4, 1, 5])" by (auto simp: demo_clock_def demo_mm_def ring_def list_write_defs)
  have n: "lnext ?l None = Some 4" "curr_ptr demo_clock = None" by (simp_all add: demo_clock_def demo_mm_def list_write_defs)
  have p: "npages (phys demo_clock) = 8" "sm_priv (mms demo_clock 9) = Some None" using demo_page(2) by (simp_all add: demo_clock_def demo_mm_def)
  have "\<forall>q\<in>set [4, 1, 5]. q < npages (phys demo_clock)" using p(1) by simp
  note I = pra_okI [OF r this p(2), simplified]
  show "pra_pages demo_clock = [4, 1, 5]" using I(2) by simp
  then show "clock_order demo_clock = [4, 1, 5]" "clock_ok 9 demo_clock" using I(1) n
    by (simp_all add: clock_order_def clock_ok_def list_next_def)
qed

lemma clock_second_chance_witness:
  "\<exists>s'. clock_swap_out_victim 9 False demo_clock = Inr (0, Some 1, s') \<and> pra_pages s' = [4, 5] \<and> visited s' 4 = 0"
proof -
  have v: "visited demo_clock p = (if p = 4 then 1 else 0)" for p by (simp add: demo_clock_def)
  have ne: "pra_pages demo_clock \<noteq> []" by (simp add: demo_clock_ok)
  have ex: "\<exists>p\<in>set (pra_pages demo_clock). visited demo_clock p = 0" by (simp add: demo_clock_ok v)
  obtain w s' pre post where s': "clock_swap_out_victim 9 False demo_clock = Inr (0, Some w, s')"
    "pra_pages s' = remove1 w (pra_pages demo_clock)" "clock_order demo_clock = pre @ w # post" "visited demo_clock w = 0"
    "\<forall>p\<in>set pre. visited demo_clock p \<noteq> 0" "visited s' = (\<lambda>p. if p \<in> set pre then 0 else visited demo_clock p)"
    using clock_second_chance [OF demo_clock_ok(1) ne, unfolded if_P [OF ex]] by blast
  have "w \<noteq> 4" "\<forall>p\<in>set pre. p = 4" using s'(4,5) by (auto simp: v split: if_splits)
  then have "pre = [4] \<and> w = 1" using s'(3) unfolding demo_clock_ok by (cases pre; cases "tl pre") auto
  then show ?thesis using s' by (intro exI [of _ s']) (simp add: demo_clock_ok)
qed











end
