(* ===== verification/Slob.thy ===== *)
theory Slob
  imports Pmm_Manager
begin

text \<open>
  The kernel heap of \<open>Lab5/kern/mm/kmalloc.c\<close>: the SLOB allocator, a circular list of free blocks
  sorted by address, and above it \<open>kmalloc\<close>, \<open>kfree\<close> and \<open>ksize\<close>, which take large requests from
  the page allocator. Addresses count units of \<open>sizeof(slob_t)\<close>, 16 bytes, since every block,
  every structure and every page starts at a multiple of it.
\<close>

subsection \<open>State\<close>

text \<open>
  \<open>units\<close> and \<open>nxt\<close> are the fields of \<open>slob_t\<close>, the \<open>bb\<close> fields those of \<open>bigblock_t\<close>, which lies in
  units that \<open>slob_alloc\<close> gave for it: nothing reads these as a \<open>slob_t\<close> before \<open>slob_free\<close> has
  written the size again. \<open>frames\<close> is the state of the page allocator, which is not in Lab5.
\<close>

record 's slob =
  units :: "nat \<Rightarrow> 32 word"
  nxt :: "nat \<Rightarrow> nat"
  slobfree :: nat
  bb_order :: "nat \<Rightarrow> nat"
  bb_pages :: "nat \<Rightarrow> nat"
  bb_next :: "nat \<Rightarrow> nat option"
  bigblocks :: "nat option"
  frames :: 's

definition PAGE_SIZE :: "64 word" where "PAGE_SIZE = 4096"
definition SLOB_UNIT :: "64 word" where "SLOB_UNIT = 16"

definition SLOB_UNITS :: "64 word \<Rightarrow> 64 word" where
  "SLOB_UNITS sz = (sz + SLOB_UNIT - 1) div SLOB_UNIT"

definition BIGBLOCK_SIZE :: "64 word" where "BIGBLOCK_SIZE = 24"

text \<open>The kernel address of a page, from that of the first page of the memory.\<close>

definition page2kva :: "nat \<Rightarrow> nat" where "page2kva p = 0xFFFFFFFFC000000 + 256 * p"
definition kva2page :: "nat \<Rightarrow> nat" where "kva2page a = (a - 0xFFFFFFFFC000000) div 256"

definition slob_get_free_pages :: "'s pmm_manager \<Rightarrow> nat \<Rightarrow> 's slob \<Rightarrow> (nat option \<times> 's slob) res" where
  "slob_get_free_pages mgr order s =
     kbind (pm_alloc_pages mgr (push_bit order 1) (frames s)) (\<lambda>(page, f).
       Inr (map_option page2kva page, s\<lparr>frames := f\<rparr>))"

definition slob_free_pages :: "'s pmm_manager \<Rightarrow> nat \<Rightarrow> nat \<Rightarrow> 's slob \<Rightarrow> 's slob res" where
  "slob_free_pages mgr kva order s =
     kbind (pm_free_pages mgr (kva2page kva) (push_bit order 1) (frames s)) (\<lambda>f. Inr (s\<lparr>frames := f\<rparr>))"

definition set_units :: "nat \<Rightarrow> 32 word \<Rightarrow> 's slob \<Rightarrow> 's slob" where
  "set_units b n s = s\<lparr>units := (units s)(b := n)\<rparr>"

definition set_nxt :: "nat \<Rightarrow> nat \<Rightarrow> 's slob \<Rightarrow> 's slob" where
  "set_nxt b c s = s\<lparr>nxt := (nxt s)(b := c)\<rparr>"

subsection \<open>Freeing a block\<close>

text \<open>The loop that finds the reinsertion point.\<close>

fun free_scan :: "nat \<Rightarrow> nat \<Rightarrow> nat \<Rightarrow> 's slob \<Rightarrow> nat res" where
  "free_scan 0 b cur s = Inl Out_Of_Fuel"
| "free_scan (Suc fuel) b cur s =
     (if b > cur \<and> b < nxt s cur then Inr cur
      else if cur \<ge> nxt s cur \<and> (b > cur \<or> b < nxt s cur) then Inr cur
      else free_scan fuel b (nxt s cur) s)"

definition slob_link :: "nat \<Rightarrow> nat \<Rightarrow> 's slob \<Rightarrow> 's slob" where
  "slob_link b cur s =
     (let s1 = (if b + unat (units s b) = nxt s cur
                then set_nxt b (nxt s (nxt s cur)) (set_units b (units s b + units s (nxt s cur)) s)
                else set_nxt b (nxt s cur) s);
          s2 = (if cur + unat (units s1 cur) = b
                then set_nxt cur (nxt s1 b) (set_units cur (units s1 cur + units s1 b) s1)
                else set_nxt cur b s1)
      in s2\<lparr>slobfree := cur\<rparr>)"

definition slob_free :: "nat \<Rightarrow> nat option \<Rightarrow> 64 word \<Rightarrow> 's slob \<Rightarrow> 's slob res" where
  "slob_free fuel block sz s =
     (case block of
        None \<Rightarrow> Inr s
      | Some b \<Rightarrow>
          let s1 = (if sz \<noteq> 0 then set_units b (ucast (SLOB_UNITS sz)) s else s)
          in kbind (free_scan fuel b (slobfree s1) s1) (\<lambda>cur. Inr (slob_link b cur s1)))"

subsection \<open>Allocating a block\<close>

text \<open>The writes that take \<open>n\<close> units from the block \<open>cur\<close>, in the order of the code.\<close>

definition slob_take :: "32 word \<Rightarrow> nat \<Rightarrow> nat \<Rightarrow> 's slob \<Rightarrow> 's slob" where
  "slob_take n prv cur s =
     (let s1 = (if units s cur = n then set_nxt prv (nxt s cur) s
                else let q = cur + unat n;
                         t1 = set_nxt prv q s;
                         t2 = set_units q (units t1 cur - n) t1;
                         t3 = set_nxt q (nxt t2 cur) t2
                     in set_units cur n t3)
      in s1\<lparr>slobfree := prv\<rparr>)"

text \<open>
  The loop of \<open>slob_alloc\<close>; every caller passes the alignment 0, for which \<open>delta\<close> stays 0. The
  fuel bounds the blocks looked at, and serves the scans of \<open>slob_free\<close>.
\<close>

fun slob_alloc_loop :: "nat \<Rightarrow> 's pmm_manager \<Rightarrow> 64 word \<Rightarrow> nat \<Rightarrow> nat \<Rightarrow> 's slob \<Rightarrow> (nat option \<times> 's slob) res" where
  "slob_alloc_loop 0 mgr sz prv cur s = Inl Out_Of_Fuel"
| "slob_alloc_loop (Suc fuel) mgr sz prv cur s =
     (let n = ucast (SLOB_UNITS sz) in
      if sint n \<le> sint (units s cur) then Inr (Some cur, slob_take n prv cur s)
      else if cur = slobfree s
      then if sz = PAGE_SIZE then Inr (None, s)
           else kbind (slob_get_free_pages mgr 0 s) (\<lambda>(page, s1).
                  case page of
                    None \<Rightarrow> Inr (None, s1)
                  | Some c \<Rightarrow> kbind (slob_free fuel (Some c) PAGE_SIZE s1) (\<lambda>s2.
                      slob_alloc_loop fuel mgr sz (slobfree s2) (nxt s2 (slobfree s2)) s2))
      else slob_alloc_loop fuel mgr sz cur (nxt s cur) s)"

definition slob_alloc :: "nat \<Rightarrow> 's pmm_manager \<Rightarrow> 64 word \<Rightarrow> 's slob \<Rightarrow> (nat option \<times> 's slob) res" where
  "slob_alloc fuel mgr sz s =
     kassert (sz + SLOB_UNIT < PAGE_SIZE)
       (slob_alloc_loop fuel mgr sz (slobfree s) (nxt s (slobfree s)) s)"

subsection \<open>kmalloc, kfree and ksize\<close>

text \<open>The parameter of \<open>find_order\<close> is an \<open>int\<close>.\<close>

function find_order :: "int \<Rightarrow> nat" where
  "find_order sz = (if sz > 4096 then Suc (find_order (sz div 2)) else 0)"
  by auto
termination by (relation "measure nat") auto

declare find_order.simps [simp del]

definition kmalloc :: "nat \<Rightarrow> 's pmm_manager \<Rightarrow> 64 word \<Rightarrow> 's slob \<Rightarrow> (nat option \<times> 's slob) res" where
  "kmalloc fuel mgr sz s =
     (if sz < PAGE_SIZE - SLOB_UNIT
      then kbind (slob_alloc fuel mgr (sz + SLOB_UNIT) s) (\<lambda>(m, s1). Inr (map_option (\<lambda>m. m + 1) m, s1))
      else kbind (slob_alloc fuel mgr BIGBLOCK_SIZE s) (\<lambda>(m, s1).
        case m of
          None \<Rightarrow> Inr (None, s1)
        | Some bb \<Rightarrow>
            let order = find_order (sint (ucast sz :: 32 word));
                s2 = s1\<lparr>bb_order := (bb_order s1)(bb := order)\<rparr>
            in kbind (slob_get_free_pages mgr order s2) (\<lambda>(pages, s3).
                 case pages of
                   Some a \<Rightarrow> Inr (Some a, s3\<lparr>bb_pages := (bb_pages s3)(bb := a), bb_next := (bb_next s3)(bb := bigblocks s3),
                                             bigblocks := Some bb\<rparr>)
                 | None \<Rightarrow> kbind (slob_free fuel (Some bb) BIGBLOCK_SIZE s3) (\<lambda>s4. Inr (None, s4)))))"

text \<open>
  The search in the list of big blocks, with the block before the current one (\<open>None\<close> when
  \<open>last\<close> is \<open>&bigblocks\<close>).
\<close>

fun find_big :: "nat \<Rightarrow> nat \<Rightarrow> nat option \<Rightarrow> nat option \<Rightarrow> 's slob \<Rightarrow> (nat option \<times> nat) option res" where
  "find_big 0 block lst bb s = Inl Out_Of_Fuel"
| "find_big (Suc fuel) block lst bb s =
     (case bb of
        None \<Rightarrow> Inr None
      | Some b \<Rightarrow> if bb_pages s b = block then Inr (Some (lst, b)) else find_big fuel block (Some b) (bb_next s b) s)"

definition unlink_big :: "nat option \<Rightarrow> nat \<Rightarrow> 's slob \<Rightarrow> 's slob" where
  "unlink_big lst b s =
     (case lst of None \<Rightarrow> s\<lparr>bigblocks := bb_next s b\<rparr> | Some p \<Rightarrow> s\<lparr>bb_next := (bb_next s)(p := bb_next s b)\<rparr>)"

definition find_block :: "nat \<Rightarrow> nat \<Rightarrow> 's slob \<Rightarrow> (nat option \<times> nat) option res" where
  "find_block fuel block s = (if block mod 256 = 0 then find_big fuel block None (bigblocks s) s else Inr None)"

definition kfree :: "nat \<Rightarrow> 's pmm_manager \<Rightarrow> nat option \<Rightarrow> 's slob \<Rightarrow> 's slob res" where
  "kfree fuel mgr block s =
     (case block of
        None \<Rightarrow> Inr s
      | Some a \<Rightarrow>
          kbind (find_block fuel a s) (\<lambda>hit.
            case hit of
              Some (lst, bb) \<Rightarrow>
                let s1 = unlink_big lst bb s in
                kbind (slob_free_pages mgr a (bb_order s1 bb) s1) (\<lambda>s2. slob_free fuel (Some bb) BIGBLOCK_SIZE s2)
            | None \<Rightarrow> slob_free fuel (Some (a - 1)) 0 s))"

definition ksize :: "nat \<Rightarrow> nat option \<Rightarrow> 's slob \<Rightarrow> 32 word res" where
  "ksize fuel block s =
     (case block of
        None \<Rightarrow> Inr 0
      | Some a \<Rightarrow>
          kbind (find_block fuel a s) (\<lambda>hit.
            case hit of
              Some (lst, bb) \<Rightarrow> Inr (push_bit (bb_order s bb) 4096)
            | None \<Rightarrow> Inr (units s (a - 1) * 16)))"

definition slob_init :: "nat \<Rightarrow> 's \<Rightarrow> 's slob" where
  "slob_init arena f =
     \<lparr>units = (\<lambda>b. if b = arena then 1 else 0), nxt = (\<lambda>b. if b = arena then arena else 0), slobfree = arena,
      bb_order = (\<lambda>b. 0), bb_pages = (\<lambda>b. 0), bb_next = (\<lambda>b. None), bigblocks = None, frames = f\<rparr>"

end
