(* ===== verification/Slob_Inv.thy ===== *)
theory Slob_Inv
  imports Slob
begin

text \<open>
  The free list of the SLOB allocator as a sorted list of blocks: \<open>slob_alloc\<close> and \<open>slob_free\<close>
  implement the same operations on it as the first fit page allocator, with no two free blocks
  touching.
\<close>

subsection \<open>Circular lists\<close>

text \<open>\<open>path nx a xs b\<close>: from \<open>a\<close>, the pointers lead through \<open>xs\<close> to \<open>b\<close>.\<close>

fun path :: "(nat \<Rightarrow> nat) \<Rightarrow> nat \<Rightarrow> nat list \<Rightarrow> nat \<Rightarrow> bool" where
  "path nx a [] b \<longleftrightarrow> a = b"
| "path nx a (x # xs) b \<longleftrightarrow> a = x \<and> path nx (nx x) xs b"

lemma path_append: "path nx a (xs @ ys) b \<longleftrightarrow> (\<exists>c. path nx a xs c \<and> path nx c ys b)"
  by (induction xs arbitrary: a) auto

lemma path_upd: "x \<notin> set xs \<Longrightarrow> path (nx(x := y)) a xs b = path nx a xs b"
  by (induction xs arbitrary: a) auto

lemma path_cong: "(\<And>x. x \<in> set xs \<Longrightarrow> nx' x = nx x) \<Longrightarrow> path nx' a xs b = path nx a xs b"
  by (induction xs arbitrary: a) auto

lemma path_start: "path nx a xs b \<Longrightarrow> a = hd (xs @ [b])"
  by (cases xs) auto

lemma path_end: "path nx a (xs @ [x]) b \<Longrightarrow> nx x = b"
  by (auto simp: path_append)

text \<open>The free list, with the arena as its first block.\<close>

definition slob_rel :: "nat \<Rightarrow> nat \<Rightarrow> 's slob \<Rightarrow> block list \<Rightarrow> bool" where
  "slob_rel ar hi s bs \<longleftrightarrow>
     (\<exists>cs. bs = (ar, 1) # cs) \<and> sep ar bs hi \<and> gapped bs \<and> path (nxt s) ar (map fst bs) ar \<and>
     (\<forall>bk\<in>set bs. unat (units s (fst bk)) = snd bk) \<and> slobfree s \<in> fst ` set bs \<and> hi < ar + 2 ^ 31"

lemma slob_relD:
  assumes "slob_rel ar hi s bs"
  shows "\<exists>cs. bs = (ar, 1) # cs" "sep ar bs hi" "gapped bs" "path (nxt s) ar (map fst bs) ar"
    "\<And>bk. bk \<in> set bs \<Longrightarrow> unat (units s (fst bk)) = snd bk" "slobfree s \<in> fst ` set bs" "hi < ar + 2 ^ 31"
  using assms unfolding slob_rel_def by blast+

lemma gapped_distinct: "gapped bs \<Longrightarrow> \<forall>bk\<in>set bs. 0 < snd bk \<Longrightarrow> distinct (map fst bs)"
  by (induction bs) fastforce+

lemma sep_pos: "sep lo bs hi \<Longrightarrow> bk \<in> set bs \<Longrightarrow> 0 < snd bk"
  using sep_bounds [of lo bs hi "fst bk" "snd bk"] by simp

lemma slob_distinct: "slob_rel ar hi s bs \<Longrightarrow> distinct (map fst bs)"
  using gapped_distinct sep_pos unfolding slob_rel_def by blast

text \<open>The ring seen from any of its entries.\<close>

lemma ring_from:
  assumes "path nx a (us @ x # vs) a"
  shows "path nx x (x # vs @ us) x" "us = [] \<Longrightarrow> x = a"
proof -
  obtain c where c: "path nx a us c" "path nx c (x # vs) a" using assms by (auto simp: path_append)
  then have "c = x" by simp
  then show "path nx x (x # vs @ us) x" using c by (auto simp: path_append)
  show "x = a" if "us = []" using assms that by simp
qed

subsection \<open>The search for the reinsertion point\<close>

definition stops :: "nat \<Rightarrow> 's slob \<Rightarrow> nat \<Rightarrow> bool" where
  "stops b s x \<longleftrightarrow> (b > x \<and> b < nxt s x) \<or> (x \<ge> nxt s x \<and> (b > x \<or> b < nxt s x))"

lemma free_scan_path:
  "path (nxt s) a (xs @ t # ys) e \<Longrightarrow> \<forall>x\<in>set xs. \<not> stops b s x \<Longrightarrow> stops b s t \<Longrightarrow> length xs < fuel \<Longrightarrow>
   free_scan fuel b a s = Inr t"
proof (induction xs arbitrary: a fuel)
  case Nil
  then show ?case by (cases fuel) (auto simp: stops_def)
next
  case (Cons x xs)
  then show ?case by (cases fuel) (auto simp: stops_def)
qed

lemma below_last:
  assumes rel: "slob_rel ar hi s bs" and b: "ar < b" "b \<notin> fst ` set bs"
  obtains zs c j where "below b bs = zs @ [(c, j)]" "bs = zs @ (c, j) # above b bs" "c < b"
    "\<forall>bk\<in>set (above b bs). b < fst bk" "\<forall>bk\<in>set zs. fst bk < c"
    "nxt s c = hd (map fst (above b bs) @ [ar])" "path (nxt s) (nxt s c) (map fst (above b bs)) ar" "path (nxt s) ar (map fst zs) c"
proof -
  note R = slob_relD [OF rel]
  obtain cs where cs: "bs = (ar, 1) # cs" using R(1) by blast
  have ne: "below b bs \<noteq> []" using b(1) by (simp add: cs below_def)
  obtain zs z where z: "below b bs = zs @ [z]" using ne by (cases "below b bs" rule: rev_cases) auto
  obtain c j where cj: "z = (c, j)" by (cases z)
  have bs: "bs = zs @ (c, j) # above b bs" using below_above [of b bs] z cj by simp
  have p: "path (nxt s) ar (map fst zs @ c # map fst (above b bs)) ar" using R(4) bs by (metis fst_conv list.map(2) map_append)
  have g: "gapped (zs @ (c, j) # above b bs)" using R(3) bs by simp
  show thesis
  proof (rule that [OF z [unfolded cj] bs])
    show "c < b" using below_less [of "(c, j)" b bs] z cj by simp
    show "\<forall>bk\<in>set (above b bs). b < fst bk" using above_greater [OF R(2) b(2)] by blast
    show "\<forall>bk\<in>set zs. fst bk < c" using g by (auto dest: add_lessD1)
    show "path (nxt s) ar (map fst zs) c" "path (nxt s) (nxt s c) (map fst (above b bs)) ar" using p by (auto simp: path_append)
    then show "nxt s c = hd (map fst (above b bs) @ [ar])" by (intro path_start)
  qed
qed

lemma free_scan_ok:
  assumes rel: "slob_rel ar hi s bs" and b: "ar < b" "b \<notin> fst ` set bs" and fuel: "length bs \<le> fuel"
  shows "free_scan fuel b (slobfree s) s = Inr (fst (last (below b bs)))"
proof -
  note R = slob_relD [OF rel]
  obtain zs c j where B: "below b bs = zs @ [(c, j)]" "bs = zs @ (c, j) # above b bs" "c < b"
    "\<forall>bk\<in>set (above b bs). b < fst bk" "\<forall>bk\<in>set zs. fst bk < c"
    "nxt s c = hd (map fst (above b bs) @ [ar])" "path (nxt s) (nxt s c) (map fst (above b bs)) ar" "path (nxt s) ar (map fst zs) c"
    by (rule below_last [OF rel b])
  have arc: "ar \<le> c" using R(1) B(2,5) by (cases zs) auto
  have stop: "stops b s c"
    using B(3,4,6) b(1) arc by (cases "above b bs") (auto simp: stops_def)
  have sorted: "sorted_wrt (<) (map fst bs)" using R(3) sep_pos [OF R(2)]
    by (auto simp: gapped_def sorted_wrt_map elim!: sorted_wrt_mono_rel [rotated])
  have go: "\<not> stops b s x" if x: "x \<in> fst ` set bs" "x \<noteq> c" for x
  proof -
    obtain us vs where uv: "map fst bs = us @ x # vs" using x(1) by (metis image_set split_list)
    have nx: "nxt s x = hd (vs @ [ar])" using R(4) unfolding uv by (auto simp: path_append dest: path_start)
    have lt: "x < nxt s x" if "vs \<noteq> []" using sorted that unfolding uv nx by (cases vs) (auto simp: sorted_wrt_append)
    have "fst ` set bs = fst ` set zs \<union> {c} \<union> fst ` set (above b bs)" by (subst B(2)) auto
    then have side: "y < c \<or> b < y" if "y \<in> fst ` set bs" "y \<noteq> c" for y using that B(4,5) by auto
    show ?thesis
    proof (cases "x < c")
      case True
      have "vs \<noteq> []"
      proof
        assume "vs = []"
        then have "\<forall>y\<in>set (map fst bs). y \<le> x" using sorted unfolding uv by (auto simp: sorted_wrt_append)
        moreover have "c \<in> set (map fst bs)" by (subst B(2)) simp
        ultimately show False using True by auto
      qed
      then have "x < nxt s x" "nxt s x \<le> c"
      proof -
        show "x < nxt s x" using lt \<open>vs \<noteq> []\<close> .
        have "c \<in> set vs" 
        proof -
          have "c \<in> set (us @ x # vs)" using B(2) uv by (metis in_set_conv_decomp list.set_intros(1) map_append list.map(2) fst_conv)
          moreover have "c \<notin> set us" using sorted True unfolding uv by (auto simp: sorted_wrt_append)
          ultimately show ?thesis using True by auto
        qed
        then show "nxt s x \<le> c" using sorted unfolding uv nx by (cases vs) (auto simp: sorted_wrt_append)
      qed
      then show ?thesis using B(3) True by (auto simp: stops_def)
    next
      case False
      then have bx: "b < x" using side [OF x] by simp
      have "nxt s x = ar \<or> x < nxt s x" using lt nx by (cases vs) auto
      then show ?thesis using bx b(1) by (auto simp: stops_def)
    qed
  qed
  obtain us vs where uv: "map fst bs = us @ slobfree s # vs" using R(6) by (metis image_set split_list)
  have p: "path (nxt s) (slobfree s) (slobfree s # vs @ us) (slobfree s)"
    using ring_from(1) [of "nxt s" ar us "slobfree s" vs] R(4) uv by simp
  have same: "set (slobfree s # vs @ us) = fst ` set bs" "length (slobfree s # vs @ us) = length bs"
    using arg_cong [OF uv, of set] arg_cong [OF uv, of length] by auto
  have "c \<in> set (slobfree s # vs @ us)" unfolding same by (subst B(2)) simp
  then obtain xs ys where xy: "slobfree s # vs @ us = xs @ c # ys" "c \<notin> set xs" by (metis split_list_first)
  have "free_scan fuel b (slobfree s) s = Inr c"
  proof (rule free_scan_path)
    show "path (nxt s) (slobfree s) (xs @ c # ys) (slobfree s)" using p xy(1) by simp
    have "set xs \<subseteq> fst ` set bs" using xy(1) same(1) by (metis Un_upper1 set_append)
    then show "\<forall>x\<in>set xs. \<not> stops b s x" using go xy(2) by blast
    show "length xs < fuel" using fuel same(2) unfolding xy(1) by simp
  qed (rule stop)
  then show ?thesis using B(1) by simp
qed

subsection \<open>Linking and taking blocks\<close>

lemma link_next:
  assumes k: "unat (units s b) = k" "b + k \<le> hi" "hi < ar + 2 ^ 31" "ar < b" "0 < k"
    and cs: "sep (b + k) cs hi" "path (nxt s) (hd (map fst cs @ [ar])) (map fst cs) ar" "nxt s cur = hd (map fst cs @ [ar])"
    and un: "\<forall>bk\<in>set cs. unat (units s (fst bk)) = snd bk"
    and s1: "s1 = (if b + unat (units s b) = nxt s cur
                then set_nxt b (nxt s (nxt s cur)) (set_units b (units s b + units s (nxt s cur)) s)
                else set_nxt b (nxt s cur) s)"
  shows "path (nxt s1) b (map fst (join_hd (b, k) cs)) ar" "unat (units s1 b) = snd (hd (join_hd (b, k) cs))"
    "\<forall>bk\<in>set (join_hd (b, k) cs). unat (units s1 (fst bk)) = snd bk" "\<And>x. x \<noteq> b \<Longrightarrow> units s1 x = units s x \<and> nxt s1 x = nxt s x"
    "\<exists>l cs'. join_hd (b, k) cs = (b, l) # cs'"
proof -
  have nb: "b \<notin> fst ` set cs" using sep_bounds [OF cs(1)] k(5) by fastforce
  show "units s1 x = units s x \<and> nxt s1 x = nxt s x" if "x \<noteq> b" for x
    using that by (simp add: s1 set_nxt_def set_units_def)
  have "path (nxt s1) b (map fst (join_hd (b, k) cs)) ar \<and> unat (units s1 b) = snd (hd (join_hd (b, k) cs)) \<and>
    (\<forall>bk\<in>set (join_hd (b, k) cs). unat (units s1 (fst bk)) = snd bk) \<and> (\<exists>l cs'. join_hd (b, k) cs = (b, l) # cs')"
  proof (cases cs)
    case Nil
    then show ?thesis using k cs(3) by (auto simp: s1 set_nxt_def)
  next
    case (Cons x xs)
    obtain c l where x: "x = (c, l)" by (cases x)
    have c: "nxt s cur = c" "unat (units s c) = l" "path (nxt s) (nxt s c) (map fst xs) ar" "c \<noteq> b" "b \<notin> fst ` set xs"
      using cs(2,3) un nb Cons x by auto
    show ?thesis
    proof (cases "b + k = c")
      case True
      have "k + l < 2 ^ 31" using cs(1) sep_bounds [OF cs(1), of c l] True k Cons x by simp
      then have "unat (units s b + units s c) = k + l" using unat_add_less [of "units s b" "units s c"] k(1) c(2) by simp
      moreover have "fst bk \<noteq> b" if "bk \<in> set xs" for bk using c(5) that by force
      ultimately show ?thesis using True c k(1) un Cons x by (auto simp: s1 set_nxt_def set_units_def path_upd)
    next
      case False
      moreover have "fst bk \<noteq> b" if "bk \<in> set xs" for bk using c(5) that by force
      ultimately show ?thesis using c k(1) un Cons x by (auto simp: s1 set_nxt_def set_units_def path_upd)
    qed
  qed
  then show "path (nxt s1) b (map fst (join_hd (b, k) cs)) ar" "unat (units s1 b) = snd (hd (join_hd (b, k) cs))"
    "\<forall>bk\<in>set (join_hd (b, k) cs). unat (units s1 (fst bk)) = snd bk" "\<exists>l cs'. join_hd (b, k) cs = (b, l) # cs'" by blast+
qed

lemma sep_join_hd: "sep lo (xs @ bk # cs) hi \<Longrightarrow> sep lo (xs @ join_hd bk cs) hi"
  by (cases bk; cases cs) (auto simp: sep_append add.assoc)

lemma slob_link_ok:
  assumes rel: "slob_rel ar hi s bs" and b: "ar + 1 < b" "0 < k" "b + k \<le> hi" "{b ..< b + k} \<inter> covered bs = {}"
    and k: "unat (units s b) = k"
  shows "slob_rel ar hi (slob_link b (fst (last (below b bs))) s) (ff_free b k bs)"
    "x \<noteq> b \<Longrightarrow> x \<notin> fst ` set bs \<Longrightarrow> units (slob_link b (fst (last (below b bs))) s) x = units s x"
proof -
  note R = slob_relD [OF rel]
  have nb: "b \<notin> fst ` set bs"
  proof
    assume "b \<in> fst ` set bs"
    then obtain bk where "bk \<in> set bs" "fst bk = b" by auto
    then have "b \<in> covered bs" using sep_pos [OF R(2), of bk] by (auto simp: covered_def block_pages_def)
    then show False using b(2,4) by (auto simp: disjoint_iff)
  qed
  have "ar < b" using b(1) by simp
  then obtain zs c j where B: "below b bs = zs @ [(c, j)]" "bs = zs @ (c, j) # above b bs" "c < b"
    "\<forall>bk\<in>set (above b bs). b < fst bk" "\<forall>bk\<in>set zs. fst bk < c"
    "nxt s c = hd (map fst (above b bs) @ [ar])" "path (nxt s) (nxt s c) (map fst (above b bs)) ar" "path (nxt s) ar (map fst zs) c"
    by (rule below_last [OF rel _ nb])
  define cs where "cs = above b bs"
  note B = B [folded cs_def]
  have sp: "sep ar (below b bs @ (b, k) # cs) hi" unfolding cs_def
    by (rule sep_insert) (use R(2) below_above [of b bs] below_less above_greater [OF R(2) nb] b in auto)
  have sc: "sep (b + k) cs hi" using sp by (simp add: sep_append)
  define s1 where "s1 = (if b + unat (units s b) = nxt s c
      then set_nxt b (nxt s (nxt s c)) (set_units b (units s b + units s (nxt s c)) s) else set_nxt b (nxt s c) s)"
  have un: "\<forall>bk\<in>set cs. unat (units s (fst bk)) = snd bk" "unat (units s c) = j" "\<forall>bk\<in>set zs. unat (units s (fst bk)) = snd bk"
    using R(5) by (auto simp: B(2))
  note L = link_next [OF k b(3) R(7) _ b(2) sc B(7) [unfolded B(6)] B(6) un(1) s1_def]
  obtain l cs' where J: "join_hd (b, k) cs = (b, l) # cs'" using L(5) b(1) by auto
  have cb: "c \<noteq> b" "c \<notin> fst ` set cs'" "\<And>x. x \<in> fst ` set zs \<Longrightarrow> x \<noteq> b \<and> x \<noteq> c"
  proof -
    show "c \<noteq> b" using B(3) by simp
    have "b \<le> fst x" if "x \<in> set cs'" for x
      using join_hd_ends [of x "(b, k)" cs] J B(4) that by auto
    then show "c \<notin> fst ` set cs'" using B(3) by force
    show "x \<noteq> b \<and> x \<noteq> c" if "x \<in> fst ` set zs" for x using that B(3,5) by force
  qed
  have cz: "c \<notin> fst ` set zs" "b \<notin> fst ` set zs" using cb(3) by blast+
  have keep: "units s1 x = units s x" "nxt s1 x = nxt s x" if "x \<noteq> b" for x using L(4) [OF _ that] b(1) by auto
  have zu: "\<forall>bk\<in>set zs. fst bk \<noteq> c \<and> fst bk \<noteq> b \<and> unat (units s1 (fst bk)) = snd bk" using un(3) cz keep(1) by (metis image_eqI)
  have cu: "\<forall>bk\<in>set cs'. fst bk \<noteq> c" using cb(2) by force
  let ?s' = "slob_link b c s"
  have s': "?s' = (if c + j = b then set_nxt c (nxt s1 b) (set_units c (units s1 c + units s1 b) s1) else set_nxt c b s1)\<lparr>slobfree := c\<rparr>"
    using keep [of c] cb(1) un(2) by (simp add: slob_link_def s1_def Let_def)
  have last: "fst (last (below b bs)) = c" using B(1) by simp
  have Lb: "path (nxt s1) b (b # map fst cs') ar" "unat (units s1 b) = l" "\<forall>bk\<in>set cs'. unat (units s1 (fst bk)) = snd bk"
    using L(1-3) J b(1) by auto
  have zpath: "path (nxt s1) ar (map fst zs) c" using B(8) path_cong [of "map fst zs" "nxt s1" "nxt s"] keep(2) cb(3) by simp
  have g: "gapped (ff_free b k bs)" by (rule ff_free_gapped [OF sp [unfolded cs_def] R(3)])
  have "sep ar (zs @ (c, j) # (b, k) # cs) hi" using sp B(1) by simp
  then have seps: "sep ar ((zs @ [(c, j)]) @ join_hd (b, k) cs) hi" "c + j = b \<Longrightarrow> sep ar (zs @ join_hd (c, j + k) cs) hi"
    using sep_join_hd [of ar "zs @ [(c, j)]" "(b, k)" cs hi] sep_join_hd [of ar zs "(c, j + k)" cs hi]
    by (auto simp: sep_append add.assoc)
  show "slob_rel ar hi (slob_link b (fst (last (below b bs))) s) (ff_free b k bs)"
  proof (cases "c + j = b")
    case True
    have J': "join_hd (c, j + k) cs = (c, j + l) # cs'" using J True by (cases cs) (auto split: if_splits)
    have ff: "ff_free b k bs = zs @ (c, j + l) # cs'" using B(1) True J' by (simp add: ff_free_def join_last_def cs_def)
    have zne: "zs \<noteq> []"
    proof
      assume "zs = []"
      then have "(c, j) = (ar, 1)" using R(1) B(2) by auto
      then show False using True b(1) by simp
    qed
    then have hd: "\<exists>ds. ff_free b k bs = (ar, 1) # ds" using R(1) B(2) ff by (cases zs) auto
    have se: "sep ar (zs @ (c, j + l) # cs') hi" using seps(2) [OF True] J' by simp
    then have "j + l < 2 ^ 31" using sep_le [of "c + (j + l)" cs' hi] R(7) sep_bounds [OF se, of c "j + l"] by auto
    then have u: "unat (units s1 c + units s1 b) = j + l" using unat_add_less [of "units s1 c" "units s1 b"] Lb(2) un(2) keep(1) [OF cb(1)] by simp
    have "path (nxt ?s') ar (map fst (ff_free b k bs)) ar"
      unfolding ff s' using zpath Lb(1) cb(1,2) cz True by (auto simp: path_append set_nxt_def set_units_def path_upd)
    moreover have "\<forall>bk\<in>set (ff_free b k bs). unat (units ?s' (fst bk)) = snd bk"
      unfolding ff s' using zu cu Lb(3) u True by (auto simp: set_nxt_def set_units_def)
    ultimately show ?thesis using hd g se R(7) True unfolding last ff by (simp add: slob_rel_def s')
  next
    case False
    have ff: "ff_free b k bs = zs @ (c, j) # (b, l) # cs'" using B(1) False J by (simp add: ff_free_def join_last_def cs_def)
    have hd: "\<exists>ds. ff_free b k bs = (ar, 1) # ds" using R(1) B(2) ff by (cases zs) auto
    have "path (nxt ?s') ar (map fst (ff_free b k bs)) ar"
      unfolding ff s' using zpath Lb(1) cb(1,2) cz False by (auto simp: path_append set_nxt_def path_upd)
    moreover have "\<forall>bk\<in>set (ff_free b k bs). unat (units ?s' (fst bk)) = snd bk"
      unfolding ff s' using zu un(2) keep(1) [OF cb(1)] Lb(2,3) False by (auto simp: set_nxt_def)
    moreover have "sep ar (ff_free b k bs) hi" using seps(1) J ff by simp
    ultimately show ?thesis using hd g R(7) False unfolding last ff by (simp add: slob_rel_def s')
  qed
  show "units (slob_link b (fst (last (below b bs))) s) x = units s x" if "x \<noteq> b" "x \<notin> fst ` set bs"
  proof -
    have "x \<noteq> c" using that(2) B(2) by (metis fst_conv image_eqI in_set_conv_decomp)
    then show ?thesis unfolding last s' using keep(1) that(1) by (simp add: set_nxt_def set_units_def)
  qed
qed

lemma ring_slot:
  assumes "b \<notin> fst ` set bs" "slob_rel ar hi s bs"
  shows "slob_rel ar hi (set_units b n s) bs"
proof -
  have "fst bk \<noteq> b" if "bk \<in> set bs" for bk using assms(1) that by force
  then show ?thesis using assms(2) by (auto simp: slob_rel_def set_units_def)
qed

lemma fresh_head:
  assumes "slob_rel ar hi s bs" "0 < k" "{b ..< b + k} \<inter> covered bs = {}"
  shows "b \<notin> fst ` set bs"
proof
  assume "b \<in> fst ` set bs"
  then obtain bk where "bk \<in> set bs" "fst bk = b" by auto
  then have "b \<in> covered bs" using sep_pos [OF slob_relD(2) [OF assms(1)], of bk] by (auto simp: covered_def block_pages_def)
  then show False using assms(2,3) by (auto simp: disjoint_iff)
qed

lemma slob_link_shape: "\<exists>u n. slob_link b c s = s\<lparr>units := u, nxt := n, slobfree := c\<rparr>"
  by (intro exI [of _ "units (slob_link b c s)"] exI [of _ "nxt (slob_link b c s)"])
    (simp add: slob_link_def set_nxt_def set_units_def Let_def)

text \<open>\<open>slob_free\<close> adds its block to the free list as \<open>ff_free\<close> does.\<close>

lemma slob_free_ok:
  assumes rel: "slob_rel ar hi s bs" and b: "ar + 1 < b" "0 < k" "b + k \<le> hi" "{b ..< b + k} \<inter> covered bs = {}"
    and k: "if sz = 0 then unat (units s b) = k else unat (SLOB_UNITS sz) = k" and fuel: "length bs \<le> fuel"
  shows "\<exists>u n f. slob_free fuel (Some b) sz s = Inr (s\<lparr>units := u, nxt := n, slobfree := f\<rparr>) \<and>
    slob_rel ar hi (s\<lparr>units := u, nxt := n, slobfree := f\<rparr>) (ff_free b k bs) \<and>
    (\<forall>x. x \<noteq> b \<longrightarrow> x \<notin> fst ` set bs \<longrightarrow> u x = units s x)"
proof -
  define s1 where "s1 = (if sz \<noteq> 0 then set_units b (ucast (SLOB_UNITS sz)) s else s)"
  have nb: "b \<notin> fst ` set bs" by (rule fresh_head [OF rel b(2,4)])
  have rel1: "slob_rel ar hi s1 bs" using rel ring_slot [OF nb rel] by (simp add: s1_def)
  have "k < 2 ^ 31" using b(1,3) slob_relD(7) [OF rel] by simp
  then have u1: "unat (units s1 b) = k" using k unat_ucast_64_32 [of "SLOB_UNITS sz"] by (auto simp: s1_def set_units_def)
  have scan: "free_scan fuel b (slobfree s1) s1 = Inr (fst (last (below b bs)))"
    by (rule free_scan_ok [OF rel1 _ nb fuel]) (use b(1) in simp)
  let ?c = "fst (last (below b bs))"
  obtain u n where sh: "slob_link b ?c s1 = s1\<lparr>units := u, nxt := n, slobfree := ?c\<rparr>" using slob_link_shape by blast
  have s1: "s1 = s\<lparr>units := units s1\<rparr>" by (simp add: s1_def set_units_def)
  have eq: "slob_link b ?c s1 = s\<lparr>units := u, nxt := n, slobfree := ?c\<rparr>" unfolding sh by (subst s1) simp
  have run: "slob_free fuel (Some b) sz s = Inr (slob_link b ?c s1)" using scan by (simp add: slob_free_def s1_def [symmetric] Let_def)
  have "u x = units s x" if "x \<noteq> b" "x \<notin> fst ` set bs" for x
    using slob_link_ok(2) [OF rel1 b u1 that] that(1) eq by (simp add: s1_def set_units_def)
  then show ?thesis using run slob_link_ok(1) [OF rel1 b u1] unfolding eq by blast
qed

lemma slob_take_ok:
  assumes rel: "slob_rel ar hi s bs" and bs: "bs = pre @ (t, k) # suf" "pre \<noteq> []" and n: "0 < unat n" "unat n \<le> k"
  shows "\<exists>u nx. slob_take n (fst (last pre)) t s = s\<lparr>units := u, nxt := nx, slobfree := fst (last pre)\<rparr> \<and>
    slob_rel ar hi (s\<lparr>units := u, nxt := nx, slobfree := fst (last pre)\<rparr>) (pre @ carve (unat n) (t, k) @ suf) \<and>
    u t = n \<and> (\<forall>x. x \<notin> {t ..< t + k} \<longrightarrow> u x = units s x)"
proof -
  note R = slob_relD [OF rel]
  obtain zs c j where pre: "pre = zs @ [(c, j)]" using bs(2) by (cases pre rule: rev_cases) auto
  have d: "distinct (map fst bs)" by (rule slob_distinct [OF rel])
  have p: "path (nxt s) ar (map fst zs) c" "nxt s c = t" "path (nxt s) (nxt s t) (map fst suf) ar"
    using R(4) unfolding bs(1) pre by (auto simp: path_append)
  have D: "c \<notin> fst ` set zs" "t \<notin> fst ` set zs" "c \<noteq> t" "c \<notin> fst ` set suf" "t \<notin> fst ` set suf"
    using d unfolding bs(1) pre by auto
  have k: "unat (units s t) = k" using R(5) [of "(t, k)"] by (simp add: bs(1))
  have far: "\<forall>bk\<in>set pre. fst bk < t" "\<forall>bk\<in>set suf. t + k < fst bk" using R(3) unfolding bs(1) by (auto dest: add_lessD1)
  have un: "\<forall>bk\<in>set pre \<union> set suf. unat (units s (fst bk)) = snd bk" using R(5) by (simp add: bs(1))
  have hd: "\<exists>cs. pre @ carve (unat n) (t, k) @ suf = (ar, 1) # cs" using R(1) bs by (cases pre) auto
  have sp: "sep ar pre t" "0 < k" "sep (t + k) suf hi" using R(2) by (simp_all add: bs(1) sep_append)
  have g: "gapped (pre @ carve (unat n) (t, k) @ suf)" using R(3) ff_alloc_gapped bs(1) by blast
  let ?c = "fst (last pre)"
  have c: "?c = c" by (simp add: pre)
  show ?thesis
  proof (cases "units s t = n")
    case True
    then have kn: "k = unat n" using k by simp
    have shape: "slob_take n c t s = s\<lparr>units := units s, nxt := (nxt s)(c := nxt s t), slobfree := c\<rparr>"
      using True by (simp add: slob_take_def set_nxt_def)
    have carve: "carve (unat n) (t, k) = []" by (simp add: carve_def kn)
    have "path ((nxt s)(c := nxt s t)) ar (map fst zs @ c # map fst suf) ar" using p D by (simp add: path_append path_upd)
    moreover have "sep ar (pre @ suf) hi" by (rule sep_join [OF sp(1,3)]) simp
    ultimately have "slob_rel ar hi (s\<lparr>units := units s, nxt := (nxt s)(c := nxt s t), slobfree := c\<rparr>) (pre @ carve (unat n) (t, k) @ suf)"
      using hd g un R(7) unfolding carve by (auto simp: slob_rel_def pre)
    then show ?thesis unfolding c shape using True by (intro exI [of _ "units s"] exI [of _ "(nxt s)(c := nxt s t)"]) simp
  next
    case False
    then have kn: "unat n < k" using k n(2) by (metis le_neq_implies_less word_unat_eq_iff)
    let ?q = "t + unat n"
    let ?u = "(units s)(?q := units s t - n, t := n)"
    let ?x = "(nxt s)(c := ?q, ?q := nxt s t)"
    have q: "?q \<noteq> t" "?q \<noteq> c" "?q \<notin> fst ` set zs" "?q \<notin> fst ` set suf" "\<forall>bk\<in>set pre \<union> set suf. fst bk \<noteq> ?q \<and> fst bk \<noteq> t"
      using far n(1) kn pre by force+
    have shape: "slob_take n c t s = s\<lparr>units := ?u, nxt := ?x, slobfree := c\<rparr>"
      using False q D(3) by (simp add: slob_take_def set_nxt_def set_units_def Let_def)
    have carve: "carve (unat n) (t, k) = [(?q, k - unat n)]" using kn by (simp add: carve_def)
    have "path ?x ar (map fst zs @ c # ?q # map fst suf) ar" using p D q by (auto simp: path_append path_upd)
    moreover have "sep ar (pre @ (?q, k - unat n) # suf) hi" using sp kn by (auto simp: sep_append intro: sep_mono)
    moreover have "unat (units s t - n) = k - unat n" using unat_sub_le [of n "units s t"] n(2) k by simp
    ultimately have "slob_rel ar hi (s\<lparr>units := ?u, nxt := ?x, slobfree := c\<rparr>) (pre @ carve (unat n) (t, k) @ suf)"
      using hd g un q R(7) unfolding carve by (auto simp: slob_rel_def pre)
    then show ?thesis unfolding c shape using q(1) kn by (intro exI [of _ ?u] exI [of _ ?x]) auto
  qed
qed

subsection \<open>The search for a block that is large enough\<close>

definition fit :: "32 word \<Rightarrow> 's slob \<Rightarrow> nat \<Rightarrow> bool" where
  "fit n s x \<longleftrightarrow> sint n \<le> sint (units s x)"

lemma sle_unat:
  assumes "unat (v :: 32 word) < 2 ^ 31" "unat (w :: 32 word) < 2 ^ 31"
  shows "sint v \<le> sint w \<longleftrightarrow> unat v \<le> unat w"
proof -
  have s: "sint u = uint u" if "unat u < 2 ^ 31" for u :: "32 word"
  proof -
    have "int (unat u) < 2 ^ 31" using that by (simp only: of_nat_less_numeral_power_cancel_iff)
    then have "uint u < 2 ^ 31" by simp
    moreover have "- (2 ^ 31) \<le> uint u" by (rule order_trans [OF _ uint_ge_0]) simp
    ultimately have "signed_take_bit 31 (uint u) = uint u" by (intro signed_take_bit_int_eq_self)
    then show ?thesis by (simp add: sint_uint)
  qed
  show ?thesis unfolding s [OF assms(1)] s [OF assms(2)] word_le_nat_alt [symmetric] word_le_def ..
qed

lemma cyc_pred:
  assumes "vs @ us @ [x] = xs @ t # ys"
  shows "\<exists>p q. us @ x # vs = p @ t # q \<and> (p = [] \<or> last p = last (x # xs))"
proof -
  consider w where "vs = xs @ w" "w @ us @ [x] = t # ys" | w where "vs @ w = xs" "us @ [x] = w @ t # ys"
    using assms by (auto simp: append_eq_append_conv2)
  then show ?thesis
  proof cases
    case 1
    show ?thesis
    proof (cases w)
      case Nil
      then show ?thesis using 1 by (cases us) (auto intro: exI [of _ "[]"])
    next
      case (Cons z zs)
      then have "us @ x # vs = (us @ x # xs) @ t # zs" using 1 by simp
      moreover have "last (us @ x # xs) = last (x # xs)" by simp
      ultimately show ?thesis by blast
    qed
  next
    case 2
    have l: "w = [] \<or> last w = last (x # xs)" using 2(1) by auto
    show ?thesis
    proof (cases ys rule: rev_cases)
      case Nil
      then have "us = w \<and> x = t" using 2(2) by simp
      then show ?thesis using l by blast
    next
      case (snoc zs z)
      then have "us = w @ t # zs" using 2(2) by simp
      then have "us @ x # vs = w @ t # (zs @ x # vs)" by simp
      then show ?thesis using l by blast
    qed
  qed
qed

text \<open>What the loop does when no block of the list is large enough.\<close>

definition slob_grow :: "nat \<Rightarrow> 's pmm_manager \<Rightarrow> 64 word \<Rightarrow> 's slob \<Rightarrow> (nat option \<times> 's slob) res" where
  "slob_grow fuel mgr sz s =
     (if sz = PAGE_SIZE then Inr (None, s)
      else kbind (slob_get_free_pages mgr 0 s) (\<lambda>(page, s1).
        case page of
          None \<Rightarrow> Inr (None, s1)
        | Some c \<Rightarrow> kbind (slob_free fuel (Some c) PAGE_SIZE s1) (\<lambda>s2.
            slob_alloc_loop fuel mgr sz (slobfree s2) (nxt s2 (slobfree s2)) s2)))"

lemma alloc_loop_unfold:
  "slob_alloc_loop (Suc fuel) mgr sz prv cur s =
     (if fit (ucast (SLOB_UNITS sz)) s cur then Inr (Some cur, slob_take (ucast (SLOB_UNITS sz)) prv cur s)
      else if cur = slobfree s then slob_grow fuel mgr sz s
      else slob_alloc_loop fuel mgr sz cur (nxt s cur) s)"
  by (simp only: slob_alloc_loop.simps Let_def fit_def slob_grow_def)

lemma alloc_scan_hit:
  "path (nxt s) cur (xs @ t # ys) e \<Longrightarrow> \<forall>x\<in>set xs. \<not> fit (ucast (SLOB_UNITS sz)) s x \<and> x \<noteq> slobfree s \<Longrightarrow>
   fit (ucast (SLOB_UNITS sz)) s t \<Longrightarrow> length xs < fuel \<Longrightarrow>
   slob_alloc_loop fuel mgr sz prv cur s = Inr (Some t, slob_take (ucast (SLOB_UNITS sz)) (last (prv # xs)) t s)"
proof (induction xs arbitrary: prv cur fuel)
  case Nil
  then show ?case by (cases fuel) (auto simp: alloc_loop_unfold simp del: slob_alloc_loop.simps)
next
  case (Cons x xs)
  then obtain f where f: "fuel = Suc f" by (cases fuel) auto
  have "slob_alloc_loop f mgr sz x (nxt s x) s = Inr (Some t, slob_take (ucast (SLOB_UNITS sz)) (last (x # xs)) t s)"
    by (rule Cons.IH) (use Cons.prems f in auto)
  then show ?case using Cons.prems f by (simp add: alloc_loop_unfold del: slob_alloc_loop.simps)
qed

lemma alloc_scan_miss:
  "path (nxt s) cur (xs @ [slobfree s]) e \<Longrightarrow> \<forall>x\<in>set xs. \<not> fit (ucast (SLOB_UNITS sz)) s x \<and> x \<noteq> slobfree s \<Longrightarrow>
   \<not> fit (ucast (SLOB_UNITS sz)) s (slobfree s) \<Longrightarrow>
   slob_alloc_loop (length xs + Suc fuel) mgr sz prv cur s = slob_grow fuel mgr sz s"
proof (induction xs arbitrary: prv cur)
  case Nil
  then show ?case by (simp add: alloc_loop_unfold del: slob_alloc_loop.simps)
next
  case (Cons x xs)
  have "slob_alloc_loop (length xs + Suc fuel) mgr sz x (nxt s x) s = slob_grow fuel mgr sz s"
    by (rule Cons.IH) (use Cons.prems in auto)
  then show ?case using Cons.prems by (simp add: alloc_loop_unfold del: slob_alloc_loop.simps)
qed

text \<open>One round: it takes the first block that fits, after a predecessor in the list, or grows.\<close>

lemma alloc_round:
  assumes rel: "slob_rel ar hi s bs" and n: "1 < unat (ucast (SLOB_UNITS sz) :: 32 word)"
    "unat (ucast (SLOB_UNITS sz) :: 32 word) < 2 ^ 31" and fuel: "fuel = length bs + f"
  shows "(\<exists>pre t k suf. bs = pre @ (t, k) # suf \<and> pre \<noteq> [] \<and> unat (ucast (SLOB_UNITS sz) :: 32 word) \<le> k \<and>
      slob_alloc_loop fuel mgr sz (slobfree s) (nxt s (slobfree s)) s = Inr (Some t, slob_take (ucast (SLOB_UNITS sz)) (fst (last pre)) t s)) \<or>
    ((\<forall>bk\<in>set bs. snd bk < unat (ucast (SLOB_UNITS sz) :: 32 word)) \<and>
      slob_alloc_loop fuel mgr sz (slobfree s) (nxt s (slobfree s)) s = slob_grow f mgr sz s)"
proof -
  let ?n = "ucast (SLOB_UNITS sz) :: 32 word" and ?x = "slobfree s"
  note R = slob_relD [OF rel]
  have big: "snd bk < 2 ^ 31" if "bk \<in> set bs" for bk
    using sep_bounds [OF R(2), of "fst bk" "snd bk"] R(7) that by simp
  have fit: "fit ?n s (fst bk) \<longleftrightarrow> unat ?n \<le> snd bk" if "bk \<in> set bs" for bk
    using sle_unat [OF n(2), of "units s (fst bk)"] R(5) [OF that] big [OF that] by (simp add: fit_def)
  obtain us vs where uv: "map fst bs = us @ ?x # vs" using R(6) by (metis image_set split_list)
  have p: "path (nxt s) ?x (?x # vs @ us) ?x" using ring_from(1) [of "nxt s" ar us ?x vs] R(4) uv by simp
  then have p': "path (nxt s) (nxt s ?x) ((vs @ us) @ [?x]) (nxt s ?x)" by (auto simp: path_append)
  have d: "distinct (us @ ?x # vs)" using slob_distinct [OF rel] uv by simp
  have len: "length bs = length (vs @ us) + 1" using arg_cong [OF uv, of length] by simp
  show ?thesis
  proof (cases "\<exists>y\<in>set (vs @ us @ [?x]). fit ?n s y")
    case False
    have "snd bk < unat ?n" if "bk \<in> set bs" for bk
    proof -
      have "fst bk \<in> set (vs @ us @ [?x])" using that arg_cong [OF uv, of set] by auto
      then show ?thesis using False fit [OF that] by auto
    qed
    moreover have "slob_alloc_loop fuel mgr sz ?x (nxt s ?x) s = slob_grow f mgr sz s"
    proof -
      have e: "fuel = length (vs @ us) + Suc f" using fuel len by simp
      have "\<forall>y\<in>set (vs @ us). \<not> fit ?n s y \<and> y \<noteq> ?x" "\<not> fit ?n s ?x" using False d by auto
      then show ?thesis unfolding e by (rule alloc_scan_miss [OF p'])
    qed
    ultimately show ?thesis by blast
  next
    case True
    then obtain xs t ys where x: "vs @ us @ [?x] = xs @ t # ys" "fit ?n s t" "\<forall>y\<in>set xs. \<not> fit ?n s y"
      using split_list_first_prop [OF True] by blast
    obtain P Q where L: "us @ ?x # vs = P @ t # Q" "P = [] \<or> last P = last (?x # xs)" using cyc_pred [OF x(1)] by blast
    then have "map fst bs = P @ t # Q" using uv by simp
    then obtain pre b suf where bs: "bs = pre @ b # suf" "map fst pre = P" "fst b = t"
      by (auto simp: map_eq_append_conv map_eq_Cons_conv)
    have b: "bs = pre @ (t, snd b) # suf" "unat ?n \<le> snd b" using bs x(2) fit [of b] by auto
    have ne: "pre \<noteq> []" using R(1) b n(1) by auto
    have last: "last (?x # xs) = fst (last pre)" using L(2) bs(2) ne by (auto simp: last_map)
    have nx: "?x \<notin> set xs"
    proof
      assume "?x \<in> set xs"
      moreover have "butlast (vs @ us @ [?x]) = xs @ butlast (t # ys)" unfolding x(1) by (simp add: butlast_append)
      ultimately have "?x \<in> set (vs @ us)" by (simp add: butlast_append)
      then show False using d by auto
    qed
    have "slob_alloc_loop fuel mgr sz ?x (nxt s ?x) s = Inr (Some t, slob_take ?n (last (?x # xs)) t s)"
    proof (rule alloc_scan_hit)
      show "path (nxt s) (nxt s ?x) (xs @ t # ys) (nxt s ?x)" using p' x(1) by simp
      show "\<forall>y\<in>set xs. \<not> fit ?n s y \<and> y \<noteq> ?x" using x(3) nx by auto
      show "length xs < fuel" using arg_cong [OF x(1), of length] fuel len by simp
    qed (rule x(2))
    then show ?thesis using b ne unfolding last by blast
  qed
qed

subsection \<open>The heap above a page allocator\<close>

definition page_units :: "nat set \<Rightarrow> nat set" where
  "page_units P = (\<Union>p\<in>P. {page2kva p ..< page2kva p + 256})"

lemma page2kva_less: "page2kva p + 256 \<le> page2kva q \<longleftrightarrow> p < q"
  by (auto simp: page2kva_def)

lemma kva2page_of [simp]: "kva2page (page2kva p) = p"
  by (simp add: kva2page_def page2kva_def)

lemma page_units_disjoint:
  assumes d: "P \<inter> Q = {}"
  shows "page_units P \<inter> page_units Q = {}"
proof (rule ccontr)
  assume "page_units P \<inter> page_units Q \<noteq> {}"
  then obtain x p q where x: "p \<in> P" "q \<in> Q" "page2kva p \<le> x" "x < page2kva p + 256" "page2kva q \<le> x" "x < page2kva q + 256"
    unfolding page_units_def by (auto simp: disjoint_iff)
  have "\<not> p < q" "\<not> q < p" using x(3-6) page2kva_less [of p q] page2kva_less [of q p] by linarith+
  then have "p = q" by simp
  then show False using x(1,2) d by blast
qed

lemma page_units_simps [simp]:
  "page_units {} = {}" "page_units {p} = {page2kva p ..< page2kva p + 256}"
  "page_units (P \<union> Q) = page_units P \<union> page_units Q" "page_units (insert p P) = {page2kva p ..< page2kva p + 256} \<union> page_units P"
  by (auto simp: page_units_def)

lemma page_units_mono: "P \<subseteq> Q \<Longrightarrow> page_units P \<subseteq> page_units Q"
  by (auto simp: page_units_def)

text \<open>The arena lies below the pages, and no free unit is in a free page.\<close>

definition heap_ok :: "('s \<Rightarrow> bool) \<Rightarrow> ('s \<Rightarrow> nat set) \<Rightarrow> ('s \<Rightarrow> nat) \<Rightarrow> nat \<Rightarrow> 's slob \<Rightarrow> block list \<Rightarrow> bool" where
  "heap_ok iv fset room ar s bs \<longleftrightarrow>
     iv (frames s) \<and> slob_rel ar (page2kva (room (frames s))) s bs \<and> page_units (fset (frames s)) \<inter> covered bs = {} \<and>
     (\<forall>p\<in>fset (frames s). ar + 1 < page2kva p)"

lemma PAGE_units: "unat (SLOB_UNITS PAGE_SIZE) = 256"
  by (simp add: SLOB_UNITS_def PAGE_SIZE_def SLOB_UNIT_def unat_div)

lemma rel_frames: "slob_rel ar hi (s\<lparr>frames := f\<rparr>) bs = slob_rel ar hi s bs"
  by (simp add: slob_rel_def)

lemma carve_covered:
  assumes "sep lo (pre @ (t, k) # suf) hi" "n \<le> k"
  shows "covered (pre @ carve n (t, k) @ suf) = covered (pre @ (t, k) # suf) - {t ..< t + n}"
    "{t ..< t + n} \<subseteq> covered (pre @ (t, k) # suf)"
proof -
  have s: "sep lo pre t" "sep (t + k) suf hi" using assms(1) by (simp_all add: sep_append)
  have "covered pre \<subseteq> {..<t}" "covered suf \<subseteq> {t + k..}" using sep_covered [OF s(1)] sep_covered [OF s(2)] by auto
  then have d: "covered pre \<inter> {t ..< t + n} = {}" "covered suf \<inter> {t ..< t + n} = {}" using assms(2) by (auto simp: disjoint_iff)
  have "{t ..< t + k} - {t ..< t + n} = {t + n ..< t + k}" by auto
  then show "covered (pre @ carve n (t, k) @ suf) = covered (pre @ (t, k) # suf) - {t ..< t + n}"
    using d covered_carve [OF assms(2)] by (auto simp: block_pages_def)
  show "{t ..< t + n} \<subseteq> covered (pre @ (t, k) # suf)" using assms(2) by (auto simp: block_pages_def)
qed

text \<open>A block taken from the list.\<close>

definition taken :: "nat \<Rightarrow> nat \<Rightarrow> nat \<Rightarrow> 's slob \<Rightarrow> block list \<Rightarrow> 's slob \<Rightarrow> block list \<Rightarrow> bool" where
  "taken ar t n s bs s' bs' \<longleftrightarrow>
     {t ..< t + n} \<subseteq> covered bs \<and> covered bs' = covered bs - {t ..< t + n} \<and> unat (units s' t) = n \<and> ar + 1 < t \<and>
     (\<forall>x. x \<notin> covered bs \<longrightarrow> units s' x = units s x) \<and> (\<exists>u m f. s' = s\<lparr>units := u, nxt := m, slobfree := f\<rparr>)"

lemma round_takes:
  assumes rel: "slob_rel ar hi s bs" and bs: "bs = pre @ (t, k) # suf" "pre \<noteq> []" and n: "0 < unat n" "unat n \<le> k"
  shows "\<exists>bs'. slob_rel ar hi (slob_take n (fst (last pre)) t s) bs' \<and> taken ar t (unat n) s bs (slob_take n (fst (last pre)) t s) bs'"
proof -
  obtain u nx where T: "slob_take n (fst (last pre)) t s = s\<lparr>units := u, nxt := nx, slobfree := fst (last pre)\<rparr>"
    "slob_rel ar hi (s\<lparr>units := u, nxt := nx, slobfree := fst (last pre)\<rparr>) (pre @ carve (unat n) (t, k) @ suf)"
    "u t = n" "\<forall>x. x \<notin> {t ..< t + k} \<longrightarrow> u x = units s x" using slob_take_ok [OF rel bs n] by blast
  note R = slob_relD [OF rel]
  note C = carve_covered [OF R(2) [unfolded bs(1)] n(2)]
  obtain pre' where pre: "pre = (ar, 1) # pre'" using R(1) bs by (cases pre) auto
  have "ar + 1 < t" using R(3) unfolding bs(1) pre by simp
  moreover have "{t ..< t + k} \<subseteq> covered bs" by (auto simp: bs(1) block_pages_def)
  moreover have "\<exists>v m f. s\<lparr>units := u, nxt := nx, slobfree := fst (last pre)\<rparr> = s\<lparr>units := v, nxt := m, slobfree := f\<rparr>"
    by (intro exI) (rule refl)
  moreover have "\<forall>x. x \<notin> covered bs \<longrightarrow> u x = units s x" using T(4) calculation(2) by blast
  ultimately have "taken ar t (unat n) s bs (slob_take n (fst (last pre)) t s) (pre @ carve (unat n) (t, k) @ suf)"
    unfolding taken_def T(1) using T(3) C unfolding bs(1) [symmetric] by simp
  then show ?thesis using T(1,2) by auto
qed

text \<open>
  What \<open>slob_alloc\<close> does to the heap: it takes \<open>n\<close> units at \<open>t\<close> out of the free ones and of the
  pages \<open>g\<close> that it got from the page allocator.
\<close>

definition got :: "('s \<Rightarrow> nat set) \<Rightarrow> ('s \<Rightarrow> nat) \<Rightarrow> ('s \<Rightarrow> nat \<Rightarrow> 64 word \<Rightarrow> bool) \<Rightarrow> nat \<Rightarrow> nat \<Rightarrow> nat \<Rightarrow> nat set \<Rightarrow>
    's slob \<Rightarrow> block list \<Rightarrow> 's slob \<Rightarrow> block list \<Rightarrow> bool" where
  "got fset room own ar t n g s bs s' bs' \<longleftrightarrow>
     g \<subseteq> fset (frames s) \<and> fset (frames s') = fset (frames s) - g \<and> room (frames s') = room (frames s) \<and>
     {t ..< t + n} \<subseteq> covered bs \<union> page_units g \<and> covered bs' = (covered bs \<union> page_units g) - {t ..< t + n} \<and>
     unat (units s' t) = n \<and> ar + 1 < t \<and> (\<forall>x. x \<notin> covered bs \<union> page_units g \<longrightarrow> units s' x = units s x) \<and>
     (\<exists>u m f F. s' = s\<lparr>units := u, nxt := m, slobfree := f, frames := F\<rparr>) \<and>
     (\<forall>q k. run_pages (q, k) \<inter> fset (frames s) = {} \<longrightarrow> own (frames s) q k \<longrightarrow> own (frames s') q k)"

lemma ff_free_length: "length (ff_free b k bs) \<le> Suc (length bs)"
proof -
  have "length (below b bs) + length (above b bs) = length bs" using arg_cong [OF below_above [of b bs], of length] by simp
  moreover have "length (join_hd bk cs) \<le> Suc (length cs)" for bk cs by (cases cs) auto
  moreover have "length (fst (join_last as bk)) \<le> length as" for as bk by (simp add: join_last_def)
  moreover obtain as bk where e: "join_last (below b bs) (b, k) = (as, bk)" by (meson surj_pair)
  ultimately have "length as \<le> length (below b bs)" "length (join_hd bk (above b bs)) \<le> Suc (length (above b bs))"
    "length (below b bs) + length (above b bs) = length bs" by (metis fst_conv)+
  then show ?thesis using e by (simp add: ff_free_def)
qed

lemma ff_free_big: "\<exists>bk\<in>set (ff_free b k bs). k \<le> snd bk"
proof -
  have j: "k \<le> snd (snd (join_last as (b, k)))" for as by (simp add: join_last_def)
  have h: "\<exists>x\<in>set (join_hd bk cs). snd bk \<le> snd x" for bk :: block and cs by (cases cs) auto
  obtain as bk where e: "join_last (below b bs) (b, k) = (as, bk)" by (meson surj_pair)
  have "k \<le> snd bk" using j [of "below b bs"] e by simp
  then show ?thesis using h [of bk "above b bs"] e by (auto simp: ff_free_def intro: order_trans)
qed

lemma units_small:
  assumes "16 < unat sz" "unat sz + 16 < 4096"
  shows "unat (ucast (SLOB_UNITS sz) :: 32 word) = unat (SLOB_UNITS sz)" "1 < unat (SLOB_UNITS sz)" "unat (SLOB_UNITS sz) \<le> 256"
    "unat sz \<le> 16 * unat (SLOB_UNITS sz)"
proof -
  have "unat (15 + sz) = unat (15 :: 64 word) + unat sz" by (rule unat_add_less) (use assms in simp)
  then have "unat (15 + sz) = 15 + unat sz" by simp
  then have u: "unat (SLOB_UNITS sz) = (15 + unat sz) div 16" by (simp add: SLOB_UNITS_def SLOB_UNIT_def unat_div)
  then show "1 < unat (SLOB_UNITS sz)" "unat (SLOB_UNITS sz) \<le> 256" "unat sz \<le> 16 * unat (SLOB_UNITS sz)" using assms by auto
  then show "unat (ucast (SLOB_UNITS sz) :: 32 word) = unat (SLOB_UNITS sz)" by (intro unat_ucast_64_32) simp
qed

context page_allocator
begin

lemma slob_alloc_ok:
  assumes h: "heap_ok inv fset room ar s bs" and sz: "16 < unat sz" "unat sz + 16 < 4096" and fuel: "2 * length bs + 1 \<le> fuel"
  shows "(slob_alloc fuel mgr sz s = Inr (None, s) \<and> pm_alloc_pages mgr 1 (frames s) = Inr (None, frames s)) \<or>
    (\<exists>t s' g bs'. slob_alloc fuel mgr sz s = Inr (Some t, s') \<and> heap_ok inv fset room ar s' bs' \<and>
       got fset room own ar t (unat (SLOB_UNITS sz)) g s bs s' bs')"
proof -
  let ?n = "ucast (SLOB_UNITS sz) :: 32 word" and ?hi = "page2kva (room (frames s))"
  note U = units_small [OF sz]
  have H: "inv (frames s)" "slob_rel ar ?hi s bs" "page_units (fset (frames s)) \<inter> covered bs = {}" "\<forall>p\<in>fset (frames s). ar + 1 < page2kva p"
    using h by (simp_all add: heap_ok_def)
  have n: "1 < unat ?n" "unat ?n < 2 ^ 31" using U by simp_all
  have start: "slob_alloc fuel mgr sz s = slob_alloc_loop fuel mgr sz (slobfree s) (nxt s (slobfree s)) s"
  proof -
    have "unat (sz + SLOB_UNIT) = unat sz + unat SLOB_UNIT" by (rule unat_add_less) (use sz in \<open>simp add: SLOB_UNIT_def\<close>)
    then have "sz + SLOB_UNIT < PAGE_SIZE" using sz by (simp add: word_less_nat_alt SLOB_UNIT_def PAGE_SIZE_def)
    then show ?thesis by (simp add: slob_alloc_def)
  qed
  obtain f where f: "fuel = length bs + f" "length bs + 1 \<le> f" using fuel by (metis add.assoc le_Suc_ex mult_2 nat_add_left_cancel_le le_add1)
  show ?thesis
    using alloc_round [OF H(2) n f(1), of mgr]
  proof (elim disjE exE conjE)
    fix pre t k suf
    assume bs: "bs = pre @ (t, k) # suf" "pre \<noteq> []" "unat ?n \<le> k"
      "slob_alloc_loop fuel mgr sz (slobfree s) (nxt s (slobfree s)) s = Inr (Some t, slob_take ?n (fst (last pre)) t s)"
    let ?s' = "slob_take ?n (fst (last pre)) t s"
    obtain bs' where T: "slob_rel ar ?hi ?s' bs'" "taken ar t (unat ?n) s bs ?s' bs'"
      using round_takes [OF H(2) bs(1,2) _ bs(3)] n(1) by auto
    note T' = T(2) [unfolded taken_def]
    have fr: "frames ?s' = frames s" using T' by auto
    have "heap_ok inv fset room ar ?s' bs'" using H T fr by (auto simp: heap_ok_def taken_def)
    moreover have "got fset room own ar t (unat (SLOB_UNITS sz)) {} s bs ?s' bs'"
    proof -
      obtain u m f where "?s' = s\<lparr>units := u, nxt := m, slobfree := f\<rparr>" using T' by blast
      then have "\<exists>u m f F. ?s' = s\<lparr>units := u, nxt := m, slobfree := f, frames := F\<rparr>"
        by (intro exI [of _ u] exI [of _ m] exI [of _ f] exI [of _ "frames s"]) simp
      then show ?thesis using T' fr U(1) by (simp add: got_def)
    qed
    ultimately show ?thesis unfolding start bs(4) by blast
  next
    assume no: "\<forall>bk\<in>set bs. snd bk < unat ?n"
      and run: "slob_alloc_loop fuel mgr sz (slobfree s) (nxt s (slobfree s)) s = slob_grow f mgr sz s"
    have szp: "sz \<noteq> PAGE_SIZE" using sz by (auto simp: PAGE_SIZE_def)
    have one: "(0 :: 64 word) < 1" by simp
    obtain r F where al: "pm_alloc_pages mgr 1 (frames s) = Inr (r, F)" using alloc_returns [OF H(1) one] by blast
    show ?thesis
    proof (cases r)
      case None
      then have F: "F = frames s" using alloc_none [OF H(1) one] al by simp
      have "slob_grow f mgr sz s = Inr (None, s)" using al None F szp by (simp add: slob_grow_def slob_get_free_pages_def)
      then show ?thesis using start run al None F by simp
    next
      case (Some p)
      have A: "inv F" "room F = room (frames s)" "p \<in> fset (frames s)" "fset F = fset (frames s) - {p}"
        using alloc_some [OF H(1) one] al Some by (auto simp: run_pages_def)
      have own: "\<forall>q k. run_pages (q, k) \<inter> fset (frames s) = {} \<longrightarrow> own (frames s) q k \<longrightarrow> own F q k"
        using alloc_frame [OF H(1) one al] by blast
      let ?c = "page2kva p" and ?s1 = "s\<lparr>frames := F\<rparr>"
      have pr: "p < room (frames s)" using fset_room [OF H(1)] A(3) by auto
      have cv: "{?c ..< ?c + 256} \<inter> covered bs = {}"
      proof -
        have "{?c ..< ?c + 256} \<subseteq> page_units (fset (frames s))" using A(3) by (auto simp: page_units_def)
        then show ?thesis using H(3) by blast
      qed
      have ch: "ar + 1 < ?c" "?c + 256 \<le> ?hi" using H(4) A(3) pr page2kva_less by auto
      have rel1: "slob_rel ar ?hi ?s1 bs" using H(2) by (simp add: rel_frames)
      obtain u m l where S: "slob_free f (Some ?c) PAGE_SIZE ?s1 = Inr (?s1\<lparr>units := u, nxt := m, slobfree := l\<rparr>)"
        "slob_rel ar ?hi (?s1\<lparr>units := u, nxt := m, slobfree := l\<rparr>) (ff_free ?c 256 bs)"
        "\<forall>x. x \<noteq> ?c \<longrightarrow> x \<notin> fst ` set bs \<longrightarrow> u x = units ?s1 x"
        using slob_free_ok [OF rel1 ch(1) _ ch(2) cv, of PAGE_SIZE f] f(2) PAGE_units by (auto simp: PAGE_SIZE_def)
      let ?s2 = "?s1\<lparr>units := u, nxt := m, slobfree := l\<rparr>" and ?bs = "ff_free ?c 256 bs"
      have cov2: "covered ?bs = covered bs \<union> page_units {p}" by (simp add: covered_ff_free)
      have "length ?bs \<le> f" using ff_free_length [of ?c 256 bs] f(2) by simp
      then obtain f2 where f2: "f = length ?bs + f2" using le_Suc_ex by blast
      obtain bk where "bk \<in> set ?bs" "256 \<le> snd bk" using ff_free_big by blast
      then have big: "\<not> (\<forall>bk\<in>set ?bs. snd bk < unat ?n)" using U(1,3) by (metis linorder_not_less order_trans)
      obtain pre t k suf where bs: "?bs = pre @ (t, k) # suf" "pre \<noteq> []" "unat ?n \<le> k"
        "slob_alloc_loop f mgr sz (slobfree ?s2) (nxt ?s2 (slobfree ?s2)) ?s2 = Inr (Some t, slob_take ?n (fst (last pre)) t ?s2)"
        using alloc_round [OF S(2) n f2, of mgr] big by blast
      let ?s' = "slob_take ?n (fst (last pre)) t ?s2"
      obtain bs' where T: "slob_rel ar ?hi ?s' bs'" "taken ar t (unat ?n) ?s2 ?bs ?s' bs'"
        using round_takes [OF S(2) bs(1,2) _ bs(3)] n(1) by auto
      have T': "{t ..< t + unat ?n} \<subseteq> covered ?bs" "covered bs' = covered ?bs - {t ..< t + unat ?n}" "unat (units ?s' t) = unat ?n" "ar + 1 < t"
        "\<forall>x. x \<notin> covered ?bs \<longrightarrow> units ?s' x = u x" "\<exists>u m l. ?s' = ?s2\<lparr>units := u, nxt := m, slobfree := l\<rparr>"
        using T(2) by (simp_all add: taken_def)
      obtain u' m' l' where sh: "?s' = ?s2\<lparr>units := u', nxt := m', slobfree := l'\<rparr>" using T'(6) by blast
      have fr: "frames ?s' = F" by (simp add: sh)
      have run2: "slob_alloc fuel mgr sz s = Inr (Some t, ?s')"
        using start run al Some szp S(1) bs(4) by (simp add: slob_grow_def slob_get_free_pages_def)
      have heads: "fst ` set bs \<subseteq> covered bs"
        using sep_pos [OF slob_relD(2) [OF H(2)]] by (force simp: covered_def block_pages_def)
      have dp: "page_units (fset (frames s) - {p}) \<inter> page_units {p} = {}" by (rule page_units_disjoint) simp
      moreover have "page_units (fset (frames s) - {p}) \<inter> covered bs = {}" using H(3) page_units_mono [of "fset (frames s) - {p}" "fset (frames s)"] by blast
      ultimately have "page_units (fset F) \<inter> covered bs' = {}" unfolding T'(2) cov2 A(4) by blast
      then have "heap_ok inv fset room ar ?s' bs'" using A(1,2,4) H(4) T(1) unfolding heap_ok_def fr by simp
      moreover have "got fset room own ar t (unat (SLOB_UNITS sz)) {p} s bs ?s' bs'"
      proof -
        have "\<exists>u m f F. ?s' = s\<lparr>units := u, nxt := m, slobfree := f, frames := F\<rparr>"
          by (intro exI [of _ u'] exI [of _ m'] exI [of _ l'] exI [of _ F]) (simp add: sh)
        moreover have "units ?s' x = units s x" if "x \<notin> covered bs \<union> page_units {p}" for x
        proof -
          have "x \<noteq> ?c" "x \<notin> fst ` set bs" using that heads by auto
          then show ?thesis using T'(5) cov2 that S(3) by simp
        qed
        ultimately show ?thesis using A(2,3,4) T'(1-4) own U(1) unfolding got_def fr cov2 by auto
      qed
      ultimately show ?thesis using run2 by blast
    qed
  qed
qed

end

end
