(* ===== verification/Kheap.thy ===== *)
theory Kheap
  imports Slob_Inv
begin

text \<open>
  \<open>kmalloc\<close> and \<open>kfree\<close> of Lab5 above any page allocator that keeps the contract of
  \<open>page_allocator\<close>: the regions in use never overlap each other, the free list or the free pages.
\<close>

subsection \<open>The heap with its regions in use\<close>

text \<open>
  \<open>A\<close> holds the blocks in use, with their headers and including the \<open>bigblock_t\<close> structures; \<open>G\<close>
  is the list of big blocks: the structure, the first page, and the order. The header of a block in
  use holds its size, except for the blocks at \<open>X\<close>, which are structures of big blocks.
\<close>

definition used :: "(nat \<times> nat) set \<Rightarrow> nat set" where
  "used A = (\<Union>bk\<in>A. block_pages bk)"

definition big_run :: "nat \<times> nat \<times> nat \<Rightarrow> nat set" where
  "big_run g = run_pages (fst (snd g), push_bit (snd (snd g)) 1)"

definition big_units :: "(nat \<times> nat \<times> nat) set \<Rightarrow> nat set" where
  "big_units G = page_units (\<Union>g\<in>G. big_run g)"

fun bigs :: "'s slob \<Rightarrow> nat option \<Rightarrow> (nat \<times> nat \<times> nat) list \<Rightarrow> bool" where
  "bigs s q [] \<longleftrightarrow> q = None"
| "bigs s q ((bb, p, k) # G) \<longleftrightarrow> q = Some bb \<and> bb_pages s bb = page2kva p \<and> bb_order s bb = k \<and> bigs s (bb_next s bb) G"

definition live :: "('s \<Rightarrow> nat) \<Rightarrow> nat \<Rightarrow> 's slob \<Rightarrow> (nat \<times> nat) set \<Rightarrow> nat set \<Rightarrow> (nat \<times> nat \<times> nat) list \<Rightarrow> bool" where
  "live room ar s A X G \<longleftrightarrow>
     (\<forall>bk\<in>A. ar + 1 < fst bk \<and> 2 \<le> snd bk \<and> fst bk + snd bk \<le> page2kva (room (frames s))) \<and>
     (\<forall>x\<in>A. \<forall>y\<in>A. x \<noteq> y \<longrightarrow> block_pages x \<inter> block_pages y = {}) \<and>
     (\<forall>bk\<in>A. fst bk \<notin> X \<longrightarrow> unat (units s (fst bk)) = snd bk) \<and>
     bigs s (bigblocks s) G \<and> distinct (map fst G) \<and> (\<forall>g\<in>set G. (fst g, 2) \<in> A \<and> snd (snd g) < 32) \<and>
     (\<forall>g\<in>set G. \<forall>h\<in>set G. g \<noteq> h \<longrightarrow> big_run g \<inter> big_run h = {}) \<and>
     (\<forall>g\<in>set G. ar + 1 < page2kva (fst (snd g)))"

definition client_ok :: "('s \<Rightarrow> bool) \<Rightarrow> ('s \<Rightarrow> nat set) \<Rightarrow> ('s \<Rightarrow> nat) \<Rightarrow> ('s \<Rightarrow> nat \<Rightarrow> 64 word \<Rightarrow> bool) \<Rightarrow> nat \<Rightarrow> 's slob \<Rightarrow>
    (nat \<times> nat) set \<Rightarrow> nat set \<Rightarrow> (nat \<times> nat \<times> nat) list \<Rightarrow> bool" where
  "client_ok iv fset room own ar s A X G \<longleftrightarrow> live room ar s A X G \<and>
     (\<forall>g\<in>set G. big_run g \<subseteq> {..<room (frames s)} \<and> big_run g \<inter> fset (frames s) = {} \<and>
        own (frames s) (fst (snd g)) (push_bit (snd (snd g)) 1)) \<and>
     (\<exists>bs. heap_ok iv fset room ar s bs \<and> used A \<inter> (covered bs \<union> page_units (fset (frames s)) \<union> big_units (set G)) = {} \<and>
        covered bs \<inter> big_units (set G) = {})"

lemma liveD:
  assumes "live room ar s A X G"
  shows "\<And>bk. bk \<in> A \<Longrightarrow> ar + 1 < fst bk \<and> 2 \<le> snd bk \<and> fst bk + snd bk \<le> page2kva (room (frames s))"
    "\<And>x y. x \<in> A \<Longrightarrow> y \<in> A \<Longrightarrow> x \<noteq> y \<Longrightarrow> block_pages x \<inter> block_pages y = {}"
    "\<And>bk. bk \<in> A \<Longrightarrow> fst bk \<notin> X \<Longrightarrow> unat (units s (fst bk)) = snd bk"
    "bigs s (bigblocks s) G" "distinct (map fst G)" "\<And>g. g \<in> set G \<Longrightarrow> (fst g, 2) \<in> A \<and> snd (snd g) < 32"
    "\<And>g h. g \<in> set G \<Longrightarrow> h \<in> set G \<Longrightarrow> g \<noteq> h \<Longrightarrow> big_run g \<inter> big_run h = {}"
    "\<And>g. g \<in> set G \<Longrightarrow> ar + 1 < page2kva (fst (snd g))"
  using assms unfolding live_def by blast+

lemma client_okD:
  assumes "client_ok iv fset room own ar s A X G"
  shows "live room ar s A X G" "\<And>g. g \<in> set G \<Longrightarrow> big_run g \<subseteq> {..<room (frames s)}" "\<And>g. g \<in> set G \<Longrightarrow> big_run g \<inter> fset (frames s) = {}"
    "\<And>g. g \<in> set G \<Longrightarrow> own (frames s) (fst (snd g)) (push_bit (snd (snd g)) 1)"
    "\<exists>bs. heap_ok iv fset room ar s bs \<and> used A \<inter> (covered bs \<union> page_units (fset (frames s)) \<union> big_units (set G)) = {} \<and>
        covered bs \<inter> big_units (set G) = {}"
  using assms unfolding client_ok_def by blast+

lemma used_simps [simp]: "used (insert bk A) = block_pages bk \<union> used A"
  by (simp add: used_def)

lemma big_units_simps [simp]: "big_units {} = {}" "big_units (insert g G) = page_units (big_run g) \<union> big_units G"
  by (simp_all add: big_units_def page_units_def)

lemma big_units_free:
  assumes "\<And>g. g \<in> G \<Longrightarrow> big_run g \<inter> P = {}"
  shows "big_units G \<inter> page_units P = {}"
  unfolding big_units_def by (rule page_units_disjoint) (use assms in blast)

lemma bigs_cong:
  assumes "bb_pages s' = bb_pages s" "bb_order s' = bb_order s" "bb_next s' = bb_next s"
  shows "bigs s' q G = bigs s q G"
  by (induction G arbitrary: q) (auto simp: assms)

lemma block_head: "0 < snd bk \<Longrightarrow> fst bk \<in> block_pages bk"
  by (simp add: block_pages_def)

lemma page_units_below: "P \<subseteq> {..<n} \<Longrightarrow> page_units P \<subseteq> {..<page2kva n}"
proof
  fix x assume a: "P \<subseteq> {..<n}" "x \<in> page_units P"
  then obtain p where "p < n" "x < page2kva p + 256" by (auto simp: page_units_def)
  then show "x \<in> {..<page2kva n}" using page2kva_less [of p n] by simp
qed

context page_allocator
begin

text \<open>Taking a block keeps the heap well formed and adds it to the blocks in use.\<close>

lemma client_alloc:
  assumes c: "client_ok inv fset room own ar s A X G" and sz: "16 < unat sz" "unat sz + 16 < 4096"
    and fuel: "2 * (page2kva (room (frames s)) - ar) + 1 \<le> fuel"
  shows "(slob_alloc fuel mgr sz s = Inr (None, s) \<and> pm_alloc_pages mgr 1 (frames s) = Inr (None, frames s)) \<or>
    (\<exists>t s'. slob_alloc fuel mgr sz s = Inr (Some t, s') \<and> room (frames s') = room (frames s) \<and>
       client_ok inv fset room own ar s' (insert (t, unat (SLOB_UNITS sz)) A) X G \<and>
       t \<notin> used A \<and> (\<exists>u m f F. s' = s\<lparr>units := u, nxt := m, slobfree := f, frames := F\<rparr>))"
proof -
  let ?n = "unat (SLOB_UNITS sz)" and ?hi = "page2kva (room (frames s))"
  note L = liveD [OF client_okD(1) [OF c]] and P = client_okD(2-4) [OF c]
  obtain bs where bs: "heap_ok inv fset room ar s bs" "used A \<inter> (covered bs \<union> page_units (fset (frames s)) \<union> big_units (set G)) = {}"
    "covered bs \<inter> big_units (set G) = {}" using client_okD(5) [OF c] by blast
  have H: "inv (frames s)" "slob_rel ar ?hi s bs" using bs(1) by (simp_all add: heap_ok_def)
  note R = slob_relD [OF H(2)]
  have "length bs \<le> ?hi - ar" using sep_length [OF R(2)] by simp
  then have f: "2 * length bs + 1 \<le> fuel" using fuel by simp
  show ?thesis using slob_alloc_ok [OF bs(1) sz f]
  proof (elim disjE exE conjE)
    fix t s' g bs'
    assume run: "slob_alloc fuel mgr sz s = Inr (Some t, s')" and h': "heap_ok inv fset room ar s' bs'"
      and g: "got fset room own ar t ?n g s bs s' bs'"
    have G: "g \<subseteq> fset (frames s)" "fset (frames s') = fset (frames s) - g" "room (frames s') = room (frames s)"
      "{t ..< t + ?n} \<subseteq> covered bs \<union> page_units g" "covered bs' = (covered bs \<union> page_units g) - {t ..< t + ?n}"
      "unat (units s' t) = ?n" "ar + 1 < t" "\<forall>x. x \<notin> covered bs \<union> page_units g \<longrightarrow> units s' x = units s x"
      "\<exists>u m f F. s' = s\<lparr>units := u, nxt := m, slobfree := f, frames := F\<rparr>"
      "\<forall>q k. run_pages (q, k) \<inter> fset (frames s) = {} \<longrightarrow> own (frames s) q k \<longrightarrow> own (frames s') q k"
      using g by (auto simp: got_def)
    have pg: "page_units g \<subseteq> page_units (fset (frames s))" by (rule page_units_mono [OF G(1)])
    have bu: "big_units (set G) \<inter> page_units (fset (frames s)) = {}" by (rule big_units_free) (rule P(2))
    have new: "block_pages (t, ?n) = {t ..< t + ?n}" by (simp add: block_pages_def)
    have n2: "1 < ?n" by (rule units_small(2) [OF sz])
    have dis: "block_pages (t, ?n) \<inter> used A = {}" "block_pages (t, ?n) \<inter> big_units (set G) = {}"
      using G(4) pg bs(2,3) bu unfolding new by blast+
    have top: "t + ?n \<le> ?hi"
    proof -
      have "covered bs \<subseteq> {..<?hi}" using sep_covered [OF R(2)] by auto
      moreover have "page_units g \<subseteq> {..<?hi}" using page_units_below [of g] G(1) fset_room [OF H(1)] by (metis order_trans)
      moreover have "t + ?n - 1 \<in> {t ..< t + ?n}" using n2 by simp
      ultimately have "t + ?n - 1 \<in> {..<?hi}" using G(4) by blast
      then show ?thesis using n2 by simp
    qed
    obtain u m f F where sh: "s' = s\<lparr>units := u, nxt := m, slobfree := f, frames := F\<rparr>" using G(9) by blast
    have bb: "bigs s' q G = bigs s q G" "bigblocks s' = bigblocks s" for q by (rule bigs_cong; simp add: sh)+ (simp add: sh)
    have keep: "units s' (fst bk) = units s (fst bk)" if "bk \<in> A" for bk
    proof -
      have "fst bk \<in> used A" using that L(1) [OF that] by (force simp: used_def block_pages_def)
      then show ?thesis using G(8) bs(2) pg by blast
    qed
    have "t \<in> {t ..< t + ?n}" using n2 by simp
    then have t: "t \<notin> used A" using dis(1) unfolding new by blast
    have "live room ar s' (insert (t, ?n) A) X G" unfolding live_def bb G(3)
    proof (intro conjI ballI impI)
      fix x y assume a: "x \<in> insert (t, ?n) A" "y \<in> insert (t, ?n) A" "x \<noteq> y"
      have "block_pages (t, ?n) \<inter> block_pages z = {}" if "z \<in> A" for z using dis(1) that by (auto simp: used_def)
      then show "block_pages x \<inter> block_pages y = {}" using a L(2) [of x y] by blast
    next
      fix bk assume "bk \<in> insert (t, ?n) A" "fst bk \<notin> X"
      then show "unat (units s' (fst bk)) = snd bk" using G(6) L(3) [of bk] keep [of bk] by auto
    qed (use L top n2 G(7) in auto)
    moreover have "used (insert (t, ?n) A) \<inter> (covered bs' \<union> page_units (fset (frames s')) \<union> big_units (set G)) = {}"
      "covered bs' \<inter> big_units (set G) = {}"
    proof -
      have "page_units (fset (frames s')) \<inter> page_units g = {}" unfolding G(2) by (rule page_units_disjoint) blast
      moreover have "page_units (fset (frames s')) \<subseteq> page_units (fset (frames s))" unfolding G(2) by (rule page_units_mono) blast
      moreover have "page_units (fset (frames s)) \<inter> covered bs = {}" using bs(1) by (simp add: heap_ok_def)
      ultimately show "used (insert (t, ?n) A) \<inter> (covered bs' \<union> page_units (fset (frames s')) \<union> big_units (set G)) = {}"
        using dis(2) bs(2) G(4,5) pg unfolding used_simps new by blast
      show "covered bs' \<inter> big_units (set G) = {}" using G(5) pg bs(3) bu by blast
    qed
    moreover have "big_run h \<subseteq> {..<room (frames s')} \<and> big_run h \<inter> fset (frames s') = {} \<and>
        own (frames s') (fst (snd h)) (push_bit (snd (snd h)) 1)" if "h \<in> set G" for h
    proof (intro conjI)
      show "own (frames s') (fst (snd h)) (push_bit (snd (snd h)) 1)" using P(2,3) [OF that] G(10) by (simp add: big_run_def)
      show "big_run h \<inter> fset (frames s') = {}" using P(2) [OF that] G(2) by blast
      show "big_run h \<subseteq> {..<room (frames s')}" using P(1) [OF that] G(3) by simp
    qed
    ultimately have "client_ok inv fset room own ar s' (insert (t, ?n) A) X G" using h' unfolding client_ok_def by blast
    then show ?thesis using run G(3,9) t by blast
  qed blast
qed

end

lemma blockD: "(b, k) \<in> A \<Longrightarrow> {b ..< b + k} \<subseteq> used A"
  by (auto simp: used_def block_pages_def)

lemma client_free:
  assumes c: "client_ok iv fset room own ar s A X G" and bk: "(b, k) \<in> A" "\<And>g. g \<in> set G \<Longrightarrow> fst g \<noteq> b"
    and k: "if sz = 0 then b \<notin> X else unat (SLOB_UNITS sz) = k" and fuel: "page2kva (room (frames s)) - ar \<le> fuel"
  shows "\<exists>s'. slob_free fuel (Some b) sz s = Inr s' \<and> client_ok iv fset room own ar s' (A - {(b, k)}) X G \<and> frames s' = frames s"
proof -
  let ?hi = "page2kva (room (frames s))"
  note L = liveD [OF client_okD(1) [OF c]] and P = client_okD(2-4) [OF c]
  obtain bs where bs: "heap_ok iv fset room ar s bs" "used A \<inter> (covered bs \<union> page_units (fset (frames s)) \<union> big_units (set G)) = {}"
    "covered bs \<inter> big_units (set G) = {}" using client_okD(5) [OF c] by blast
  have H: "slob_rel ar ?hi s bs" using bs(1) by (simp add: heap_ok_def)
  note R = slob_relD [OF H]
  have B: "ar + 1 < b" "2 \<le> k" "b + k \<le> ?hi" using L(1) [OF bk(1)] by simp_all
  have cv: "{b ..< b + k} \<inter> covered bs = {}" using blockD [OF bk(1)] bs(2) by blast
  have u: "if sz = 0 then unat (units s b) = k else unat (SLOB_UNITS sz) = k" using k L(3) [OF bk(1)] by auto
  have f: "length bs \<le> fuel" using sep_length [OF R(2)] fuel by simp
  obtain un n l where S: "slob_free fuel (Some b) sz s = Inr (s\<lparr>units := un, nxt := n, slobfree := l\<rparr>)"
    "slob_rel ar ?hi (s\<lparr>units := un, nxt := n, slobfree := l\<rparr>) (ff_free b k bs)"
    "\<forall>x. x \<noteq> b \<longrightarrow> x \<notin> fst ` set bs \<longrightarrow> un x = units s x"
    using slob_free_ok [OF H B(1) _ B(3) cv u f] B(2) by auto
  let ?s' = "s\<lparr>units := un, nxt := n, slobfree := l\<rparr>" and ?A = "A - {(b, k)}"
  have cov: "covered (ff_free b k bs) = covered bs \<union> {b ..< b + k}" by (rule covered_ff_free)
  have rest: "used ?A \<inter> {b ..< b + k} = {}" "used ?A \<subseteq> used A"
  proof -
    have "block_pages x \<inter> {b ..< b + k} = {}" if "x \<in> ?A" for x
      using L(2) [of x "(b, k)"] bk(1) that by (simp add: block_pages_def)
    then show "used ?A \<inter> {b ..< b + k} = {}" by (auto simp: used_def)
  qed (auto simp: used_def)
  have heads: "fst ` set bs \<subseteq> covered bs" using sep_pos [OF R(2)] by (force simp: covered_def block_pages_def)
  have keep: "un (fst x) = units s (fst x)" if "x \<in> ?A" for x
  proof -
    have "fst x \<in> used ?A" using that L(1) [of x] by (force simp: used_def block_pages_def)
    then have "fst x \<noteq> b" "fst x \<notin> covered bs" using rest bs(2) B(2) by auto
    then show ?thesis using S(3) heads by blast
  qed
  have bb: "bigs ?s' q G = bigs s q G" for q by (rule bigs_cong) simp_all
  have "live room ar ?s' ?A X G" unfolding live_def
  proof (intro conjI ballI impI)
    fix x assume "x \<in> ?A" "fst x \<notin> X"
    then show "unat (units ?s' (fst x)) = snd x" using L(3) [of x] keep [of x] by simp
  next
    fix g assume g: "g \<in> set G"
    then have "(fst g, 2) \<noteq> (b, k)" using bk(2) by auto
    then show "(fst g, 2) \<in> ?A" using L(6) [OF g] by simp
  qed (use L bb in auto)
  moreover have "heap_ok iv fset room ar ?s' (ff_free b k bs)"
  proof -
    have "page_units (fset (frames s)) \<inter> {b ..< b + k} = {}" using blockD [OF bk(1)] bs(2) by blast
    then show ?thesis using bs(1) S(2) cov by (auto simp: heap_ok_def)
  qed
  moreover have "used ?A \<inter> (covered (ff_free b k bs) \<union> page_units (fset (frames s)) \<union> big_units (set G)) = {}"
    using rest bs(2) unfolding cov by blast
  moreover have "covered (ff_free b k bs) \<inter> big_units (set G) = {}" using bs(2,3) blockD [OF bk(1)] unfolding cov by blast
  moreover have "\<forall>g\<in>set G. big_run g \<subseteq> {..<room (frames ?s')} \<and> big_run g \<inter> fset (frames ?s') = {} \<and>
      own (frames ?s') (fst (snd g)) (push_bit (snd (snd g)) 1)" using P by simp
  moreover have "frames ?s' = frames s" by simp
  ultimately have "client_ok iv fset room own ar ?s' ?A X G" unfolding client_ok_def by metis
  then show ?thesis using S(1) by auto
qed

subsection \<open>Requests of less than a page\<close>

context page_allocator
begin

lemma kmalloc_small:
  assumes c: "client_ok inv fset room own ar s A X G" and x: "0 < x" "x < 4064"
    and fuel: "2 * (page2kva (room (frames s)) - ar) + 1 \<le> fuel"
  shows "(kmalloc fuel mgr x s = Inr (None, s) \<and> pm_alloc_pages mgr 1 (frames s) = Inr (None, frames s)) \<or>
    (\<exists>t n s'. kmalloc fuel mgr x s = Inr (Some (t + 1), s') \<and> room (frames s') = room (frames s) \<and>
       client_ok inv fset room own ar s' (insert (t, n) A) X G \<and> t \<notin> used A \<and> unat x \<le> 16 * (n - 1))"
proof -
  have xs: "0 < unat x" "unat x < 4064" using x by (simp_all add: word_less_nat_alt unat_gt_0)
  have u: "unat (x + SLOB_UNIT) = unat x + 16"
    using unat_add_less [of x SLOB_UNIT] xs by (simp add: SLOB_UNIT_def)
  have sm: "x < PAGE_SIZE - SLOB_UNIT" using xs by (simp add: word_less_nat_alt PAGE_SIZE_def SLOB_UNIT_def)
  have sz: "16 < unat (x + SLOB_UNIT)" "unat (x + SLOB_UNIT) + 16 < 4096" using u xs by simp_all
  have big: "unat x \<le> 16 * (unat (SLOB_UNITS (x + SLOB_UNIT)) - 1)" using units_small(4) [OF sz] u by simp
  show ?thesis using client_alloc [OF c sz fuel]
  proof (elim disjE exE conjE)
    fix t s'
    assume "slob_alloc fuel mgr (x + SLOB_UNIT) s = Inr (Some t, s')"
    then have "kmalloc fuel mgr x s = Inr (Some (t + 1), s')" using sm by (simp add: kmalloc_def)
    moreover assume "room (frames s') = room (frames s)" "t \<notin> used A"
      "client_ok inv fset room own ar s' (insert (t, unat (SLOB_UNITS (x + SLOB_UNIT))) A) X G"
    ultimately show ?thesis using big by blast
  qed (use sm in \<open>simp add: kmalloc_def\<close>)
qed

end

subsection \<open>Freeing a small block\<close>


lemma find_big_hit:
  "bigs s q (G1 @ (bb, p, k) # G2) \<Longrightarrow> \<forall>g\<in>set G1. page2kva (fst (snd g)) \<noteq> page2kva p \<Longrightarrow> length G1 < fuel \<Longrightarrow>
   find_big fuel (page2kva p) lst q s = Inr (Some (if G1 = [] then lst else Some (fst (last G1)), bb))"
proof (induction G1 arbitrary: q lst fuel)
  case Nil
  then show ?case by (cases fuel) auto
next
  case (Cons g G1)
  then show ?case by (cases fuel; cases g) auto
qed

lemma page2kva_mod [simp]: "page2kva p mod 256 = 0"
proof -
  have "page2kva p = 256 * (0xFFFFFFFFC0000 + p)" by (simp add: page2kva_def)
  then show ?thesis by simp
qed

lemma unat_order:
  assumes k: "k < 32"
  shows "unat (push_bit k 1 :: 64 word) = 2 ^ k" "(0 :: 64 word) < push_bit k 1"
proof -
  have "(2 :: nat) ^ k < 2 ^ 64" using k by (intro power_strict_increasing) auto
  then have "unat (of_nat (2 ^ k) :: 64 word) = 2 ^ k" by (intro unat_of_nat_small) simp
  then show u: "unat (push_bit k 1 :: 64 word) = 2 ^ k" by simp
  show "(0 :: 64 word) < push_bit k 1" unfolding word_less_nat_alt u by simp
qed

lemma run_order: "k < 32 \<Longrightarrow> big_run (bb, p, k) = {p ..< p + 2 ^ k}"
  unfolding big_run_def run_pages_def fst_conv snd_conv unat_order ..

lemma length_bigs:
  assumes "live room ar s A X G"
  shows "length G \<le> page2kva (room (frames s)) - ar"
proof -
  note L = liveD [OF assms]
  have "fst ` set G \<subseteq> {ar ..< page2kva (room (frames s))}"
  proof
    fix b assume "b \<in> fst ` set G"
    then have "(b, 2) \<in> A" using L(6) by force
    then show "b \<in> {ar ..< page2kva (room (frames s))}" using L(1) by force
  qed
  then have "card (fst ` set G) \<le> card {ar ..< page2kva (room (frames s))}" by (rule card_mono [rotated]) simp
  moreover have "card (fst ` set G) = length G" using distinct_card [OF L(5)] by simp
  ultimately show ?thesis by simp
qed



subsection \<open>Requests of a page and more\<close>

lemma find_order_le: "n \<le> 4096 * 2 ^ m \<Longrightarrow> find_order n \<le> m"
proof (induction m arbitrary: n)
  case 0
  then show ?case by (simp add: find_order.simps)
next
  case (Suc m)
  show ?case
  proof (cases "n > 4096")
    case True
    have "n div 2 \<le> 4096 * 2 ^ m" using Suc.prems by simp
    then show ?thesis using Suc.IH True by (subst find_order.simps) simp
  next
    case False
    then show ?thesis by (simp add: find_order.simps)
  qed
qed

lemma find_order_small: "find_order (sint (w :: 32 word)) < 32"
proof -
  have "sint w < 2 ^ 31" using sint_lt [of w] by simp
  then have "find_order (sint w) \<le> 19" by (intro find_order_le) simp
  then show ?thesis by simp
qed

lemma client_cong:
  assumes "units s' = units s" "nxt s' = nxt s" "slobfree s' = slobfree s" "frames s' = frames s"
    "bigs s' (bigblocks s') G = bigs s (bigblocks s) G"
  shows "client_ok iv fset room own ar s' A X G = client_ok iv fset room own ar s A X G"
  unfolding client_ok_def live_def heap_ok_def slob_rel_def assms ..

lemma bigs_upd:
  assumes "\<And>b. b \<in> fst ` set G \<Longrightarrow> bb_pages s' b = bb_pages s b \<and> bb_order s' b = bb_order s b \<and> bb_next s' b = bb_next s b"
  shows "bigs s' q G = bigs s q G"
  using assms by (induction G arbitrary: q) auto

lemma bigs_starts: "client_ok iv fset room own ar s A X G \<Longrightarrow> b \<notin> used A \<Longrightarrow> b \<notin> fst ` set G"
proof
  assume c: "client_ok iv fset room own ar s A X G" and b: "b \<notin> used A" "b \<in> fst ` set G"
  then have "(b, 2) \<in> A" using liveD(6) [OF client_okD(1) [OF c]] by force
  then show False using b(1) by (force simp: used_def block_pages_def)
qed

context page_allocator
begin

lemma client_add_big:
  assumes c: "client_ok inv fset room own ar s A X G" and bb: "(bb, 2) \<in> A" "bb \<notin> fst ` set G" "k < 32"
    and al: "pm_alloc_pages mgr (push_bit k 1) (frames s) = Inr (Some p, F)"
    and s': "s' = s\<lparr>frames := F, bb_order := (bb_order s)(bb := k), bb_pages := (bb_pages s)(bb := page2kva p),
      bb_next := (bb_next s)(bb := bigblocks s), bigblocks := Some bb\<rparr>"
  shows "client_ok inv fset room own ar s' A (insert bb X) ((bb, p, k) # G) \<and> room (frames s') = room (frames s)"
proof -
  note L = liveD [OF client_okD(1) [OF c]] and P = client_okD(2-4) [OF c]
  obtain bs where bs: "heap_ok inv fset room ar s bs" "used A \<inter> (covered bs \<union> page_units (fset (frames s)) \<union> big_units (set G)) = {}"
    "covered bs \<inter> big_units (set G) = {}" using client_okD(5) [OF c] by blast
  have H: "inv (frames s)" "page_units (fset (frames s)) \<inter> covered bs = {}" using bs(1) by (simp_all add: heap_ok_def)
  have pos: "(0 :: 64 word) < push_bit k 1" by (rule unat_order(2) [OF bb(3)])
  let ?g = "(bb, p, k)"
  have al': "inv F" "room F = room (frames s)" "big_run ?g \<subseteq> fset (frames s)" "fset F = fset (frames s) - big_run ?g" "own F p (push_bit k 1)"
    using alloc_some [OF H(1) pos al] by (simp_all add: big_run_def)
  have own: "run_pages (q, n) \<inter> fset (frames s) = {} \<Longrightarrow> own (frames s) q n \<Longrightarrow> own F q n" for q n
    using alloc_frame [OF H(1) pos al] by blast
  have fr: "frames s' = F" "units s' = units s" "bigblocks s' = Some bb" by (simp_all add: s')
  have "p \<in> fset (frames s)" using al'(3) run_order [OF bb(3), of bb p] by auto
  then have low: "ar + 1 < page2kva p" using bs(1) by (simp add: heap_ok_def)
  have run: "big_run ?g \<inter> big_run g = {}" if "g \<in> set G" for g using P(2) [OF that] al'(3) by blast
  have bg: "bigs s' (bigblocks s') (?g # G)"
  proof -
    have "bigs s' (bigblocks s) G = bigs s (bigblocks s) G" by (rule bigs_upd) (use bb(2) in \<open>auto simp: s'\<close>)
    then show ?thesis using L(4) by (simp add: s')
  qed
  have "live room ar s' A (insert bb X) (?g # G)" unfolding live_def fr(1,2) al'(2)
  proof (intro conjI ballI impI)
    fix g h assume "g \<in> set (?g # G)" "h \<in> set (?g # G)" "g \<noteq> h"
    then show "big_run g \<inter> big_run h = {}" using run [of g] run [of h] L(7) [of g h] by (simp only: list.set) blast
  qed (use L bg bb fr(3) low in auto)
  moreover have "big_run g \<subseteq> {..<room (frames s')} \<and> big_run g \<inter> fset (frames s') = {} \<and> own (frames s') (fst (snd g)) (push_bit (snd (snd g)) 1)"
    if "g \<in> set (?g # G)" for g
  proof (cases "g = ?g")
    case True
    then show ?thesis using al' fset_room [OF H(1)] unfolding fr al'(2,4) by auto
  next
    case False
    then have g: "g \<in> set G" using that by simp
    have "own F (fst (snd g)) (push_bit (snd (snd g)) 1)" by (rule own) (use P(2,3) [OF g] in \<open>simp_all add: big_run_def\<close>)
    then show ?thesis using P(1,2) [OF g] unfolding fr al'(2,4) by blast
  qed
  moreover have "heap_ok inv fset room ar s' bs"
  proof -
    have "slob_rel ar (page2kva (room (frames s))) s' bs" using bs(1) by (simp add: heap_ok_def slob_rel_def s')
    moreover have "page_units (fset F) \<subseteq> page_units (fset (frames s))" unfolding al'(4) by (rule page_units_mono) blast
    ultimately show ?thesis using bs(1) H(2) al'(1,2,4) unfolding heap_ok_def fr by auto
  qed
  moreover have "used A \<inter> (covered bs \<union> page_units (fset (frames s')) \<union> big_units (set (?g # G))) = {}" "covered bs \<inter> big_units (set (?g # G)) = {}"
  proof -
    have "page_units (fset F) \<subseteq> page_units (fset (frames s))" "page_units (big_run ?g) \<subseteq> page_units (fset (frames s))"
      using page_units_mono al'(3,4) by (metis Diff_subset)+
    then show "used A \<inter> (covered bs \<union> page_units (fset (frames s')) \<union> big_units (set (?g # G))) = {}" "covered bs \<inter> big_units (set (?g # G)) = {}"
      using bs(2,3) H(2) unfolding fr list.set big_units_simps by blast+
  qed
  ultimately show ?thesis using al'(2) fr(1) unfolding client_ok_def by blast
qed

lemma kmalloc_big:
  assumes c: "client_ok inv fset room own ar s A X G" and x: "4080 \<le> x" and fuel: "2 * (page2kva (room (frames s)) - ar) + 1 \<le> fuel"
  shows "\<exists>r s'. kmalloc fuel mgr x s = Inr (r, s') \<and> room (frames s') = room (frames s) \<and>
    (case r of None \<Rightarrow> client_ok inv fset room own ar s' A X G
     | Some a \<Rightarrow> \<exists>bb p. a = page2kva p \<and> bb \<notin> used A \<and>
         client_ok inv fset room own ar s' (insert (bb, 2) A) (insert bb X) ((bb, p, find_order (sint (ucast x :: 32 word))) # G))"
proof -
  have lg: "\<not> x < PAGE_SIZE - SLOB_UNIT" using x by (simp add: PAGE_SIZE_def SLOB_UNIT_def)
  have sz: "16 < unat BIGBLOCK_SIZE" "unat BIGBLOCK_SIZE + 16 < 4096" "unat (SLOB_UNITS BIGBLOCK_SIZE) = 2" "BIGBLOCK_SIZE \<noteq> 0"
    by (simp_all add: BIGBLOCK_SIZE_def SLOB_UNITS_def SLOB_UNIT_def unat_div)
  let ?k = "find_order (sint (ucast x :: 32 word))"
  show ?thesis using client_alloc [OF c sz(1,2) fuel]
  proof (elim disjE exE conjE)
    assume "slob_alloc fuel mgr BIGBLOCK_SIZE s = Inr (None, s)"
    then show ?thesis using lg c by (simp add: kmalloc_def)
  next
    fix bb s1
    assume a: "slob_alloc fuel mgr BIGBLOCK_SIZE s = Inr (Some bb, s1)" "room (frames s1) = room (frames s)" "bb \<notin> used A"
      "client_ok inv fset room own ar s1 (insert (bb, unat (SLOB_UNITS BIGBLOCK_SIZE)) A) X G"
    note c1 = a(4) [unfolded sz(3)]
    have nb: "bb \<notin> fst ` set G" by (rule bigs_starts [OF c a(3)])
    let ?s2 = "s1\<lparr>bb_order := (bb_order s1)(bb := ?k)\<rparr>"
    have c2: "client_ok inv fset room own ar ?s2 (insert (bb, 2) A) X G"
    proof -
      have "bigs ?s2 q G = bigs s1 q G" for q by (rule bigs_upd) (use nb in auto)
      then have "bigs ?s2 (bigblocks ?s2) G = bigs s1 (bigblocks s1) G" by simp
      then show ?thesis using c1 client_cong [of ?s2 s1 G inv fset room own ar "insert (bb, 2) A" X] by simp
    qed
    have inv1: "inv (frames s1)" using client_okD(5) [OF c1] by (auto simp: heap_ok_def)
    have pos: "(0 :: 64 word) < push_bit ?k 1" by (rule unat_order(2) [OF find_order_small])
    obtain r F where al: "pm_alloc_pages mgr (push_bit ?k 1) (frames s1) = Inr (r, F)" using alloc_returns [OF inv1 pos] by blast
    show ?thesis
    proof (cases r)
      case None
      then have F: "F = frames s1" using alloc_none [OF inv1 pos] al by simp
      have ins: "insert (bb, 2) A - {(bb, 2)} = A" using a(3) by (force simp: used_def block_pages_def)
      have "\<exists>s'. slob_free fuel (Some bb) BIGBLOCK_SIZE ?s2 = Inr s' \<and> client_ok inv fset room own ar s' (insert (bb, 2) A - {(bb, 2)}) X G \<and> frames s' = frames ?s2"
        by (rule client_free [OF c2]) (use nb sz(3,4) fuel a(2) in auto)
      then obtain s' where "slob_free fuel (Some bb) BIGBLOCK_SIZE ?s2 = Inr s'" "client_ok inv fset room own ar s' A X G" "frames s' = frames s1"
        unfolding ins by auto
      moreover have "?s2\<lparr>frames := frames s1\<rparr> = ?s2" by simp
      ultimately show ?thesis using lg a(1,2) al None F
        by (intro exI [of _ None] exI [of _ s']) (simp add: kmalloc_def slob_get_free_pages_def Let_def)
    next
      case (Some p)
      let ?s' = "s1\<lparr>frames := F, bb_order := (bb_order s1)(bb := ?k), bb_pages := (bb_pages s1)(bb := page2kva p),
        bb_next := (bb_next s1)(bb := bigblocks s1), bigblocks := Some bb\<rparr>"
      have "client_ok inv fset room own ar ?s' (insert (bb, 2) A) (insert bb X) ((bb, p, ?k) # G) \<and> room (frames ?s') = room (frames s1)"
        by (rule client_add_big [OF c1 _ nb find_order_small al [unfolded Some] refl]) simp
      moreover have "kmalloc fuel mgr x s = Inr (Some (page2kva p), ?s')"
        using lg a(1) al Some by (simp add: kmalloc_def slob_get_free_pages_def Let_def)
      ultimately show ?thesis using a(2,3) by (intro exI [of _ "Some (page2kva p)"] exI [of _ ?s']) auto
    qed
  qed
qed

end

subsection \<open>Freeing a big block\<close>

lemma bigs_order: "bigs s q (G1 @ (bb, p, k) # G2) \<Longrightarrow> bb_order s bb = k"
  by (induction G1 arbitrary: q) auto

lemma bigs_unlink_after:
  "bigs s q (G1 @ (bb, p, k) # G2) \<Longrightarrow> distinct (map fst (G1 @ (bb, p, k) # G2)) \<Longrightarrow> G1 \<noteq> [] \<Longrightarrow> l = fst (last G1) \<Longrightarrow>
   s' = s\<lparr>bb_next := (bb_next s)(l := bb_next s bb)\<rparr> \<Longrightarrow> bigs s' q (G1 @ G2)"
proof (induction G1 arbitrary: q)
  case (Cons g G1)
  obtain a x y where g: "g = (a, x, y)" by (cases g)
  have same: "bb_pages s' = bb_pages s" "bb_order s' = bb_order s" "bb_next s' b = (if b = l then bb_next s bb else bb_next s b)" for b
    by (simp_all add: Cons.prems(5))
  have q: "q = Some a" "bb_pages s a = page2kva x" "bb_order s a = y" "bigs s (bb_next s a) (G1 @ (bb, p, k) # G2)"
    using Cons.prems(1) by (simp_all add: g)
  have "bigs s' (bb_next s' a) (G1 @ G2)"
  proof (cases "G1 = []")
    case True
    then have la: "l = a" "a \<notin> fst ` set G2" using Cons.prems(2,4) by (simp_all add: g)
    have "bb_next s a = Some bb" "bigs s (bb_next s bb) G2" using q(4) True by simp_all
    moreover have "bigs s' r G2 = bigs s r G2" for r
    proof (rule bigs_upd)
      fix b assume "b \<in> fst ` set G2"
      then have "b \<noteq> l" using la by blast
      then show "bb_pages s' b = bb_pages s b \<and> bb_order s' b = bb_order s b \<and> bb_next s' b = bb_next s b" by (simp add: same)
    qed
    ultimately show ?thesis using True la by (simp add: same)
  next
    case False
    then have "a \<noteq> l" using Cons.prems(2,4) by (auto simp: g dest!: last_in_set)
    then show ?thesis using Cons.IH [OF q(4) _ False] Cons.prems False by (simp add: same)
  qed
  then show ?case using q(1-3) by (simp add: g same(1,2))
qed simp

lemma bigs_unlink:
  assumes "bigs s (bigblocks s) (G1 @ (bb, p, k) # G2)" "distinct (map fst (G1 @ (bb, p, k) # G2))"
  shows "bigs (unlink_big (if G1 = [] then None else Some (fst (last G1))) bb s)
    (bigblocks (unlink_big (if G1 = [] then None else Some (fst (last G1))) bb s)) (G1 @ G2)"
proof (cases "G1 = []")
  case True
  have "bigs (s\<lparr>bigblocks := bb_next s bb\<rparr>) (bb_next s bb) G2 = bigs s (bb_next s bb) G2" by (rule bigs_cong) simp_all
  then show ?thesis using assms True by (simp add: unlink_big_def)
next
  case False
  then show ?thesis using bigs_unlink_after [OF assms False refl refl] by (simp add: unlink_big_def)
qed

lemma client_shrink:
  assumes "client_ok iv fset room own ar s A X G" "b \<notin> used A"
  shows "client_ok iv fset room own ar s A (X - {b}) G"
proof -
  have "fst bk \<noteq> b" if "bk \<in> A" for bk
    using that assms(2) liveD(1) [OF client_okD(1) [OF assms(1)] that] by (force simp: used_def block_pages_def)
  then show ?thesis using assms(1) unfolding client_ok_def live_def by auto
qed

context page_allocator
begin

lemma kfree_big:
  assumes c: "client_ok inv fset room own ar s A X (G1 @ (bb, p, k) # G2)" and p: "ok (frames s) p"
    and fuel: "page2kva (room (frames s)) - ar + 1 \<le> fuel"
  shows "\<exists>s'. kfree fuel mgr (Some (page2kva p)) s = Inr s' \<and> client_ok inv fset room own ar s' (A - {(bb, 2)}) (X - {bb}) (G1 @ G2) \<and>
    room (frames s') = room (frames s) \<and> fset (frames s') = fset (frames s) \<union> big_run (bb, p, k)"
proof -
  let ?G = "G1 @ (bb, p, k) # G2"
  note L = liveD [OF client_okD(1) [OF c]] and P = client_okD(2-4) [OF c]
  obtain bs where bs: "heap_ok inv fset room ar s bs" "used A \<inter> (covered bs \<union> page_units (fset (frames s)) \<union> big_units (set ?G)) = {}"
    "covered bs \<inter> big_units (set ?G) = {}" using client_okD(5) [OF c] by blast
  have H: "inv (frames s)" "page_units (fset (frames s)) \<inter> covered bs = {}" using bs(1) by (simp_all add: heap_ok_def)
  have gin: "(bb, p, k) \<in> set ?G" by simp
  have bb: "(bb, 2) \<in> A" "k < 32" "ar + 1 < page2kva p" using L(6,8) [OF gin] by simp_all
  have first: "\<forall>g\<in>set G1. page2kva (fst (snd g)) \<noteq> page2kva p"
  proof
    fix g assume g: "g \<in> set G1"
    then have "g \<noteq> (bb, p, k)" using L(5) by force
    then have dis: "big_run g \<inter> big_run (bb, p, k) = {}" using L(7) g by simp
    have "snd (snd g) < 32" using L(6) g by simp
    then have "fst (snd g) \<in> big_run g" using run_order [of "snd (snd g)" "fst g" "fst (snd g)"] by simp
    then have "fst (snd g) \<noteq> p" using dis run_order [OF bb(2), of bb p] by auto
    then show "page2kva (fst (snd g)) \<noteq> page2kva p" by (simp add: page2kva_def)
  qed
  let ?l = "if G1 = [] then None else Some (fst (last G1))" and ?G' = "G1 @ G2"
  have "length G1 < fuel" using length_bigs [OF client_okD(1) [OF c]] fuel by simp
  then have find: "find_block fuel (page2kva p) s = Inr (Some (?l, bb))"
    using find_big_hit [OF L(4) first, of fuel None] by (simp add: find_block_def)
  let ?s1 = "unlink_big ?l bb s"
  have same: "frames ?s1 = frames s" "units ?s1 = units s" "nxt ?s1 = nxt s" "slobfree ?s1 = slobfree s" "bb_order ?s1 = bb_order s"
    by (auto simp: unlink_big_def)
  have ord: "bb_order s bb = k" by (rule bigs_order [OF L(4)])
  obtain F where F: "pm_free_pages mgr p (push_bit k 1) (frames s) = Inr F" "inv F" "room F = room (frames s)"
    "fset F = fset (frames s) \<union> big_run (bb, p, k)"
    "\<forall>q n. run_pages (q, n) \<inter> (fset (frames s) \<union> big_run (bb, p, k)) = {} \<longrightarrow> own (frames s) q n \<longrightarrow> own F q n"
    using free_returns [OF H(1) unat_order(2) [OF bb(2)], of p] P [OF gin] p by (auto simp: big_run_def)
  let ?s2 = "?s1\<lparr>frames := F\<rparr>"
  have Gs: "set ?G = insert (bb, p, k) (set ?G')" by auto
  have bu: "big_units (set ?G) = page_units (big_run (bb, p, k)) \<union> big_units (set ?G')" unfolding Gs by simp
  have nb: "fst g \<noteq> bb" if "g \<in> set ?G'" for g using L(5) that by force
  have bu2: "big_units (set ?G') \<inter> page_units (big_run (bb, p, k)) = {}"
  proof (rule big_units_free)
    fix g assume g: "g \<in> set ?G'"
    then have "g \<noteq> (bb, p, k)" using nb by force
    then show "big_run g \<inter> big_run (bb, p, k) = {}" using L(7) [of g "(bb, p, k)"] g by auto
  qed
  have "client_ok inv fset room own ar ?s2 A X ?G'"
  proof -
    have b2: "bigs ?s2 (bigblocks ?s2) ?G' = bigs ?s1 (bigblocks ?s1) ?G'" using bigs_cong [of ?s2 ?s1] by simp
    have "live room ar ?s2 A X ?G'" unfolding live_def using L bigs_unlink [OF L(4,5)] b2 F(3) same(2) by auto
    moreover have "big_run g \<subseteq> {..<room (frames ?s2)} \<and> big_run g \<inter> fset (frames ?s2) = {} \<and> own (frames ?s2) (fst (snd g)) (push_bit (snd (snd g)) 1)"
      if g: "g \<in> set ?G'" for g
    proof -
      have gG: "g \<in> set ?G" "g \<noteq> (bb, p, k)" using g nb [OF g] by auto
      have dis: "big_run g \<inter> (fset (frames s) \<union> big_run (bb, p, k)) = {}" using P(2) [OF gG(1)] L(7) [OF gG(1) gin gG(2)] by blast
      then have "own F (fst (snd g)) (push_bit (snd (snd g)) 1)" using F(5) P(3) [OF gG(1)] by (simp add: big_run_def)
      then show ?thesis using P(1) [OF gG(1)] dis F(3,4) by simp
    qed
    moreover have "heap_ok inv fset room ar ?s2 bs"
    proof -
      have "slob_rel ar (page2kva (room (frames s))) ?s2 bs" using bs(1) same by (simp add: heap_ok_def slob_rel_def)
      moreover have "ar + 1 < page2kva q" if "q \<in> big_run (bb, p, k)" for q
        using that bb(3) run_order [OF bb(2), of bb p] by (auto simp: page2kva_def)
      ultimately show ?thesis using bs(1,3) F(2-4) bu unfolding heap_ok_def by auto
    qed
    moreover have "used A \<inter> (covered bs \<union> page_units (fset (frames ?s2)) \<union> big_units (set ?G')) = {}" "covered bs \<inter> big_units (set ?G') = {}"
      using bs(2,3) F(4) bu by auto
    ultimately show ?thesis unfolding client_ok_def by blast
  qed
  then have "\<exists>s'. slob_free fuel (Some bb) BIGBLOCK_SIZE ?s2 = Inr s' \<and> client_ok inv fset room own ar s' (A - {(bb, 2)}) X ?G' \<and> frames s' = frames ?s2"
  proof (rule client_free [OF _ bb(1)])
    show "if BIGBLOCK_SIZE = 0 then bb \<notin> X else unat (SLOB_UNITS BIGBLOCK_SIZE) = 2"
      by (simp add: BIGBLOCK_SIZE_def SLOB_UNITS_def SLOB_UNIT_def unat_div)
  qed (use nb fuel F(3) in auto)
  then obtain s' where s': "slob_free fuel (Some bb) BIGBLOCK_SIZE ?s2 = Inr s'" "client_ok inv fset room own ar s' (A - {(bb, 2)}) X ?G'" "frames s' = F"
    by auto
  have "bb \<notin> used (A - {(bb, 2)})"
  proof
    assume "bb \<in> used (A - {(bb, 2)})"
    then obtain x where "x \<in> A" "x \<noteq> (bb, 2)" "bb \<in> block_pages x" by (auto simp: used_def)
    moreover have "bb \<in> block_pages (bb, 2)" by (simp add: block_pages_def)
    ultimately show False using L(2) [of x "(bb, 2)"] bb(1) by blast
  qed
  then have "client_ok inv fset room own ar s' (A - {(bb, 2)}) (X - {bb}) ?G'" by (rule client_shrink [OF s'(2)])
  moreover have "kfree fuel mgr (Some (page2kva p)) s = Inr s'"
    using find s'(1) F(1) ord same(1,5) by (simp add: kfree_def slob_free_pages_def Let_def)
  ultimately show ?thesis using s'(3) F(3,4) by auto
qed

end

subsection \<open>The properties, with the first fit allocator below\<close>


lemma used_mem: "(b, k) \<in> A \<Longrightarrow> 0 < k \<Longrightarrow> b \<in> used A"
  using blockD [of b k A] by auto
















end
