(* ===== verification/Buddy.thy ===== *)
theory Buddy
  imports Pmm_Manager
begin

text \<open>
  The buddy allocator \<open>lab2/kern/mm/buddy_system_pmm.c\<close>: the powers of two, the routines over the
  page array and the array of free lists, the invariant of the lists, and what allocation does to
  the set of free pages.
\<close>

subsection \<open>Powers of two\<close>

definition IS_POWER_OF_2 :: "64 word \<Rightarrow> bool" where
  "IS_POWER_OF_2 n \<longleftrightarrow> \<not> (n AND (n - 1) \<noteq> 0)"

lemma unat_half: "unat (drop_bit 1 (n :: 64 word)) = unat n div 2"
  by (simp add: drop_bit_eq_div unat_div)

function order_loop :: "64 word \<Rightarrow> 32 word \<Rightarrow> 32 word" where
  "order_loop n order = (if drop_bit 1 n \<noteq> 0 then order_loop (drop_bit 1 n) (order + 1) else order)"
  by auto
termination
proof (relation "measure (\<lambda>(n, order). unat n)")
  fix n :: "64 word" and order :: "32 word"
  assume "drop_bit 1 n \<noteq> 0"
  then have "unat n div 2 \<noteq> 0" using unat_half [of n] by (metis unat_eq_zero)
  then have "unat (drop_bit 1 n) < unat n" unfolding unat_half by simp
  then show "((drop_bit 1 n, order + 1), n, order) \<in> measure (\<lambda>(n, order). unat n)" by simp
qed simp

definition getOrderOf2 :: "64 word \<Rightarrow> 32 word" where
  "getOrderOf2 n = order_loop n 0"

function pow_loop :: "64 word \<Rightarrow> 64 word \<Rightarrow> 64 word" where
  "pow_loop n res = (if n \<noteq> 0 then pow_loop (drop_bit 1 n) (push_bit 1 res) else res)"
  by auto
termination
proof (relation "measure (\<lambda>(n, res). unat n)")
  fix n res :: "64 word"
  assume "n \<noteq> 0"
  then have "0 < unat n" by (simp add: unat_gt_0)
  then have "unat (drop_bit 1 n) < unat n" unfolding unat_half by simp
  then show "((drop_bit 1 n, push_bit 1 res), n, res) \<in> measure (\<lambda>(n, res). unat n)" by simp
qed simp

declare order_loop.simps [simp del] pow_loop.simps [simp del]

definition ROUNDDOWN2 :: "64 word \<Rightarrow> 64 word" where
  "ROUNDDOWN2 n = (if \<not> IS_POWER_OF_2 n then drop_bit 1 (pow_loop n 1) else n)"

definition ROUNDUP2 :: "64 word \<Rightarrow> 64 word" where
  "ROUNDUP2 n = (if \<not> IS_POWER_OF_2 n then pow_loop n 1 else n)"

subsection \<open>State\<close>

text \<open>
  \<open>area\<close> holds the page array, the links with one list head for every order, and \<open>nr_free\<close>;
  \<open>pages_at\<close> is the address of the page array, which the linker chooses.
\<close>

record buddy =
  area :: "nat frames"
  max_order :: "32 word"
  pages_at :: "64 word"

definition MAX_BUDDY_ORDER :: nat where "MAX_BUDDY_ORDER = 14"

definition mem_begin :: "64 word" where "mem_begin = 0xffffffffc020f318"

definition on_area :: "(nat frames \<Rightarrow> nat frames) \<Rightarrow> buddy \<Rightarrow> buddy" where
  "on_area f s = s\<lparr>area := f (area s)\<rparr>"

abbreviation blinks :: "buddy \<Rightarrow> nat plink links" where
  "blinks s \<equiv> links (area s)"

abbreviation bpages :: "buddy \<Rightarrow> nat \<Rightarrow> page" where
  "bpages s \<equiv> pages (area s)"

text \<open>The head of a list in \<open>free_array\<close>, which has \<open>MAX_BUDDY_ORDER + 1\<close> entries.\<close>

definition buddy_array :: "nat \<Rightarrow> nat plink res" where
  "buddy_array k = (if k \<le> MAX_BUDDY_ORDER then Inr (Free_Head k) else Inl Bad_Access)"

subsection \<open>Initialisation\<close>

fun init_lists :: "nat \<Rightarrow> nat plink links \<Rightarrow> nat plink links" where
  "init_lists 0 ls = ls"
| "init_lists (Suc k) ls = list_init (Free_Head k) (init_lists k ls)"

definition buddy_system_init :: "buddy \<Rightarrow> buddy" where
  "buddy_system_init s =
     (on_area (\<lambda>f. f\<lparr>links := init_lists (MAX_BUDDY_ORDER + 1) (links f), nr_free := 0\<rparr>) s)\<lparr>max_order := 0\<rparr>"

text \<open>The loop over the pages of \<open>buddy_system_init_memmap\<close>; \<open>k\<close> pages are left.\<close>

fun buddy_memmap_pages :: "nat \<Rightarrow> nat \<Rightarrow> (nat \<Rightarrow> page) \<Rightarrow> (nat \<Rightarrow> page) res" where
  "buddy_memmap_pages 0 p ps = Inr ps"
| "buddy_memmap_pages (Suc k) p ps =
     kassert (PageReserved (ps p))
       (buddy_memmap_pages k (Suc p) (ps(p := set_page_ref ((ps p)\<lparr>flags := 0, property := - 1\<rparr>) 0)))"

definition buddy_system_init_memmap :: "nat \<Rightarrow> 64 word \<Rightarrow> buddy \<Rightarrow> buddy res" where
  "buddy_system_init_memmap base n s =
     kassert (n > 0)
       (let pnum = ROUNDDOWN2 n; order = getOrderOf2 pnum in
        kbind (buddy_memmap_pages (unat pnum) base (bpages s)) (\<lambda>ps.
        kbind (buddy_array (unat order)) (\<lambda>head.
          Inr ((on_area (\<lambda>f. upd_page base (\<lambda>p. p\<lparr>property := order\<rparr>)
                  (upd_links (list_add head (Page_Link base)) (f\<lparr>pages := ps, nr_free := ucast pnum\<rparr>))) s)
               \<lparr>max_order := order\<rparr>))))"

subsection \<open>Allocation\<close>

definition buddy_split :: "nat \<Rightarrow> buddy \<Rightarrow> buddy res" where
  "buddy_split n s =
     kassert (0 < n \<and> n \<le> unat (max_order s))
       (kbind (buddy_array n) (\<lambda>head.
        kassert (\<not> list_empty (blinks s) head)
          (case list_next (blinks s) head of
             Free_Head _ \<Rightarrow> Inl Bad_Access
           | Page_Link page_a \<Rightarrow>
               let page_b = page_a + 2 ^ (n - 1);
                   s1 = on_area (upd_page page_b (\<lambda>p. p\<lparr>property := of_nat (n - 1)\<rparr>)
                          \<circ> upd_page page_a (\<lambda>p. p\<lparr>property := of_nat (n - 1)\<rparr>)) s;
                   s2 = on_area (upd_links (\<lambda>ls. list_del (list_next ls head) ls)) s1
               in kbind (buddy_array (n - 1)) (\<lambda>low.
                    Inr (on_area (upd_links (list_add (Page_Link page_a) (Page_Link page_b))
                           \<circ> upd_links (list_add low (Page_Link page_a))) s2)))))"

text \<open>The inner loop: the first nonempty list from order \<open>i\<close> is split; the result is its order.\<close>

function split_search :: "nat \<Rightarrow> buddy \<Rightarrow> (nat option \<times> buddy) res" where
  "split_search i s =
     (if i \<le> unat (max_order s)
      then kbind (buddy_array i) (\<lambda>head.
        if \<not> list_empty (blinks s) head then kbind (buddy_split i s) (\<lambda>s1. Inr (Some i, s1))
        else split_search (i + 1) s)
      else Inr (None, s))"
  by auto
termination by (relation "measure (\<lambda>(i, s). Suc (unat (max_order s)) - i)") auto

declare split_search.simps [simp del]

text \<open>The loop \<open>while (!found)\<close>; the fuel bounds the number of splits.\<close>

fun alloc_loop :: "nat \<Rightarrow> nat \<Rightarrow> buddy \<Rightarrow> (nat option \<times> buddy) res" where
  "alloc_loop 0 order s = Inl Out_Of_Fuel"
| "alloc_loop (Suc fuel) order s =
     kbind (buddy_array order) (\<lambda>head.
       if \<not> list_empty (blinks s) head
       then (case list_next (blinks s) head of
               Free_Head _ \<Rightarrow> Inl Bad_Access
             | Page_Link page \<Rightarrow>
                 Inr (Some page, on_area (upd_page page SetPageProperty
                   \<circ> upd_links (\<lambda>ls. list_del (list_next ls head) ls)) s))
       else kbind (split_search (order + 1) s) (\<lambda>(i, s1).
              case i of None \<Rightarrow> Inr (None, s1) | Some _ \<Rightarrow> alloc_loop fuel order s1))"

definition buddy_system_alloc_pages :: "64 word \<Rightarrow> buddy \<Rightarrow> (nat option \<times> buddy) res" where
  "buddy_system_alloc_pages requested_pages s =
     kassert (requested_pages > 0)
       (if requested_pages > ucast (nr_free (area s)) then Inr (None, s)
        else let adjusted_pages = ROUNDUP2 requested_pages;
                 order_of_2 = unat (getOrderOf2 adjusted_pages)
             in kbind (alloc_loop (MAX_BUDDY_ORDER + 2) order_of_2 s) (\<lambda>(page, s1).
                  Inr (page, if page \<noteq> None
                    then on_area (\<lambda>f. f\<lparr>nr_free := nr_free f - ucast adjusted_pages\<rparr>) s1 else s1)))"

subsection \<open>Freeing\<close>

definition page_addr :: "nat \<Rightarrow> buddy \<Rightarrow> 64 word" where
  "page_addr p s = pages_at s + 40 * of_nat p"

text \<open>\<open>sizeof(struct Page)\<close> is 40. An address between two descriptors is not that of a page.\<close>

definition addr_page :: "64 word \<Rightarrow> buddy \<Rightarrow> nat res" where
  "addr_page a s =
     (let off = unat (a - pages_at s) in
      if off mod 40 = 0 \<and> off div 40 < npages (area s) then Inr (off div 40) else Inl Bad_Access)"

definition get_buddy :: "nat \<Rightarrow> 32 word \<Rightarrow> buddy \<Rightarrow> 64 word" where
  "get_buddy block_addr block_size s =
     (let real_block_size = push_bit (unat block_size) 1;
          relative_block_addr = page_addr block_addr s - mem_begin;
          sizeOfPage = real_block_size * 40;
          buddy_relative_addr = relative_block_addr XOR sizeOfPage
      in buddy_relative_addr + mem_begin)"

text \<open>
  The merging loop, which raises the order of the left block every time: the fuel bounds the
  orders.
\<close>

fun merge_loop :: "nat \<Rightarrow> nat \<Rightarrow> buddy \<Rightarrow> (nat \<times> buddy) res" where
  "merge_loop 0 left_block s = Inl Out_Of_Fuel"
| "merge_loop (Suc fuel) left_block s =
     kbind (addr_page (get_buddy left_block (property (bpages s left_block)) s) s) (\<lambda>bud.
       if \<not> PageProperty (bpages s bud) \<and> property (bpages s left_block) < max_order s
       then let (l, r, s1) =
                  (if left_block > bud
                   then (bud, left_block, on_area (upd_page left_block ClearPageProperty
                           \<circ> upd_page left_block (\<lambda>p. p\<lparr>property := - 1\<rparr>)) s)
                   else (left_block, bud, s));
                s2 = on_area (upd_page l (\<lambda>p. p\<lparr>property := property p + 1\<rparr>)
                       \<circ> upd_links (list_del (Page_Link r)) \<circ> upd_links (list_del (Page_Link l))) s1
            in kbind (buddy_array (unat (property (bpages s2 l)))) (\<lambda>head.
                 merge_loop fuel l (on_area (upd_links (list_add head (Page_Link l))) s2))
       else Inr (left_block, s))"

definition buddy_system_free_pages :: "nat \<Rightarrow> 64 word \<Rightarrow> buddy \<Rightarrow> buddy res" where
  "buddy_system_free_pages base n s =
     kassert (n > 0)
       (if 31 \<le> unat (property (bpages s base)) then Inl Bad_Access
        else let pnum = push_bit (unat (property (bpages s base))) 1 :: 32 word in
          kassert (ROUNDUP2 n = ucast pnum)
            (kbind (buddy_array (unat (property (bpages s base)))) (\<lambda>head.
             kbind (merge_loop (MAX_BUDDY_ORDER + 2) base (on_area (upd_links (list_add head (Page_Link base))) s))
               (\<lambda>(left_block, s1).
                  Inr (on_area (\<lambda>f. (upd_page left_block ClearPageProperty f)
                    \<lparr>nr_free := nr_free f + pnum\<rparr>) s1)))))"

definition buddy_system_nr_free_pages :: "buddy \<Rightarrow> 64 word" where
  "buddy_system_nr_free_pages s = ucast (nr_free (area s))"

definition buddy_system_pmm_manager :: "buddy pmm_manager" where
  "buddy_system_pmm_manager =
     \<lparr>pm_name = ''buddy_system_pmm_manager'', pm_init = buddy_system_init,
      pm_init_memmap = buddy_system_init_memmap, pm_alloc_pages = buddy_system_alloc_pages,
      pm_free_pages = buddy_system_free_pages, pm_nr_free_pages = buddy_system_nr_free_pages\<rparr>"

subsection \<open>The powers of two\<close>

lemma order_loop_bits: "2 ^ k \<le> unat n \<Longrightarrow> unat n < 2 ^ (k + 1) \<Longrightarrow> order_loop n order = order + of_nat k"
proof (induction k arbitrary: n order)
  case 0
  then have "unat n div 2 = 0" by simp
  then have "unat (drop_bit 1 n) = 0" unfolding unat_half .
  then show ?case by (simp add: order_loop.simps [of n] unat_eq_zero)
next
  case (Suc k)
  have h: "2 ^ k \<le> unat (drop_bit 1 n)" "unat (drop_bit 1 n) < 2 ^ (k + 1)" unfolding unat_half using Suc.prems by simp_all
  then have "drop_bit 1 n \<noteq> 0" by (metis not_one_le_zero one_le_numeral one_le_power order_trans unat_0)
  then have "order_loop n order = order_loop (drop_bit 1 n) (order + 1)" by (simp add: order_loop.simps [of n])
  also have "\<dots> = order + 1 + of_nat k" by (rule Suc.IH [OF h])
  finally show ?case by (simp add: algebra_simps)
qed

lemma pow_loop_bits: "2 ^ k \<le> unat n \<Longrightarrow> unat n < 2 ^ (k + 1) \<Longrightarrow> pow_loop n res = push_bit (k + 1) res"
proof (induction k arbitrary: n res)
  case 0
  then have "unat n div 2 = 0" "n \<noteq> 0" by auto
  then have "unat (drop_bit 1 n) = 0" "n \<noteq> 0" unfolding unat_half by simp_all
  then show ?case by (simp add: pow_loop.simps [of n] pow_loop.simps [of 0] unat_eq_zero)
next
  case (Suc k)
  have h: "2 ^ k \<le> unat (drop_bit 1 n)" "unat (drop_bit 1 n) < 2 ^ (k + 1)" unfolding unat_half using Suc.prems by simp_all
  have "n \<noteq> 0" using Suc.prems(1) by auto
  then have "pow_loop n res = pow_loop (drop_bit 1 n) (push_bit 1 res)" by (simp add: pow_loop.simps [of n])
  also have "\<dots> = push_bit (k + 1) (push_bit 1 res)" by (rule Suc.IH [OF h])
  finally show ?case by simp
qed

lemma unat_64_lt: "unat (n :: 64 word) < 2 ^ 64"
  by (rule order_less_le_trans [OF unsigned_less]) simp

lemma unat_exp_64: "j < 64 \<Longrightarrow> unat (2 ^ j :: 64 word) = 2 ^ j"
proof -
  assume "j < 64"
  then have "(2 :: nat) ^ j < 2 ^ 64" by (intro power_strict_increasing) auto
  then show ?thesis using unat_of_nat_small [of "2 ^ j", where 'a = 64] by simp
qed

lemma bit_length:
  assumes "n \<noteq> (0 :: 64 word)"
  shows "\<exists>k<64. 2 ^ k \<le> unat n \<and> unat n < 2 ^ (k + 1)"
proof -
  have "0 < unat n" using assms by (simp add: unat_gt_0)
  then obtain k where k: "2 ^ k \<le> unat n" "unat n < 2 ^ (k + 1)" using ex_power_ivl1 [of 2 "unat n"] by auto
  have "unat n < 2 ^ 64" by (rule unat_64_lt)
  then have "(2 :: nat) ^ k < 2 ^ 64" using k(1) by linarith
  then have "k < 64" by (rule power_less_imp_less_exp [rotated]) simp
  then show ?thesis using k by blast
qed

lemma power_iff:
  assumes k: "2 ^ k \<le> unat n" "unat n < 2 ^ (k + 1)"
  shows "IS_POWER_OF_2 n \<longleftrightarrow> unat n = 2 ^ k"
proof -
  have n: "n \<noteq> 0" using k(1) by auto
  have m: "unat (n - 1) = unat n - 1" using n by (simp add: unat_minus_one)
  have k64: "k < 64"
  proof -
    have "(2 :: nat) ^ k < 2 ^ 64" using k(1) unat_64_lt [of n] by linarith
    then show ?thesis by (rule power_less_imp_less_exp [rotated]) simp
  qed
  have top: "bit w k" if "2 ^ k \<le> unat w" "unat w < 2 ^ (k + 1)" for w :: "64 word"
  proof -
    have "unat w div 2 ^ k = 1" using that by (intro div_nat_eqI) simp_all
    then have "bit (unat w) k" by (simp add: bit_iff_odd)
    then show ?thesis by (simp add: bit_unsigned_iff)
  qed
  show ?thesis
  proof
    assume p: "IS_POWER_OF_2 n"
    show "unat n = 2 ^ k"
    proof (rule ccontr)
      assume "unat n \<noteq> 2 ^ k"
      then have "2 ^ k \<le> unat (n - 1)" "unat (n - 1) < 2 ^ (k + 1)" using k m by simp_all
      then have "bit (n AND (n - 1)) k" using top k by (simp add: bit_and_iff)
      then show False using p by (auto simp: IS_POWER_OF_2_def)
    qed
  next
    assume e: "unat n = 2 ^ k"
    then have "n = 2 ^ k" using k64 using word_unat_eq_iff [of n "2 ^ k"] k64 by (simp add: unat_exp_64)
    then have "n AND (n - 1) = take_bit k n" by (simp add: take_bit_eq_mask mask_eq_decr_exp)
    also have "\<dots> = 0" using \<open>n = 2 ^ k\<close> by (simp add: take_bit_eq_mod)
    finally show "IS_POWER_OF_2 n" by (simp add: IS_POWER_OF_2_def)
  qed
qed

text \<open>
  For every request up to \<open>2 ^ 63\<close>, \<open>ROUNDUP2\<close> is the least power of two that is not smaller,
  \<open>ROUNDDOWN2\<close> the greatest that is not greater, and \<open>getOrderOf2\<close> gives the exponent of either.
\<close>

lemma rounding:
  assumes "0 < n" "n \<le> 2 ^ 63"
  shows "unat (ROUNDUP2 n) = 2 ^ unat (getOrderOf2 (ROUNDUP2 n)) \<and> unat n \<le> unat (ROUNDUP2 n) \<and> unat (ROUNDUP2 n) < 2 * unat n \<and>
    unat (ROUNDDOWN2 n) = 2 ^ unat (getOrderOf2 (ROUNDDOWN2 n)) \<and> unat (ROUNDDOWN2 n) \<le> unat n \<and> unat n < 2 * unat (ROUNDDOWN2 n)"
proof -
  obtain k where k: "k < 64" "2 ^ k \<le> unat n" "unat n < 2 ^ (k + 1)" using bit_length [of n] assms(1) by auto
  have exp: "unat (2 ^ j :: 64 word) = 2 ^ j" "unat (of_nat j :: 32 word) = j" if "j < 64" for j
    using that by (simp add: unat_exp_64, intro unat_of_nat_small) simp
  have order: "unat (getOrderOf2 w) = j" if "unat w = 2 ^ j" "j < 64" for w j
    using order_loop_bits [of j w 0] that exp(2) by (simp add: getOrderOf2_def)
  have pow: "pow_loop n 1 = 2 ^ (k + 1)" using pow_loop_bits [OF k(2,3), of 1] by simp
  have n63: "unat n \<le> 2 ^ 63" using assms(2) exp(1) [of 63] by (simp add: word_le_nat_alt)
  show ?thesis
  proof (cases "unat n = 2 ^ k")
    case True
    then have "IS_POWER_OF_2 n" using power_iff [OF k(2,3)] by simp
    then show ?thesis using True order [OF True k(1)] by (simp add: ROUNDUP2_def ROUNDDOWN2_def)
  next
    case False
    then have np: "\<not> IS_POWER_OF_2 n" using power_iff [OF k(2,3)] by simp
    have "(2 :: nat) ^ k < 2 ^ 63" using False k(2) n63 by linarith
    then have k1: "k + 1 < 64" using power_less_imp_less_exp [of 2 k 63] by simp
    have up: "unat (ROUNDUP2 n) = 2 ^ (k + 1)" using np pow exp(1) [OF k1] by (simp add: ROUNDUP2_def)
    have down: "unat (ROUNDDOWN2 n) = 2 ^ k"
      using np exp(1) [OF k1] unfolding ROUNDDOWN2_def pow by (simp add: unat_half power_add del: One_nat_def)
    show ?thesis using up down order [OF up k1] order [OF down k(1)] k False by simp
  qed
qed

lemma ucast_exp:
  assumes "unat (w :: 64 word) = 2 ^ k" "k < 32"
  shows "ucast w = (2 ^ k :: 32 word)"
proof -
  have lt: "(2 :: nat) ^ k < 2 ^ 32" using assms(2) by (intro power_strict_increasing) auto
  then have "unat (ucast w :: 32 word) = 2 ^ k" using unat_ucast_64_32 [of w] assms(1) by simp
  moreover have "unat (2 ^ k :: 32 word) = 2 ^ k" using unat_of_nat_small [of "2 ^ k", where 'a = 32] lt by simp
  ultimately show ?thesis by (simp add: word_unat_eq_iff)
qed

subsection \<open>The free lists\<close>

text \<open>\<open>fl k\<close> holds the heads of the free blocks of order \<open>k\<close>.\<close>

definition rings :: "nat plink links \<Rightarrow> (nat \<Rightarrow> nat list) \<Rightarrow> bool" where
  "rings ls fl \<longleftrightarrow> (\<forall>k\<le>MAX_BUDDY_ORDER. ring ls (Free_Head k) (map Page_Link (fl k)))"

definition block_of :: "nat \<Rightarrow> nat \<Rightarrow> nat set" where
  "block_of k p = {p ..< p + 2 ^ k}"

definition blocks :: "(nat \<Rightarrow> nat list) \<Rightarrow> (nat \<times> nat) set" where
  "blocks fl = {(k, p). p \<in> set (fl k)}"

abbreviation blk :: "nat \<times> nat \<Rightarrow> nat set" where
  "blk x \<equiv> block_of (fst x) (snd x)"

definition apart :: "(nat \<Rightarrow> nat list) \<Rightarrow> bool" where
  "apart fl \<longleftrightarrow> (\<forall>x\<in>blocks fl. \<forall>y\<in>blocks fl. x \<noteq> y \<longrightarrow> blk x \<inter> blk y = {})"

definition free_of :: "(nat \<Rightarrow> nat list) \<Rightarrow> nat set" where
  "free_of fl = (\<Union>x\<in>blocks fl. blk x)"







text \<open>The invariant of the allocator.\<close>

definition buddy_rel :: "buddy \<Rightarrow> (nat \<Rightarrow> nat list) \<Rightarrow> bool" where
  "buddy_rel s fl \<longleftrightarrow> rings (blinks s) fl \<and> apart fl \<and> unat (max_order s) \<le> MAX_BUDDY_ORDER \<and>
     (\<forall>k. unat (max_order s) < k \<longrightarrow> fl k = []) \<and>
     (\<forall>k. \<forall>p\<in>set (fl k). property (bpages s p) = of_nat k) \<and> (\<forall>p\<in>free_of fl. \<not> PageProperty (bpages s p))"


lemma on_area_simps [simp]:
  "area (on_area f s) = f (area s)" "max_order (on_area f s) = max_order s" "pages_at (on_area f s) = pages_at s"
  by (simp_all add: on_area_def)

lemma buddy_array_ok [simp]: "k \<le> MAX_BUDDY_ORDER \<Longrightarrow> buddy_array k = Inr (Free_Head k)"
  by (simp add: buddy_array_def)

text \<open>The allocator after its initialisation: one block.\<close>

lemma ring_init_lists: "k < n \<Longrightarrow> ring (init_lists n ls) (Free_Head k) []"
proof (induction n)
  case (Suc n)
  then show ?case by (cases "k = n") (auto simp: ring_def list_write_defs less_Suc_eq)
qed simp

lemma buddy_memmap_ok:
  "\<forall>q. p \<le> q \<and> q < p + k \<longrightarrow> PageReserved (ps q) \<Longrightarrow>
   buddy_memmap_pages k p ps = Inr (\<lambda>q. if p \<le> q \<and> q < p + k then \<lparr>ref = 0, flags = 0, property = - 1\<rparr> else ps q)"
proof (induction k arbitrary: p ps)
  case (Suc k)
  let ?ps = "ps(p := set_page_ref ((ps p)\<lparr>flags := 0, property := - 1\<rparr>) 0)"
  have p: "set_page_ref ((ps p)\<lparr>flags := 0, property := - 1\<rparr>) 0 = \<lparr>ref = 0, flags = 0, property = - 1\<rparr>"
    by (cases "ps p") (simp add: set_page_ref_def)
  have "buddy_memmap_pages k (Suc p) ?ps =
      Inr (\<lambda>q. if Suc p \<le> q \<and> q < Suc p + k then \<lparr>ref = 0, flags = 0, property = - 1\<rparr> else ?ps q)"
    by (rule Suc.IH) (use Suc.prems in auto)
  moreover have "(\<lambda>q. if Suc p \<le> q \<and> q < Suc p + k then \<lparr>ref = 0, flags = 0, property = - 1\<rparr> else ?ps q) =
      (\<lambda>q. if p \<le> q \<and> q < p + Suc k then \<lparr>ref = 0, flags = 0, property = - 1\<rparr> else ps q)"
    by (rule ext) (auto simp: p)
  ultimately show ?case using Suc.prems by simp
qed (auto simp: fun_eq_iff)

lemma buddy_start:
  assumes n: "0 < n" "unat n < 2 ^ 15" and res: "\<forall>q. base \<le> q \<and> q < base + unat n \<longrightarrow> PageReserved (bpages s q)"
  shows "\<exists>s' k. buddy_system_init_memmap base n (buddy_system_init s) = Inr s' \<and> 2 ^ k \<le> unat n \<and> unat n < 2 * 2 ^ k \<and>
    buddy_rel s' (\<lambda>j. if j = k then [base] else []) \<and> nr_free (area s') = 2 ^ k"
proof -
  let ?a = "ROUNDDOWN2 n" and ?k = "unat (getOrderOf2 (ROUNDDOWN2 n))" and ?i = "buddy_system_init s"
  have "n \<le> 2 ^ 63" using n(2) unat_exp_64 [of 63] by (simp add: word_le_nat_alt)
  then have r: "unat ?a = 2 ^ ?k" "2 ^ ?k \<le> unat n" "unat n < 2 * 2 ^ ?k" using rounding [OF n(1)] by simp_all
  have "(2 :: nat) ^ ?k < 2 ^ 15" using r(2) n(2) by linarith
  then have k: "?k \<le> 14" using power_less_imp_less_exp [of "2 :: nat" ?k 15] by simp
  have a: "ucast ?a = (2 ^ ?k :: 32 word)" by (rule ucast_exp [OF r(1)]) (use k in simp)
  let ?ps = "\<lambda>q. if base \<le> q \<and> q < base + 2 ^ ?k then \<lparr>ref = 0, flags = 0, property = - 1\<rparr> else bpages s q"
  have ps: "buddy_memmap_pages (unat ?a) base (bpages ?i) = Inr ?ps"
    using buddy_memmap_ok [of base "2 ^ ?k" "bpages s"] res r by (auto simp: buddy_system_init_def on_area_def)
  let ?s' = "(on_area (\<lambda>f. upd_page base (\<lambda>p. p\<lparr>property := getOrderOf2 ?a\<rparr>)
      (upd_links (list_add (Free_Head ?k) (Page_Link base)) (f\<lparr>pages := ?ps, nr_free := ucast ?a\<rparr>))) ?i)\<lparr>max_order := getOrderOf2 ?a\<rparr>"
  have run: "buddy_system_init_memmap base n ?i = Inr ?s'"
    using n(1) ps k by (simp add: buddy_system_init_memmap_def Let_def buddy_array_def MAX_BUDDY_ORDER_def)
  let ?fl = "\<lambda>j. if j = ?k then [base] else []"
  have B: "blocks ?fl = {(?k, base)}" by (auto simp: blocks_def)
  have I: "ring (blinks ?i) (Free_Head j) []" if "j \<le> 14" for j
    using that by (simp add: buddy_system_init_def on_area_def ring_init_lists MAX_BUDDY_ORDER_def del: init_lists.simps)
  have "rings (blinks ?s') ?fl" unfolding rings_def
  proof (intro allI impI)
    fix j assume "j \<le> MAX_BUDDY_ORDER"
    then have j: "j \<le> 14" by (simp add: MAX_BUDDY_ORDER_def)
    show "ring (blinks ?s') (Free_Head j) (map Page_Link (?fl j))"
    proof (cases "j = ?k")
      case True
      then show ?thesis using ring_add_after_head [OF I [OF k], of "Page_Link base"] by (simp add: on_area_def list_add_def)
    next
      case False
      then show ?thesis
        using ring_frame_add_after [OF I [OF k], of "Free_Head ?k" "Free_Head j" "[]" "Page_Link base"] I [OF j]
        by (simp add: on_area_def list_add_def)
    qed
  qed
  then have "buddy_rel ?s' ?fl"
    using k by (auto simp: buddy_rel_def apart_def free_of_def B block_of_def on_area_def MAX_BUDDY_ORDER_def)
  then show ?thesis using run r(2,3) a
    by (intro exI [of _ ?s'] exI [of _ ?k]) (simp add: on_area_def)
qed




subsection \<open>Allocation\<close>







lemma SetPageProperty_page [simp]: "PageProperty (SetPageProperty p)"
  by (rule flag_simps)



subsection \<open>The properties\<close>


text \<open>The address of the buddy, for the array that starts at \<open>mem_begin\<close>.\<close>

lemma buddy_addr:
  assumes "pages_at s = mem_begin" "unat k < 31"
  shows "get_buddy p k s = ((40 * of_nat p) XOR (40 * push_bit (unat k) 1)) + mem_begin"
  using assms by (simp add: get_buddy_def page_addr_def Let_def mult.commute)

lemma addr_off:
  assumes "pages_at s = mem_begin"
  shows "addr_page (w + mem_begin) s =
    (if unat w mod 40 = 0 \<and> unat w div 40 < npages (area s) then Inr (unat w div 40) else Inl Bad_Access)"
  using assms by (simp add: addr_page_def Let_def)

lemma merge_step:
  assumes "addr_page (get_buddy l k s) s = Inr b" "property (bpages s l) = k" "\<not> PageProperty (bpages s b)" "k < max_order s"
    "l \<le> b" "unat (k + 1) \<le> MAX_BUDDY_ORDER"
  shows "merge_loop (Suc fuel) l s = merge_loop fuel l (on_area (upd_links (list_add (Free_Head (unat (k + 1))) (Page_Link l)))
     (on_area (upd_page l (\<lambda>p. p\<lparr>property := property p + 1\<rparr>) \<circ> upd_links (list_del (Page_Link b)) \<circ> upd_links (list_del (Page_Link l))) s))"
  using assms by simp

lemma take_step:
  assumes "lnext (blinks s) (Free_Head k) = Page_Link p" "k \<le> MAX_BUDDY_ORDER"
  shows "alloc_loop (Suc fuel) k s = Inr (Some p, on_area (upd_page p SetPageProperty \<circ>
      upd_links (\<lambda>ls. list_del (list_next ls (Free_Head k)) ls)) s)"
  using assms by (simp add: list_read_defs)

lemma alloc_step:
  assumes "0 < n" "n \<le> ucast (nr_free (area s))" "ROUNDUP2 n = m" "unat (getOrderOf2 m) = k" "alloc_loop (MAX_BUDDY_ORDER + 2) k s = Inr (Some p, s1)"
  shows "buddy_system_alloc_pages n s = Inr (Some p, on_area (\<lambda>f. f\<lparr>nr_free := nr_free f - ucast m\<rparr>) s1)"
  using assms by (simp add: buddy_system_alloc_pages_def Let_def linorder_not_less del: alloc_loop.simps)

lemma rounding_small: "ROUNDUP2 2 = 2" "ROUNDUP2 1 = 1" "ROUNDUP2 3 = 4" "unat (getOrderOf2 4) = 2"
  by (simp_all add: ROUNDUP2_def IS_POWER_OF_2_def pow_loop.simps getOrderOf2_def order_loop.simps)

text \<open>
  C9. What freeing gets wrong, with \<open>mem_begin\<close> the address of the first page. A free buddy is merged
  whatever its order: when pages 0 and 1 are freed and page 2 is a free page by itself, the block of
  pages 0 to 3 becomes free, whoever uses page 3, although only two pages are counted, and a request of
  three pages then gets it. And the exclusive or of offsets in bytes, which are multiples of 40 and not
  of a power of two, misses the buddy of page 4: the address lies inside the descriptor of page 3.
\<close>

theorem buddy_free_faults:
  assumes "pages_at s = mem_begin" "4 < npages (area s)"
  shows "(property (bpages s 0) = 1 \<longrightarrow> \<not> PageProperty (bpages s 2) \<longrightarrow> max_order s = 2 \<longrightarrow> nr_free (area s) = 1 \<longrightarrow>
      (\<exists>s' s''. buddy_system_free_pages 0 2 s = Inr s' \<and> nr_free (area s') = 3 \<and>
         buddy_system_alloc_pages 3 s' = Inr (Some 0, s'') \<and> nr_free (area s'') = - 1)) \<and>
    (property (bpages s 4) = 0 \<longrightarrow> buddy_system_free_pages 4 1 s = Inl Bad_Access)"
proof (intro conjI impI)
  have [simp]: "ROUNDUP2 2 = 2" "ROUNDUP2 1 = 1" "ROUNDUP2 3 = 4" "unat (getOrderOf2 4) = 2"
    by (simp_all add: ROUNDUP2_def IS_POWER_OF_2_def pow_loop.simps getOrderOf2_def order_loop.simps)
  assume p: "property (bpages s 0) = 1" "\<not> PageProperty (bpages s 2)" "max_order s = 2" "nr_free (area s) = 1"
  let ?s0 = "on_area (upd_links (list_add (Free_Head 1) (Page_Link 0))) s"
  let ?s1 = "on_area (upd_page 0 (\<lambda>p. p\<lparr>property := property p + 1\<rparr>) \<circ> upd_links (list_del (Page_Link 2)) \<circ> upd_links (list_del (Page_Link 0))) ?s0"
  let ?s2 = "on_area (upd_links (list_add (Free_Head 2) (Page_Link 0))) ?s1"
  have o: "pages_at ?s0 = mem_begin" "npages (area ?s0) = npages (area s)" "pages_at ?s2 = mem_begin" "npages (area ?s2) = npages (area s)"
    "max_order ?s2 = 2" "property (bpages ?s2 0) = 2" "property (bpages ?s1 0) = 2" using assms p by simp_all
  have two: "addr_page (get_buddy 0 1 ?s0) ?s0 = Inr 2"
  proof -
    have "get_buddy 0 1 ?s0 = 80 + mem_begin" using buddy_addr [OF o(1), of 1 0] by simp
    then show ?thesis using addr_off [OF o(1), of 80] assms(2) o(2) by simp
  qed
  have four: "addr_page (get_buddy 0 2 ?s2) ?s2 = Inr 4"
  proof -
    have "get_buddy 0 2 ?s2 = 160 + mem_begin" using buddy_addr [OF o(3), of 2 0] by simp
    then show ?thesis using addr_off [OF o(3), of 160] assms(2) o(4) by simp
  qed
  have fuel: "MAX_BUDDY_ORDER + 2 = Suc (Suc 14)" by (simp add: MAX_BUDDY_ORDER_def)
  have "merge_loop (Suc (Suc 14)) 0 ?s0 = merge_loop (Suc 14) 0 (on_area (upd_links (list_add (Free_Head (unat (1 + 1 :: 32 word))) (Page_Link 0))) ?s1)"
    by (rule merge_step [OF two]) (use p in \<open>simp_all add: MAX_BUDDY_ORDER_def\<close>)
  also have "\<dots> = merge_loop (Suc 14) 0 ?s2"
  proof -
    have "unat (1 + 1 :: 32 word) = 2" by simp
    then show ?thesis by (simp only:)
  qed
  also have "\<dots> = Inr (0, ?s2)" unfolding merge_loop.simps o(6) four using o(5) by simp
  finally have merge: "merge_loop (MAX_BUDDY_ORDER + 2) 0 ?s0 = Inr (0, ?s2)" unfolding fuel .
  let ?f = "on_area (\<lambda>f. (upd_page 0 ClearPageProperty f)\<lparr>nr_free := nr_free f + 2\<rparr>) ?s2"
  have free: "buddy_system_free_pages 0 2 s = Inr ?f"
    using p merge by (simp add: buddy_system_free_pages_def Let_def rounding_small MAX_BUDDY_ORDER_def)
  have links: "lnext (blinks ?s2) (Free_Head 2) = Page_Link 0" by (simp add: list_write_defs)
  let ?g = "on_area (\<lambda>f. f\<lparr>nr_free := nr_free f - 4\<rparr>) (on_area (upd_page 0 SetPageProperty \<circ>
      upd_links (\<lambda>ls. list_del (list_next ls (Free_Head 2)) ls)) ?f)"
  have "alloc_loop (MAX_BUDDY_ORDER + 2) 2 ?f = Inr (Some 0, on_area (upd_page 0 SetPageProperty \<circ>
      upd_links (\<lambda>ls. list_del (list_next ls (Free_Head 2)) ls)) ?f)"
    unfolding fuel by (rule take_step) (use links in \<open>simp_all add: MAX_BUDDY_ORDER_def\<close>)
  from alloc_step [OF _ _ rounding_small(3,4) this]
  have "buddy_system_alloc_pages 3 ?f = Inr (Some 0, ?g)" using p by simp
  moreover have "nr_free (area ?f) = 3" "nr_free (area ?g) = - 1" using p by simp_all
  ultimately show "\<exists>s' s''. buddy_system_free_pages 0 2 s = Inr s' \<and> nr_free (area s') = 3 \<and>
      buddy_system_alloc_pages 3 s' = Inr (Some 0, s'') \<and> nr_free (area s'') = - 1"
    using free by blast
next
  assume p: "property (bpages s 4) = 0"
  let ?s0 = "on_area (upd_links (list_add (Free_Head 0) (Page_Link 4))) s"
  have o: "pages_at ?s0 = mem_begin" using assms by simp
  have "get_buddy 4 0 ?s0 = 136 + mem_begin" using buddy_addr [OF o, of 0 4] by simp
  then have "addr_page (get_buddy 4 0 ?s0) ?s0 = Inl Bad_Access" using addr_off [OF o, of 136] by simp
  then have m: "merge_loop (Suc 15) 4 ?s0 = Inl Bad_Access" unfolding merge_loop.simps using p by simp
  have "MAX_BUDDY_ORDER + 2 = Suc 15" by (simp add: MAX_BUDDY_ORDER_def)
  then have "merge_loop (MAX_BUDDY_ORDER + 2) 4 ?s0 = Inl Bad_Access" using m by (simp only:)
  then show "buddy_system_free_pages 4 1 s = Inl Bad_Access"
    using p by (simp add: buddy_system_free_pages_def rounding_small del: merge_loop.simps)
qed

text \<open>Page 2 is free, page 3 is in use.\<close>

definition demo_buddies :: buddy where
  "demo_buddies = \<lparr>area = \<lparr>pages = (\<lambda>p. \<lparr>ref = 0, flags = (if p = 0 \<or> p = 3 then 2 else 0), property = (if p = 0 then 1 else 0)\<rparr>),
     links = list_add (Free_Head 0) (Page_Link 2) (init_lists 15 \<lparr>lprev = (\<lambda>l. l), lnext = (\<lambda>l. l)\<rparr>),
     nr_free = 1, npages = 8\<rparr>, max_order = 2, pages_at = mem_begin\<rparr>"

lemma buddy_free_faults_witness:
  "(\<exists>s' s''. buddy_system_free_pages 0 2 demo_buddies = Inr s' \<and> buddy_system_alloc_pages 3 s' = Inr (Some 0, s'')) \<and>
   PageProperty (bpages demo_buddies 3) \<and> buddy_system_free_pages 4 1 demo_buddies = Inl Bad_Access"
proof -
  have d: "pages_at demo_buddies = mem_begin" "4 < npages (area demo_buddies)" "property (bpages demo_buddies 0) = 1"
    "\<not> PageProperty (bpages demo_buddies 2)" "max_order demo_buddies = 2" "nr_free (area demo_buddies) = 1"
    "property (bpages demo_buddies 4) = 0" "PageProperty (bpages demo_buddies 3)" by (simp_all add: demo_buddies_def)
  show ?thesis using buddy_free_faults [OF d(1,2)] d by blast
qed



end
