(* ===== verification/Exec.thy ===== *)
theory Exec
  imports Proc_Life
begin

text \<open>
  Loading a program, \<open>load_icode\<close> and \<open>do_execve\<close> of \<open>Lab5/kern/process/proc.c\<close>, and the body of
  the thread \<open>init_main\<close>. The bytes of the page frames are part of the state; mapping memory is a
  parameter, as in \<open>Proc\<close>.
\<close>

subsection \<open>The file headers (libs/elf.h)\<close>

text \<open>Numbers in a byte image, in little endian order.\<close>

fun load_le :: "nat \<Rightarrow> (64 word \<Rightarrow> 8 word) \<Rightarrow> 64 word \<Rightarrow> 64 word" where
  "load_le 0 b a = 0"
| "load_le (Suc n) b a = ucast (b a) OR push_bit 8 (load_le n b (a + 1))"

record elfhdr =
  e_magic :: "32 word"
  e_entry :: "64 word"
  e_phoff :: "64 word"
  e_phnum :: "16 word"

record proghdr =
  p_type :: "32 word"
  p_flags :: "32 word"
  p_offset :: "64 word"
  p_va :: "64 word"
  p_filesz :: "64 word"
  p_memsz :: "64 word"

definition elf_header :: "(64 word \<Rightarrow> 8 word) \<Rightarrow> elfhdr" where
  "elf_header b =
     \<lparr>e_magic = ucast (load_le 4 b 0), e_entry = load_le 8 b 24, e_phoff = load_le 8 b 32, e_phnum = ucast (load_le 2 b 56)\<rparr>"

definition prog_header :: "(64 word \<Rightarrow> 8 word) \<Rightarrow> 64 word \<Rightarrow> proghdr" where
  "prog_header b a =
     \<lparr>p_type = ucast (load_le 4 b a), p_flags = ucast (load_le 4 b (a + 4)), p_offset = load_le 8 b (a + 8),
      p_va = load_le 8 b (a + 16), p_filesz = load_le 8 b (a + 32), p_memsz = load_le 8 b (a + 40)\<rparr>"

definition PROGHDR_SIZE :: "64 word" where "PROGHDR_SIZE = 56"
definition ELF_MAGIC :: "32 word" where "ELF_MAGIC = 0x464C457F"
definition ELF_PT_LOAD :: "32 word" where "ELF_PT_LOAD = 1"
definition ELF_PF_X :: "32 word" where "ELF_PF_X = 1"
definition ELF_PF_W :: "32 word" where "ELF_PF_W = 2"
definition ELF_PF_R :: "32 word" where "ELF_PF_R = 4"

definition VM_READ :: "32 word" where "VM_READ = 1"
definition VM_WRITE :: "32 word" where "VM_WRITE = 2"
definition VM_EXEC :: "32 word" where "VM_EXEC = 4"
definition VM_STACK :: "32 word" where "VM_STACK = 8"

definition PTE_V :: "32 word" where "PTE_V = 1"
definition PTE_R :: "32 word" where "PTE_R = 2"
definition PTE_W :: "32 word" where "PTE_W = 4"
definition PTE_X :: "32 word" where "PTE_X = 8"
definition PTE_U :: "32 word" where "PTE_U = 16"

definition PGSIZE :: "64 word" where "PGSIZE = 4096"
definition USTACKTOP :: "64 word" where "USTACKTOP = 0x80000000"
definition USTACKSIZE :: "64 word" where "USTACKSIZE = 256 * PGSIZE"

definition ROUNDDOWN_PG :: "64 word \<Rightarrow> 64 word" where
  "ROUNDDOWN_PG a = a - a mod PGSIZE"

subsection \<open>State and environment\<close>

text \<open>\<open>pmem\<close> holds the bytes of the page frames, \<open>page2kva(page) + off\<close> is byte \<open>off\<close> of the frame.\<close>

record 'x memory =
  pmem :: "nat \<Rightarrow> nat \<Rightarrow> 8 word"
  rest :: 'x

record 'x exec_env = "'x memory env" +
  mm_map :: "nat \<Rightarrow> 64 word \<Rightarrow> 64 word \<Rightarrow> 32 word \<Rightarrow> 'x memory \<Rightarrow> int \<times> 'x memory"
  pgdir_alloc_page :: "nat \<Rightarrow> 64 word \<Rightarrow> 32 word \<Rightarrow> 'x memory \<Rightarrow> nat option \<times> 'x memory"
  PTE_USER :: "32 word"

text \<open>\<open>memcpy\<close> and \<open>memset\<close> into a frame; an access past its end is a fault.\<close>

definition write_page :: "nat \<Rightarrow> 64 word \<Rightarrow> 64 word \<Rightarrow> (64 word \<Rightarrow> 8 word) \<Rightarrow> 'x memory \<Rightarrow> 'x memory res" where
  "write_page page off sz src x =
     (if 4096 < unat off + unat sz then Inl Bad_Access
      else Inr (x\<lparr>pmem := (pmem x)(page := (\<lambda>k. if unat off \<le> k \<and> k < unat off + unat sz
                             then src (of_nat (k - unat off)) else pmem x page k))\<rparr>))"

subsection \<open>Loading one segment\<close>

definition segment_vm_flags :: "32 word \<Rightarrow> 32 word" where
  "segment_vm_flags fl =
     (if fl AND ELF_PF_X \<noteq> 0 then VM_EXEC else 0) OR (if fl AND ELF_PF_W \<noteq> 0 then VM_WRITE else 0) OR
     (if fl AND ELF_PF_R \<noteq> 0 then VM_READ else 0)"

definition segment_perm :: "32 word \<Rightarrow> 32 word" where
  "segment_perm vm =
     PTE_U OR PTE_V OR (if vm AND VM_READ \<noteq> 0 then PTE_R else 0) OR
     (if vm AND VM_WRITE \<noteq> 0 then PTE_W OR PTE_R else 0) OR (if vm AND VM_EXEC \<noteq> 0 then PTE_X else 0)"

text \<open>
  The loops that allocate the pages of a segment; \<open>src\<close> gives the bytes, that of the program at the
  pointer \<open>from\<close>, or zeros. The result is \<open>start\<close>, \<open>la\<close> and the last page, or \<open>None\<close> when there is no
  memory. The fuel bounds the pages.
\<close>

fun fill_pages :: "'x exec_env \<Rightarrow> nat \<Rightarrow> 32 word \<Rightarrow> (64 word \<Rightarrow> 8 word) \<Rightarrow> 64 word \<Rightarrow> nat \<Rightarrow>
    64 word \<Rightarrow> 64 word \<Rightarrow> 64 word \<Rightarrow> nat option \<Rightarrow> 'x memory \<Rightarrow> ((64 word \<times> 64 word \<times> nat option) option \<times> 'x memory) res" where
  "fill_pages e m perm src fin 0 start la from page x = Inl Out_Of_Fuel"
| "fill_pages e m perm src fin (Suc fuel) start la from page x =
     (if \<not> start < fin then Inr (Some (start, la, page), x)
      else case pgdir_alloc_page e m la perm x of
        (None, x1) \<Rightarrow> Inr (None, x1)
      | (Some p, x1) \<Rightarrow>
          let off = start - la; la' = la + PGSIZE;
              sz = (if fin < la' then PGSIZE - off - (la' - fin) else PGSIZE - off)
          in kbind (write_page p off sz (\<lambda>k. src (from + k)) x1) (\<lambda>x2.
               fill_pages e m perm src fin fuel (start + sz) la' (from + sz) (Some p) x2))"

definition copy_pages :: "'x exec_env \<Rightarrow> nat \<Rightarrow> 32 word \<Rightarrow> (64 word \<Rightarrow> 8 word) \<Rightarrow> nat \<Rightarrow> proghdr \<Rightarrow> 'x memory \<Rightarrow>
    ((64 word \<times> 64 word \<times> nat option) option \<times> 'x memory) res" where
  "copy_pages e m perm binary fuel ph x =
     fill_pages e m perm binary (p_va ph + p_filesz ph) fuel (p_va ph) (ROUNDDOWN_PG (p_va ph)) (p_offset ph) None x"

definition zero_pages :: "'x exec_env \<Rightarrow> nat \<Rightarrow> 32 word \<Rightarrow> nat \<Rightarrow> 64 word \<Rightarrow> 64 word \<Rightarrow> 64 word \<Rightarrow> 'x memory \<Rightarrow>
    (bool \<times> 'x memory) res" where
  "zero_pages e m perm fuel fin start la x =
     kbind (fill_pages e m perm (\<lambda>_. 0) fin fuel start la 0 None x) (\<lambda>(r, x1). Inr (r \<noteq> None, x1))"

text \<open>The part of the BSS in the last page of the data, and its other pages.\<close>

definition build_bss :: "'x exec_env \<Rightarrow> nat \<Rightarrow> 32 word \<Rightarrow> nat \<Rightarrow> 64 word \<Rightarrow> 64 word \<Rightarrow> 64 word \<Rightarrow> nat option \<Rightarrow> 'x memory \<Rightarrow>
    (bool \<times> 'x memory) res" where
  "build_bss e m perm fuel fin start la page x =
     (if start < la
      then if start = fin then Inr (True, x)
           else let off = start + PGSIZE - la;
                    sz = (if fin < la then PGSIZE - off - (la - fin) else PGSIZE - off);
                    start' = start + sz
                in (case page of
                      None \<Rightarrow> Inl Bad_Access
                    | Some p \<Rightarrow> kbind (write_page p off sz (\<lambda>_. 0) x) (\<lambda>x1.
                        kassert ((fin < la \<and> start' = fin) \<or> (fin \<ge> la \<and> start' = la))
                          (zero_pages e m perm fuel fin start' la x1)))
      else zero_pages e m perm fuel fin start la x)"

text \<open>One round of the loop over the program headers; the result is \<open>ret\<close>, 0 to go on.\<close>

definition load_segment :: "'x exec_env \<Rightarrow> nat \<Rightarrow> (64 word \<Rightarrow> 8 word) \<Rightarrow> nat \<Rightarrow> proghdr \<Rightarrow> 'x memory \<Rightarrow> (int \<times> 'x memory) res" where
  "load_segment e m binary fuel ph x =
     (if p_type ph \<noteq> ELF_PT_LOAD then Inr (0, x)
      else if p_filesz ph > p_memsz ph then Inr (- E_INVAL_ELF, x)
      else let vm = segment_vm_flags (p_flags ph); perm = segment_perm vm in
        case mm_map e m (p_va ph) (p_memsz ph) vm x of (ret, x1) \<Rightarrow>
          if ret \<noteq> 0 then Inr (ret, x1)
          else kbind (copy_pages e m perm binary fuel ph x1) (\<lambda>(r, x2).
            case r of
              None \<Rightarrow> Inr (- E_NO_MEM, x2)
            | Some (start, la, page) \<Rightarrow>
                kbind (build_bss e m perm fuel (p_va ph + p_memsz ph) start la page x2) (\<lambda>(ok, x3).
                  Inr (if ok then 0 else - E_NO_MEM, x3))))"

fun load_segments :: "'x exec_env \<Rightarrow> nat \<Rightarrow> (64 word \<Rightarrow> 8 word) \<Rightarrow> nat \<Rightarrow> nat \<Rightarrow> 64 word \<Rightarrow> 'x memory \<Rightarrow> (int \<times> 'x memory) res" where
  "load_segments e m binary fuel 0 ph x = Inr (0, x)"
| "load_segments e m binary fuel (Suc n) ph x =
     kbind (load_segment e m binary fuel (prog_header binary ph) x) (\<lambda>(ret, x1).
       if ret \<noteq> 0 then Inr (ret, x1) else load_segments e m binary fuel n (ph + PROGHDR_SIZE) x1)"

subsection \<open>load_icode and do_execve\<close>

fun stack_pages :: "'x exec_env \<Rightarrow> nat \<Rightarrow> 64 word list \<Rightarrow> 'x memory \<Rightarrow> 'x memory res" where
  "stack_pages e m [] x = Inr x"
| "stack_pages e m (la # las) x =
     (case pgdir_alloc_page e m la (PTE_USER e) x of (p, x1) \<Rightarrow>
        kassert (p \<noteq> None) (stack_pages e m las x1))"

definition user_stack :: "'x exec_env \<Rightarrow> nat \<Rightarrow> 'x memory \<Rightarrow> (int \<times> 'x memory) res" where
  "user_stack e m x =
     (case mm_map e m (USTACKTOP - USTACKSIZE) USTACKSIZE (VM_READ OR VM_WRITE OR VM_STACK) x of (ret, x1) \<Rightarrow>
        if ret \<noteq> 0 then Inr (ret, x1)
        else kbind (stack_pages e m [USTACKTOP - PGSIZE, USTACKTOP - 2 * PGSIZE, USTACKTOP - 3 * PGSIZE, USTACKTOP - 4 * PGSIZE] x1)
          (\<lambda>x2. Inr (0, x2)))"

text \<open>The memory of the program: the steps (3) and (4), with the code of the first that fails.\<close>

definition load_image :: "'x exec_env \<Rightarrow> nat \<Rightarrow> (64 word \<Rightarrow> 8 word) \<Rightarrow> nat \<Rightarrow> 'x memory \<Rightarrow> (int \<times> 'x memory) res" where
  "load_image e m binary fuel x =
     kbind (load_segments e m binary fuel (unat (e_phnum (elf_header binary))) (e_phoff (elf_header binary)) x) (\<lambda>(ret, x1).
       if ret \<noteq> 0 then Inr (ret, x1) else user_stack e m x1)"

definition enter_user :: "'x exec_env \<Rightarrow> nat \<Rightarrow> 64 word \<Rightarrow> 'x memory pstate \<Rightarrow> 'x memory pstate" where
  "enter_user e m entry s =
     (let s1 = s\<lparr>mm_count := (mm_count s)(m := mm_count s m + 1)\<rparr>;
          pa = pgdir_pa e m (ext s1);
          s2 = lcr3 pa (on_proc (current s1) (\<lambda>r. r\<lparr>mm := Some m, cr3 := pa\<rparr>) s1)
      in s2\<lparr>frames := (frames s2)(tf (procs s2 (current s2)) :=
           \<lparr>gpr = (\<lambda>_. 0)(reg_sp := USTACKTOP), tf_status = sstatus s2 AND NOT SSTATUS_SPP AND NOT SSTATUS_SPIE,
            tf_epc = entry, tf_tval = 0, tf_cause = 0\<rparr>)\<rparr>)"

definition load_icode :: "'x exec_env \<Rightarrow> (64 word \<Rightarrow> 8 word) \<Rightarrow> nat \<Rightarrow> 'x memory pstate \<Rightarrow> (int \<times> 'x memory pstate) res" where
  "load_icode e binary fuel s =
     (if mm (procs s (current s)) \<noteq> None then Inl Panicked
      else case mm_create e (ext s) of
        (None, x1) \<Rightarrow> Inr (- E_NO_MEM, s\<lparr>ext := x1\<rparr>)
      | (Some m, x1) \<Rightarrow>
          (case setup_pgdir_op e m x1 of (r, x2) \<Rightarrow>
            if r \<noteq> 0 then Inr (- E_NO_MEM, s\<lparr>ext := mm_destroy e m x2\<rparr>)
            else if e_magic (elf_header binary) \<noteq> ELF_MAGIC
            then Inr (- E_INVAL_ELF, s\<lparr>ext := mm_destroy e m (put_pgdir_op e m x2)\<rparr>)
            else kbind (load_image e m binary fuel x2) (\<lambda>(ret, x3).
              if ret \<noteq> 0
              then Inr (ret, s\<lparr>ext := mm_destroy e m (put_pgdir_op e m (exit_mmap e m x3))\<rparr>)
              else Inr (0, enter_user e m (e_entry (elf_header binary)) (s\<lparr>ext := x3\<rparr>)))))"

definition local_name :: "64 word \<Rightarrow> (nat \<Rightarrow> 8 word) \<Rightarrow> nat \<Rightarrow> 8 word" where
  "local_name len nm i = (if i < min (unat len) PROC_NAME_LEN then nm i else 0)"

text \<open>
  \<open>nm\<close> are the bytes at the address \<open>name_at\<close>. When loading fails the process exits: \<open>do_exit\<close>
  switches away and does not return.
\<close>

definition do_execve :: "'x exec_env \<Rightarrow> nat \<Rightarrow> 64 word \<Rightarrow> (nat \<Rightarrow> 8 word) \<Rightarrow> 64 word \<Rightarrow> (64 word \<Rightarrow> 8 word) \<Rightarrow>
    'x memory pstate \<Rightarrow> (outcome \<times> 'x memory pstate) res" where
  "do_execve e fuel name_at nm len binary s =
     (if \<not> user_mem_check e (mm (procs s (current s))) name_at len False (ext s) then Inr (Returned (- E_INVAL), s)
      else kbind (load_icode e binary fuel (drop_mm (env.truncate e) s)) (\<lambda>(ret, s1).
        if ret \<noteq> 0 then kbind (do_exit (env.truncate e) fuel ret s1) (\<lambda>s2. Inr (Blocked, s2))
        else Inr (Returned 0, set_proc_name (current s1) (local_name len nm) s1)))"

subsection \<open>The thread init_main\<close>

definition init_main_start :: "'x env \<Rightarrow> nat \<Rightarrow> 64 word \<Rightarrow> 'x pstate \<Rightarrow> 'x pstate res" where
  "init_main_start e fuel user_main s =
     kbind (kernel_thread e fuel user_main 0 0 s) (\<lambda>(n, s1). if n \<le> 0 then Inl Panicked else Inr s1)"

definition init_main_end :: "'x pstate \<Rightarrow> int res" where
  "init_main_end s =
     (let r = procs s (initproc s) in
      kassert (cptr r = None \<and> yptr r = None \<and> optr r = None)
        (kassert (nr_process s = 2)
          (kassert (list_next (plinks s) None = Some (initproc s))
            (kassert (list_prev (plinks s) None = Some (initproc s)) (Inr 0)))))"

text \<open>What the loop does when \<open>do_wait\<close> returns \<open>r\<close>: another round, or the end.\<close>

definition init_main_round :: "nat \<Rightarrow> outcome \<times> 'x pstate \<Rightarrow> (int option \<times> 'x pstate) res" where
  "init_main_round fuel = (\<lambda>(r, s).
     case r of
       Blocked \<Rightarrow> Inr (None, s)
     | Returned n \<Rightarrow>
         if n = 0 then kbind (schedule fuel s) (\<lambda>s1. Inr (None, s1))
         else kbind (init_main_end s) (\<lambda>c. Inr (Some c, s)))"

definition init_main_wait :: "'x env \<Rightarrow> nat \<Rightarrow> 'x pstate \<Rightarrow> (int option \<times> 'x pstate) res" where
  "init_main_wait e fuel s = kbind (do_wait e fuel 0 0 s) (init_main_round fuel)"

end
