(* ===== verification/Exec_Props.thy ===== *)
theory Exec_Props
  imports Exec
begin

text \<open>
  What \<open>load_icode\<close> does: the bytes a program sees after its segments are loaded, and the
  resources that are held when loading fails.
\<close>

subsection \<open>The image of a segment\<close>



















subsection \<open>Resources\<close>

text \<open>
  What the memory manager promises of its books: the memory managers that exist (\<open>ms\<close>), those that
  have a page directory (\<open>ds\<close>) and those that have memory mapped (\<open>as\<close>).
\<close>

type_synonym 'x books = "'x \<Rightarrow> nat set \<times> nat set \<times> nat set"



text \<open>While an image is loaded, only the memory of the new manager changes.\<close>

definition same_but :: "'x books \<Rightarrow> nat \<Rightarrow> 'x memory \<Rightarrow> 'x memory \<Rightarrow> bool" where
  "same_but bk m x x' \<longleftrightarrow> fst (bk (rest x')) = fst (bk (rest x)) \<and> fst (snd (bk (rest x'))) = fst (snd (bk (rest x))) \<and>
     snd (snd (bk (rest x'))) - {m} = snd (snd (bk (rest x))) - {m}"

lemma same_but_refl [simp]: "same_but bk m x x" by (simp add: same_but_def)












subsection \<open>Loading returns\<close>







subsection \<open>The properties\<close>














end
