(* ===== verification/Devices.thy ===== *)
theory Devices
  imports Vfs "HOL-Library.Signed_Division"
begin

text \<open>
  \<open>lab8/kern/fs/devs/dev_stdin.c\<close>, \<open>dev_stdout.c\<close> and \<open>dev_disk0.c\<close>: the drivers behind the
  devices of \<open>Vfs_Inode\<close>, reading and writing of \<open>dev.c\<close>, and the start of the three devices.
  Wait queues, \<open>iobuf_move\<close>, the IDE routines and \<open>kmalloc\<close> are not part of \<open>lab8\<close>: they are
  parameters. An I/O buffer is the memory \<open>io_mem\<close> of the caller with the position \<open>io_base\<close>.
\<close>

subsection \<open>Memory\<close>

text \<open>Storing the bytes \<open>xs\<close> from position \<open>i\<close> on.\<close>

definition patch :: "nat \<Rightarrow> byte list \<Rightarrow> byte list \<Rightarrow> byte list" where
  "patch i xs m = take i m @ xs @ drop (i + length xs) m"

record iobuf =
  io_mem :: "byte list"
  io_base :: nat
  io_offset :: "64 word"
  io_resid :: "64 word"

subsection \<open>Standard input\<close>

definition STDIN_BUFSIZE :: nat where "STDIN_BUFSIZE = 4096"

record 'q stdin =
  stdin_buffer :: "byte list"
  p_rpos :: nat
  p_wpos :: nat
  stdin_waiters :: 'q

text \<open>The routines of wait queues, on their own state \<open>'q\<close>, and the flag \<open>WT_KBD\<close>.\<close>

record 'q wait_env =
  WT_KBD :: "32 word"
  wait_queue_init :: 'q
  wait_queue_empty :: "'q \<Rightarrow> bool"
  wakeup_queue :: "'q \<Rightarrow> 'q"
  wait_current_set :: "'q \<Rightarrow> 'q"
  wait_current_del :: "'q \<Rightarrow> 'q"

text \<open>The store of \<open>dev_stdin_write\<close>; a full buffer keeps \<open>p_wpos\<close>.\<close>

definition stdin_put :: "byte \<Rightarrow> 'q stdin \<Rightarrow> 'q stdin" where
  "stdin_put c s =
     (let s1 = s\<lparr>stdin_buffer := (stdin_buffer s)[p_wpos s mod STDIN_BUFSIZE := c]\<rparr> in
      if p_wpos s1 < p_rpos s1 + STDIN_BUFSIZE then s1\<lparr>p_wpos := p_wpos s1 + 1\<rparr> else s1)"

definition dev_stdin_write :: "'q wait_env \<Rightarrow> byte \<Rightarrow> 'q stdin \<Rightarrow> 'q stdin" where
  "dev_stdin_write W c s =
     (if c \<noteq> 0 then
        let s1 = stdin_put c s in
        if \<not> wait_queue_empty W (stdin_waiters s1)
        then s1\<lparr>stdin_waiters := wakeup_queue W (stdin_waiters s1)\<rparr> else s1
      else s)"

text \<open>The body of the loop of \<open>dev_stdin_read\<close> when a character is there.\<close>

definition stdin_take :: "'q stdin \<Rightarrow> byte \<times> 'q stdin" where
  "stdin_take s = (stdin_buffer s ! (p_rpos s mod STDIN_BUFSIZE), s\<lparr>p_rpos := p_rpos s + 1\<rparr>)"

text \<open>
  \<open>schedule()\<close> in the loop lets the rest of the system run: an event is what it does to the
  state of the device, with the flags the reader is woken with. The list gives the events in
  order; when it ends, the reader is still asleep. \<open>out\<close> is what has been stored so far.
\<close>

datatype 'a io_run = Returned 'a | Asleep 'a

type_synonym 'q wakes = "('q stdin \<Rightarrow> 'q stdin \<times> 32 word) list"

function read_loop ::
    "'q wait_env \<Rightarrow> 'q wakes \<Rightarrow> nat \<Rightarrow> byte list \<Rightarrow> 'q stdin \<Rightarrow> (byte list \<times> 'q stdin) io_run" where
  "read_loop W evs len out s =
     (if length out < len then
        if p_rpos s < p_wpos s then
          let (c, s1) = stdin_take s in read_loop W evs len (out @ [c]) s1
        else
          let s1 = s\<lparr>stdin_waiters := wait_current_set W (stdin_waiters s)\<rparr> in
          case evs of
            [] \<Rightarrow> Asleep (out, s1)
          | ev # evs' \<Rightarrow>
              let (s2, flags) = ev s1; s3 = s2\<lparr>stdin_waiters := wait_current_del W (stdin_waiters s2)\<rparr> in
              if flags = WT_KBD W then read_loop W evs' len out s3 else Returned (out, s3)
      else Returned (out, s))"
  by pat_completeness auto

termination
  by (relation "measure (\<lambda>(W, evs, len, out, s). length evs + (len - length out))") auto

declare read_loop.simps [simp del]

definition dev_stdin_read ::
    "'q wait_env \<Rightarrow> 'q wakes \<Rightarrow> nat \<Rightarrow> 'q stdin \<Rightarrow> (byte list \<times> 'q stdin) io_run" where
  "dev_stdin_read W evs len s = read_loop W evs len [] s"

text \<open>The count that \<open>dev_stdin_read\<close> returns, and the bytes it leaves in the memory of the caller.\<close>

fun stdin_result :: "iobuf \<Rightarrow> (byte list \<times> 'q stdin) io_run \<Rightarrow> (int \<times> iobuf \<times> 'q stdin) io_run" where
  "stdin_result iob (Returned (out, s)) =
     Returned (int (length out),
       iob\<lparr>io_mem := patch (io_base iob) out (io_mem iob), io_resid := io_resid iob - of_nat (length out)\<rparr>, s)"
| "stdin_result iob (Asleep (out, s)) =
     Asleep (0, iob\<lparr>io_mem := patch (io_base iob) out (io_mem iob)\<rparr>, s)"

fun run_out :: "(byte list \<times> 'q stdin) io_run \<Rightarrow> byte list" where
  "run_out (Returned (out, s)) = out"
| "run_out (Asleep (out, s)) = out"

definition stdin_io ::
    "'q wait_env \<Rightarrow> 'q wakes \<Rightarrow> iobuf \<Rightarrow> bool \<Rightarrow> 'q stdin \<Rightarrow> (int \<times> iobuf \<times> 'q stdin) io_run res" where
  "stdin_io W evs iob write s =
     (if \<not> write then
        let r = dev_stdin_read W evs (unat (io_resid iob)) s in
        if io_base iob + length (run_out r) \<le> length (io_mem iob) then Inr (stdin_result iob r)
        else Inl Bad_Access
      else Inr (Returned (- E_INVAL, iob, s)))"

definition stdin_device_init :: "'q wait_env \<Rightarrow> 'q stdin \<Rightarrow> device \<times> 'q stdin" where
  "stdin_device_init W s =
     (\<lparr>d_blocks = 0, d_blocksize = 1, d_driver = Stdin_Driver\<rparr>,
      s\<lparr>p_rpos := 0, p_wpos := 0, stdin_waiters := wait_queue_init W\<rparr>)"

subsection \<open>Standard output\<close>

text \<open>The state of the device is what \<open>cputchar\<close> has put on the console.\<close>

function stdout_loop :: "nat \<Rightarrow> iobuf \<Rightarrow> byte list \<Rightarrow> (iobuf \<times> byte list) res" where
  "stdout_loop data iob con =
     (if io_resid iob \<noteq> 0 then
        if data < length (io_mem iob)
        then stdout_loop (data + 1) (iob\<lparr>io_resid := io_resid iob - 1\<rparr>) (con @ [io_mem iob ! data])
        else Inl Bad_Access
      else Inr (iob, con))"
  by pat_completeness auto

termination
  by (relation "measure (\<lambda>(data, iob, con). unat (io_resid iob))") (auto simp: unat_gt_0 unat_minus_one)

declare stdout_loop.simps [simp del]

definition stdout_io :: "iobuf \<Rightarrow> bool \<Rightarrow> byte list \<Rightarrow> (int \<times> iobuf \<times> byte list) res" where
  "stdout_io iob write con =
     (if write then kbind (stdout_loop (io_base iob) iob con) (\<lambda>(iob1, con1). Inr (0, iob1, con1))
      else Inr (- E_INVAL, iob, con))"

definition stdout_device_init :: device where
  "stdout_device_init = \<lparr>d_blocks = 0, d_blocksize = 1, d_driver = Stdout_Driver\<rparr>"


subsection \<open>The disk\<close>

definition DISK0_BLKSIZE :: nat where "DISK0_BLKSIZE = 4096"
definition DISK0_BUFSIZE :: nat where "DISK0_BUFSIZE = 4 * 4096"
definition DISK0_BLK_NSECT :: nat where "DISK0_BLK_NSECT = 4096 div 512"

lemmas disk0_sizes = DISK0_BLKSIZE_def DISK0_BUFSIZE_def DISK0_BLK_NSECT_def

text \<open>The calls on the semaphore of the driver, and the sectors it asks the IDE driver for.\<close>

datatype disk_call = Sem_Init nat | Sem_Down | Sem_Up | Secs_Read "32 word" "32 word" | Secs_Write "32 word" "32 word"

record 'd disk0 =
  disk0_buffer :: "byte list"
  disk0_calls :: "disk_call list"
  disk :: 'd

text \<open>
  The routines outside of \<open>lab8\<close>, for the disk of the driver: reading and writing sectors
  (number of the first, the buffer, their count), \<open>iobuf_move\<close> (with the flag \<open>m2b\<close>, and the
  count it stores in \<open>copied\<close>), and what \<open>kmalloc\<close> finds in the memory of the buffer.
\<close>

record 'd disk_env =
  ide_read_secs :: "32 word \<Rightarrow> byte list \<Rightarrow> 32 word \<Rightarrow> 'd \<Rightarrow> int \<times> byte list \<times> 'd"
  ide_write_secs :: "32 word \<Rightarrow> byte list \<Rightarrow> 32 word \<Rightarrow> 'd \<Rightarrow> int \<times> 'd"
  ide_device_valid :: bool
  ide_device_size :: "64 word"
  iobuf_move :: "iobuf \<Rightarrow> byte list \<Rightarrow> 64 word \<Rightarrow> bool \<Rightarrow> iobuf \<times> byte list \<times> 64 word"
  disk_junk :: "byte list"

definition disk_emit :: "disk_call \<Rightarrow> 'd disk0 \<Rightarrow> 'd disk0" where
  "disk_emit c s = s\<lparr>disk0_calls := disk0_calls s @ [c]\<rparr>"

definition lock_disk0 :: "'d disk0 \<Rightarrow> 'd disk0" where "lock_disk0 s = disk_emit Sem_Down s"
definition unlock_disk0 :: "'d disk0 \<Rightarrow> 'd disk0" where "unlock_disk0 s = disk_emit Sem_Up s"

definition disk0_read_blks_nolock :: "'d disk_env \<Rightarrow> 32 word \<Rightarrow> 32 word \<Rightarrow> 'd disk0 \<Rightarrow> 'd disk0 res" where
  "disk0_read_blks_nolock D blkno nblks s =
     (let sectno = blkno * of_nat DISK0_BLK_NSECT; nsecs = nblks * of_nat DISK0_BLK_NSECT;
          s1 = disk_emit (Secs_Read sectno nsecs) s;
          (ret, buf, d) = ide_read_secs D sectno (disk0_buffer s1) nsecs (disk s1) in
      if ret \<noteq> 0 then Inl Panicked else Inr (s1\<lparr>disk0_buffer := buf, disk := d\<rparr>))"

definition disk0_write_blks_nolock :: "'d disk_env \<Rightarrow> 32 word \<Rightarrow> 32 word \<Rightarrow> 'd disk0 \<Rightarrow> 'd disk0 res" where
  "disk0_write_blks_nolock D blkno nblks s =
     (let sectno = blkno * of_nat DISK0_BLK_NSECT; nsecs = nblks * of_nat DISK0_BLK_NSECT;
          s1 = disk_emit (Secs_Write sectno nsecs) s;
          (ret, d) = ide_write_secs D sectno (disk0_buffer s1) nsecs (disk s1) in
      if ret \<noteq> 0 then Inl Panicked else Inr (s1\<lparr>disk := d\<rparr>))"

text \<open>One pass of the loop of \<open>disk0_io\<close>; the result has the bytes and the blocks of the pass.\<close>

definition disk0_pass ::
    "'d disk_env \<Rightarrow> bool \<Rightarrow> 32 word \<Rightarrow> 64 word \<Rightarrow> iobuf \<Rightarrow> 'd disk0 \<Rightarrow> (64 word \<times> 32 word \<times> iobuf \<times> 'd disk0) res" where
  "disk0_pass D write blkno resid iob s =
     (if write then
        let (iob1, buf, moved) = iobuf_move D iob (disk0_buffer s) (of_nat DISK0_BUFSIZE) False;
            nblks = ucast (moved div of_nat DISK0_BLKSIZE) in
        kassert (moved \<noteq> 0 \<and> moved \<le> resid \<and> moved mod of_nat DISK0_BLKSIZE = 0)
          (kbind (disk0_write_blks_nolock D blkno nblks (s\<lparr>disk0_buffer := buf\<rparr>)) (\<lambda>s1.
            Inr (moved, nblks, iob1, s1)))
      else
        let alen = (if of_nat DISK0_BUFSIZE > resid then resid else of_nat DISK0_BUFSIZE);
            nblks = ucast (alen div of_nat DISK0_BLKSIZE) in
        kbind (disk0_read_blks_nolock D blkno nblks s) (\<lambda>s1.
          let (iob1, buf, moved) = iobuf_move D iob (disk0_buffer s1) alen True in
          kassert (moved = alen \<and> moved mod of_nat DISK0_BLKSIZE = 0)
            (Inr (moved, nblks, iob1, s1\<lparr>disk0_buffer := buf\<rparr>))))"

lemma disk0_pass_decreases:
  assumes "disk0_pass D write blkno resid iob s = Inr (moved, nblks, iob1, s1)" and "resid \<noteq> 0"
  shows "unat (resid - moved) < unat resid"
proof -
  have "moved \<noteq> 0 \<and> moved \<le> resid"
    using assms by (auto simp: disk0_pass_def Let_def kbind_eq_Inr_iff disk0_sizes not_less case_prod_beta split: if_splits)
  then have "0 < unat moved" and "unat moved \<le> unat resid" by (auto simp: unat_gt_0 word_le_nat_alt)
  then show ?thesis using \<open>moved \<noteq> 0 \<and> moved \<le> resid\<close> by (simp add: unat_sub)
qed

function disk0_loop ::
    "'d disk_env \<Rightarrow> bool \<Rightarrow> 32 word \<Rightarrow> 64 word \<Rightarrow> iobuf \<Rightarrow> 'd disk0 \<Rightarrow> (iobuf \<times> 'd disk0) res" where
  "disk0_loop D write blkno resid iob s =
     (if resid \<noteq> 0 then
        case disk0_pass D write blkno resid iob s of
          Inl e \<Rightarrow> Inl e
        | Inr (moved, nblks, iob1, s1) \<Rightarrow> disk0_loop D write (blkno + nblks) (resid - moved) iob1 s1
      else Inr (iob, s))"
  by pat_completeness auto

termination
  by (relation "measure (\<lambda>(D, write, blkno, resid, iob, s). unat resid)") (auto simp: disk0_pass_decreases)

declare disk0_loop.simps [simp del]

definition disk0_io ::
    "'d disk_env \<Rightarrow> device \<Rightarrow> iobuf \<Rightarrow> bool \<Rightarrow> 'd disk0 \<Rightarrow> (int \<times> iobuf \<times> 'd disk0) res" where
  "disk0_io D dev iob write s =
     (let offset = io_offset iob; resid = io_resid iob;
          blkno = word_of_int (sint offset sdiv int DISK0_BLKSIZE) :: 32 word;
          nblks = ucast (resid div of_nat DISK0_BLKSIZE) :: 32 word in
      if sint offset smod int DISK0_BLKSIZE \<noteq> 0 \<or> resid mod of_nat DISK0_BLKSIZE \<noteq> 0 then Inr (- E_INVAL, iob, s)
      else if ucast (blkno + nblks) > d_blocks dev then Inr (- E_INVAL, iob, s)
      else if nblks = 0 then Inr (0, iob, s)
      else kbind (disk0_loop D write blkno resid iob (lock_disk0 s)) (\<lambda>(iob1, s1). Inr (0, iob1, unlock_disk0 s1)))"

text \<open>The driver starts with its buffer, whose memory is a block of \<open>kmalloc\<close>.\<close>

definition disk0_device_init ::
    "'d disk_env \<Rightarrow> 'x env \<Rightarrow> 'x vstate \<Rightarrow> 'd disk0 \<Rightarrow> (device \<times> 'x vstate \<times> 'd disk0) res" where
  "disk0_device_init D E v s =
     (if \<not> ide_device_valid D then Inl Panicked
      else
        let dev = \<lparr>d_blocks = ide_device_size D div of_nat DISK0_BLK_NSECT, d_blocksize = of_nat DISK0_BLKSIZE,
                   d_driver = Disk0_Driver\<rparr>;
            s1 = disk_emit (Sem_Init 1) s in
        case e_kmalloc E v of
          (None, v1) \<Rightarrow> Inl Panicked
        | (Some _, v1) \<Rightarrow> Inr (dev, v1, s1\<lparr>disk0_buffer := disk_junk D\<rparr>))"

subsection \<open>Calls through the driver table\<close>

record ('q, 'd) devs =
  dv_stdin :: "'q stdin"
  dv_stdout :: "byte list"
  dv_disk0 :: "'d disk0"

fun dop_io ::
    "'q wait_env \<Rightarrow> 'd disk_env \<Rightarrow> 'q wakes \<Rightarrow> device \<Rightarrow> iobuf \<Rightarrow> bool \<Rightarrow> ('q, 'd) devs \<Rightarrow>
      (int \<times> iobuf \<times> ('q, 'd) devs) io_run res" where
  "dop_io W D evs dev iob write s =
     (case d_driver dev of
        Stdin_Driver \<Rightarrow>
          kbind (stdin_io W evs iob write (dv_stdin s)) (\<lambda>r. Inr (case r of
            Returned (ret, iob1, t) \<Rightarrow> Returned (ret, iob1, s\<lparr>dv_stdin := t\<rparr>)
          | Asleep (ret, iob1, t) \<Rightarrow> Asleep (ret, iob1, s\<lparr>dv_stdin := t\<rparr>)))
      | Stdout_Driver \<Rightarrow>
          kbind (stdout_io iob write (dv_stdout s)) (\<lambda>(ret, iob1, con).
            Inr (Returned (ret, iob1, s\<lparr>dv_stdout := con\<rparr>)))
      | Disk0_Driver \<Rightarrow>
          kbind (disk0_io D dev iob write (dv_disk0 s)) (\<lambda>(ret, iob1, t).
            Inr (Returned (ret, iob1, s\<lparr>dv_disk0 := t\<rparr>))))"

definition dev_read ::
    "'q wait_env \<Rightarrow> 'd disk_env \<Rightarrow> 'q wakes \<Rightarrow> nat \<Rightarrow> iobuf \<Rightarrow> 'x vstate \<Rightarrow> ('q, 'd) devs \<Rightarrow>
      (int \<times> iobuf \<times> ('q, 'd) devs) io_run res" where
  "dev_read W D evs node iob v s = kbind (vop_info_device node v) (\<lambda>dev. dop_io W D evs dev iob False s)"

definition dev_write ::
    "'q wait_env \<Rightarrow> 'd disk_env \<Rightarrow> 'q wakes \<Rightarrow> nat \<Rightarrow> iobuf \<Rightarrow> 'x vstate \<Rightarrow> ('q, 'd) devs \<Rightarrow>
      (int \<times> iobuf \<times> ('q, 'd) devs) io_run res" where
  "dev_write W D evs node iob v s = kbind (vop_info_device node v) (\<lambda>dev. dop_io W D evs dev iob True s)"

subsection \<open>Starting the devices\<close>

definition put_device :: "nat \<Rightarrow> device \<Rightarrow> 'x vstate \<Rightarrow> 'x vstate res" where
  "put_device n dev v = kbind (get_inode n v) (\<lambda>i. Inr (put_inode n (i\<lparr>in_device := dev\<rparr>) v))"

text \<open>Adding the node under its name; a failure is a panic.\<close>

definition add_or_panic :: "'x env \<Rightarrow> byte list \<Rightarrow> nat \<Rightarrow> bool \<Rightarrow> 'x vstate \<Rightarrow> 'x vstate res" where
  "add_or_panic E name n mnt v =
     kbind (vfs_add_dev E name (Some n) mnt v) (\<lambda>(ret, v1). if ret \<noteq> 0 then Inl Panicked else Inr v1)"

text \<open>The names \<open>stdin\<close>, \<open>stdout\<close> and \<open>disk0\<close>.\<close>

definition stdin_name :: "byte list" where "stdin_name = [115, 116, 100, 105, 110]"
definition stdout_name :: "byte list" where "stdout_name = [115, 116, 100, 111, 117, 116]"
definition disk0_name :: "byte list" where "disk0_name = [100, 105, 115, 107, 48]"

lemmas dev_names = stdin_name_def stdout_name_def disk0_name_def

definition dev_init_stdin :: "'q wait_env \<Rightarrow> 'x env \<Rightarrow> 'x vstate \<Rightarrow> 'q stdin \<Rightarrow> ('x vstate \<times> 'q stdin) res" where
  "dev_init_stdin W E v s =
     kbind (dev_create_inode E v) (\<lambda>(node, v1). case node of
       None \<Rightarrow> Inl Panicked
     | Some n \<Rightarrow>
         kbind (vop_info_device n v1) (\<lambda>_.
         let (dev, s1) = stdin_device_init W s in
         kbind (put_device n dev v1) (\<lambda>v2.
         kbind (add_or_panic E stdin_name n False v2) (\<lambda>v3. Inr (v3, s1)))))"

definition dev_init_stdout :: "'x env \<Rightarrow> 'x vstate \<Rightarrow> 'x vstate res" where
  "dev_init_stdout E v =
     kbind (dev_create_inode E v) (\<lambda>(node, v1). case node of
       None \<Rightarrow> Inl Panicked
     | Some n \<Rightarrow>
         kbind (vop_info_device n v1) (\<lambda>_.
         kbind (put_device n stdout_device_init v1) (\<lambda>v2.
         add_or_panic E stdout_name n False v2)))"

definition dev_init_disk0 :: "'d disk_env \<Rightarrow> 'x env \<Rightarrow> 'x vstate \<Rightarrow> 'd disk0 \<Rightarrow> ('x vstate \<times> 'd disk0) res" where
  "dev_init_disk0 D E v s =
     kbind (dev_create_inode E v) (\<lambda>(node, v1). case node of
       None \<Rightarrow> Inl Panicked
     | Some n \<Rightarrow>
         kbind (vop_info_device n v1) (\<lambda>_.
         kbind (disk0_device_init D E v1 s) (\<lambda>(dev, v2, s1).
         kbind (put_device n dev v2) (\<lambda>v3.
         kbind (add_or_panic E disk0_name n True v3) (\<lambda>v4. Inr (v4, s1))))))"

definition dev_init ::
    "'q wait_env \<Rightarrow> 'd disk_env \<Rightarrow> 'x env \<Rightarrow> 'x vstate \<Rightarrow> ('q, 'd) devs \<Rightarrow> ('x vstate \<times> ('q, 'd) devs) res" where
  "dev_init W D E v s =
     kbind (dev_init_stdin W E v (dv_stdin s)) (\<lambda>(v1, t).
     kbind (dev_init_stdout E v1) (\<lambda>v2.
     kbind (dev_init_disk0 D E v2 (dv_disk0 s)) (\<lambda>(v3, d).
     Inr (v3, s\<lparr>dv_stdin := t, dv_disk0 := d\<rparr>))))"


subsection \<open>The buffer of standard input is a queue\<close>

text \<open>A run of operations on a queue: \<open>Some c\<close> puts \<open>c\<close>, \<open>None\<close> takes a character if there is one.\<close>

fun fifo_run :: "('c \<Rightarrow> 's \<Rightarrow> 's) \<Rightarrow> ('s \<Rightarrow> 'c \<times> 's) \<Rightarrow> ('s \<Rightarrow> bool) \<Rightarrow> 'c option list \<Rightarrow> 's \<Rightarrow> 'c list \<times> 's" where
  "fifo_run put tk avail [] s = ([], s)"
| "fifo_run put tk avail (Some c # ops) s = fifo_run put tk avail ops (put c s)"
| "fifo_run put tk avail (None # ops) s =
     (if avail s then let (c, s1) = tk s; (cs, s2) = fifo_run put tk avail ops s1 in (c # cs, s2)
      else fifo_run put tk avail ops s)"

definition puts_of :: "'c option list \<Rightarrow> 'c list" where
  "puts_of ops = map the (filter (\<lambda>x. x \<noteq> None) ops)"

lemma puts_of_simps [simp]:
  "puts_of [] = []" "puts_of (Some c # ops) = c # puts_of ops" "puts_of (None # ops) = puts_of ops"
  by (simp_all add: puts_of_def)

text \<open>The contract of a bounded queue of characters, with what a put into a full queue does.\<close>

locale char_queue =
  fixes put :: "'c \<Rightarrow> 's \<Rightarrow> 's" and tk :: "'s \<Rightarrow> 'c \<times> 's" and avail :: "'s \<Rightarrow> bool"
    and pending :: "'s \<Rightarrow> 'c list" and ok :: "'s \<Rightarrow> bool" and capacity :: nat
  assumes put_ok: "ok s \<Longrightarrow> ok (put c s)"
    and put_room: "ok s \<Longrightarrow> length (pending s) < capacity \<Longrightarrow> pending (put c s) = pending s @ [c]"
    and put_full: "ok s \<Longrightarrow> length (pending s) = capacity \<Longrightarrow> pending (put c s) = c # tl (pending s)"
    and tk_ok: "ok s \<Longrightarrow> avail s \<Longrightarrow> ok (snd (tk s))"
    and tk_pending: "ok s \<Longrightarrow> avail s \<Longrightarrow> pending s = fst (tk s) # pending (snd (tk s))"
    and avail_iff: "ok s \<Longrightarrow> avail s \<longleftrightarrow> pending s \<noteq> []"
begin

lemma puts_pending:
  assumes "ok s" and "length (pending s) + length cs \<le> capacity"
  shows "pending (fold put cs s) = pending s @ cs \<and> ok (fold put cs s)"
  using assms
proof (induction cs arbitrary: s)
  case (Cons c cs)
  have "pending (put c s) = pending s @ [c]" using put_room Cons.prems by simp
  then show ?case using Cons.IH [of "put c s"] Cons.prems put_ok by simp
qed simp

lemma queue_run:
  assumes "ok s" and "length (pending s) + length (puts_of ops) \<le> capacity"
  shows "ok (snd (fifo_run put tk avail ops s)) \<and>
    fst (fifo_run put tk avail ops s) @ pending (snd (fifo_run put tk avail ops s)) = pending s @ puts_of ops"
  using assms
proof (induction ops arbitrary: s)
  case (Cons x ops)
  show ?case
  proof (cases x)
    case (Some c)
    have "pending (put c s) = pending s @ [c]" using put_room Cons.prems Some by simp
    then show ?thesis using Cons.IH [of "put c s"] Cons.prems put_ok Some by simp
  next
    case None
    show ?thesis
    proof (cases "avail s")
      case True
      then have "pending s = fst (tk s) # pending (snd (tk s))" using tk_pending Cons.prems(1) by blast
      moreover from this have "length (pending s) = Suc (length (pending (snd (tk s))))"
        by (metis length_Cons)
      ultimately show ?thesis
        using Cons.IH [of "snd (tk s)"] Cons.prems tk_ok None True by (simp add: case_prod_beta Let_def)
    qed (use Cons None in simp)
  qed
qed simp

end

definition stdin_ok :: "'q stdin \<Rightarrow> bool" where
  "stdin_ok s \<longleftrightarrow> length (stdin_buffer s) = STDIN_BUFSIZE \<and> p_rpos s \<le> p_wpos s \<and> p_wpos s \<le> p_rpos s + STDIN_BUFSIZE"

definition stdin_pending :: "'q stdin \<Rightarrow> byte list" where
  "stdin_pending s = map (\<lambda>i. stdin_buffer s ! (i mod STDIN_BUFSIZE)) [p_rpos s..<p_wpos s]"

definition stdin_avail :: "'q stdin \<Rightarrow> bool" where
  "stdin_avail s \<longleftrightarrow> p_rpos s < p_wpos s"

lemma stdin_waiters_simps [simp]:
  "stdin_ok (s\<lparr>stdin_waiters := q\<rparr>) = stdin_ok s" "stdin_pending (s\<lparr>stdin_waiters := q\<rparr>) = stdin_pending s"
  by (simp_all add: stdin_ok_def stdin_pending_def)

lemma length_pending: "length (stdin_pending s) = p_wpos s - p_rpos s"
  by (simp add: stdin_pending_def)

lemma bufsize_pos [simp]: "0 < STDIN_BUFSIZE"
  by (simp add: STDIN_BUFSIZE_def)

text \<open>Two positions less than the size apart have different places in the buffer.\<close>

lemma slot_distinct: "r \<le> i \<Longrightarrow> i < w \<Longrightarrow> w < r + STDIN_BUFSIZE \<Longrightarrow> i mod STDIN_BUFSIZE \<noteq> w mod STDIN_BUFSIZE"
  using dvd_imp_le [of STDIN_BUFSIZE "w - i"] by (auto simp: mod_eq_dvd_iff_nat dest: sym)

lemma pending_put_room:
  assumes "stdin_ok s" and "length (stdin_pending s) < STDIN_BUFSIZE"
  shows "stdin_pending (stdin_put c s) = stdin_pending s @ [c]"
proof -
  have w: "p_wpos s < p_rpos s + STDIN_BUFSIZE" "p_rpos s \<le> p_wpos s"
    using assms by (auto simp: length_pending stdin_ok_def)
  have "stdin_buffer (stdin_put c s) ! (i mod STDIN_BUFSIZE) = stdin_buffer s ! (i mod STDIN_BUFSIZE)"
    if "i \<in> set [p_rpos s..<p_wpos s]" for i
    using that w slot_distinct [of "p_rpos s" i "p_wpos s"] by (simp add: stdin_put_def)
  then show ?thesis using w assms(1)
    by (simp add: stdin_pending_def stdin_put_def stdin_ok_def)
qed

lemma pending_put_full:
  assumes "stdin_ok s" and "length (stdin_pending s) = STDIN_BUFSIZE"
  shows "stdin_pending (stdin_put c s) = c # tl (stdin_pending s)"
proof -
  have w: "p_wpos s = p_rpos s + STDIN_BUFSIZE" using assms by (auto simp: length_pending stdin_ok_def)
  have m: "p_wpos s mod STDIN_BUFSIZE = p_rpos s mod STDIN_BUFSIZE" by (simp add: w)
  have e: "[p_rpos s..<p_wpos s] = p_rpos s # [Suc (p_rpos s)..<p_wpos s]"
    using upt_conv_Cons [of "p_rpos s" "p_wpos s"] w by simp
  have "p_rpos s mod STDIN_BUFSIZE \<noteq> i mod STDIN_BUFSIZE" if "i \<in> set [Suc (p_rpos s)..<p_wpos s]" for i
    using that slot_distinct [of "p_rpos s" "p_rpos s" i] by (simp add: w)
  then show ?thesis using w assms(1) m
    by (simp add: stdin_pending_def stdin_put_def stdin_ok_def e [unfolded w])
qed

interpretation sq: char_queue stdin_put stdin_take stdin_avail stdin_pending stdin_ok STDIN_BUFSIZE
proof unfold_locales
  show "stdin_ok s \<Longrightarrow> stdin_ok (stdin_put c s)" for c and s :: "'a stdin"
    by (simp add: stdin_ok_def stdin_put_def Let_def)
  show "stdin_ok s \<Longrightarrow> stdin_avail s \<Longrightarrow> stdin_ok (snd (stdin_take s))" for s :: "'a stdin"
    by (simp add: stdin_ok_def stdin_take_def stdin_avail_def)
  show "stdin_ok s \<Longrightarrow> stdin_avail s \<Longrightarrow> stdin_pending s = fst (stdin_take s) # stdin_pending (snd (stdin_take s))"
    for s :: "'a stdin"
    by (simp add: stdin_take_def stdin_avail_def stdin_pending_def upt_conv_Cons)
  show "stdin_ok s \<Longrightarrow> stdin_avail s \<longleftrightarrow> stdin_pending s \<noteq> []" for s :: "'a stdin"
    by (auto simp: stdin_avail_def stdin_pending_def)
qed (simp_all add: pending_put_room pending_put_full)


subsection \<open>Reading standard input\<close>

text \<open>While the reader sleeps, keys are typed; then it is woken with some flags.\<close>

definition typing :: "'q wait_env \<Rightarrow> byte list \<times> 32 word \<Rightarrow> 'q stdin \<Rightarrow> 'q stdin \<times> 32 word" where
  "typing W k s = (fold (dev_stdin_write W) (fst k) s, snd k)"

definition typed :: "(byte list \<times> 32 word) list \<Rightarrow> byte list" where
  "typed ks = concat (map (\<lambda>k. filter (\<lambda>c. c \<noteq> 0) (fst k)) ks)"

lemma typed_simps [simp]:
  "typed [] = []" "typed (k # ks) = filter (\<lambda>c. c \<noteq> 0) (fst k) @ typed ks"
  by (simp_all add: typed_def)

fun run_state :: "(byte list \<times> 'q stdin) io_run \<Rightarrow> 'q stdin" where
  "run_state (Returned (out, s)) = s"
| "run_state (Asleep (out, s)) = s"

fun io_returned :: "'a io_run \<Rightarrow> bool" where
  "io_returned (Returned a) = True"
| "io_returned (Asleep a) = False"

lemma write_is_put:
  "stdin_pending (dev_stdin_write W c s) = stdin_pending (if c = 0 then s else stdin_put c s)"
  "stdin_ok (dev_stdin_write W c s) = stdin_ok (if c = 0 then s else stdin_put c s)"
  by (simp_all add: dev_stdin_write_def Let_def)

lemma typing_pending:
  assumes "stdin_ok s" and "length (stdin_pending s) + length (filter (\<lambda>c. c \<noteq> 0) cs) \<le> STDIN_BUFSIZE"
  shows "stdin_pending (fold (dev_stdin_write W) cs s) = stdin_pending s @ filter (\<lambda>c. c \<noteq> 0) cs \<and>
    stdin_ok (fold (dev_stdin_write W) cs s)"
  using assms
proof (induction cs arbitrary: s)
  case (Cons c cs)
  show ?case
    using Cons.IH [of "dev_stdin_write W c s"] Cons.prems sq.put_ok [of s c] sq.put_room [of s c]
    by (simp add: write_is_put split: if_splits)
qed simp

text \<open>A run that has slept \<open>k\<close> times, with what it owes to the queue and to the keys.\<close>

definition read_outcome ::
    "'q wait_env \<Rightarrow> (byte list \<times> 32 word) list \<Rightarrow> nat \<Rightarrow> byte list \<Rightarrow> 'q stdin \<Rightarrow> (byte list \<times> 'q stdin) io_run \<Rightarrow> nat \<Rightarrow> bool" where
  "read_outcome W ks len out s r k \<longleftrightarrow>
     k \<le> length ks \<and> stdin_ok (run_state r) \<and> length (run_out r) \<le> len \<and>
     run_out r @ stdin_pending (run_state r) = out @ stdin_pending s @ typed (take k ks) \<and>
     (len \<le> length out + length (stdin_pending s) \<longrightarrow> k = 0) \<and>
     (if io_returned r then length (run_out r) = len \<or> 0 < k \<and> snd (ks ! (k - 1)) \<noteq> WT_KBD W
      else length (run_out r) < len \<and> stdin_pending (run_state r) = [] \<and> k = length ks)"

lemma read_outcome_wake:
  assumes "read_outcome W ks len out s1 r k" and "stdin_pending s = []" and "length out < len"
    and "stdin_pending s1 = filter (\<lambda>c. c \<noteq> 0) (fst k1)"
  shows "read_outcome W (k1 # ks) len out s r (Suc k)"
  using assms by (auto simp: read_outcome_def split: if_splits)

lemma read_loop_outcome:
  assumes "stdin_ok s" and "length (stdin_pending s) + length (typed ks) \<le> STDIN_BUFSIZE" and "length out \<le> len"
  shows "\<exists>k. read_outcome W ks len out s (read_loop W (map (typing W) ks) len out s) k"
  using assms
proof (induction W "map (typing W) ks" len out s arbitrary: ks rule: read_loop.induct)
  case (1 W len out s ks)
  show ?case
  proof (cases "length out < len")
    case False
    then show ?thesis using "1.prems"
      by (intro exI [of _ 0]) (simp add: read_outcome_def read_loop.simps [of W _ len out s])
  next
    case True
    show ?thesis
    proof (cases "p_rpos s < p_wpos s")
      case av: True
      then have a: "stdin_avail s" by (simp add: stdin_avail_def)
      let ?c = "fst (stdin_take s)" and ?s = "snd (stdin_take s)"
      have p: "stdin_pending s = ?c # stdin_pending ?s" using sq.tk_pending [OF "1.prems"(1) a] .
      then have n: "length (stdin_pending s) = Suc (length (stdin_pending ?s))" by (metis length_Cons)
      have "\<exists>k. read_outcome W ks len (out @ [?c]) ?s (read_loop W (map (typing W) ks) len (out @ [?c]) ?s) k"
        using "1.hyps"(1) [OF True av refl prod.collapse refl] sq.tk_ok [OF "1.prems"(1) a] "1.prems"(2) n True by simp
      moreover have "read_loop W (map (typing W) ks) len out s = read_loop W (map (typing W) ks) len (out @ [?c]) ?s"
        using True av by (simp add: read_loop.simps [of W _ len out s] case_prod_beta)
      moreover have "read_outcome W ks len (out @ [?c]) ?s r k \<Longrightarrow> read_outcome W ks len out s r k" for r k
        using p n by (cases "io_returned r") (auto simp: read_outcome_def)
      ultimately show ?thesis by auto
    next
      case em: False
      then have e: "stdin_pending s = []" by (simp add: stdin_pending_def)
      let ?s1 = "s\<lparr>stdin_waiters := wait_current_set W (stdin_waiters s)\<rparr>"
      show ?thesis
      proof (cases ks)
        case Nil
        then show ?thesis using True em e "1.prems"(1)
          by (intro exI [of _ 0]) (simp add: read_outcome_def read_loop.simps [of W _ len out s] Let_def)
      next
        case (Cons k1 ks')
        define s2 where "s2 = fold (dev_stdin_write W) (fst k1) ?s1"
        define s3 where "s3 = s2\<lparr>stdin_waiters := wait_current_del W (stdin_waiters s2)\<rparr>"
        have q: "stdin_pending s2 = filter (\<lambda>c. c \<noteq> 0) (fst k1)" "stdin_ok s2"
          using typing_pending [of ?s1 "fst k1" W] "1.prems"(1,2) e Cons by (simp_all add: s2_def)
        have ev: "typing W k1 ?s1 = (s2, snd k1)" by (simp add: typing_def s2_def)
        have h: "map (typing W) ks = typing W k1 # map (typing W) ks'" by (simp add: Cons)
        show ?thesis
        proof (cases "snd k1 = WT_KBD W")
          case kbd: True
          have "\<exists>k. read_outcome W ks' len out s3 (read_loop W (map (typing W) ks') len out s3) k"
            using "1.hyps"(2) [OF True em refl h ev [symmetric] refl s3_def kbd] Cons q "1.prems"(2) True
            by (simp add: s3_def e)
          moreover have "read_loop W (map (typing W) ks) len out s = read_loop W (map (typing W) ks') len out s3"
            using True em kbd ev by (simp add: read_loop.simps [of W _ len out s] Cons s3_def)
          ultimately show ?thesis
            using read_outcome_wake [where ?s1.0 = s3 and s = s and ?k1.0 = k1 and ks = ks', OF _ e True] q Cons by (auto simp: s3_def)
        next
          case False
          then have "read_loop W (map (typing W) ks) len out s = Returned (out, s3)"
            using True em ev by (simp add: read_loop.simps [of W _ len out s] Cons s3_def)
          then show ?thesis using False q e True
            by (intro exI [of _ 1]) (simp add: read_outcome_def Cons s3_def)
        qed
      qed
    qed
  qed
qed


subsection \<open>Reading and writing the disk\<close>

lemma patch_length [simp]: "i + length xs \<le> length m \<Longrightarrow> length (patch i xs m) = length m"
  by (simp add: patch_def)

lemma patch_nil [simp]: "patch i [] m = m"
  by (simp add: patch_def)

lemma patch_patch:
  "i + length xs + length ys \<le> length m \<Longrightarrow> patch (i + length xs) ys (patch i xs m) = patch i (xs @ ys) m"
  by (simp add: patch_def add.commute add.left_commute)

lemma take_patch: "length xs = n \<Longrightarrow> take n (patch 0 xs m) = xs"
  by (simp add: patch_def)

text \<open>
  What the driver relies on: the IDE routines read and write the image \<open>img d\<close> of the disk,
  and \<open>iobuf_move\<close> moves as much as the request still has, at most \<open>len\<close> bytes.
\<close>

definition ide_laws :: "'d disk_env \<Rightarrow> ('d \<Rightarrow> byte list) \<Rightarrow> bool" where
  "ide_laws D img \<longleftrightarrow>
     (\<forall>sec n buf d. (unat sec + unat n) * 512 \<le> length (img d) \<and> unat n * 512 \<le> length buf \<longrightarrow>
        (\<exists>d'. ide_read_secs D sec buf n d = (0, patch 0 (take (unat n * 512) (drop (unat sec * 512) (img d))) buf, d') \<and>
           img d' = img d) \<and>
        (\<exists>d'. ide_write_secs D sec buf n d = (0, d') \<and>
           img d' = patch (unat sec * 512) (take (unat n * 512) buf) (img d)))"

definition iob_advance :: "nat \<Rightarrow> iobuf \<Rightarrow> iobuf" where
  "iob_advance m iob = iob\<lparr>io_base := io_base iob + m, io_offset := io_offset iob + of_nat m,
     io_resid := io_resid iob - of_nat m\<rparr>"

definition move_laws :: "'d disk_env \<Rightarrow> bool" where
  "move_laws D \<longleftrightarrow>
     (\<forall>iob data len. let m = min (unat len) (unat (io_resid iob)) in
        m \<le> length data \<and> io_base iob + m \<le> length (io_mem iob) \<longrightarrow>
        iobuf_move D iob data len True =
          (iob_advance m (iob\<lparr>io_mem := patch (io_base iob) (take m data) (io_mem iob)\<rparr>), data, of_nat m) \<and>
        iobuf_move D iob data len False =
          (iob_advance m iob, patch 0 (take m (drop (io_base iob) (io_mem iob))) data, of_nat m))"

lemma sector_numbers:
  assumes "(b + m) * 4096 \<le> 512 * 2 ^ 32" and "0 < m" and "m \<le> 4"
  shows "unat (of_nat b * of_nat DISK0_BLK_NSECT :: 32 word) = b * 8"
    and "unat (of_nat m * of_nat DISK0_BLK_NSECT :: 32 word) = m * 8"
proof -
  have "b * 8 < 2 ^ 32" "m * 8 < 2 ^ 32" using assms by simp_all
  then have "unat (of_nat (b * 8) :: 32 word) = b * 8" "unat (of_nat (m * 8) :: 32 word) = m * 8"
    by (simp_all add: unat_of_nat_small del: of_nat_mult)
  then show "unat (of_nat b * of_nat DISK0_BLK_NSECT :: 32 word) = b * 8"
    "unat (of_nat m * of_nat DISK0_BLK_NSECT :: 32 word) = m * 8"
    by (simp_all add: disk0_sizes)
qed

text \<open>The bytes and blocks of one pass.\<close>

lemma pass_blocks:
  assumes "n * 4096 < 2 ^ 64" and "0 < n" and "m = min 4 n"
  shows "(if (of_nat DISK0_BUFSIZE :: 64 word) > of_nat (n * 4096) then of_nat (n * 4096) else of_nat DISK0_BUFSIZE)
      = (of_nat (m * 4096) :: 64 word)"
    and "ucast (of_nat (m * 4096) div of_nat DISK0_BLKSIZE :: 64 word) = (of_nat m :: 32 word)"
    and "(of_nat (m * 4096) :: 64 word) mod of_nat DISK0_BLKSIZE = 0"
    and "(of_nat (m * 4096) :: 64 word) \<noteq> 0" and "(of_nat (m * 4096) :: 64 word) \<le> of_nat (n * 4096)"
    and "unat (of_nat (m * 4096) :: 64 word) = m * 4096"
    and "min (unat (of_nat DISK0_BUFSIZE :: 64 word)) (n * 4096) = m * 4096"
proof -
  have u: "unat (of_nat (n * 4096) :: 64 word) = n * 4096" using assms(1) by (simp add: unat_of_nat_small del: of_nat_mult)
  have m: "m = 1 \<or> m = 2 \<or> m = 3 \<or> m = 4" "m \<le> n" using assms(2,3) by auto
  have um: "unat (of_nat (m * 4096) :: 64 word) = m * 4096" using m(1) by auto
  show "unat (of_nat (m * 4096) :: 64 word) = m * 4096" by (rule um)
  show "(if (of_nat DISK0_BUFSIZE :: 64 word) > of_nat (n * 4096) then of_nat (n * 4096) else of_nat DISK0_BUFSIZE)
      = (of_nat (m * 4096) :: 64 word)"
    using u assms(3) by (auto simp: word_less_nat_alt disk0_sizes min_def)
  show "ucast (of_nat (m * 4096) div of_nat DISK0_BLKSIZE :: 64 word) = (of_nat m :: 32 word)"
    using m(1) by (auto simp: disk0_sizes)
  show "(of_nat (m * 4096) :: 64 word) mod of_nat DISK0_BLKSIZE = 0" using m(1) by (auto simp: disk0_sizes)
  show "(of_nat (m * 4096) :: 64 word) \<noteq> 0" using m(1) by auto
  show "(of_nat (m * 4096) :: 64 word) \<le> of_nat (n * 4096)" using u um m(2) by (simp add: word_le_nat_alt)
  show "min (unat (of_nat DISK0_BUFSIZE :: 64 word)) (n * 4096) = m * 4096"
    using assms(3) by (simp add: disk0_sizes min_def)
qed

text \<open>A request for the blocks from \<open>b\<close> on, \<open>n\<close> of them, that stays within the disk and the memory.\<close>

definition disk_request :: "('d \<Rightarrow> byte list) \<Rightarrow> nat \<Rightarrow> nat \<Rightarrow> iobuf \<Rightarrow> 'd disk0 \<Rightarrow> bool" where
  "disk_request img b n iob s \<longleftrightarrow>
     length (img (disk s)) \<le> 512 * 2 ^ 32 \<and> (b + n) * 4096 \<le> length (img (disk s)) \<and> n * 4096 < 2 ^ 64 \<and>
     io_resid iob = of_nat (n * 4096) \<and> io_base iob + n * 4096 \<le> length (io_mem iob) \<and>
     length (disk0_buffer s) = DISK0_BUFSIZE"

definition block_bytes :: "nat \<Rightarrow> nat \<Rightarrow> byte list \<Rightarrow> byte list" where
  "block_bytes b n bs = take (n * 4096) (drop (b * 4096) bs)"

lemma block_bytes_length: "(b + n) * 4096 \<le> length bs \<Longrightarrow> length (block_bytes b n bs) = n * 4096"
  by (simp add: block_bytes_def)

lemma block_bytes_split: "m \<le> n \<Longrightarrow> block_bytes b m bs @ block_bytes (b + m) (n - m) bs = block_bytes b n bs"
  using take_add [of "m * 4096" "(n - m) * 4096" "drop (b * 4096) bs"]
  by (simp add: block_bytes_def add_mult_distrib diff_mult_distrib add.commute)


lemma request_pass:
  assumes "disk_request img b n iob s" and "0 < n" and "m = min 4 n"
  shows "(b + m) * 4096 \<le> length (img (disk s))" and "(b + m) * 4096 \<le> 512 * 2 ^ 32"
    and "min (m * 4096) (unat (io_resid iob)) = m * 4096" and "m * 4096 \<le> length (disk0_buffer s)"
    and "io_base iob + m * 4096 \<le> length (io_mem iob)"
proof -
  have le: "(b + m) * 4096 \<le> (b + n) * 4096" using assms(3) by simp
  show l: "(b + m) * 4096 \<le> length (img (disk s))"
    using le assms(1) unfolding disk_request_def by linarith
  then show "(b + m) * 4096 \<le> 512 * 2 ^ 32" using assms(1) unfolding disk_request_def by linarith
  have "unat (of_nat (n * 4096) :: 64 word) = n * 4096"
    using assms(1) by (simp add: unat_of_nat_small disk_request_def del: of_nat_mult)
  then show "min (m * 4096) (unat (io_resid iob)) = m * 4096"
    using assms(1,3) by (simp add: disk_request_def del: of_nat_mult)
  show "m * 4096 \<le> length (disk0_buffer s)" "io_base iob + m * 4096 \<le> length (io_mem iob)"
    using assms by (simp_all add: disk_request_def disk0_sizes min_def)
qed

lemma ide_law:
  assumes "ide_laws D img" and "unat sec = b * 8" and "unat n = m * 8"
    and "(b + m) * 4096 \<le> length (img d)" and "m * 4096 \<le> length buf"
  shows "\<exists>d'. ide_read_secs D sec buf n d = (0, patch 0 (take (m * 4096) (drop (b * 4096) (img d))) buf, d') \<and> img d' = img d"
    and "\<exists>d'. ide_write_secs D sec buf n d = (0, d') \<and> img d' = patch (b * 4096) (take (m * 4096) buf) (img d)"
proof -
  have "unat sec * 512 = b * 4096" "unat n * 512 = m * 4096" "(unat sec + unat n) * 512 = (b + m) * 4096"
    using assms(2,3) by simp_all
  then show "\<exists>d'. ide_read_secs D sec buf n d = (0, patch 0 (take (m * 4096) (drop (b * 4096) (img d))) buf, d') \<and> img d' = img d"
    "\<exists>d'. ide_write_secs D sec buf n d = (0, d') \<and> img d' = patch (b * 4096) (take (m * 4096) buf) (img d)"
    using assms(1) [unfolded ide_laws_def, rule_format, of sec n d buf] assms(4,5) by metis+
qed

lemma pass_read:
  assumes "ide_laws D img" and "move_laws D" and "disk_request img b n iob s" and "0 < n" and "m = min 4 n"
  shows "\<exists>s1. disk0_pass D False (of_nat b) (of_nat (n * 4096)) iob s =
      Inr (of_nat (m * 4096), of_nat m, iob_advance (m * 4096)
        (iob\<lparr>io_mem := patch (io_base iob) (block_bytes b m (img (disk s))) (io_mem iob)\<rparr>), s1) \<and>
    img (disk s1) = img (disk s) \<and> length (disk0_buffer s1) = DISK0_BUFSIZE \<and>
    disk0_calls s1 = disk0_calls s @ [Secs_Read (of_nat b * of_nat DISK0_BLK_NSECT) (of_nat m * of_nat DISK0_BLK_NSECT)]"
proof -
  let ?sec = "of_nat b * of_nat DISK0_BLK_NSECT :: 32 word" and ?n = "of_nat m * of_nat DISK0_BLK_NSECT :: 32 word"
  note rp = request_pass [OF assms(3-5)]
  have m: "0 < m" "m \<le> 4" using assms(4,5) by simp_all
  have n64: "n * 4096 < 2 ^ 64" and bl: "length (disk0_buffer s) = DISK0_BUFSIZE"
    using assms(3) by (simp_all add: disk_request_def)
  note pb = pass_blocks [OF n64 assms(4,5)]
  note sn = sector_numbers [OF rp(2) m]
  let ?bytes = "block_bytes b m (img (disk s))"
  let ?buf = "patch 0 ?bytes (disk0_buffer s)"
  have bb: "length ?bytes = m * 4096" using block_bytes_length rp(1) .
  have lb: "length ?buf = DISK0_BUFSIZE" using bb rp(4) bl by simp
  obtain d where d: "ide_read_secs D ?sec (disk0_buffer s) ?n (disk s) = (0, ?buf, d)" "img d = img (disk s)"
    using ide_law(1) [where b = b and m = m and img = img, OF assms(1) sn rp(1,4)] by (auto simp: block_bytes_def)
  have mv: "iobuf_move D iob ?buf (of_nat (m * 4096)) True =
      (iob_advance (m * 4096) (iob\<lparr>io_mem := patch (io_base iob) ?bytes (io_mem iob)\<rparr>), ?buf, of_nat (m * 4096))"
    using assms(2) [unfolded move_laws_def Let_def, rule_format, of "of_nat (m * 4096)" iob ?buf]
      rp(3,5) pb(6) lb m take_patch [OF bb] by (simp add: disk0_sizes del: of_nat_mult)
  show ?thesis
    unfolding disk0_pass_def Let_def if_False pb(1,2) disk0_read_blks_nolock_def
    using d mv pb(3) lb by (simp add: disk_emit_def del: of_nat_mult)
qed

lemma pass_write:
  assumes "ide_laws D img" and "move_laws D" and "disk_request img b n iob s" and "0 < n" and "m = min 4 n"
  shows "\<exists>s1. disk0_pass D True (of_nat b) (of_nat (n * 4096)) iob s =
      Inr (of_nat (m * 4096), of_nat m, iob_advance (m * 4096) iob, s1) \<and>
    img (disk s1) = patch (b * 4096) (take (m * 4096) (drop (io_base iob) (io_mem iob))) (img (disk s)) \<and>
    length (disk0_buffer s1) = DISK0_BUFSIZE \<and>
    disk0_calls s1 = disk0_calls s @ [Secs_Write (of_nat b * of_nat DISK0_BLK_NSECT) (of_nat m * of_nat DISK0_BLK_NSECT)]"
proof -
  let ?sec = "of_nat b * of_nat DISK0_BLK_NSECT :: 32 word" and ?n = "of_nat m * of_nat DISK0_BLK_NSECT :: 32 word"
  note rp = request_pass [OF assms(3-5)]
  have m: "0 < m" "m \<le> 4" using assms(4,5) by simp_all
  have n64: "n * 4096 < 2 ^ 64" and bl: "length (disk0_buffer s) = DISK0_BUFSIZE"
    using assms(3) by (simp_all add: disk_request_def)
  note pb = pass_blocks [OF n64 assms(4,5)]
  note sn = sector_numbers [OF rp(2) m]
  let ?bytes = "take (m * 4096) (drop (io_base iob) (io_mem iob))"
  let ?buf = "patch 0 ?bytes (disk0_buffer s)"
  have bb: "length ?bytes = m * 4096" using rp(5) by simp
  have lb: "length ?buf = DISK0_BUFSIZE" using bb rp(4) bl by simp
  have u: "unat (io_resid iob) = n * 4096"
    using assms(3) by (simp add: disk_request_def unat_of_nat_small del: of_nat_mult)
  have mv: "iobuf_move D iob (disk0_buffer s) (of_nat DISK0_BUFSIZE) False =
      (iob_advance (m * 4096) iob, ?buf, of_nat (m * 4096))"
    using assms(2) [unfolded move_laws_def Let_def, rule_format, of "of_nat DISK0_BUFSIZE" iob "disk0_buffer s"]
      rp(4,5) pb(7) u by (simp del: of_nat_mult)
  obtain d where d: "ide_write_secs D ?sec ?buf ?n (disk s) = (0, d)"
    "img d = patch (b * 4096) ?bytes (img (disk s))"
    using ide_law(2) [where b = b and m = m and img = img, OF assms(1) sn rp(1), of ?buf] rp(4) lb bl take_patch [OF bb] by auto
  show ?thesis
    unfolding disk0_pass_def Let_def if_True mv prod.case pb(2) disk0_write_blks_nolock_def
    using d pb(3-5) lb by (simp add: disk_emit_def del: of_nat_mult)
qed


text \<open>A call that asks the disk for sectors of these blocks only.\<close>

fun in_blocks :: "nat \<Rightarrow> nat \<Rightarrow> disk_call \<Rightarrow> bool" where
  "in_blocks b n (Secs_Read sec k) \<longleftrightarrow> b * 8 \<le> unat sec \<and> unat sec + unat k \<le> (b + n) * 8"
| "in_blocks b n (Secs_Write sec k) \<longleftrightarrow> b * 8 \<le> unat sec \<and> unat sec + unat k \<le> (b + n) * 8"
| "in_blocks b n c \<longleftrightarrow> False"

lemma in_blocks_mono: "in_blocks (b + m) (n - m) c \<Longrightarrow> m \<le> n \<Longrightarrow> in_blocks b n c"
  by (cases c) auto

lemma iob_advance_simps [simp]:
  "io_mem (iob_advance m iob) = io_mem iob" "io_base (iob_advance m iob) = io_base iob + m"
  "io_offset (iob_advance m iob) = io_offset iob + of_nat m" "io_resid (iob_advance m iob) = io_resid iob - of_nat m"
  by (simp_all add: iob_advance_def)

lemma of_nat_diff_word: "m \<le> n \<Longrightarrow> (of_nat n :: 'a::len word) - of_nat m = of_nat (n - m)"
  by simp

lemma pass_steps:
  assumes "disk_request img b n iob s" and "0 < n" and "m = min 4 n"
    and "disk0_pass D write (of_nat b) (of_nat (n * 4096)) iob s = Inr (of_nat (m * 4096), of_nat m, iob1, s1)"
  shows "disk0_loop D write (of_nat b) (of_nat (n * 4096)) iob s =
    disk0_loop D write (of_nat (b + m)) (of_nat ((n - m) * 4096)) iob1 s1"
proof -
  have "n * 4096 < 2 ^ 64" using assms(1) by (simp add: disk_request_def)
  then have "unat (of_nat (n * 4096) :: 64 word) = n * 4096" by (simp add: unat_of_nat_small del: of_nat_mult)
  then have "(of_nat (n * 4096) :: 64 word) \<noteq> 0" using assms(2) by (metis mult_eq_0_iff neq0_conv unat_0 zero_neq_numeral)
  moreover have "(of_nat (n * 4096) :: 64 word) - of_nat (m * 4096) = of_nat ((n - m) * 4096)"
    using of_nat_diff_word [of "m * 4096" "n * 4096"] assms(3) by (simp add: diff_mult_distrib del: of_nat_mult)
  ultimately show ?thesis
    using assms(4) by (simp add: disk0_loop.simps [of D "write" "of_nat b" "of_nat (n * 4096)"] del: of_nat_mult)
qed

lemma request_step:
  assumes "disk_request img b n iob s" and "m = min 4 n" and "length (img (disk s1)) = length (img (disk s))"
    and "length (disk0_buffer s1) = DISK0_BUFSIZE" and "length mem = length (io_mem iob)"
  shows "disk_request img (b + m) (n - m) (iob_advance (m * 4096) (iob\<lparr>io_mem := mem\<rparr>)) s1"
proof -
  have "m \<le> n" using assms(2) by simp
  moreover have "(n - m) * 4096 \<le> n * 4096" by simp
  then have "(n - m) * 4096 < 2 ^ 64" using assms(1) unfolding disk_request_def by linarith
  ultimately show ?thesis
    using assms(1,3-5) of_nat_diff_word [of "m * 4096" "n * 4096"]
    by (simp add: disk_request_def diff_mult_distrib algebra_simps del: of_nat_mult)
qed

lemma pass_in_blocks:
  assumes "disk_request img b n iob s" and "0 < n" and "m = min 4 n"
  shows "in_blocks b n (Secs_Read (of_nat b * of_nat DISK0_BLK_NSECT) (of_nat m * of_nat DISK0_BLK_NSECT))"
    and "in_blocks b n (Secs_Write (of_nat b * of_nat DISK0_BLK_NSECT) (of_nat m * of_nat DISK0_BLK_NSECT))"
  using sector_numbers [OF request_pass(2) [OF assms]] assms(2,3) by simp_all

lemma loop_read:
  assumes "ide_laws D img" and "move_laws D" and "disk_request img b n iob s"
  shows "\<exists>iob1 s1 cs. disk0_loop D False (of_nat b) (of_nat (n * 4096)) iob s = Inr (iob1, s1) \<and>
    io_mem iob1 = patch (io_base iob) (block_bytes b n (img (disk s))) (io_mem iob) \<and> io_resid iob1 = 0 \<and>
    img (disk s1) = img (disk s) \<and> disk0_calls s1 = disk0_calls s @ cs \<and> (\<forall>c\<in>set cs. in_blocks b n c)"
  using assms(3)
proof (induction n arbitrary: b iob s rule: less_induct)
  case (less n)
  show ?case
  proof (cases "n = 0")
    case True
    then show ?thesis using less.prems
      by (auto simp: disk0_loop.simps [of D _ _ 0] block_bytes_def disk_request_def)
  next
    case False
    define m where "m = min 4 n"
    have n: "0 < n" "n - m < n" "m \<le> n" using False by (simp_all add: m_def)
    let ?x = "block_bytes b m (img (disk s))"
    let ?iob = "iob_advance (m * 4096) (iob\<lparr>io_mem := patch (io_base iob) ?x (io_mem iob)\<rparr>)"
    obtain s1 where s1: "disk0_pass D False (of_nat b) (of_nat (n * 4096)) iob s = Inr (of_nat (m * 4096), of_nat m, ?iob, s1)"
      "img (disk s1) = img (disk s)" "length (disk0_buffer s1) = DISK0_BUFSIZE"
      "disk0_calls s1 = disk0_calls s @ [Secs_Read (of_nat b * of_nat DISK0_BLK_NSECT) (of_nat m * of_nat DISK0_BLK_NSECT)]"
      using pass_read [OF assms(1,2) less.prems n(1) m_def] by auto
    note rp = request_pass [OF less.prems n(1) m_def]
    have x: "length ?x = m * 4096" using block_bytes_length rp(1) .
    then have rq: "disk_request img (b + m) (n - m) ?iob s1"
      using request_step [OF less.prems m_def _ s1(3)] s1(2) rp(5) by simp
    obtain iob2 s2 cs where r: "disk0_loop D False (of_nat (b + m)) (of_nat ((n - m) * 4096)) ?iob s1 = Inr (iob2, s2)"
      "io_mem iob2 = patch (io_base iob + m * 4096) (block_bytes (b + m) (n - m) (img (disk s))) (patch (io_base iob) ?x (io_mem iob))"
      "io_resid iob2 = 0" "img (disk s2) = img (disk s)" "disk0_calls s2 = disk0_calls s1 @ cs" "\<forall>c\<in>set cs. in_blocks (b + m) (n - m) c"
      using less.IH [OF n(2) rq] s1(2) by auto
    have y: "length (block_bytes (b + m) (n - m) (img (disk s))) = (n - m) * 4096"
      using less.prems n(3) by (intro block_bytes_length) (simp add: disk_request_def)
    have "io_base iob + length ?x + length (block_bytes (b + m) (n - m) (img (disk s))) \<le> length (io_mem iob)"
      using less.prems n(3) unfolding x y by (simp add: disk_request_def diff_mult_distrib)
    then have "io_mem iob2 = patch (io_base iob) (block_bytes b n (img (disk s))) (io_mem iob)"
      using r(2) patch_patch [of "io_base iob" ?x] x block_bytes_split [OF n(3)] by simp
    then show ?thesis
      using pass_steps [OF less.prems n(1) m_def s1(1)] r s1(4) pass_in_blocks(1) [OF less.prems n(1) m_def]
        in_blocks_mono [OF _ n(3)] by auto
  qed
qed

lemma loop_write:
  assumes "ide_laws D img" and "move_laws D" and "disk_request img b n iob s"
  shows "\<exists>iob1 s1 cs. disk0_loop D True (of_nat b) (of_nat (n * 4096)) iob s = Inr (iob1, s1) \<and>
    io_mem iob1 = io_mem iob \<and> io_resid iob1 = 0 \<and>
    img (disk s1) = patch (b * 4096) (take (n * 4096) (drop (io_base iob) (io_mem iob))) (img (disk s)) \<and>
    disk0_calls s1 = disk0_calls s @ cs \<and> (\<forall>c\<in>set cs. in_blocks b n c)"
  using assms(3)
proof (induction n arbitrary: b iob s rule: less_induct)
  case (less n)
  show ?case
  proof (cases "n = 0")
    case True
    then show ?thesis using less.prems
      by (auto simp: disk0_loop.simps [of D _ _ 0] disk_request_def)
  next
    case False
    define m where "m = min 4 n"
    have n: "0 < n" "n - m < n" "m \<le> n" using False by (simp_all add: m_def)
    let ?x = "take (m * 4096) (drop (io_base iob) (io_mem iob))"
    let ?y = "take ((n - m) * 4096) (drop (io_base iob + m * 4096) (io_mem iob))"
    let ?iob = "iob_advance (m * 4096) iob"
    obtain s1 where s1: "disk0_pass D True (of_nat b) (of_nat (n * 4096)) iob s = Inr (of_nat (m * 4096), of_nat m, ?iob, s1)"
      "img (disk s1) = patch (b * 4096) ?x (img (disk s))" "length (disk0_buffer s1) = DISK0_BUFSIZE"
      "disk0_calls s1 = disk0_calls s @ [Secs_Write (of_nat b * of_nat DISK0_BLK_NSECT) (of_nat m * of_nat DISK0_BLK_NSECT)]"
      using pass_write [OF assms(1,2) less.prems n(1) m_def] by auto
    note rp = request_pass [OF less.prems n(1) m_def]
    have x: "length ?x = m * 4096" using rp(5) by simp
    then have "length (img (disk s1)) = length (img (disk s))" using s1(2) rp(1) by simp
    then have rq: "disk_request img (b + m) (n - m) ?iob s1"
      using request_step [OF less.prems m_def _ s1(3), of "io_mem iob"] by simp
    obtain iob2 s2 cs where r: "disk0_loop D True (of_nat (b + m)) (of_nat ((n - m) * 4096)) ?iob s1 = Inr (iob2, s2)"
      "io_mem iob2 = io_mem iob" "img (disk s2) = patch ((b + m) * 4096) ?y (patch (b * 4096) ?x (img (disk s)))"
      "io_resid iob2 = 0" "disk0_calls s2 = disk0_calls s1 @ cs" "\<forall>c\<in>set cs. in_blocks (b + m) (n - m) c"
      using less.IH [OF n(2) rq] s1(2) by auto
    have "io_base iob + m * 4096 + (n - m) * 4096 \<le> length (io_mem iob)"
      using less.prems n(3) by (simp add: disk_request_def diff_mult_distrib)
    then have y: "length ?y = (n - m) * 4096" by simp
    have "b * 4096 + length ?x + length ?y \<le> length (img (disk s))"
      using less.prems n(3) unfolding x y by (simp add: disk_request_def diff_mult_distrib)
    moreover have "?x @ ?y = take (n * 4096) (drop (io_base iob) (io_mem iob))"
      using take_add [of "m * 4096" "(n - m) * 4096" "drop (io_base iob) (io_mem iob)"] n(3)
      by (simp add: diff_mult_distrib add.commute)
    ultimately have "img (disk s2) = patch (b * 4096) (take (n * 4096) (drop (io_base iob) (io_mem iob))) (img (disk s))"
      using r(3) patch_patch [of "b * 4096" ?x ?y] x by (simp add: add_mult_distrib)
    then show ?thesis
      using pass_steps [OF less.prems n(1) m_def s1(1)] r s1(4) pass_in_blocks(2) [OF less.prems n(1) m_def]
        in_blocks_mono [OF _ n(3)] by auto
  qed
qed


lemma request_words:
  assumes "disk_request img b n iob s" and "sint (io_offset iob) = int (b * 4096)"
  shows "(word_of_int (sint (io_offset iob) sdiv int DISK0_BLKSIZE) :: 32 word) = of_nat b"
    and "sint (io_offset iob) smod int DISK0_BLKSIZE = 0"
    and "(ucast (io_resid iob div of_nat DISK0_BLKSIZE) :: 32 word) = of_nat n"
    and "io_resid iob mod of_nat DISK0_BLKSIZE = 0"
    and "unat (of_nat b + of_nat n :: 32 word) = b + n"
    and "(of_nat n :: 32 word) = 0 \<longleftrightarrow> n = 0"
proof -
  have r: "unat (io_resid iob) = n * 4096" and l: "(b + n) * 4096 \<le> 512 * 2 ^ 32"
    using assms(1) unfolding disk_request_def by (simp add: unat_of_nat_small del: of_nat_mult, linarith)
  then have bn: "b + n < 2 ^ 32" by simp
  have "int (b * 4096) sdiv 4096 = int b" by (cases "b = 0") (simp_all add: signed_divide_int_def)
  then show "(word_of_int (sint (io_offset iob) sdiv int DISK0_BLKSIZE) :: 32 word) = of_nat b"
    "sint (io_offset iob) smod int DISK0_BLKSIZE = 0"
    by (simp_all add: assms(2) disk0_sizes signed_modulo_int_def)
  have "unat (io_resid iob div of_nat DISK0_BLKSIZE) = n" by (simp add: unat_div r disk0_sizes)
  then show "(ucast (io_resid iob div of_nat DISK0_BLKSIZE) :: 32 word) = of_nat n"
    by (metis of_nat_unat)
  show "io_resid iob mod of_nat DISK0_BLKSIZE = 0"
  proof -
    have "unat (io_resid iob mod of_nat DISK0_BLKSIZE) = 0" by (simp add: unat_mod r disk0_sizes)
    then show ?thesis by (simp only: unat_eq_zero)
  qed
  have "unat (of_nat (b + n) :: 32 word) = b + n" using bn by (simp add: unat_of_nat_small del: of_nat_add)
  then show "unat (of_nat b + of_nat n :: 32 word) = b + n" by simp
  have "unat (of_nat n :: 32 word) = n" using bn by (simp add: unat_of_nat_small)
  then show "(of_nat n :: 32 word) = 0 \<longleftrightarrow> n = 0" using unat_eq_zero [of "of_nat n :: 32 word"] by (simp only:)
qed

lemma io_accepts:
  assumes "disk_request img b n iob s" and "sint (io_offset iob) = int (b * 4096)" and "b + n \<le> unat (d_blocks dev)"
  shows "disk0_io D dev iob write s =
    (if n = 0 then Inr (0, iob, s)
     else kbind (disk0_loop D write (of_nat b) (of_nat (n * 4096)) iob (lock_disk0 s)) (\<lambda>(iob1, s1). Inr (0, iob1, unlock_disk0 s1)))"
proof -
  note rw = request_words [OF assms(1,2)]
  have "\<not> ucast (of_nat b + of_nat n :: 32 word) > d_blocks dev"
    using rw(5) assms(3) by (simp add: word_less_nat_alt)
  moreover have "io_resid iob = of_nat (n * 4096)" using assms(1) by (simp add: disk_request_def)
  ultimately show ?thesis using rw by (simp add: disk0_io_def Let_def del: of_nat_mult)
qed

lemma lock_simps [simp]:
  "disk (lock_disk0 s) = disk s" "disk0_buffer (lock_disk0 s) = disk0_buffer s" "disk0_calls (lock_disk0 s) = disk0_calls s @ [Sem_Down]"
  "disk (unlock_disk0 s) = disk s" "disk0_buffer (unlock_disk0 s) = disk0_buffer s" "disk0_calls (unlock_disk0 s) = disk0_calls s @ [Sem_Up]"
  by (simp_all add: lock_disk0_def unlock_disk0_def disk_emit_def)

lemma request_lock: "disk_request img b n iob s \<Longrightarrow> disk_request img b n iob (lock_disk0 s)"
  by (simp add: disk_request_def)

subsection \<open>Properties\<close>

text \<open>A wait queue that counts its sleepers, and an empty buffer.\<close>

definition demo_wait :: "nat wait_env" where
  "demo_wait = \<lparr>WT_KBD = 4, wait_queue_init = 0, wait_queue_empty = (\<lambda>q. q = 0), wakeup_queue = (\<lambda>q. q),
     wait_current_set = Suc, wait_current_del = (\<lambda>q. q - 1)\<rparr>"

definition demo_stdin :: "nat stdin" where
  "demo_stdin = \<lparr>stdin_buffer = replicate 4096 0, p_rpos = 0, p_wpos = 0, stdin_waiters = 0\<rparr>"

lemma demo_stdin_ok: "stdin_ok demo_stdin" "stdin_pending demo_stdin = []"
  by (simp_all add: stdin_ok_def stdin_pending_def demo_stdin_def STDIN_BUFSIZE_def)

text \<open>
  C38. Reading standard input is a queue: with room in the buffer for what is typed, the bytes
  that a read returns, then those left in the buffer, are the bytes that were there and the
  characters typed while the reader slept, in order, none lost and none twice; \<open>k\<close> is how
  often it slept. It sleeps only when the buffer has less than it wants, is still asleep only
  with an empty buffer, and returns less than it wants only when something else than the
  keyboard woke it.
\<close>

theorem stdin_read_fifo:
  assumes "stdin_ok s" and "length (stdin_pending s) + length (typed ks) \<le> STDIN_BUFSIZE"
  shows "let r = dev_stdin_read W (map (typing W) ks) len s in
    stdin_ok (run_state r) \<and> length (run_out r) \<le> len \<and>
    (\<exists>k\<le>length ks. run_out r @ stdin_pending (run_state r) = stdin_pending s @ typed (take k ks) \<and>
       (len \<le> length (stdin_pending s) \<longrightarrow> k = 0) \<and>
       (if io_returned r then length (run_out r) = len \<or> 0 < k \<and> snd (ks ! (k - 1)) \<noteq> WT_KBD W
        else length (run_out r) < len \<and> stdin_pending (run_state r) = [] \<and> k = length ks))"
proof -
  obtain k where "read_outcome W ks len [] s (dev_stdin_read W (map (typing W) ks) len s) k"
    using read_loop_outcome [OF assms, of "[]" len W] by (auto simp: dev_stdin_read_def)
  then show ?thesis unfolding Let_def read_outcome_def append_Nil list.size add_0 by blast
qed

lemma stdin_read_fifo_witness:
  "let r = dev_stdin_read demo_wait (map (typing demo_wait) [([104, 0, 105], 4), ([33], 1)]) 2 demo_stdin in
   run_out r @ stdin_pending (run_state r) \<in> {[], [104, 105], [104, 105, 33]} \<and> length (run_out r) \<le> 2"
proof -
  have "length (stdin_pending demo_stdin) + length (typed [([104, 0, 105], 4), ([33], 1)]) \<le> STDIN_BUFSIZE"
    by (simp add: demo_stdin_ok STDIN_BUFSIZE_def)
  note fifo = stdin_read_fifo [OF demo_stdin_ok(1) this, of demo_wait 2]
  define r where "r = dev_stdin_read demo_wait (map (typing demo_wait) [([104, 0, 105], 4), ([33], 1)]) 2 demo_stdin"
  obtain k where k: "k \<le> Suc (Suc 0)" "run_out r @ stdin_pending (run_state r) = typed (take k [([104, 0, 105], 4), ([33], 1)])"
    "length (run_out r) \<le> 2"
    using fifo [folded r_def, unfolded Let_def] by (auto simp: demo_stdin_ok(2))
  moreover have "k = 0 \<or> k = 1 \<or> k = 2" using k(1) by auto
  ultimately show ?thesis unfolding r_def [symmetric] Let_def by auto
qed

text \<open>
  C39. A key press appends its character to what the readers will get. NUL is ignored. When
  the buffer is full, the new character takes the place of the oldest one, which is lost, and
  comes out first, before all that was typed earlier.
\<close>

theorem stdin_write_queue:
  assumes "stdin_ok s"
  shows "stdin_ok (dev_stdin_write W c s) \<and>
    stdin_pending (dev_stdin_write W c s) =
      (if c = 0 then stdin_pending s
       else if length (stdin_pending s) < STDIN_BUFSIZE then stdin_pending s @ [c]
       else c # tl (stdin_pending s))"
proof -
  have "length (stdin_pending s) \<le> STDIN_BUFSIZE" using assms by (auto simp: length_pending stdin_ok_def)
  then show ?thesis
    using assms sq.put_ok [OF assms] sq.put_room [OF assms] sq.put_full [OF assms] by (auto simp: write_is_put)
qed

lemma stdin_write_queue_witness:
  "stdin_pending (dev_stdin_write demo_wait 65 (demo_stdin\<lparr>p_wpos := 4096\<rparr>)) = 65 # replicate 4095 0"
proof -
  have ok: "stdin_ok (demo_stdin\<lparr>p_wpos := 4096\<rparr>)" by (simp add: stdin_ok_def demo_stdin_def STDIN_BUFSIZE_def)
  have "stdin_pending (demo_stdin\<lparr>p_wpos := 4096\<rparr>) = replicate 4096 0"
    by (intro nth_equalityI) (simp_all add: stdin_pending_def demo_stdin_def STDIN_BUFSIZE_def)
  then show ?thesis using stdin_write_queue [OF ok, of demo_wait 65]
    by (simp add: STDIN_BUFSIZE_def tl_replicate)
qed


text \<open>A disk whose state is its image, and a buffer of four blocks.\<close>

definition demo_disk :: "byte list disk_env" where
  "demo_disk =
     \<lparr>ide_read_secs = (\<lambda>sec buf n d. if (unat sec + unat n) * 512 \<le> length d
        then (0, patch 0 (take (unat n * 512) (drop (unat sec * 512) d)) buf, d) else (1, buf, d)),
      ide_write_secs = (\<lambda>sec buf n d. (0, patch (unat sec * 512) (take (unat n * 512) buf) d)),
      ide_device_valid = True, ide_device_size = 16,
      iobuf_move = (\<lambda>iob data len m2b. let m = min (unat len) (unat (io_resid iob)) in
        if m2b then (iob_advance m (iob\<lparr>io_mem := patch (io_base iob) (take m data) (io_mem iob)\<rparr>), data, of_nat m)
        else (iob_advance m iob, patch 0 (take m (drop (io_base iob) (io_mem iob))) data, of_nat m)),
      disk_junk = replicate 16384 0\<rparr>"

lemma demo_disk_laws: "ide_laws demo_disk (\<lambda>d. d)" "move_laws demo_disk"
  by (simp_all add: ide_laws_def move_laws_def demo_disk_def Let_def)

definition demo_disk0 :: "byte list disk0" where
  "demo_disk0 = \<lparr>disk0_buffer = replicate 16384 0, disk0_calls = [], disk = replicate 8192 7\<rparr>"

definition demo_iob :: iobuf where
  "demo_iob = \<lparr>io_mem = replicate 4096 0, io_base = 0, io_offset = 4096, io_resid = 4096\<rparr>"

text \<open>
  C40. Reading and writing the disk: for a request of whole blocks within the device, \<open>disk0_io\<close>
  ends after finitely many passes with 0. A read puts exactly those blocks of the image into
  the memory of the caller and leaves the image alone; a write puts the bytes of the caller
  into those blocks and changes nothing else. The semaphore is taken once and given back, and
  no sector outside of the request is asked for.
\<close>

theorem disk0_io_correct:
  assumes "ide_laws D img" and "move_laws D" and "disk_request img b n iob s"
    and "sint (io_offset iob) = int (b * 4096)" and "b + n \<le> unat (d_blocks dev)"
  shows "\<exists>iob1 s1 cs. disk0_io D dev iob write s = Inr (0, iob1, s1) \<and> io_resid iob1 = 0 \<and>
    (if write
     then io_mem iob1 = io_mem iob \<and>
       img (disk s1) = patch (b * 4096) (take (n * 4096) (drop (io_base iob) (io_mem iob))) (img (disk s))
     else io_mem iob1 = patch (io_base iob) (take (n * 4096) (drop (b * 4096) (img (disk s)))) (io_mem iob) \<and>
       img (disk s1) = img (disk s)) \<and>
    disk0_calls s1 = disk0_calls s @ (if n = 0 then [] else Sem_Down # cs @ [Sem_Up]) \<and>
    (\<forall>c\<in>set cs. in_blocks b n c)"
proof (cases "n = 0")
  case True
  then have "io_resid iob = 0" using assms(3) by (simp add: disk_request_def)
  then show ?thesis using io_accepts [OF assms(3-5), of D "write"] True by (auto intro: exI [of _ "[]"])
next
  case False
  note rq = request_lock [OF assms(3)]
  show ?thesis
  proof (cases "write")
    case True
    then show ?thesis
      using loop_write [OF assms(1,2) rq] io_accepts [OF assms(3-5), of D "write"] False by auto
  next
    case False
    then show ?thesis
      using loop_read [OF assms(1,2) rq] io_accepts [OF assms(3-5), of D "write"] \<open>n \<noteq> 0\<close> by (auto simp: block_bytes_def)
  qed
qed

lemma disk0_io_correct_witness:
  "\<exists>iob1 s1. disk0_io demo_disk \<lparr>d_blocks = 2, d_blocksize = 4096, d_driver = Disk0_Driver\<rparr> demo_iob False demo_disk0 =
     Inr (0, iob1, s1) \<and> io_mem iob1 = replicate 4096 7"
proof -
  have "disk_request (\<lambda>d. d) 1 1 demo_iob demo_disk0"
    by (simp add: disk_request_def demo_iob_def demo_disk0_def disk0_sizes)
  moreover have "sint (io_offset demo_iob) = int (1 * 4096)" by (simp add: demo_iob_def)
  ultimately show ?thesis
    using disk0_io_correct [OF demo_disk_laws, of 1 1 demo_iob demo_disk0
        "\<lparr>d_blocks = 2, d_blocksize = 4096, d_driver = Disk0_Driver\<rparr>" False]
    by (auto simp: demo_iob_def demo_disk0_def patch_def)
qed

text \<open>
  What \<open>disk0_io\<close> refuses, without touching the disk, the request or the semaphore: a
  position or a length that is not a whole number of blocks, and a request beyond the last
  block, as long as the numbers of its blocks fit 32 bits.
\<close>

theorem disk0_io_refuses:
  assumes "\<not> 4096 dvd sint (io_offset iob) \<or> \<not> 4096 dvd unat (io_resid iob) \<or>
    sint (io_offset iob) = int (b * 4096) \<and> unat (io_resid iob) = n * 4096 \<and> b + n < 2 ^ 32 \<and> unat (d_blocks dev) < b + n"
  shows "disk0_io D dev iob write s = Inr (- E_INVAL, iob, s)"
proof -
  have al: "sint (io_offset iob) smod int DISK0_BLKSIZE \<noteq> 0 \<longleftrightarrow> \<not> 4096 dvd sint (io_offset iob)"
    by (auto simp: smod_int_alt_def disk0_sizes sgn_if dvd_eq_mod_eq_0 [symmetric])
  have "unat (io_resid iob mod of_nat DISK0_BLKSIZE) = unat (io_resid iob) mod 4096"
    by (simp add: unat_mod disk0_sizes)
  then have ar: "io_resid iob mod of_nat DISK0_BLKSIZE \<noteq> 0 \<longleftrightarrow> \<not> 4096 dvd unat (io_resid iob)"
    by (simp only: unat_eq_zero [symmetric] dvd_eq_mod_eq_0)
  show ?thesis
  proof (cases "4096 dvd sint (io_offset iob) \<and> 4096 dvd unat (io_resid iob)")
    case False
    then show ?thesis using al ar by (auto simp: disk0_io_def Let_def)
  next
    case True
    then have c: "sint (io_offset iob) = int (b * 4096)" "unat (io_resid iob) = n * 4096" "b + n < 2 ^ 32"
      "unat (d_blocks dev) < b + n" using assms by auto
    have "int (b * 4096) sdiv 4096 = int b" by (cases "b = 0") (simp_all add: signed_divide_int_def)
    then have bk: "(word_of_int (sint (io_offset iob) sdiv int DISK0_BLKSIZE) :: 32 word) = of_nat b"
      by (simp add: c(1) disk0_sizes)
    have "unat (io_resid iob div of_nat DISK0_BLKSIZE) = n" by (simp add: unat_div c(2) disk0_sizes)
    then have nk: "(ucast (io_resid iob div of_nat DISK0_BLKSIZE) :: 32 word) = of_nat n" by (metis of_nat_unat)
    have "unat (of_nat (b + n) :: 32 word) = b + n" using c(3) by (simp add: unat_of_nat_small del: of_nat_add)
    then have "ucast (of_nat b + of_nat n :: 32 word) > d_blocks dev" using c(4) by (simp add: word_less_nat_alt)
    then show ?thesis unfolding disk0_io_def Let_def bk nk by simp
  qed
qed

lemma disk0_io_refuses_witness:
  "disk0_io demo_disk \<lparr>d_blocks = 1, d_blocksize = 4096, d_driver = Disk0_Driver\<rparr> demo_iob False demo_disk0 =
     Inr (- E_INVAL, demo_iob, demo_disk0)"
  by (rule disk0_io_refuses [of _ 1 1]) (simp add: demo_iob_def)

text \<open>
  The check against the end of the disk counts blocks in 32 bits and can be passed by
  requests outside of the disk: one block at the position $-4096$ becomes block
  \<open>0xFFFFFFFF\<close>, the sum with the length wraps to 0, and the sector number the driver asks for
  is \<open>0xFFFFFFF8\<close>; when the IDE driver refuses it, the kernel panics instead of returning
  \<open>- E_INVAL\<close>. A length of $2^{44}$ bytes counts as no block at all: the call reports success
  and moves nothing.
\<close>

theorem disk0_io_wraps:
  assumes "fst (ide_read_secs D 0xFFFFFFF8 (disk0_buffer s) 8 (disk s)) \<noteq> 0"
  shows "disk0_io D dev (iob\<lparr>io_offset := - 4096, io_resid := 4096\<rparr>) False s = Inl Panicked \<and>
    disk0_io D dev (iob\<lparr>io_offset := 0, io_resid := 0x100000000000\<rparr>) False s =
      Inr (0, iob\<lparr>io_offset := 0, io_resid := 0x100000000000\<rparr>, s)"
proof
  have sec: "(- 1 :: 32 word) * of_nat DISK0_BLK_NSECT = 0xFFFFFFF8" by (simp add: disk0_sizes)
  have pass: "disk0_pass D False (- 1) 4096 iob' (lock_disk0 s) = Inl Panicked" for iob'
    using assms unfolding disk0_pass_def disk0_read_blks_nolock_def Let_def if_False sec
    by (simp add: disk0_sizes disk_emit_def case_prod_beta)
  have "sint (- 4096 :: 64 word) = - 4096" by simp
  then show "disk0_io D dev (iob\<lparr>io_offset := - 4096, io_resid := 4096\<rparr>) False s = Inl Panicked"
    using pass by (simp add: disk0_io_def Let_def disk0_sizes signed_divide_int_def signed_modulo_int_def
        disk0_loop.simps [of D False "- 1" 4096])
  show "disk0_io D dev (iob\<lparr>io_offset := 0, io_resid := 0x100000000000\<rparr>) False s =
      Inr (0, iob\<lparr>io_offset := 0, io_resid := 0x100000000000\<rparr>, s)"
    by (simp add: disk0_io_def Let_def disk0_sizes signed_divide_int_def signed_modulo_int_def)
qed

lemma disk0_io_wraps_witness:
  "disk0_io demo_disk \<lparr>d_blocks = 2, d_blocksize = 4096, d_driver = Disk0_Driver\<rparr>
     (demo_iob\<lparr>io_offset := - 4096, io_resid := 4096\<rparr>) False demo_disk0 = Inl Panicked"
proof -
  have "fst (ide_read_secs demo_disk 0xFFFFFFF8 (disk0_buffer demo_disk0) 8 (disk demo_disk0)) \<noteq> 0"
    by (simp add: demo_disk_def demo_disk0_def)
  from disk0_io_wraps [OF this] show ?thesis by blast
qed


text \<open>\<open>kmalloc\<close> hands out a number that no inode has.\<close>

definition kmalloc_new :: "'x env \<Rightarrow> bool" where
  "kmalloc_new E \<longleftrightarrow> kmalloc_frame E \<and> (\<forall>v n v'. e_kmalloc E v = (Some n, v') \<longrightarrow> inodes v n = None)"

definition device_inode :: "device \<Rightarrow> inode \<Rightarrow> bool" where
  "device_inode dev i \<longleftrightarrow> in_type i = inode_type_device_info \<and> in_device i = dev \<and> ref_count i = 1 \<and>
     open_count i = 0 \<and> in_ops i = Some Dev_Ops"

lemma kmalloc_newD:
  assumes "kmalloc_new E" and "e_kmalloc E v = (r, v')"
  shows "vdev_list v' = vdev_list v" "inodes v' = inodes v" "r = Some n \<Longrightarrow> inodes v n = None"
proof -
  have "vdev_list (snd (e_kmalloc E v)) = vdev_list v \<and> inodes (snd (e_kmalloc E v)) = inodes v"
    using assms(1) unfolding kmalloc_new_def kmalloc_frame_def by blast
  then show "vdev_list v' = vdev_list v" "inodes v' = inodes v" by (simp_all add: assms(2))
  show "r = Some n \<Longrightarrow> inodes v n = None" using assms unfolding kmalloc_new_def by blast
qed

lemma create_inode_effect:
  assumes "kmalloc_new E" and "dev_create_inode E v = Inr (Some n, v1)"
  shows "inodes v n = None \<and> vdev_list v1 = vdev_list v \<and>
    (\<exists>i. inodes v1 = (inodes v)(n \<mapsto> i) \<and> device_inode (in_device i) i)"
proof -
  obtain r v0 where k: "e_kmalloc E v = (r, v0)" by fastforce
  note kd = kmalloc_newD [OF assms(1) k]
  show ?thesis
    using assms(2) kd
    by (auto simp: dev_create_inode_def alloc_inode_def k inode_init_def inode_ref_inc_def get_inode_def
        kbind_eq_Inr_iff device_inode_def Let_def split: option.splits)
qed

text \<open>The end of the start of a device: its data and its entry.\<close>

lemma start_device:
  assumes "kmalloc_new E" and "dev_names_ok (vdev_list v)" and "inodes v n = Some i"
    and "device_inode (in_device i) i" and "put_device n dev v = Inr v1" and "add_or_panic E name n mnt v1 = Inr v2"
  shows "dev_names_ok (vdev_list v2) \<and>
    vdev_list v2 = \<lparr>devname = name, devnode = Some n, vd_fs = None, mountable = mnt\<rparr> # vdev_list v \<and>
    (\<exists>j. inodes v2 = (inodes v)(n \<mapsto> j) \<and> device_inode dev j)"
proof -
  have v1: "v1 = put_inode n (i\<lparr>in_device := dev\<rparr>) v"
    using assms(3,5) by (auto simp: put_device_def get_inode_def)
  have a: "vfs_add_dev E name (Some n) mnt v1 = Inr (0, v2)"
    using assms(6) by (auto simp: add_or_panic_def kbind_eq_Inr_iff split: if_splits)
  have f: "kmalloc_frame E" using assms(1) by (simp add: kmalloc_new_def)
  show ?thesis
    using add_dev_effect [OF f _ a] assms(2,4) by (auto simp: v1 device_inode_def)
qed

lemma started:
  assumes "kmalloc_new E" and "dev_names_ok (vdev_list v)" and "dev_create_inode E v = Inr (Some n, v1)"
    and "inodes v2 = inodes v1" and "vdev_list v2 = vdev_list v1"
    and "put_device n dev v2 = Inr v3" and "add_or_panic E name n mnt v3 = Inr v4"
  shows "\<exists>m j. inodes v m = None \<and> inodes v4 = (inodes v)(m \<mapsto> j) \<and> dev_names_ok (vdev_list v4) \<and> device_inode dev j \<and>
    vdev_list v4 = \<lparr>devname = name, devnode = Some m, vd_fs = None, mountable = mnt\<rparr> # vdev_list v"
proof -
  from create_inode_effect [OF assms(1,3)] obtain i where i: "inodes v n = None" "vdev_list v1 = vdev_list v"
    "inodes v1 = (inodes v)(n \<mapsto> i)" "device_inode (in_device i) i" by blast
  from start_device [OF assms(1) _ _ i(4) assms(6,7)] i assms(2,4,5)
  obtain j where "dev_names_ok (vdev_list v4)" "device_inode dev j" "inodes v4 = (inodes v)(n \<mapsto> j)"
    "vdev_list v4 = \<lparr>devname = name, devnode = Some n, vd_fs = None, mountable = mnt\<rparr> # vdev_list v" by auto
  then show ?thesis using i(1) by blast
qed

lemma init_stdin_effect:
  assumes "kmalloc_new E" and "dev_names_ok (vdev_list v)" and "dev_init_stdin W E v s = Inr (v', s')"
  shows "s' = s\<lparr>p_rpos := 0, p_wpos := 0, stdin_waiters := wait_queue_init W\<rparr> \<and>
    (\<exists>n i. inodes v n = None \<and> inodes v' = (inodes v)(n \<mapsto> i) \<and> dev_names_ok (vdev_list v') \<and>
       device_inode \<lparr>d_blocks = 0, d_blocksize = 1, d_driver = Stdin_Driver\<rparr> i \<and>
       vdev_list v' = \<lparr>devname = stdin_name, devnode = Some n, vd_fs = None, mountable = False\<rparr> # vdev_list v)"
proof -
  obtain n v1 v2 where c: "dev_create_inode E v = Inr (Some n, v1)"
    "put_device n \<lparr>d_blocks = 0, d_blocksize = 1, d_driver = Stdin_Driver\<rparr> v1 = Inr v2"
    "add_or_panic E stdin_name n False v2 = Inr v'"
    and s': "s' = s\<lparr>p_rpos := 0, p_wpos := 0, stdin_waiters := wait_queue_init W\<rparr>"
    using assms(3) by (auto simp: dev_init_stdin_def stdin_device_init_def kbind_eq_Inr_iff split: option.splits)
  show ?thesis using started [OF assms(1,2) c(1) refl refl c(2,3)] s' by blast
qed

lemma init_stdout_effect:
  assumes "kmalloc_new E" and "dev_names_ok (vdev_list v)" and "dev_init_stdout E v = Inr v'"
  shows "\<exists>n i. inodes v n = None \<and> inodes v' = (inodes v)(n \<mapsto> i) \<and> dev_names_ok (vdev_list v') \<and>
       device_inode \<lparr>d_blocks = 0, d_blocksize = 1, d_driver = Stdout_Driver\<rparr> i \<and>
       vdev_list v' = \<lparr>devname = stdout_name, devnode = Some n, vd_fs = None, mountable = False\<rparr> # vdev_list v"
proof -
  obtain n v1 v2 where c: "dev_create_inode E v = Inr (Some n, v1)"
    "put_device n \<lparr>d_blocks = 0, d_blocksize = 1, d_driver = Stdout_Driver\<rparr> v1 = Inr v2"
    "add_or_panic E stdout_name n False v2 = Inr v'"
    using assms(3) by (auto simp: dev_init_stdout_def stdout_device_init_def kbind_eq_Inr_iff split: option.splits)
  show ?thesis using started [OF assms(1,2) c(1) refl refl c(2,3)] .
qed

lemma init_disk0_effect:
  assumes "kmalloc_new E" and "dev_names_ok (vdev_list v)" and "dev_init_disk0 D E v s = Inr (v', s')"
  shows "ide_device_valid D \<and> disk0_calls s' = disk0_calls s @ [Sem_Init 1] \<and> disk0_buffer s' = disk_junk D \<and>
    disk s' = disk s \<and>
    (\<exists>n i. inodes v n = None \<and> inodes v' = (inodes v)(n \<mapsto> i) \<and> dev_names_ok (vdev_list v') \<and>
       device_inode \<lparr>d_blocks = ide_device_size D div 8, d_blocksize = 4096, d_driver = Disk0_Driver\<rparr> i \<and>
       vdev_list v' = \<lparr>devname = disk0_name, devnode = Some n, vd_fs = None, mountable = True\<rparr> # vdev_list v)"
proof -
  obtain n v1 r v2 v3 where c: "dev_create_inode E v = Inr (Some n, v1)" "e_kmalloc E v1 = (r, v2)"
    "put_device n \<lparr>d_blocks = ide_device_size D div 8, d_blocksize = 4096, d_driver = Disk0_Driver\<rparr> v2 = Inr v3"
    "add_or_panic E disk0_name n True v3 = Inr v'"
    and s': "ide_device_valid D" "s' = (disk_emit (Sem_Init 1) s)\<lparr>disk0_buffer := disk_junk D\<rparr>"
    using assms(3)
    by (auto simp: dev_init_disk0_def disk0_device_init_def kbind_eq_Inr_iff disk0_sizes Let_def
        split: option.splits prod.splits if_splits)
  note kd = kmalloc_newD(1,2) [OF assms(1) c(2)]
  show ?thesis
    using started [OF assms(1,2) c(1) kd(2,1) c(3,4)] s' by (simp add: disk_emit_def)
qed

text \<open>
  When \<open>dev_init\<close> returns, the three devices are in the table under their names, each with
  an inode of its own that no one had before, of the right driver, with one reference; the
  buffer of standard input is empty, the semaphore of the disk is 1. Looking up \<open>stdin\<close> gives
  its node; looking up \<open>disk0\<close> fails until a file system is mounted.
\<close>

theorem dev_init_table:
  assumes "kmalloc_new E" and "dev_names_ok (vdev_list v)" and "dev_init W D E v s = Inr (v', s')"
  shows "\<exists>n1 n2 n3 i1 i2 i3. distinct [n1, n2, n3] \<and> {n1, n2, n3} \<inter> dom (inodes v) = {} \<and>
    inodes v' = (inodes v)(n1 \<mapsto> i1, n2 \<mapsto> i2, n3 \<mapsto> i3) \<and>
    device_inode \<lparr>d_blocks = 0, d_blocksize = 1, d_driver = Stdin_Driver\<rparr> i1 \<and>
    device_inode \<lparr>d_blocks = 0, d_blocksize = 1, d_driver = Stdout_Driver\<rparr> i2 \<and>
    device_inode \<lparr>d_blocks = ide_device_size D div 8, d_blocksize = 4096, d_driver = Disk0_Driver\<rparr> i3 \<and>
    vdev_list v' = [\<lparr>devname = disk0_name, devnode = Some n3, vd_fs = None, mountable = True\<rparr>,
      \<lparr>devname = stdout_name, devnode = Some n2, vd_fs = None, mountable = False\<rparr>,
      \<lparr>devname = stdin_name, devnode = Some n1, vd_fs = None, mountable = False\<rparr>] @ vdev_list v \<and>
    dev_names_ok (vdev_list v') \<and> stdin_pending (dv_stdin s') = [] \<and>
    disk0_calls (dv_disk0 s') = disk0_calls (dv_disk0 s) @ [Sem_Init 1] \<and>
    (\<exists>v''. vfs_get_root E stdin_name v' = Inr (0, Some n1, v'')) \<and>
    (\<exists>v''. vfs_get_root E disk0_name v' = Inr (- E_NA_DEV, None, v''))"
proof -
  obtain v1 t v2 d where c: "dev_init_stdin W E v (dv_stdin s) = Inr (v1, t)" "dev_init_stdout E v1 = Inr v2"
    "dev_init_disk0 D E v2 (dv_disk0 s) = Inr (v', d)" "s' = s\<lparr>dv_stdin := t, dv_disk0 := d\<rparr>"
    using assms(3) by (auto simp: dev_init_def kbind_eq_Inr_iff)
  from init_stdin_effect [OF assms(1,2) c(1)] obtain n1 i1 where
    1: "inodes v n1 = None" "inodes v1 = (inodes v)(n1 \<mapsto> i1)" "dev_names_ok (vdev_list v1)"
      "device_inode \<lparr>d_blocks = 0, d_blocksize = 1, d_driver = Stdin_Driver\<rparr> i1"
      "vdev_list v1 = \<lparr>devname = stdin_name, devnode = Some n1, vd_fs = None, mountable = False\<rparr> # vdev_list v"
      "t = (dv_stdin s)\<lparr>p_rpos := 0, p_wpos := 0, stdin_waiters := wait_queue_init W\<rparr>" by blast
  from init_stdout_effect [OF assms(1) 1(3) c(2)] obtain n2 i2 where
    2: "inodes v1 n2 = None" "inodes v2 = (inodes v1)(n2 \<mapsto> i2)" "dev_names_ok (vdev_list v2)"
      "device_inode \<lparr>d_blocks = 0, d_blocksize = 1, d_driver = Stdout_Driver\<rparr> i2"
      "vdev_list v2 = \<lparr>devname = stdout_name, devnode = Some n2, vd_fs = None, mountable = False\<rparr> # vdev_list v1" by blast
  from init_disk0_effect [OF assms(1) 2(3) c(3)] obtain n3 i3 where
    3: "inodes v2 n3 = None" "inodes v' = (inodes v2)(n3 \<mapsto> i3)" "dev_names_ok (vdev_list v')"
      "device_inode \<lparr>d_blocks = ide_device_size D div 8, d_blocksize = 4096, d_driver = Disk0_Driver\<rparr> i3"
      "vdev_list v' = \<lparr>devname = disk0_name, devnode = Some n3, vd_fs = None, mountable = True\<rparr> # vdev_list v2"
      "disk0_calls d = disk0_calls (dv_disk0 s) @ [Sem_Init 1]" by blast
  have d: "distinct [n1, n2, n3]" "{n1, n2, n3} \<inter> dom (inodes v) = {}"
    using 1(1,2) 2(1,2) 3(1) by (auto split: if_splits)
  have p: "stdin_pending t = []" by (simp add: 1(6) stdin_pending_def)
  have r: "\<exists>v''. vfs_get_root E stdin_name v' = Inr (0, Some n1, v'')"
    "\<exists>v''. vfs_get_root E disk0_name v' = Inr (- E_NA_DEV, None, v'')"
    using d(1) 1(5) 2(2,5) 3(2,5)
    by (simp_all add: vfs_get_root_def dev_root_def inode_ref_inc_def get_inode_def Let_def dev_names 1(2))
  show ?thesis
    using d p r 1(2,4,5) 2(2,4,5) 3 c(4)
    by (intro exI [of _ n1] exI [of _ n2] exI [of _ n3] exI [of _ i1] exI [of _ i2] exI [of _ i3]) simp
qed

text \<open>A machine at its start, whose \<open>kmalloc\<close> counts.\<close>

definition count_env :: "nat env" where
  "count_env =
     \<lparr>e_kmalloc = (\<lambda>v. if inodes v (ext v) = None then (Some (ext v), v\<lparr>ext := Suc (ext v)\<rparr>) else (None, v)), e_junk = demo_inode,
      e_open = (\<lambda>_ _ s. Inr (0, s)), e_close = (\<lambda>_ s. Inr (0, s)), e_reclaim = (\<lambda>_ s. Inr (0, s)),
      e_gettype = (\<lambda>_ s. Inr (0, S_IFDIR, s)), e_truncate = (\<lambda>_ _ s. Inr (0, s)),
      e_create = (\<lambda>_ _ _ s. Inr (0, Some 2, s)), e_lookup = (\<lambda>_ p s. Inr (- E_NOENT, None, p, s)),
      e_sync = (\<lambda>_ s. (0, s)), e_get_root = (\<lambda>_ s. (Some 1, s)), e_unmount = (\<lambda>_ s. (0, s)),
      e_cleanup = (\<lambda>_ s. s)\<rparr>"

definition start_vfs :: "nat vstate" where
  "start_vfs = \<lparr>inodes = (\<lambda>_. None), vdev_list = [], bootfs_node = None, pwd = None, lock_calls = [], ext = 0\<rparr>"

lemma dev_init_table_witness:
  "\<exists>v' s'. dev_init demo_wait demo_disk count_env start_vfs \<lparr>dv_stdin = demo_stdin, dv_stdout = [], dv_disk0 = demo_disk0\<rparr> = Inr (v', s') \<and>
     dev_names_ok (vdev_list v') \<and> stdin_pending (dv_stdin s') = []"
proof -
  have "\<exists>v' s'. dev_init demo_wait demo_disk count_env start_vfs \<lparr>dv_stdin = demo_stdin, dv_stdout = [], dv_disk0 = demo_disk0\<rparr> = Inr (v', s')"
    by (simp add: dev_init_def dev_init_stdin_def dev_init_stdout_def dev_init_disk0_def dev_create_inode_def alloc_inode_def
        inode_init_def inode_ref_inc_def get_inode_def vop_info_device_def put_device_def add_or_panic_def vfs_add_dev_def
        vfs_do_add_def count_env_def start_vfs_def stdin_device_init_def disk0_device_init_def demo_disk_def Let_def
        FS_MAX_DNAME_LEN_def dev_names demo_inode_def put_inode_def emit_def)
  then obtain v' s' where r: "dev_init demo_wait demo_disk count_env start_vfs \<lparr>dv_stdin = demo_stdin, dv_stdout = [], dv_disk0 = demo_disk0\<rparr> = Inr (v', s')"
    by blast
  have "kmalloc_new count_env" by (auto simp: kmalloc_new_def kmalloc_frame_def count_env_def split: if_splits)
  moreover have "dev_names_ok (vdev_list start_vfs)" by (simp add: dev_names_ok_def start_vfs_def)
  ultimately have "dev_names_ok (vdev_list v') \<and> stdin_pending (dv_stdin s') = []" using dev_init_table r by blast
  then show ?thesis using r by blast
qed

end
