(* ===== verification/Mksfs.thy ===== *)
theory Mksfs
  imports CString
begin

text \<open>
  \<open>lab8/tools/mksfs.c\<close>, the program that builds the image of the simple file system from a
  directory of the host. The state is the structure \<open>sfs_fs\<close> with the blocks of the image;
  cached inodes and index blocks are named by the order of their allocation, and a hash chain
  is the list of its members. The host appears as a tree with the results of its reads;
  allocation by \<open>malloc\<close> succeeds, and \<open>bug\<close>, which ends the program, is \<open>Panicked\<close>. Block
  numbers are below \<open>SFS_MAX_NBLKS\<close> and are natural numbers.
\<close>

subsection \<open>Constants and hashing\<close>

definition SFS_MAGIC :: "32 word" where "SFS_MAGIC = 0x2f8dbe2a"
definition SFS_NDIRECT :: nat where "SFS_NDIRECT = 12"
definition SFS_BLKSIZE :: nat where "SFS_BLKSIZE = 4096"
definition SFS_MAX_NBLKS :: nat where "SFS_MAX_NBLKS = 1024 * 512"
definition SFS_MAX_INFO_LEN :: nat where "SFS_MAX_INFO_LEN = 31"
definition SFS_MAX_FNAME_LEN :: nat where "SFS_MAX_FNAME_LEN = 255"
definition SFS_MAX_FILE_SIZE :: nat where "SFS_MAX_FILE_SIZE = 1024 * 1024 * 128"
definition SFS_BLKBITS :: nat where "SFS_BLKBITS = SFS_BLKSIZE * 8"
definition SFS_TYPE_FILE :: "16 word" where "SFS_TYPE_FILE = 1"
definition SFS_TYPE_DIR :: "16 word" where "SFS_TYPE_DIR = 2"
definition SFS_TYPE_LINK :: "16 word" where "SFS_TYPE_LINK = 3"
definition SFS_BLKN_SUPER :: nat where "SFS_BLKN_SUPER = 0"
definition SFS_BLKN_ROOT :: nat where "SFS_BLKN_ROOT = 1"
definition SFS_BLKN_FREEMAP :: nat where "SFS_BLKN_FREEMAP = 2"
definition SFS_BLK_NENTRY :: nat where "SFS_BLK_NENTRY = SFS_BLKSIZE div 4"
definition SFS_L0_NBLKS :: nat where "SFS_L0_NBLKS = SFS_NDIRECT"
definition SFS_L1_NBLKS :: nat where "SFS_L1_NBLKS = SFS_BLK_NENTRY + SFS_L0_NBLKS"
definition SFS_L2_NBLKS :: nat where "SFS_L2_NBLKS = SFS_BLK_NENTRY * SFS_BLK_NENTRY + SFS_L1_NBLKS"
definition SFS_LN_NBLKS :: nat where "SFS_LN_NBLKS = SFS_MAX_FILE_SIZE div SFS_BLKSIZE"

lemma sfs_sizes:
  "SFS_NDIRECT = 12" "SFS_BLKSIZE = 4096" "SFS_MAX_NBLKS = 524288" "SFS_BLKBITS = 32768" "SFS_BLK_NENTRY = 1024"
  "SFS_L0_NBLKS = 12" "SFS_L1_NBLKS = 1036" "SFS_L2_NBLKS = 1049612" "SFS_LN_NBLKS = 32768"
  "SFS_MAX_FNAME_LEN = 255" "SFS_MAX_INFO_LEN = 31" "SFS_BLKN_SUPER = 0" "SFS_BLKN_ROOT = 1" "SFS_BLKN_FREEMAP = 2"
  by (simp_all add: SFS_NDIRECT_def SFS_BLKSIZE_def SFS_MAX_NBLKS_def SFS_BLKBITS_def SFS_BLK_NENTRY_def
      SFS_L0_NBLKS_def SFS_L1_NBLKS_def SFS_L2_NBLKS_def SFS_LN_NBLKS_def SFS_MAX_FILE_SIZE_def
      SFS_MAX_FNAME_LEN_def SFS_MAX_INFO_LEN_def SFS_BLKN_SUPER_def SFS_BLKN_ROOT_def SFS_BLKN_FREEMAP_def)

definition HASH_SHIFT :: nat where "HASH_SHIFT = 10"

definition hash32_bits :: "32 word \<Rightarrow> nat \<Rightarrow> 32 word" where
  "hash32_bits val bits = drop_bit (32 - bits) (val * 0x9e370001)"

definition hash32 :: "nat \<Rightarrow> nat" where
  "hash32 val = unat (hash32_bits (of_nat val) HASH_SHIFT)"

definition hash64 :: "64 word \<Rightarrow> nat" where
  "hash64 val = unat (hash32_bits (ucast val) HASH_SHIFT)"

subsection \<open>The state\<close>

record sfs_inode =
  isize :: "32 word"
  itype :: "16 word"
  inlinks :: "16 word"
  iblocks :: "32 word"
  idirect :: "nat list"
  iindirect :: nat
  idb_indirect :: nat

record cache_block =
  cb_ino :: nat
  cache :: "nat list"

record cache_inode =
  cinode :: sfs_inode
  ci_real :: "64 word"
  ci_ino :: nat
  ci_nblks :: nat
  ci_l1 :: "nat option"
  ci_l2 :: "nat option"

record sfs_fs =
  sb_blocks :: nat
  sb_unused :: nat
  subpaths :: "byte list list"
  ninos :: nat
  next_ino :: nat
  sfs_root :: nat
  cinodes :: "nat \<Rightarrow> cache_inode"
  n_cinodes :: nat
  ihash :: "nat \<Rightarrow> nat list"
  cblocks :: "nat \<Rightarrow> cache_block"
  n_cblocks :: nat
  bhash :: "nat \<Rightarrow> nat list"
  entry_name :: "byte list"
  img :: "nat \<Rightarrow> byte list"

definition on_ci :: "nat \<Rightarrow> (cache_inode \<Rightarrow> cache_inode) \<Rightarrow> sfs_fs \<Rightarrow> sfs_fs" where
  "on_ci f u s = s\<lparr>cinodes := (cinodes s)(f := u (cinodes s f))\<rparr>"

definition on_inode :: "nat \<Rightarrow> (sfs_inode \<Rightarrow> sfs_inode) \<Rightarrow> sfs_fs \<Rightarrow> sfs_fs" where
  "on_inode f u s = on_ci f (\<lambda>c. c\<lparr>cinode := u (cinode c)\<rparr>) s"

text \<open>A store into the array of a cached index block.\<close>

definition put_cache :: "nat \<Rightarrow> nat \<Rightarrow> nat \<Rightarrow> sfs_fs \<Rightarrow> sfs_fs" where
  "put_cache c k v s = s\<lparr>cblocks := (cblocks s)(c := (cblocks s c)\<lparr>cache := (cache (cblocks s c))[k := v]\<rparr>)\<rparr>"

subsection \<open>Allocating blocks, index blocks and inodes\<close>

definition sfs_alloc_ino :: "sfs_fs \<Rightarrow> (nat \<times> sfs_fs) res" where
  "sfs_alloc_ino s =
     (if next_ino s < ninos s
      then Inr (next_ino s, s\<lparr>sb_unused := sb_unused s - 1, next_ino := next_ino s + 1\<rparr>)
      else Inl Panicked)"

text \<open>The chain is chosen by the argument, also when it is 0 and a number is allocated.\<close>

definition alloc_cache_block :: "nat \<Rightarrow> sfs_fs \<Rightarrow> (nat \<times> sfs_fs) res" where
  "alloc_cache_block ino s =
     kbind (if ino \<noteq> 0 then Inr (ino, s) else sfs_alloc_ino s) (\<lambda>(i, s1).
       let c = n_cblocks s1; h = hash32 ino in
       Inr (c, s1\<lparr>cblocks := (cblocks s1)(c := \<lparr>cb_ino = i, cache = replicate SFS_BLK_NENTRY 0\<rparr>),
         n_cblocks := c + 1, bhash := (bhash s1)(h := c # bhash s1 h)\<rparr>))"

definition search_cache_block :: "nat \<Rightarrow> sfs_fs \<Rightarrow> nat option" where
  "search_cache_block ino s = find (\<lambda>c. cb_ino (cblocks s c) = ino) (bhash s (hash32 ino))"

definition empty_inode :: "16 word \<Rightarrow> sfs_inode" where
  "empty_inode type = \<lparr>isize = 0, itype = type, inlinks = 0, iblocks = 0, idirect = replicate SFS_NDIRECT 0,
     iindirect = 0, idb_indirect = 0\<rparr>"

definition alloc_cache_inode :: "64 word \<Rightarrow> nat \<Rightarrow> 16 word \<Rightarrow> sfs_fs \<Rightarrow> (nat \<times> sfs_fs) res" where
  "alloc_cache_inode rl ino type s =
     kbind (if ino \<noteq> 0 then Inr (ino, s) else sfs_alloc_ino s) (\<lambda>(i, s1).
       let f = n_cinodes s1; h = hash64 rl in
       Inr (f, s1\<lparr>cinodes := (cinodes s1)(f := \<lparr>cinode = empty_inode type, ci_real = rl, ci_ino = i, ci_nblks = 0,
           ci_l1 = None, ci_l2 = None\<rparr>),
         n_cinodes := f + 1, ihash := (ihash s1)(h := f # ihash s1 h)\<rparr>))"

definition search_cache_inode :: "64 word \<Rightarrow> sfs_fs \<Rightarrow> nat option" where
  "search_cache_inode rl s = find (\<lambda>f. ci_real (cinodes s f) = rl) (ihash s (hash64 rl))"

definition subpath_push :: "byte list \<Rightarrow> sfs_fs \<Rightarrow> sfs_fs" where
  "subpath_push name s = s\<lparr>subpaths := subpaths s @ [name]\<rparr>"

definition subpath_pop :: "sfs_fs \<Rightarrow> sfs_fs res" where
  "subpath_pop s = kassert (subpaths s \<noteq> []) (Inr (s\<lparr>subpaths := butlast (subpaths s)\<rparr>))"

subsection \<open>Starting the image\<close>

text \<open>\<open>st_size\<close> is the length of the image file; the quotient is stored in 32 bits.\<close>

definition create_sfs :: "nat \<Rightarrow> (nat \<Rightarrow> byte list) \<Rightarrow> sfs_fs res" where
  "create_sfs st_size disk =
     (let n0 = (st_size div SFS_BLKSIZE) mod 2 ^ 32;
          n = (if n0 > SFS_MAX_NBLKS then SFS_MAX_NBLKS else n0);
          nxt = SFS_BLKN_FREEMAP + (n + SFS_BLKBITS - 1) div SFS_BLKBITS in
      if nxt \<ge> n then Inl Panicked
      else
        let s = \<lparr>sb_blocks = n, sb_unused = n - nxt, subpaths = [], ninos = n, next_ino = nxt, sfs_root = 0,
               cinodes = (\<lambda>_. \<lparr>cinode = empty_inode 0, ci_real = 0, ci_ino = 0, ci_nblks = 0, ci_l1 = None, ci_l2 = None\<rparr>),
               n_cinodes = 0, ihash = (\<lambda>_. []),
               cblocks = (\<lambda>_. \<lparr>cb_ino = 0, cache = []\<rparr>), n_cblocks = 0, bhash = (\<lambda>_. []),
               entry_name = replicate (SFS_MAX_FNAME_LEN + 1) 0, img = disk\<rparr> in
        kbind (alloc_cache_inode 0 SFS_BLKN_ROOT SFS_TYPE_DIR s) (\<lambda>(f, s1). Inr (s1\<lparr>sfs_root := f\<rparr>)))"

text \<open>\<open>open_img\<close>: the name must end in \<open>.img\<close> and have something before it.\<close>

definition open_img :: "byte list \<Rightarrow> nat option \<Rightarrow> (nat \<Rightarrow> byte list) \<Rightarrow> sfs_fs res" where
  "open_img imgname st_size disk =
     (if length imgname \<le> 4 \<or> drop (length imgname - 4) imgname \<noteq> [46, 105, 109, 103] then Inl Panicked
      else case st_size of None \<Rightarrow> Inl Panicked | Some n \<Rightarrow> create_sfs n disk)"

subsection \<open>Appending to a file\<close>

definition write_block :: "byte list \<Rightarrow> nat \<Rightarrow> sfs_fs \<Rightarrow> sfs_fs res" where
  "write_block data ino s =
     kassert (length data \<le> SFS_BLKSIZE \<and> ino < ninos s)
       (Inr (s\<lparr>img := (img s)(ino := data @ replicate (SFS_BLKSIZE - length data) 0)\<rparr>))"

definition update_cache :: "nat option \<Rightarrow> nat \<Rightarrow> sfs_fs \<Rightarrow> (nat \<times> nat \<times> sfs_fs) res" where
  "update_cache cbp ino s =
     (if ino = 0 then kbind (alloc_cache_block 0 s) (\<lambda>(c, s1). Inr (c, cb_ino (cblocks s1 c), s1))
      else case cbp of
        Some c \<Rightarrow>
          if cb_ino (cblocks s c) \<noteq> ino
          then (case search_cache_block ino s of None \<Rightarrow> Inl Assert_Failed | Some c' \<Rightarrow> Inr (c', ino, s))
          else Inr (c, ino, s)
      | None \<Rightarrow> (case search_cache_block ino s of None \<Rightarrow> Inl Assert_Failed | Some c' \<Rightarrow> Inr (c', ino, s)))"

text \<open>The block number goes into the inode, an index block, or an index block of the second level.\<close>

definition put_direct :: "nat \<Rightarrow> nat \<Rightarrow> nat \<Rightarrow> sfs_fs \<Rightarrow> sfs_fs" where
  "put_direct f k ino s = on_inode f (\<lambda>i. i\<lparr>idirect := (idirect i)[k := ino]\<rparr>) s"

definition put_indirect :: "nat \<Rightarrow> nat \<Rightarrow> nat \<Rightarrow> sfs_fs \<Rightarrow> sfs_fs res" where
  "put_indirect f k ino s =
     kbind (update_cache (ci_l1 (cinodes s f)) (iindirect (cinode (cinodes s f))) s) (\<lambda>(c, i, s1).
       Inr (put_cache c k ino (on_inode f (\<lambda>x. x\<lparr>iindirect := i\<rparr>) (on_ci f (\<lambda>x. x\<lparr>ci_l1 := Some c\<rparr>) s1))))"

definition put_db_indirect :: "nat \<Rightarrow> nat \<Rightarrow> nat \<Rightarrow> sfs_fs \<Rightarrow> sfs_fs res" where
  "put_db_indirect f k ino s =
     kbind (update_cache (ci_l2 (cinodes s f)) (idb_indirect (cinode (cinodes s f))) s) (\<lambda>(c2, i2, s1).
       let s2 = on_inode f (\<lambda>x. x\<lparr>idb_indirect := i2\<rparr>) (on_ci f (\<lambda>x. x\<lparr>ci_l2 := Some c2\<rparr>) s1);
           j = k div SFS_BLK_NENTRY in
       kbind (update_cache (ci_l1 (cinodes s2 f)) (cache (cblocks s2 c2) ! j) s2) (\<lambda>(c1, i1, s3).
         Inr (put_cache c1 (k mod SFS_BLK_NENTRY) ino
           (put_cache c2 j i1 (on_ci f (\<lambda>x. x\<lparr>ci_l1 := Some c1\<rparr>) s3)))))"

definition append_block :: "nat \<Rightarrow> nat \<Rightarrow> nat \<Rightarrow> sfs_fs \<Rightarrow> sfs_fs res" where
  "append_block f len ino s =
     kassert (len \<le> SFS_BLKSIZE)
       (let nblks = ci_nblks (cinodes s f) in
        if nblks \<ge> SFS_LN_NBLKS then Inl Panicked
        else kbind
          (if nblks < SFS_L0_NBLKS then Inr (put_direct f nblks ino s)
           else if nblks < SFS_L1_NBLKS then put_indirect f (nblks - SFS_L0_NBLKS) ino s
           else if nblks < SFS_L2_NBLKS then put_db_indirect f (nblks - SFS_L1_NBLKS) ino s
           else Inr s)
          (\<lambda>s1. Inr (on_inode f (\<lambda>i. i\<lparr>isize := isize i + of_nat len, iblocks := iblocks i + 1\<rparr>)
             (on_ci f (\<lambda>c. c\<lparr>ci_nblks := ci_nblks c + 1\<rparr>) s1))))"


subsection \<open>Blocks as bytes\<close>

text \<open>The machine that runs the program is little endian.\<close>

definition le16 :: "16 word \<Rightarrow> byte list" where
  "le16 w = [ucast w, ucast (drop_bit 8 w)]"

definition le32 :: "32 word \<Rightarrow> byte list" where
  "le32 w = [ucast w, ucast (drop_bit 8 w), ucast (drop_bit 16 w), ucast (drop_bit 24 w)]"

definition le_nat :: "nat \<Rightarrow> byte list" where
  "le_nat n = le32 (of_nat n)"

definition inode_bytes :: "sfs_inode \<Rightarrow> byte list" where
  "inode_bytes i = le32 (isize i) @ le16 (itype i) @ le16 (inlinks i) @ le32 (iblocks i) @
     concat (map le_nat (idirect i)) @ le_nat (iindirect i) @ le_nat (idb_indirect i)"

text \<open>The text \<open>simple file system\<close> in the field \<open>info\<close>, and the bytes of the superblock.\<close>

definition sfs_info :: "byte list" where
  "sfs_info = [115, 105, 109, 112, 108, 101, 32, 102, 105, 108, 101, 32, 115, 121, 115, 116, 101, 109]"

definition super_bytes :: "sfs_fs \<Rightarrow> byte list" where
  "super_bytes s = le32 SFS_MAGIC @ le_nat (sb_blocks s) @ le_nat (sb_unused s) @
     sfs_info @ replicate (SFS_MAX_INFO_LEN + 1 - length sfs_info) 0"

definition flush_cache_block :: "nat \<Rightarrow> sfs_fs \<Rightarrow> sfs_fs res" where
  "flush_cache_block c s = write_block (concat (map le_nat (cache (cblocks s c)))) (cb_ino (cblocks s c)) s"

definition flush_cache_inode :: "nat \<Rightarrow> sfs_fs \<Rightarrow> sfs_fs res" where
  "flush_cache_inode f s = write_block (inode_bytes (cinode (cinodes s f))) (ci_ino (cinodes s f)) s"

subsection \<open>Closing the image\<close>

text \<open>The words of a block of the free map: bits \<open>start\<close> to \<open>stop - 1\<close> are set.\<close>

fun set_bits :: "nat \<Rightarrow> nat \<Rightarrow> 32 word list \<Rightarrow> 32 word list" where
  "set_bits j 0 data = data"
| "set_bits j (Suc n) data =
     set_bits (Suc j) n (data[j div 32 := data ! (j div 32) OR push_bit (j mod 32) 1])"

definition freemap_words :: "nat \<Rightarrow> nat \<Rightarrow> nat \<Rightarrow> 32 word list" where
  "freemap_words n nxt i =
     (let data = replicate (SFS_BLKSIZE div 4) 0 in
      if i + SFS_BLKBITS > nxt then
        let start = (if i < nxt then nxt - i else 0);
            stop = (if i + SFS_BLKBITS > n then n - i else SFS_BLKBITS) in
        set_bits start (stop - start) data
      else data)"

function freemap_loop :: "nat \<Rightarrow> nat \<Rightarrow> sfs_fs \<Rightarrow> sfs_fs res" where
  "freemap_loop i ino s =
     (if i < ninos s then
        case write_block (concat (map le32 (freemap_words (ninos s) (next_ino s) i))) ino s of
          Inl e \<Rightarrow> Inl e
        | Inr s1 \<Rightarrow> freemap_loop (i + SFS_BLKBITS) (ino + 1) s1
      else Inr s)"
  by pat_completeness auto

termination
  by (relation "measure (\<lambda>(i, ino, s). ninos s - i)") (auto simp: write_block_def kassert_def sfs_sizes split: if_splits)

declare freemap_loop.simps [simp del]

fun flush_blocks :: "nat list \<Rightarrow> sfs_fs \<Rightarrow> sfs_fs res" where
  "flush_blocks [] s = Inr s"
| "flush_blocks (c # cs) s = kbind (flush_cache_block c s) (flush_blocks cs)"

fun flush_inodes :: "nat list \<Rightarrow> sfs_fs \<Rightarrow> sfs_fs res" where
  "flush_inodes [] s = Inr s"
| "flush_inodes (f # fs) s = kbind (flush_cache_inode f s) (flush_inodes fs)"

text \<open>The chains \<open>i\<close>, \<open>i + 1\<close>, \<open>\<dots>\<close>, \<open>n\<close> of them.\<close>

fun flush_chains :: "nat \<Rightarrow> nat \<Rightarrow> sfs_fs \<Rightarrow> sfs_fs res" where
  "flush_chains i 0 s = Inr s"
| "flush_chains i (Suc n) s =
     kbind (flush_blocks (bhash s i) s) (\<lambda>s1.
     kbind (flush_inodes (ihash s1 i) s1) (\<lambda>s2. flush_chains (Suc i) n s2))"

definition HASH_LIST_SIZE :: nat where "HASH_LIST_SIZE = 2 ^ HASH_SHIFT"

definition close_sfs :: "sfs_fs \<Rightarrow> sfs_fs res" where
  "close_sfs s =
     kbind (freemap_loop 0 SFS_BLKN_FREEMAP s) (\<lambda>s1.
     kbind (write_block (super_bytes s1) SFS_BLKN_SUPER s1) (\<lambda>s2.
     flush_chains 0 HASH_LIST_SIZE s2))"

subsection \<open>The directory of the host\<close>

text \<open>
  A file is the results of the successive calls of \<open>read\<close> that return bytes, and whether the
  next one fails; a symbolic link is the result of \<open>readlink\<close>; a directory lists its entries in
  the order of \<open>readdir\<close>. Files and directories have their number on the host. What cannot be
  opened is \<open>Host_Closed\<close>.
\<close>

datatype host =
    Host_File "64 word" "byte list list" bool
  | Host_Link "64 word" "byte list option"
  | Host_Dir "64 word" "(byte list \<times> host) list"
  | Host_Other
  | Host_Closed

text \<open>\<open>strcpy\<close> into the static entry keeps what the names before have left behind the NUL.\<close>

definition add_entry :: "nat \<Rightarrow> nat \<Rightarrow> byte list \<Rightarrow> sfs_fs \<Rightarrow> sfs_fs res" where
  "add_entry cur f name s =
     kassert (itype (cinode (cinodes s cur)) = SFS_TYPE_DIR \<and> length name \<le> SFS_MAX_FNAME_LEN)
       (let s1 = s\<lparr>entry_name := name @ 0 # drop (length name + 1) (entry_name s)\<rparr> in
        kbind (sfs_alloc_ino s1) (\<lambda>(e, s2).
        kbind (write_block (take (SFS_MAX_FNAME_LEN + 1) (le_nat (ci_ino (cinodes s2 f)) @ entry_name s2)) e s2) (\<lambda>s3.
        kbind (append_block cur (SFS_MAX_FNAME_LEN + 1) e s3) (\<lambda>s4.
        Inr (on_inode f (\<lambda>i. i\<lparr>inlinks := inlinks i + 1\<rparr>) s4)))))"

text \<open>
  The loop of \<open>open_file\<close>. A failed \<open>read\<close> returns \<open>-1\<close>, which is not 0, so the body runs: its
  \<open>write_block\<close> fails the assertion on the length.
\<close>

fun file_loop :: "nat \<Rightarrow> byte list list \<Rightarrow> bool \<Rightarrow> nat \<Rightarrow> sfs_fs \<Rightarrow> sfs_fs res" where
  "file_loop f [] fails last_len s =
     (if fails then kassert (last_len = SFS_BLKSIZE) (kbind (sfs_alloc_ino s) (\<lambda>_. Inl Assert_Failed)) else Inr s)"
| "file_loop f (chunk # chunks) fails last_len s =
     kassert (last_len = SFS_BLKSIZE)
       (kbind (sfs_alloc_ino s) (\<lambda>(ino, s1).
        kbind (write_block chunk ino s1) (\<lambda>s2.
        kbind (append_block f (length chunk) ino s2) (\<lambda>s3.
        file_loop f chunks fails (length chunk) s3))))"

definition open_file :: "nat \<Rightarrow> byte list list \<Rightarrow> bool \<Rightarrow> sfs_fs \<Rightarrow> sfs_fs res" where
  "open_file f chunks fails s = file_loop f chunks fails SFS_BLKSIZE s"

definition open_link :: "nat \<Rightarrow> byte list option \<Rightarrow> sfs_fs \<Rightarrow> sfs_fs res" where
  "open_link f target s =
     kbind (sfs_alloc_ino s) (\<lambda>(ino, s1).
       case target of
         None \<Rightarrow> Inl Panicked
       | Some t \<Rightarrow>
           if length t = SFS_BLKSIZE then Inl Panicked
           else kbind (write_block t ino s1) (\<lambda>s2. append_block f (length t) ino s2))"

definition add_file :: "nat \<Rightarrow> byte list \<Rightarrow> 64 word \<Rightarrow> byte list list \<Rightarrow> bool \<Rightarrow> sfs_fs \<Rightarrow> sfs_fs res" where
  "add_file cur name rl chunks fails s =
     kbind (case search_cache_inode rl s of
              Some f \<Rightarrow> Inr (f, s)
            | None \<Rightarrow> kbind (alloc_cache_inode rl 0 SFS_TYPE_FILE s) (\<lambda>(f, s1).
                kbind (open_file f chunks fails s1) (\<lambda>s2. Inr (f, s2))))
       (\<lambda>(f, s3). add_entry cur f name s3)"

definition add_link :: "nat \<Rightarrow> byte list \<Rightarrow> 64 word \<Rightarrow> byte list option \<Rightarrow> sfs_fs \<Rightarrow> sfs_fs res" where
  "add_link cur name rl target s =
     kbind (alloc_cache_inode rl 0 SFS_TYPE_LINK s) (\<lambda>(f, s1).
     kbind (open_link f target s1) (\<lambda>s2. add_entry cur f name s2))"

text \<open>\<open>add_dir\<close> before and after the recursive \<open>open_dir\<close>, and the two entries at its start.\<close>

definition add_dir_enter :: "byte list \<Rightarrow> 64 word \<Rightarrow> sfs_fs \<Rightarrow> (nat \<times> sfs_fs) res" where
  "add_dir_enter name rl s =
     kassert (search_cache_inode rl s = None)
       (kbind (alloc_cache_inode rl 0 SFS_TYPE_DIR s) (\<lambda>(d, s1). Inr (d, subpath_push name s1)))"

definition add_dir_leave :: "nat \<Rightarrow> nat \<Rightarrow> byte list \<Rightarrow> sfs_fs \<Rightarrow> sfs_fs res" where
  "add_dir_leave parent d name s = kbind (subpath_pop s) (add_entry parent d name)"

definition dir_head :: "nat \<Rightarrow> nat \<Rightarrow> sfs_fs \<Rightarrow> sfs_fs res" where
  "dir_head cur parent s = kbind (add_entry cur cur [46] s) (add_entry cur parent [46, 46])"

text \<open>The loop of \<open>open_dir\<close> over the entries; names that start with a dot are skipped.\<close>

definition skipped :: "byte list \<Rightarrow> bool" where
  "skipped name \<longleftrightarrow> name = [46] \<or> name = [46, 46] \<or> take 1 name = [46]"

fun dir_loop :: "nat \<Rightarrow> (byte list \<times> host) list \<Rightarrow> sfs_fs \<Rightarrow> sfs_fs res" where
  "dir_loop cur [] s = Inr s"
| "dir_loop cur ((name, h) # es) s =
     kbind
       (if skipped name then Inr s
        else if length name > SFS_MAX_FNAME_LEN then Inl Panicked
        else case h of
          Host_Link rl target \<Rightarrow> add_link cur name rl target s
        | Host_Closed \<Rightarrow> Inl Panicked
        | Host_Dir rl es' \<Rightarrow>
            kbind (add_dir_enter name rl s) (\<lambda>(d, s1).
            kbind (dir_head d cur s1) (\<lambda>s2.
            kbind (dir_loop d es' s2) (add_dir_leave cur d name)))
        | Host_File rl chunks fails \<Rightarrow> add_file cur name rl chunks fails s
        | Host_Other \<Rightarrow> Inr s)
       (dir_loop cur es)"

definition open_dir :: "nat \<Rightarrow> nat \<Rightarrow> (byte list \<times> host) list \<Rightarrow> sfs_fs \<Rightarrow> sfs_fs res" where
  "open_dir cur parent es s = kbind (dir_head cur parent s) (dir_loop cur es)"

definition create_img :: "(byte list \<times> host) list \<Rightarrow> sfs_fs \<Rightarrow> sfs_fs res" where
  "create_img home s = kbind (open_dir (sfs_root s) (sfs_root s) home s) close_sfs"

end
