(* ===== verification/Mksfs_Inv.thy ===== *)
theory Mksfs_Inv
  imports Mksfs
begin

text \<open>
  The invariant of the image builder: every block number handed out has one role (an inode, an
  index block, a block of a file), which the ghost map \<open>R\<close> records; and appending a block to a
  file appends its number to the blocks of that file and of no other.
\<close>

subsection \<open>Roles of blocks\<close>

datatype role = Inode_Of nat | L1_Of nat | L2_Of nat | L3_Of nat nat | Data_Of nat nat

fun role_file :: "role \<Rightarrow> nat" where
  "role_file (Inode_Of f) = f"
| "role_file (L1_Of f) = f"
| "role_file (L2_Of f) = f"
| "role_file (L3_Of f j) = f"
| "role_file (Data_Of f k) = f"

fun index_role :: "role \<Rightarrow> bool" where
  "index_role (Inode_Of f) = False"
| "index_role (Data_Of f k) = False"
| "index_role r = True"

type_synonym roles = "nat \<Rightarrow> role option"

text \<open>The first block behind the free map.\<close>

definition first_blk :: "sfs_fs \<Rightarrow> nat" where
  "first_blk s = SFS_BLKN_FREEMAP + (ninos s + SFS_BLKBITS - 1) div SFS_BLKBITS"

text \<open>The numbers in the index block \<open>i\<close>, as they are cached.\<close>

definition index_at :: "sfs_fs \<Rightarrow> nat \<Rightarrow> nat list" where
  "index_at s i =
     (case find (\<lambda>c. cb_ino (cblocks s c) = i) [0..<n_cblocks s] of None \<Rightarrow> [] | Some c \<Rightarrow> cache (cblocks s c))"

text \<open>Block \<open>k\<close> of a file with this inode, when \<open>rd i\<close> gives the numbers in the index block \<open>i\<close>.\<close>

definition file_block :: "(nat \<Rightarrow> nat list) \<Rightarrow> sfs_inode \<Rightarrow> nat \<Rightarrow> nat" where
  "file_block rd i k =
     (if k < SFS_L0_NBLKS then idirect i ! k
      else if k < SFS_L1_NBLKS then rd (iindirect i) ! (k - SFS_L0_NBLKS)
      else rd (rd (idb_indirect i) ! ((k - SFS_L1_NBLKS) div SFS_BLK_NENTRY)) ! ((k - SFS_L1_NBLKS) mod SFS_BLK_NENTRY))"

definition blk :: "sfs_fs \<Rightarrow> nat \<Rightarrow> nat \<Rightarrow> nat" where
  "blk s f k = file_block (index_at s) (cinode (cinodes s f)) k"

definition file_blocks :: "sfs_fs \<Rightarrow> nat \<Rightarrow> nat list" where
  "file_blocks s f = map (blk s f) [0..<ci_nblks (cinodes s f)]"

definition cached :: "sfs_fs \<Rightarrow> nat option \<Rightarrow> nat \<Rightarrow> bool" where
  "cached s co i \<longleftrightarrow> (\<exists>c. co = Some c \<and> c < n_cblocks s \<and> cb_ino (cblocks s c) = i)"

definition index_ok :: "sfs_fs \<Rightarrow> roles \<Rightarrow> nat \<Rightarrow> role \<Rightarrow> bool" where
  "index_ok s R i r \<longleftrightarrow> R i = Some r \<and> (\<exists>c. cached s (Some c) i)"

definition file_ok :: "sfs_fs \<Rightarrow> roles \<Rightarrow> nat \<Rightarrow> bool" where
  "file_ok s R f \<longleftrightarrow>
     (let c = cinodes s f; i = cinode c; n = ci_nblks c in
      n \<le> SFS_LN_NBLKS \<and> length (idirect i) = SFS_NDIRECT \<and> (\<forall>v\<in>set (idirect i). v < ninos s) \<and>
      (if n \<le> SFS_L0_NBLKS then iindirect i = 0
       else index_ok s R (iindirect i) (L1_Of f) \<and> (n \<le> SFS_L1_NBLKS \<longrightarrow> cached s (ci_l1 c) (iindirect i))) \<and>
      (if n \<le> SFS_L1_NBLKS then idb_indirect i = 0
       else index_ok s R (idb_indirect i) (L2_Of f) \<and> cached s (ci_l2 c) (idb_indirect i) \<and>
         cached s (ci_l1 c) (index_at s (idb_indirect i) ! ((n - 1 - SFS_L1_NBLKS) div SFS_BLK_NENTRY)) \<and>
         (\<forall>j<SFS_BLK_NENTRY. if j \<le> (n - 1 - SFS_L1_NBLKS) div SFS_BLK_NENTRY
            then index_ok s R (index_at s (idb_indirect i) ! j) (L3_Of f j)
            else index_at s (idb_indirect i) ! j = 0)) \<and>
      (\<forall>k<n. R (blk s f k) = Some (Data_Of f k)))"

text \<open>What holds of the numbers and the caches as a whole.\<close>

definition store_ok :: "sfs_fs \<Rightarrow> roles \<Rightarrow> bool" where
  "store_ok s R \<longleftrightarrow>
     first_blk s \<le> next_ino s \<and> next_ino s \<le> ninos s \<and> ninos s \<le> SFS_MAX_NBLKS \<and>
     sb_blocks s = ninos s \<and> sb_unused s = ninos s - next_ino s \<and>
     (\<forall>i r. R i = Some r \<longrightarrow> i = SFS_BLKN_ROOT \<and> r = Inode_Of (sfs_root s) \<or> first_blk s \<le> i \<and> i < next_ino s) \<and>
     sfs_root s < n_cinodes s \<and> (\<forall>f<n_cinodes s. R (ci_ino (cinodes s f)) = Some (Inode_Of f)) \<and>
     (\<forall>c<n_cblocks s. length (cache (cblocks s c)) = SFS_BLK_NENTRY \<and> (\<forall>v\<in>set (cache (cblocks s c)). v < ninos s) \<and>
        (\<exists>r. R (cb_ino (cblocks s c)) = Some r \<and> index_role r)) \<and>
     inj_on (\<lambda>c. cb_ino (cblocks s c)) {..<n_cblocks s} \<and>
     (\<forall>h. set (bhash s h) = (if h = 0 then {..<n_cblocks s} else {})) \<and>
     (\<forall>h. set (ihash s h) = {f. f < n_cinodes s \<and> hash64 (ci_real (cinodes s f)) = h})"

definition wf :: "sfs_fs \<Rightarrow> roles \<Rightarrow> bool" where
  "wf s R \<longleftrightarrow> store_ok s R \<and> (\<forall>f<n_cinodes s. file_ok s R f)"

subsection \<open>Index blocks\<close>

lemma map_le_Some: "R \<subseteq>\<^sub>m R' \<Longrightarrow> R i = Some r \<Longrightarrow> R' i = Some r"
  by (metis domI map_le_def)

lemma store_ok_roles:
  "store_ok s R \<Longrightarrow> R i = Some r \<Longrightarrow>
    i = SFS_BLKN_ROOT \<and> r = Inode_Of (sfs_root s) \<or> first_blk s \<le> i \<and> i < next_ino s"
  unfolding store_ok_def by blast

lemma store_okD:
  assumes "store_ok s R"
  shows "R i = Some r \<Longrightarrow> i \<noteq> 0 \<and> i < next_ino s" and "R (next_ino s) = None" and "next_ino s \<noteq> 0"
    and "R 0 = None"
proof -
  have 1: "i = SFS_BLKN_ROOT \<or> first_blk s \<le> i \<and> i < next_ino s" if "R i = Some r" for i r
    using assms that unfolding store_ok_def by blast
  have 2: "first_blk s \<le> next_ino s" "2 \<le> first_blk s" using assms unfolding store_ok_def by (auto simp: first_blk_def sfs_sizes)
  show "R i = Some r \<Longrightarrow> i \<noteq> 0 \<and> i < next_ino s" using 1 [of i r] 2 by (auto simp: sfs_sizes)
  show "R (next_ino s) = None" using 1 [of "next_ino s"] 2 by (cases "R (next_ino s)") (auto simp: sfs_sizes)
  show "next_ino s \<noteq> 0" using 2 by simp
  show "R 0 = None" using 1 [of 0] 2 by (cases "R 0") (auto simp: sfs_sizes)
qed

lemma index_at_cached:
  assumes "store_ok s R" and "c < n_cblocks s"
  shows "index_at s (cb_ino (cblocks s c)) = cache (cblocks s c)"
proof -
  have inj: "inj_on (\<lambda>c. cb_ino (cblocks s c)) {..<n_cblocks s}" using assms(1) by (simp add: store_ok_def)
  let ?P = "\<lambda>d. cb_ino (cblocks s d) = cb_ino (cblocks s c)"
  obtain d where d: "find ?P [0..<n_cblocks s] = Some d"
    using assms(2) by (cases "find ?P [0..<n_cblocks s]") (auto simp: find_None_iff)
  then have "d < n_cblocks s" "?P d" by (auto simp: find_Some_iff)
  then have "d = c" using inj assms(2) by (auto dest: inj_onD)
  then show ?thesis by (simp add: index_at_def d)
qed

lemma cached_index_at: "store_ok s R \<Longrightarrow> cached s (Some c) i \<Longrightarrow> index_at s i = cache (cblocks s c)"
  by (auto simp: cached_def index_at_cached)

text \<open>Another state with the same or more index blocks, of which only those of \<open>f\<close> may have changed.\<close>

definition store_ext :: "nat \<Rightarrow> roles \<Rightarrow> sfs_fs \<Rightarrow> sfs_fs \<Rightarrow> bool" where
  "store_ext f R s s' \<longleftrightarrow> n_cblocks s \<le> n_cblocks s' \<and> ninos s' = ninos s \<and>
     (\<forall>c<n_cblocks s. cb_ino (cblocks s' c) = cb_ino (cblocks s c) \<and>
        (cache (cblocks s' c) = cache (cblocks s c) \<or>
         (\<exists>r. R (cb_ino (cblocks s c)) = Some r \<and> role_file r = f)))"

lemma ext_cached: "store_ext f R s s' \<Longrightarrow> cached s co i \<Longrightarrow> cached s' co i"
  unfolding store_ext_def cached_def by (metis order_less_le_trans)

lemma ext_index_at:
  assumes "store_ok s R" and "store_ok s' R'" and "store_ext f R s s'" and "index_ok s R i r" and "role_file r \<noteq> f"
  shows "index_at s' i = index_at s i"
proof -
  obtain c where c: "cached s (Some c) i" and r: "R i = Some r" using assms(4) by (auto simp: index_ok_def)
  then have n: "c < n_cblocks s" and i: "cb_ino (cblocks s c) = i" by (auto simp: cached_def)
  have e: "cache (cblocks s' c) = cache (cblocks s c)"
    using assms(3,5) r n i unfolding store_ext_def by auto
  show ?thesis
    using cached_index_at [OF assms(1) c] cached_index_at [OF assms(2) ext_cached [OF assms(3) c]] e by simp
qed

lemma ext_index_ok: "store_ext f R s s' \<Longrightarrow> R \<subseteq>\<^sub>m R' \<Longrightarrow> index_ok s R i r \<Longrightarrow> index_ok s' R' i r"
  unfolding index_ok_def by (metis ext_cached map_le_Some)

text \<open>A file that is not \<open>f\<close> and whose inode stays keeps its blocks.\<close>

lemma other_blk:
  assumes "store_ok s R" and "store_ok s' R'" and "store_ext f R s s'" and "R \<subseteq>\<^sub>m R'" and "g \<noteq> f"
    and "file_ok s R g" and "cinodes s' g = cinodes s g" and "k < ci_nblks (cinodes s g)"
  shows "blk s' g k = blk s g k"
proof -
  let ?i = "cinode (cinodes s g)" and ?n = "ci_nblks (cinodes s g)"
  note ia = ext_index_at [OF assms(1-3)]
  have le: "?n \<le> SFS_LN_NBLKS" using assms(6) by (simp add: file_ok_def Let_def)
  consider "k < SFS_L0_NBLKS" | "SFS_L0_NBLKS \<le> k" "k < SFS_L1_NBLKS" | "SFS_L1_NBLKS \<le> k" by linarith
  then show ?thesis
  proof cases
    case 1
    then show ?thesis by (simp add: blk_def file_block_def assms(7))
  next
    case 2
    then have "index_ok s R (iindirect ?i) (L1_Of g)" using assms(6,8) by (simp add: file_ok_def Let_def split: if_splits)
    then have "index_at s' (iindirect ?i) = index_at s (iindirect ?i)" using ia assms(5) by simp
    then show ?thesis using 2 by (simp add: blk_def file_block_def assms(7))
  next
    case 3
    let ?j = "(k - SFS_L1_NBLKS) div SFS_BLK_NENTRY"
    have n: "\<not> ?n \<le> SFS_L1_NBLKS" using 3 assms(8) by simp
    have j: "?j \<le> (?n - 1 - SFS_L1_NBLKS) div SFS_BLK_NENTRY" using assms(8) by (intro div_le_mono) simp
    have "?j < SFS_BLK_NENTRY" using le assms(8) by (auto simp: sfs_sizes)
    then have "index_ok s R (idb_indirect ?i) (L2_Of g)" "index_ok s R (index_at s (idb_indirect ?i) ! ?j) (L3_Of g ?j)"
      using assms(6) n j by (simp_all add: file_ok_def Let_def)
    then have "index_at s' (idb_indirect ?i) = index_at s (idb_indirect ?i)"
      "index_at s' (index_at s (idb_indirect ?i) ! ?j) = index_at s (index_at s (idb_indirect ?i) ! ?j)"
      using ia assms(5) by simp_all
    then show ?thesis using 3 by (simp add: blk_def file_block_def assms(7) sfs_sizes)
  qed
qed

lemma other_file:
  assumes "store_ok s R" and "store_ok s' R'" and "store_ext f R s s'" and "R \<subseteq>\<^sub>m R'" and "g \<noteq> f"
    and "file_ok s R g" and "cinodes s' g = cinodes s g"
  shows "file_ok s' R' g" and "file_blocks s' g = file_blocks s g"
proof -
  let ?i = "cinode (cinodes s g)" and ?n = "ci_nblks (cinodes s g)"
  note ob = other_blk [OF assms]
  show "file_blocks s' g = file_blocks s g" using ob by (simp add: file_blocks_def assms(7))
  have d: "\<forall>k<?n. R' (blk s' g k) = Some (Data_Of g k)"
  proof (intro allI impI)
    fix k assume k: "k < ?n"
    then have "R (blk s g k) = Some (Data_Of g k)" using assms(6) by (simp add: file_ok_def Let_def)
    then show "R' (blk s' g k) = Some (Data_Of g k)" using ob [OF k] assms(4) by (metis map_le_Some)
  qed
  have nn: "ninos s' = ninos s" using assms(3) by (simp add: store_ext_def)
  note xc = ext_cached [OF assms(3)] and xi = ext_index_ok [OF assms(3,4)]
  show "file_ok s' R' g"
  proof (cases "?n \<le> SFS_L1_NBLKS")
    case True
    then show ?thesis using assms(6) d xc xi unfolding file_ok_def Let_def assms(7) nn by auto
  next
    case False
    then have "index_ok s R (idb_indirect ?i) (L2_Of g)" using assms(6) by (simp add: file_ok_def Let_def)
    then have "index_at s' (idb_indirect ?i) = index_at s (idb_indirect ?i)"
      using ext_index_at [OF assms(1-3)] assms(5) by simp
    then show ?thesis using False assms(6) d xc xi unfolding file_ok_def Let_def assms(7) nn by auto
  qed
qed


subsection \<open>Getting an index block\<close>

lemma hash32_0 [simp]: "hash32 0 = 0"
  by (simp add: hash32_def hash32_bits_def)

lemma first_blk_cong: "ninos s' = ninos s \<Longrightarrow> first_blk s' = first_blk s"
  by (simp add: first_blk_def)

definition new_index :: "sfs_fs \<Rightarrow> sfs_fs" where
  "new_index s = s\<lparr>sb_unused := sb_unused s - 1, next_ino := next_ino s + 1,
     cblocks := (cblocks s)(n_cblocks s := \<lparr>cb_ino = next_ino s, cache = replicate SFS_BLK_NENTRY 0\<rparr>),
     n_cblocks := n_cblocks s + 1, bhash := (bhash s)(0 := n_cblocks s # bhash s 0)\<rparr>"

lemma update_cache_new:
  "update_cache co 0 s = (if next_ino s < ninos s then Inr (n_cblocks s, next_ino s, new_index s) else Inl Panicked)"
  by (simp add: update_cache_def alloc_cache_block_def sfs_alloc_ino_def new_index_def Let_def)

lemma update_cache_hit: "i \<noteq> 0 \<Longrightarrow> cached s co i \<Longrightarrow> update_cache co i s = Inr (the co, i, s)"
  by (auto simp: update_cache_def cached_def)

lemma new_index_ok:
  assumes "store_ok s R" and "next_ino s < ninos s" and "index_role r"
  shows "store_ok (new_index s) (R(next_ino s \<mapsto> r))"
proof -
  note d = store_okD [OF assms(1)]
  have fb: "first_blk (new_index s) = first_blk s" by (rule first_blk_cong) (simp add: new_index_def)
  have root: "first_blk s \<le> next_ino s" using assms(1) by (simp add: store_ok_def)
  have fresh: "cb_ino (cblocks s c) \<noteq> next_ino s" if "c < n_cblocks s" for c
  proof -
    have "\<exists>r. R (cb_ino (cblocks s c)) = Some r" using assms(1) that unfolding store_ok_def by blast
    then show ?thesis using d(2) by auto
  qed
  have ci: "ci_ino (cinodes s f) \<noteq> next_ino s" if "f < n_cinodes s" for f
  proof -
    have "R (ci_ino (cinodes s f)) = Some (Inode_Of f)" using assms(1) that unfolding store_ok_def by blast
    then show ?thesis using d(2) by auto
  qed
  have inj: "inj_on (\<lambda>c. cb_ino (cblocks (new_index s) c)) {..<n_cblocks (new_index s)}"
  proof -
    have "inj_on (\<lambda>c. cb_ino (cblocks s c)) {..<n_cblocks s}" using assms(1) by (simp add: store_ok_def)
    moreover have "next_ino s \<noteq> cb_ino (cblocks s c)" if "c < n_cblocks s" for c using fresh [OF that] by simp
    ultimately show ?thesis using fresh by (simp add: new_index_def inj_on_def lessThan_Suc)
  qed
  have roles: "\<forall>i r'. (R(next_ino s \<mapsto> r)) i = Some r' \<longrightarrow>
      i = SFS_BLKN_ROOT \<and> r' = Inode_Of (sfs_root s) \<or> first_blk s \<le> i \<and> i < next_ino s + 1"
    using root by (auto split: if_splits dest!: store_ok_roles [OF assms(1)])
  have caches: "\<forall>c<n_cblocks (new_index s). length (cache (cblocks (new_index s) c)) = SFS_BLK_NENTRY \<and>
      (\<forall>v\<in>set (cache (cblocks (new_index s) c)). v < ninos s) \<and>
      (\<exists>r'. (R(next_ino s \<mapsto> r)) (cb_ino (cblocks (new_index s) c)) = Some r' \<and> index_role r')"
    using assms unfolding store_ok_def by (auto simp: new_index_def less_Suc_eq fresh)
  show ?thesis
    using assms(1,2) inj roles caches ci unfolding store_ok_def fb
    by (auto simp: new_index_def less_Suc_eq)
qed

text \<open>The outcome of \<open>update_cache\<close> for a slot of the role \<open>r\<close>: the cached block, or a new one.\<close>

lemma update_cache_slot:
  assumes "store_ok s R" and "index_role r"
    and "if i = 0 then True else R i = Some r \<and> cached s co i"
    and "update_cache co i s = Inr (c1, i1, s1)"
  shows "\<exists>R1. store_ok s1 R1 \<and> R \<subseteq>\<^sub>m R1 \<and> R1 i1 = Some r \<and> cached s1 (Some c1) i1 \<and> i1 \<noteq> 0 \<and>
    (if i = 0 then R i1 = None \<and> i1 = next_ino s \<and> s1 = new_index s \<and> cache (cblocks s1 c1) = replicate SFS_BLK_NENTRY 0 \<and>
       R1 = R(i1 \<mapsto> r)
     else i1 = i \<and> s1 = s \<and> R1 = R)"
proof (cases "i = 0")
  case True
  then have n: "next_ino s < ninos s" "c1 = n_cblocks s" "i1 = next_ino s" "s1 = new_index s"
    using assms(4) by (auto simp: update_cache_new split: if_splits)
  then show ?thesis
    using True new_index_ok [OF assms(1) n(1) assms(2)] store_okD(2,3) [OF assms(1)]
    by (intro exI [of _ "R(next_ino s \<mapsto> r)"]) (simp add: cached_def new_index_def map_le_def dom_def)
next
  case False
  then show ?thesis using assms update_cache_hit [OF False] by (intro exI [of _ R]) (auto simp: cached_def)
qed

lemma new_index_simps [simp]:
  "cinodes (new_index s) = cinodes s" "n_cinodes (new_index s) = n_cinodes s" "ninos (new_index s) = ninos s"
  "img (new_index s) = img s" "ihash (new_index s) = ihash s" "sfs_root (new_index s) = sfs_root s"
  "entry_name (new_index s) = entry_name s" "subpaths (new_index s) = subpaths s" "sb_blocks (new_index s) = sb_blocks s"
  "next_ino (new_index s) = next_ino s + 1" "n_cblocks (new_index s) = n_cblocks s + 1"
  "c \<noteq> n_cblocks s \<Longrightarrow> cblocks (new_index s) c = cblocks s c"
  by (simp_all add: new_index_def)

lemma new_index_ext: "store_ext f R s (new_index s)"
  by (simp add: store_ext_def)

subsection \<open>Storing into an index block\<close>

lemma put_cache_simps [simp]:
  "cinodes (put_cache c k v s) = cinodes s" "n_cinodes (put_cache c k v s) = n_cinodes s" "ninos (put_cache c k v s) = ninos s"
  "img (put_cache c k v s) = img s" "ihash (put_cache c k v s) = ihash s" "bhash (put_cache c k v s) = bhash s"
  "sfs_root (put_cache c k v s) = sfs_root s" "next_ino (put_cache c k v s) = next_ino s"
  "sb_blocks (put_cache c k v s) = sb_blocks s" "sb_unused (put_cache c k v s) = sb_unused s"
  "entry_name (put_cache c k v s) = entry_name s" "subpaths (put_cache c k v s) = subpaths s"
  "n_cblocks (put_cache c k v s) = n_cblocks s"
  "cb_ino (cblocks (put_cache c k v s) d) = cb_ino (cblocks s d)"
  "cache (cblocks (put_cache c k v s) d) = (if d = c then (cache (cblocks s c))[k := v] else cache (cblocks s d))"
  by (simp_all add: put_cache_def)

lemma on_ci_simps [simp]:
  "cinodes (on_ci f u s) = (cinodes s)(f := u (cinodes s f))" "n_cinodes (on_ci f u s) = n_cinodes s" "ninos (on_ci f u s) = ninos s"
  "img (on_ci f u s) = img s" "ihash (on_ci f u s) = ihash s" "bhash (on_ci f u s) = bhash s"
  "sfs_root (on_ci f u s) = sfs_root s" "next_ino (on_ci f u s) = next_ino s"
  "sb_blocks (on_ci f u s) = sb_blocks s" "sb_unused (on_ci f u s) = sb_unused s"
  "entry_name (on_ci f u s) = entry_name s" "subpaths (on_ci f u s) = subpaths s"
  "n_cblocks (on_ci f u s) = n_cblocks s" "cblocks (on_ci f u s) = cblocks s"
  by (simp_all add: on_ci_def)

lemma put_cache_cached [simp]: "cached (put_cache c k v s) co i = cached s co i"
  by (simp add: cached_def)

lemma put_cache_ok:
  assumes "store_ok s R" and "v < ninos s"
  shows "store_ok (put_cache c k v s) R"
proof -
  have "set ((cache (cblocks s c))[k := v]) \<subseteq> insert v (set (cache (cblocks s c)))" by (rule set_update_subset_insert)
  then have "\<forall>d<n_cblocks s. \<forall>x\<in>set (cache (cblocks (put_cache c k v s) d)). x < ninos s"
    using assms unfolding store_ok_def by auto
  moreover have "first_blk (put_cache c k v s) = first_blk s" by (rule first_blk_cong) simp
  ultimately show ?thesis using assms(1) unfolding store_ok_def by simp
qed

lemma put_cache_index_at:
  assumes "store_ok s R" and "v < ninos s" and "cached s (Some c) i" and "\<exists>d. cached s (Some d) j"
  shows "index_at (put_cache c k v s) j = (if j = i then (index_at s i)[k := v] else index_at s j)"
proof -
  obtain d where d: "cached s (Some d) j" using assms(4) by blast
  have "index_at (put_cache c k v s) j = cache (cblocks (put_cache c k v s) d)"
    using cached_index_at [OF put_cache_ok [OF assms(1,2)]] d by simp
  moreover have "d = c \<longleftrightarrow> j = i"
    using assms(1,3) d unfolding store_ok_def cached_def by (auto dest: inj_onD)
  ultimately show ?thesis using cached_index_at [OF assms(1) assms(3)] cached_index_at [OF assms(1) d] by auto
qed

text \<open>Changing the cached inode of one file.\<close>

lemma on_ci_ok:
  assumes "store_ok s R" and "\<And>c. ci_ino (u c) = ci_ino c" and "\<And>c. ci_real (u c) = ci_real c"
  shows "store_ok (on_ci f u s) R"
proof -
  have "first_blk (on_ci f u s) = first_blk s" by (rule first_blk_cong) simp
  moreover have "ci_ino (((cinodes s)(f := u (cinodes s f))) g) = ci_ino (cinodes s g)"
    "ci_real (((cinodes s)(f := u (cinodes s f))) g) = ci_real (cinodes s g)" for g by (simp_all add: assms(2,3))
  ultimately show ?thesis using assms(1) unfolding store_ok_def by (simp del: fun_upd_apply)
qed

lemma on_ci_index_at [simp]: "index_at (on_ci f u s) i = index_at s i" "cached (on_ci f u s) co i = cached s co i"
  by (simp_all add: index_at_def cached_def cong: option.case_cong)


subsection \<open>Steps of one file\<close>

text \<open>A step that changes the file \<open>f\<close> and its index blocks only.\<close>

definition same_rest :: "sfs_fs \<Rightarrow> sfs_fs \<Rightarrow> bool" where
  "same_rest s s' \<longleftrightarrow> img s' = img s \<and> entry_name s' = entry_name s \<and> subpaths s' = subpaths s \<and>
     sfs_root s' = sfs_root s \<and> ihash s' = ihash s \<and> n_cinodes s' = n_cinodes s \<and> sb_blocks s' = sb_blocks s \<and>
     ninos s' = ninos s \<and> next_ino s \<le> next_ino s'"

definition same_head :: "cache_inode \<Rightarrow> cache_inode \<Rightarrow> bool" where
  "same_head c c' \<longleftrightarrow> ci_ino c' = ci_ino c \<and> ci_real c' = ci_real c \<and> itype (cinode c') = itype (cinode c)"

definition fstep :: "nat \<Rightarrow> roles \<Rightarrow> sfs_fs \<Rightarrow> roles \<Rightarrow> sfs_fs \<Rightarrow> bool" where
  "fstep f R s R' s' \<longleftrightarrow> store_ok s' R' \<and> R \<subseteq>\<^sub>m R' \<and> store_ext f R s s' \<and> same_rest s s' \<and>
     (\<forall>g. g \<noteq> f \<longrightarrow> cinodes s' g = cinodes s g) \<and> same_head (cinodes s f) (cinodes s' f)"

lemma fstep_trans:
  assumes "store_ok s R" and "fstep f R s R1 s1" and "fstep f R1 s1 R2 s2"
  shows "fstep f R s R2 s2"
proof -
  have e: "store_ext f R s s1" "store_ext f R1 s1 s2" "R \<subseteq>\<^sub>m R1" using assms(2,3) by (simp_all add: fstep_def)
  have "cache (cblocks s2 c) = cache (cblocks s c) \<or> (\<exists>r. R (cb_ino (cblocks s c)) = Some r \<and> role_file r = f)"
    if c: "c < n_cblocks s" for c
  proof -
    obtain r where r: "R (cb_ino (cblocks s c)) = Some r" using assms(1) c unfolding store_ok_def by blast
    then have "R1 (cb_ino (cblocks s c)) = Some r" using e(3) by (rule map_le_Some [rotated])
    moreover have "cb_ino (cblocks s1 c) = cb_ino (cblocks s c)" "c < n_cblocks s1" using e(1) c by (auto simp: store_ext_def)
    ultimately show ?thesis using e(1,2) c r unfolding store_ext_def by (metis option.inject)
  qed
  moreover have "cb_ino (cblocks s2 c) = cb_ino (cblocks s c)" if "c < n_cblocks s" for c
    using e that unfolding store_ext_def by (metis order_less_le_trans)
  ultimately have "store_ext f R s s2" using e unfolding store_ext_def by auto
  then show ?thesis
    using assms(2,3) unfolding fstep_def same_rest_def same_head_def by (auto intro: map_le_trans)
qed

lemma fstep_role:
  assumes "store_ok s R" and "R i = None" and "first_blk s \<le> i" and "i < next_ino s"
  shows "fstep f R s (R(i \<mapsto> r)) s"
proof -
  have n: "ci_ino (cinodes s g) \<noteq> i" if "g < n_cinodes s" for g using assms(1,2) that unfolding store_ok_def by auto
  have c: "\<exists>r'. (R(i \<mapsto> r)) (cb_ino (cblocks s c)) = Some r' \<and> index_role r'" if "c < n_cblocks s" for c
  proof -
    obtain r' where "R (cb_ino (cblocks s c)) = Some r'" "index_role r'" using assms(1) \<open>c < n_cblocks s\<close> unfolding store_ok_def by blast
    then show ?thesis using assms(2) by auto
  qed
  have "\<forall>j r'. (R(i \<mapsto> r)) j = Some r' \<longrightarrow> j = SFS_BLKN_ROOT \<and> r' = Inode_Of (sfs_root s) \<or> first_blk s \<le> j \<and> j < next_ino s"
    using assms(3,4) by (auto split: if_splits dest!: store_ok_roles [OF assms(1)])
  then have "store_ok s (R(i \<mapsto> r))"
    using assms(1) n c unfolding store_ok_def by (simp add: del: fun_upd_apply) (auto split: if_splits)
  then show ?thesis
    using assms(2) by (auto simp: fstep_def store_ext_def same_rest_def same_head_def map_le_def dom_def)
qed

lemma fstep_on_ci:
  assumes "store_ok s R" and "\<And>c. same_head c (u c)"
  shows "fstep f R s R (on_ci f u s)"
  using on_ci_ok [OF assms(1)] assms(2) by (auto simp: fstep_def store_ext_def same_rest_def same_head_def)

lemma fstep_put_cache:
  assumes "store_ok s R" and "v < ninos s" and "cached s (Some c) i" and "R i = Some r" and "role_file r = f"
  shows "fstep f R s R (put_cache c k v s)"
  using put_cache_ok [OF assms(1,2)] assms(3-5)
  by (auto simp: fstep_def store_ext_def same_rest_def same_head_def cached_def)

lemma fstep_new_index:
  assumes "store_ok s R" and "next_ino s < ninos s" and "index_role r" and "role_file r = f"
  shows "fstep f R s (R(next_ino s \<mapsto> r)) (new_index s)"
  using new_index_ok [OF assms(1-3)] store_okD(2) [OF assms(1)] new_index_ext [of f R s]
  by (auto simp: fstep_def same_rest_def same_head_def map_le_def dom_def)

lemma fstep_slot:
  assumes "store_ok s R" and "index_role r" and "role_file r = f"
    and "if i = 0 then True else R i = Some r \<and> cached s co i"
    and "update_cache co i s = Inr (c1, i1, s1)"
  shows "\<exists>R1. fstep f R s R1 s1 \<and> index_ok s1 R1 i1 r \<and> cached s1 (Some c1) i1 \<and> i1 < ninos s1 \<and> cinodes s1 = cinodes s \<and>
    index_at s1 i1 = (if i = 0 then replicate SFS_BLK_NENTRY 0 else index_at s i) \<and>
    (\<forall>j<next_ino s. R1 j = R j) \<and> (i \<noteq> 0 \<longrightarrow> i1 = i \<and> s1 = s \<and> R1 = R) \<and>
    (\<forall>j. (\<exists>d. cached s (Some d) j) \<longrightarrow> index_at s1 j = index_at s j)"
proof -
  obtain R1 where R1: "store_ok s1 R1" "R \<subseteq>\<^sub>m R1" "R1 i1 = Some r" "cached s1 (Some c1) i1" "i1 \<noteq> 0"
    "if i = 0 then R i1 = None \<and> i1 = next_ino s \<and> s1 = new_index s \<and> cache (cblocks s1 c1) = replicate SFS_BLK_NENTRY 0 \<and> R1 = R(i1 \<mapsto> r)
     else i1 = i \<and> s1 = s \<and> R1 = R"
    using update_cache_slot [OF assms(1,2,4,5)] by blast
  have ia: "index_at s1 i1 = cache (cblocks s1 c1)" by (rule cached_index_at [OF R1(1,4)])
  have lt: "i1 < ninos s1" using store_okD(1) [OF R1(1,3)] R1(1) unfolding store_ok_def by linarith
  show ?thesis
  proof (cases "i = 0")
    case True
    then have n: "next_ino s < ninos s" using assms(5) by (simp add: update_cache_new split: if_splits)
    have keep: "index_at (new_index s) j = index_at s j" if j: "cached s (Some d) j" for d j
    proof -
      have d: "cached (new_index s) (Some d) j" "d \<noteq> n_cblocks s" using j by (auto simp: cached_def)
      then show ?thesis using cached_index_at [OF assms(1) j] R1(1,6) True
        by (metis cached_index_at new_index_simps(12))
    qed
    show ?thesis
      using True R1 ia lt keep fstep_new_index [OF assms(1) n assms(2,3)]
      by (intro exI [of _ R1]) (auto simp: index_ok_def)
  next
    case False
    then have "fstep f R s R s" using assms(1) by (auto simp: fstep_def store_ext_def same_rest_def same_head_def)
    then show ?thesis using False R1 lt by (intro exI [of _ R1]) (auto simp: index_ok_def)
  qed
qed


subsection \<open>Appending a block\<close>

lemma on_inode_on_ci: "on_inode f u s = on_ci f (\<lambda>c. c\<lparr>cinode := u (cinode c)\<rparr>) s"
  by (simp add: on_inode_def)

lemma put_direct_ok:
  assumes "store_ok s R"
  shows "fstep f R s R (put_direct f k ino s)"
    and "cinodes (put_direct f k ino s) f =
      (cinodes s f)\<lparr>cinode := (cinode (cinodes s f))\<lparr>idirect := (idirect (cinode (cinodes s f)))[k := ino]\<rparr>\<rparr>"
    and "index_at (put_direct f k ino s) i = index_at s i"
  unfolding put_direct_def on_inode_on_ci
  by (rule fstep_on_ci [OF assms]) (simp_all add: same_head_def)

lemma put_indirect_ok:
  assumes "store_ok s R" and "v < ninos s"
    and "iindirect (cinode (cinodes s f)) = i"
    and "i \<noteq> 0 \<longrightarrow> R i = Some (L1_Of f) \<and> cached s (ci_l1 (cinodes s f)) i"
    and "put_indirect f k v s = Inr s1"
  shows "\<exists>R1 i1 c1. fstep f R s R1 s1 \<and> index_ok s1 R1 i1 (L1_Of f) \<and> cached s1 (Some c1) i1 \<and> i1 < ninos s1 \<and>
    cinodes s1 f = (cinodes s f)\<lparr>ci_l1 := Some c1, cinode := (cinode (cinodes s f))\<lparr>iindirect := i1\<rparr>\<rparr> \<and>
    index_at s1 i1 = (if i = 0 then replicate SFS_BLK_NENTRY 0 else index_at s i)[k := v] \<and> (i \<noteq> 0 \<longrightarrow> i1 = i) \<and>
    (\<forall>j<next_ino s. R1 j = R j)"
proof -
  obtain c1 i1 s0 where u: "update_cache (ci_l1 (cinodes s f)) i s = Inr (c1, i1, s0)"
    "s1 = put_cache c1 k v (on_inode f (\<lambda>x. x\<lparr>iindirect := i1\<rparr>) (on_ci f (\<lambda>x. x\<lparr>ci_l1 := Some c1\<rparr>) s0))"
    using assms(3,5) by (auto simp: put_indirect_def kbind_eq_Inr_iff)
  have slot: "if i = 0 then True else R i = Some (L1_Of f) \<and> cached s (ci_l1 (cinodes s f)) i" using assms(4) by simp
  obtain R1 where R1: "fstep f R s R1 s0" "index_ok s0 R1 i1 (L1_Of f)" "cached s0 (Some c1) i1" "i1 < ninos s0" "cinodes s0 = cinodes s"
    "index_at s0 i1 = (if i = 0 then replicate SFS_BLK_NENTRY 0 else index_at s i)" "\<forall>j<next_ino s. R1 j = R j"
    "i \<noteq> 0 \<longrightarrow> i1 = i"
    using fstep_slot [OF assms(1) _ _ slot u(1), of f] by auto
  let ?sa = "on_ci f (\<lambda>x. x\<lparr>ci_l1 := Some c1\<rparr>) s0"
  let ?sb = "on_ci f (\<lambda>c. c\<lparr>cinode := (cinode c)\<lparr>iindirect := i1\<rparr>\<rparr>) ?sa"
  have ok: "store_ok s0 R1" using R1(1) by (simp add: fstep_def)
  have a: "fstep f R1 s0 R1 ?sa" by (rule fstep_on_ci [OF ok]) (simp add: same_head_def)
  then have oka: "store_ok ?sa R1" by (simp add: fstep_def)
  have b: "fstep f R1 ?sa R1 ?sb" by (rule fstep_on_ci [OF oka]) (simp add: same_head_def)
  then have okb: "store_ok ?sb R1" by (simp add: fstep_def)
  have v: "v < ninos ?sb" using assms(2) R1(1) by (simp add: fstep_def same_rest_def)
  have cb: "cached ?sb (Some c1) i1" using R1(3) by simp
  have ri: "R1 i1 = Some (L1_Of f)" using R1(2) by (simp add: index_ok_def)
  have p: "fstep f R1 ?sb R1 (put_cache c1 k v ?sb)" by (rule fstep_put_cache [OF okb v cb ri]) simp
  have s1: "s1 = put_cache c1 k v ?sb" by (simp add: u(2) on_inode_on_ci)
  have st: "fstep f R s R1 s1"
    unfolding s1 by (rule fstep_trans [OF assms(1) R1(1) fstep_trans [OF ok a fstep_trans [OF oka b p]]])
  have ix: "index_at s1 i1 = (index_at s0 i1)[k := v]"
    unfolding s1 by (subst put_cache_index_at [OF okb v cb]) (use cb in auto)
  have "cinodes s1 f = (cinodes s f)\<lparr>ci_l1 := Some c1, cinode := (cinode (cinodes s f))\<lparr>iindirect := i1\<rparr>\<rparr>"
    by (simp add: s1 R1(5))
  moreover have "cached s1 (Some c1) i1" "index_ok s1 R1 i1 (L1_Of f)" "i1 < ninos s1"
    using cb R1(4) by (auto simp: s1 index_ok_def ri)
  ultimately show ?thesis using st ix R1(6-8) by (intro exI [of _ R1] exI [of _ i1] exI [of _ c1]) simp
qed

lemma put_db_indirect_ok:
  assumes "store_ok s R" and "v < ninos s" and "j = k div SFS_BLK_NENTRY" and "j < SFS_BLK_NENTRY"
    and "idb_indirect (cinode (cinodes s f)) = i"
    and "i \<noteq> 0 \<longrightarrow> R i = Some (L2_Of f) \<and> cached s (ci_l2 (cinodes s f)) i \<and>
      (index_at s i ! j \<noteq> 0 \<longrightarrow> R (index_at s i ! j) = Some (L3_Of f j) \<and> cached s (ci_l1 (cinodes s f)) (index_at s i ! j))"
    and "put_db_indirect f k v s = Inr s1"
  shows "\<exists>R1 i2 i1 c1 c2. fstep f R s R1 s1 \<and> index_ok s1 R1 i2 (L2_Of f) \<and> cached s1 (Some c2) i2 \<and> i2 < ninos s1 \<and>
    index_ok s1 R1 i1 (L3_Of f j) \<and> cached s1 (Some c1) i1 \<and>
    cinodes s1 f = (cinodes s f)\<lparr>ci_l1 := Some c1, ci_l2 := Some c2, cinode := (cinode (cinodes s f))\<lparr>idb_indirect := i2\<rparr>\<rparr> \<and>
    (let old = (if i = 0 then replicate SFS_BLK_NENTRY 0 else index_at s i) in
     index_at s1 i2 = old[j := i1] \<and>
     index_at s1 i1 = (if old ! j = 0 then replicate SFS_BLK_NENTRY 0 else index_at s (old ! j))[k mod SFS_BLK_NENTRY := v] \<and>
     (old ! j \<noteq> 0 \<longrightarrow> i1 = old ! j)) \<and>
    (i \<noteq> 0 \<longrightarrow> i2 = i) \<and> (\<forall>x<next_ino s. R1 x = R x) \<and>
    (\<forall>x r. R x = Some r \<and> r \<noteq> L2_Of f \<and> r \<noteq> L3_Of f j \<and> (\<exists>d. cached s (Some d) x) \<longrightarrow> index_at s1 x = index_at s x)"
proof -
  obtain c2 i2 sa where u2: "update_cache (ci_l2 (cinodes s f)) i s = Inr (c2, i2, sa)"
    using assms(5,7) by (auto simp: put_db_indirect_def kbind_eq_Inr_iff)
  let ?sb = "on_ci f (\<lambda>x. x\<lparr>ci_l2 := Some c2\<rparr>) sa"
  let ?sc = "on_ci f (\<lambda>c. c\<lparr>cinode := (cinode c)\<lparr>idb_indirect := i2\<rparr>\<rparr>) ?sb"
  let ?old = "if i = 0 then replicate SFS_BLK_NENTRY 0 else index_at s i"
  have slot2: "if i = 0 then True else R i = Some (L2_Of f) \<and> cached s (ci_l2 (cinodes s f)) i" using assms(6) by simp
  obtain Ra where Ra: "fstep f R s Ra sa" "index_ok sa Ra i2 (L2_Of f)" "cached sa (Some c2) i2" "i2 < ninos sa" "cinodes sa = cinodes s"
    "index_at sa i2 = ?old" "\<forall>x<next_ino s. Ra x = R x" "i \<noteq> 0 \<longrightarrow> i2 = i \<and> sa = s \<and> Ra = R"
    "\<forall>x. (\<exists>d. cached s (Some d) x) \<longrightarrow> index_at sa x = index_at s x"
    using fstep_slot [OF assms(1) _ _ slot2 u2, of f] by auto
  have oka: "store_ok sa Ra" using Ra(1) by (simp add: fstep_def)
  have b: "fstep f Ra sa Ra ?sb" by (rule fstep_on_ci [OF oka]) (simp add: same_head_def)
  then have okb: "store_ok ?sb Ra" by (simp add: fstep_def)
  have c: "fstep f Ra ?sb Ra ?sc" by (rule fstep_on_ci [OF okb]) (simp add: same_head_def)
  then have okc: "store_ok ?sc Ra" by (simp add: fstep_def)
  have sc: "fstep f R s Ra ?sc" by (rule fstep_trans [OF assms(1) Ra(1) fstep_trans [OF oka b c]])
  have cache2: "cache (cblocks ?sc c2) = ?old" using cached_index_at [OF oka Ra(3)] Ra(6) by simp
  have l1: "ci_l1 (cinodes ?sc f) = ci_l1 (cinodes s f)" by (simp add: Ra(5))
  obtain c1 i1 sd where u1: "update_cache (ci_l1 (cinodes s f)) (?old ! j) ?sc = Inr (c1, i1, sd)"
    "s1 = put_cache c1 (k mod SFS_BLK_NENTRY) v (put_cache c2 j i1 (on_ci f (\<lambda>x. x\<lparr>ci_l1 := Some c1\<rparr>) sd))"
    using assms(5,7) unfolding put_db_indirect_def on_inode_on_ci assms(3) [symmetric] Let_def
    by (auto simp: kbind_eq_Inr_iff u2 cache2 [simplified] l1 [simplified] Ra(5))
  have slot: "if ?old ! j = 0 then True else Ra (?old ! j) = Some (L3_Of f j) \<and> cached ?sc (ci_l1 (cinodes s f)) (?old ! j)"
    using assms(4,6) Ra(8) by (cases "i = 0") (auto simp: sfs_sizes)
  obtain Rd where Rd: "fstep f Ra ?sc Rd sd" "index_ok sd Rd i1 (L3_Of f j)" "cached sd (Some c1) i1" "i1 < ninos sd" "cinodes sd = cinodes ?sc"
    "index_at sd i1 = (if ?old ! j = 0 then replicate SFS_BLK_NENTRY 0 else index_at ?sc (?old ! j))"
    "\<forall>x<next_ino ?sc. Rd x = Ra x" "?old ! j \<noteq> 0 \<longrightarrow> i1 = ?old ! j"
    "\<forall>x. (\<exists>d. cached ?sc (Some d) x) \<longrightarrow> index_at sd x = index_at ?sc x"
    using fstep_slot [OF okc _ _ slot u1(1), of f] by auto
  have okd: "store_ok sd Rd" using Rd(1) by (simp add: fstep_def)
  let ?se = "on_ci f (\<lambda>x. x\<lparr>ci_l1 := Some c1\<rparr>) sd"
  have e: "fstep f Rd sd Rd ?se" by (rule fstep_on_ci [OF okd]) (simp add: same_head_def)
  then have oke: "store_ok ?se Rd" by (simp add: fstep_def)
  have r2: "Rd i2 = Some (L2_Of f)" using Ra(2) Rd(1) by (auto simp: fstep_def index_ok_def intro: map_le_Some)
  have r1: "Rd i1 = Some (L3_Of f j)" using Rd(2) by (simp add: index_ok_def)
  have ne: "i1 \<noteq> i2" using r1 r2 by auto
  have cc2: "cached ?sc (Some c2) i2" using Ra(3) by simp
  have c2: "cached ?se (Some c2) i2" using cc2 Rd(1) by (auto simp: fstep_def dest: ext_cached)
  have c1: "cached ?se (Some c1) i1" using Rd(3) by simp
  have i1n: "i1 < ninos ?se" using Rd(4) by simp
  let ?sf = "put_cache c2 j i1 ?se"
  have p: "fstep f Rd ?se Rd ?sf" by (rule fstep_put_cache [OF oke i1n c2 r2]) simp
  then have okf: "store_ok ?sf Rd" by (simp add: fstep_def)
  have vf: "v < ninos ?sf" using assms(2) sc Rd(1) by (simp add: fstep_def same_rest_def)
  have c1f: "cached ?sf (Some c1) i1" using c1 by simp
  have q: "fstep f Rd ?sf Rd s1" unfolding u1(2) by (rule fstep_put_cache [OF okf vf c1f r1]) simp
  have st: "fstep f R s Rd s1"
    by (rule fstep_trans [OF assms(1) sc fstep_trans [OF okc Rd(1) fstep_trans [OF okd e fstep_trans [OF oke p q]]]])
  have exf: "\<exists>d. cached ?se (Some d) x \<Longrightarrow> index_at ?sf x = (if x = i2 then (index_at ?se i2)[j := i1] else index_at ?se x)" for x
    by (rule put_cache_index_at [OF oke i1n c2])
  have exs: "\<exists>d. cached ?sf (Some d) x \<Longrightarrow>
      index_at s1 x = (if x = i1 then (index_at ?sf i1)[k mod SFS_BLK_NENTRY := v] else index_at ?sf x)" for x
    unfolding u1(2) by (rule put_cache_index_at [OF okf vf c1f])
  have 2: "index_at s1 i2 = ?old[j := i1]"
  proof -
    have "index_at s1 i2 = (index_at ?se i2)[j := i1]" using exs [of i2] exf [of i2] c2 ne by auto
    moreover have "index_at sd i2 = index_at ?sc i2" using Rd(9) cc2 by blast
    ultimately show ?thesis using Ra(6) by simp
  qed
  have 1: "index_at s1 i1 = (if ?old ! j = 0 then replicate SFS_BLK_NENTRY 0 else index_at s (?old ! j))[k mod SFS_BLK_NENTRY := v]"
  proof -
    have "index_at s1 i1 = (index_at sd i1)[k mod SFS_BLK_NENTRY := v]" using exs [of i1] exf [of i1] c1 c1f ne by auto
    moreover have "index_at ?sc x = index_at s x" if "i \<noteq> 0" for x using Ra(8) that by simp
    moreover have "?old ! j \<noteq> 0 \<Longrightarrow> i \<noteq> 0" using assms(4) by (cases "i = 0") simp_all
    ultimately show ?thesis using Rd(6) by auto
  qed
  have other: "index_at s1 x = index_at s x"
    if x: "R x = Some r" "r \<noteq> L2_Of f" "r \<noteq> L3_Of f j" "cached s (Some d) x" for x r d
  proof -
    have rx: "Rd x = Some r" using x(1) sc Rd(1) by (auto simp: fstep_def intro: map_le_Some)
    then have "x \<noteq> i1" "x \<noteq> i2" using r1 r2 x(2,3) by auto
    have "cached ?sc (Some d) x" using x(4) sc by (auto simp: fstep_def dest: ext_cached)
    then have sdx: "index_at sd x = index_at ?sc x" and "cached sd (Some d) x"
      using Rd(1,9) by (auto simp: fstep_def dest: ext_cached)
    then have "\<exists>d. cached ?se (Some d) x" "\<exists>d. cached ?sf (Some d) x" by auto
    from exs [OF this(2)] exf [OF this(1)] sdx \<open>x \<noteq> i1\<close> \<open>x \<noteq> i2\<close> have "index_at s1 x = index_at ?sc x" by simp
    then show ?thesis using Ra(9) x(4) by auto
  qed
  have head: "cinodes s1 f = (cinodes s f)\<lparr>ci_l1 := Some c1, ci_l2 := Some c2, cinode := (cinode (cinodes s f))\<lparr>idb_indirect := i2\<rparr>\<rparr>"
    by (simp add: u1(2) Rd(5) Ra(5))
  have lo: "\<forall>x<next_ino s. Rd x = R x" using Ra(7) Rd(7) sc by (auto simp: fstep_def same_rest_def)
  have fin: "index_ok s1 Rd i2 (L2_Of f)" "cached s1 (Some c2) i2" "index_ok s1 Rd i1 (L3_Of f j)" "cached s1 (Some c1) i1" "i2 < ninos s1"
    using c1 c2 r1 r2 Ra(4) Rd(1) by (auto simp: u1(2) index_ok_def fstep_def same_rest_def)
  have keep: "?old ! j \<noteq> 0 \<longrightarrow> i1 = ?old ! j" and i2: "i \<noteq> 0 \<longrightarrow> i2 = i" using Rd(8) Ra(8) by simp_all
  show ?thesis
    unfolding Let_def
    using st fin head 2 1 keep i2 lo other
    by (intro exI [of _ Rd] exI [of _ i2] exI [of _ i1] exI [of _ c1] exI [of _ c2] conjI) blast+
qed


text \<open>The file after its block number has been stored, before its count goes up.\<close>

definition stored :: "nat \<Rightarrow> roles \<Rightarrow> sfs_fs \<Rightarrow> nat \<Rightarrow> roles \<Rightarrow> sfs_fs \<Rightarrow> bool" where
  "stored f R s ino R1 s1 \<longleftrightarrow>
     (let n = ci_nblks (cinodes s f); c = cinodes s1 f; i = cinode c in
      fstep f R s R1 s1 \<and> (\<forall>x<next_ino s. R1 x = R x) \<and> ci_nblks c = n \<and>
      isize i = isize (cinode (cinodes s f)) \<and> inlinks i = inlinks (cinode (cinodes s f)) \<and> iblocks i = iblocks (cinode (cinodes s f)) \<and>
      (\<forall>k<n. blk s1 f k = blk s f k) \<and> blk s1 f n = ino \<and>
      length (idirect i) = SFS_NDIRECT \<and> (\<forall>v\<in>set (idirect i). v < ninos s) \<and>
      (if n < SFS_L0_NBLKS then iindirect i = 0
       else index_ok s1 R1 (iindirect i) (L1_Of f) \<and> (n < SFS_L1_NBLKS \<longrightarrow> cached s1 (ci_l1 c) (iindirect i))) \<and>
      (if n < SFS_L1_NBLKS then idb_indirect i = 0
       else index_ok s1 R1 (idb_indirect i) (L2_Of f) \<and> cached s1 (ci_l2 c) (idb_indirect i) \<and>
         cached s1 (ci_l1 c) (index_at s1 (idb_indirect i) ! ((n - SFS_L1_NBLKS) div SFS_BLK_NENTRY)) \<and>
         (\<forall>j<SFS_BLK_NENTRY. if j \<le> (n - SFS_L1_NBLKS) div SFS_BLK_NENTRY
            then index_ok s1 R1 (index_at s1 (idb_indirect i) ! j) (L3_Of f j)
            else index_at s1 (idb_indirect i) ! j = 0)))"

lemma set_update_bound: "\<forall>v\<in>set xs. v < b \<Longrightarrow> (y::nat) < b \<Longrightarrow> \<forall>v\<in>set (xs[k := y]). v < b"
  using set_update_subset_insert [of xs k y] by auto

lemma stored_direct:
  assumes "store_ok s R" and "file_ok s R f" and "ci_nblks (cinodes s f) < SFS_L0_NBLKS" and "ino < ninos s"
  shows "stored f R s ino R (put_direct f (ci_nblks (cinodes s f)) ino s)"
proof -
  let ?n = "ci_nblks (cinodes s f)" and ?s1 = "put_direct f (ci_nblks (cinodes s f)) ino s"
  note pd = put_direct_ok [OF assms(1), of f ?n ino]
  have ok: "length (idirect (cinode (cinodes s f))) = SFS_NDIRECT" "\<forall>v\<in>set (idirect (cinode (cinodes s f))). v < ninos s"
    "iindirect (cinode (cinodes s f)) = 0" "idb_indirect (cinode (cinodes s f)) = 0"
    using assms(2,3) by (simp_all add: file_ok_def Let_def sfs_sizes)
  have "blk ?s1 f k = blk s f k" if "k < ?n" for k
    using that assms(3) by (simp add: blk_def file_block_def pd(2))
  moreover have "blk ?s1 f ?n = ino" using assms(3) ok(1) by (simp add: blk_def file_block_def pd(2) sfs_sizes)
  ultimately show ?thesis
    using pd(1) ok set_update_bound [OF ok(2) assms(4)] assms(3) unfolding stored_def Let_def by (simp add: pd(2) sfs_sizes)
qed

lemma file_okD:
  assumes "file_ok s R f" and "n = ci_nblks (cinodes s f)" and "i = cinode (cinodes s f)"
  shows "n \<le> SFS_LN_NBLKS" and "length (idirect i) = SFS_NDIRECT" and "\<forall>v\<in>set (idirect i). v < ninos s"
    and "n \<le> SFS_L0_NBLKS \<Longrightarrow> iindirect i = 0" and "n \<le> SFS_L1_NBLKS \<Longrightarrow> idb_indirect i = 0"
    and "SFS_L0_NBLKS < n \<Longrightarrow> index_ok s R (iindirect i) (L1_Of f)"
    and "SFS_L0_NBLKS < n \<Longrightarrow> n \<le> SFS_L1_NBLKS \<Longrightarrow> cached s (ci_l1 (cinodes s f)) (iindirect i)"
    and "SFS_L1_NBLKS < n \<Longrightarrow> index_ok s R (idb_indirect i) (L2_Of f) \<and> cached s (ci_l2 (cinodes s f)) (idb_indirect i) \<and>
      cached s (ci_l1 (cinodes s f)) (index_at s (idb_indirect i) ! ((n - 1 - SFS_L1_NBLKS) div SFS_BLK_NENTRY))"
    and "SFS_L1_NBLKS < n \<Longrightarrow> j < SFS_BLK_NENTRY \<Longrightarrow>
      if j \<le> (n - 1 - SFS_L1_NBLKS) div SFS_BLK_NENTRY then index_ok s R (index_at s (idb_indirect i) ! j) (L3_Of f j)
      else index_at s (idb_indirect i) ! j = 0"
    and "k < n \<Longrightarrow> R (blk s f k) = Some (Data_Of f k)"
  using assms by (auto simp: file_ok_def Let_def sfs_sizes)

lemma index_okD:
  assumes "store_ok s R" and "index_ok s R i r"
  shows "i \<noteq> 0" and "R i = Some r" and "i < next_ino s" and "length (index_at s i) = SFS_BLK_NENTRY"
    and "\<exists>d. cached s (Some d) i"
proof -
  obtain d where d: "cached s (Some d) i" and r: "R i = Some r" using assms(2) by (auto simp: index_ok_def)
  show "i \<noteq> 0" "R i = Some r" "i < next_ino s" using store_okD(1) [OF assms(1) r] r by simp_all
  have "length (cache (cblocks s d)) = SFS_BLK_NENTRY" using assms(1) d unfolding store_ok_def by (auto simp: cached_def)
  then show "length (index_at s i) = SFS_BLK_NENTRY" using cached_index_at [OF assms(1) d] by simp
  show "\<exists>d. cached s (Some d) i" using d by blast
qed

lemma stored_indirect:
  assumes "store_ok s R" and "file_ok s R f" and "n = ci_nblks (cinodes s f)" and "SFS_L0_NBLKS \<le> n" and "n < SFS_L1_NBLKS"
    and "ino < ninos s" and "put_indirect f (n - SFS_L0_NBLKS) ino s = Inr s1"
  shows "\<exists>R1. stored f R s ino R1 s1"
proof -
  let ?i = "cinode (cinodes s f)"
  note fo = file_okD [OF assms(2,3) refl]
  have pre: "iindirect ?i \<noteq> 0 \<longrightarrow> R (iindirect ?i) = Some (L1_Of f) \<and> cached s (ci_l1 (cinodes s f)) (iindirect ?i)"
    using fo(4) fo(6,7) index_okD(2) [OF assms(1)] assms(5) by (metis le_cases less_imp_le_nat nat_less_le)
  obtain R1 i1 c1 where r: "fstep f R s R1 s1" "index_ok s1 R1 i1 (L1_Of f)" "cached s1 (Some c1) i1"
    "cinodes s1 f = (cinodes s f)\<lparr>ci_l1 := Some c1, cinode := ?i\<lparr>iindirect := i1\<rparr>\<rparr>"
    "index_at s1 i1 = (if iindirect ?i = 0 then replicate SFS_BLK_NENTRY 0 else index_at s (iindirect ?i))[n - SFS_L0_NBLKS := ino]"
    "iindirect ?i \<noteq> 0 \<longrightarrow> i1 = iindirect ?i" "\<forall>j<next_ino s. R1 j = R j"
    using put_indirect_ok [OF assms(1,6) refl pre assms(7)] by blast
  have len: "n - SFS_L0_NBLKS < length (if iindirect ?i = 0 then replicate SFS_BLK_NENTRY 0 else index_at s (iindirect ?i))"
    using assms(4,5) fo(4,6) index_okD(4) [OF assms(1)] by (cases "n \<le> SFS_L0_NBLKS") (auto simp: sfs_sizes)
  have "blk s1 f n = ino" using assms(4,5) len by (simp add: blk_def file_block_def r(4,5))
  moreover have "blk s1 f k = blk s f k" if k: "k < n" for k
  proof (cases "k < SFS_L0_NBLKS")
    case True
    then show ?thesis by (simp add: blk_def file_block_def r(4))
  next
    case False
    then have "iindirect ?i \<noteq> 0" using k fo(6) index_okD(1) [OF assms(1)] by simp
    then show ?thesis using False k assms(5) r(5,6) by (simp add: blk_def file_block_def r(4))
  qed
  moreover have "idb_indirect ?i = 0" using fo(5) assms(5) by simp
  ultimately show ?thesis
    using r(1-3,7) fo(2,3) assms(3-5) unfolding stored_def Let_def by (intro exI [of _ R1]) (simp add: r(4))
qed

lemma stored_db_indirect:
  assumes "store_ok s R" and "file_ok s R f" and "n = ci_nblks (cinodes s f)" and "SFS_L1_NBLKS \<le> n" and "n < SFS_LN_NBLKS"
    and "ino < ninos s" and "put_db_indirect f (n - SFS_L1_NBLKS) ino s = Inr s1"
  shows "\<exists>R1. stored f R s ino R1 s1"
proof -
  let ?i = "cinode (cinodes s f)" and ?k = "n - SFS_L1_NBLKS"
  let ?db = "idb_indirect ?i" and ?j = "?k div SFS_BLK_NENTRY"
  note fo = file_okD [OF assms(2,3) refl]
  have jn: "?j < SFS_BLK_NENTRY" using assms(5) by (auto simp: sfs_sizes)
  have pre: "?db \<noteq> 0 \<longrightarrow> R ?db = Some (L2_Of f) \<and> cached s (ci_l2 (cinodes s f)) ?db \<and>
      (index_at s ?db ! ?j \<noteq> 0 \<longrightarrow> R (index_at s ?db ! ?j) = Some (L3_Of f ?j) \<and> cached s (ci_l1 (cinodes s f)) (index_at s ?db ! ?j))"
  proof
    assume "?db \<noteq> 0"
    then have n: "SFS_L1_NBLKS < n" using fo(5) by (meson not_le)
    have le: "(n - 1 - SFS_L1_NBLKS) div SFS_BLK_NENTRY \<le> ?j" by (intro div_le_mono) simp
    have "index_at s ?db ! ?j \<noteq> 0 \<longrightarrow> R (index_at s ?db ! ?j) = Some (L3_Of f ?j) \<and> cached s (ci_l1 (cinodes s f)) (index_at s ?db ! ?j)"
      using fo(8) [OF n] fo(9) [OF n jn] le index_okD(2) [OF assms(1)] by (auto split: if_splits dest: le_antisym)
    then show "R ?db = Some (L2_Of f) \<and> cached s (ci_l2 (cinodes s f)) ?db \<and>
      (index_at s ?db ! ?j \<noteq> 0 \<longrightarrow> R (index_at s ?db ! ?j) = Some (L3_Of f ?j) \<and> cached s (ci_l1 (cinodes s f)) (index_at s ?db ! ?j))"
      using fo(8) [OF n] index_okD(2) [OF assms(1)] by blast
  qed
  let ?old = "if ?db = 0 then replicate SFS_BLK_NENTRY 0 else index_at s ?db"
  obtain R1 i2 i1 c1 c2 where r: "fstep f R s R1 s1" "index_ok s1 R1 i2 (L2_Of f)" "cached s1 (Some c2) i2" "i2 < ninos s1"
    "index_ok s1 R1 i1 (L3_Of f ?j)" "cached s1 (Some c1) i1"
    "cinodes s1 f = (cinodes s f)\<lparr>ci_l1 := Some c1, ci_l2 := Some c2, cinode := ?i\<lparr>idb_indirect := i2\<rparr>\<rparr>"
    "index_at s1 i2 = ?old[?j := i1]"
    "index_at s1 i1 = (if ?old ! ?j = 0 then replicate SFS_BLK_NENTRY 0 else index_at s (?old ! ?j))[?k mod SFS_BLK_NENTRY := ino]"
    "?old ! ?j \<noteq> 0 \<longrightarrow> i1 = ?old ! ?j" "?db \<noteq> 0 \<longrightarrow> i2 = ?db" "\<forall>x<next_ino s. R1 x = R x"
    "\<forall>x r. R x = Some r \<and> r \<noteq> L2_Of f \<and> r \<noteq> L3_Of f ?j \<and> (\<exists>d. cached s (Some d) x) \<longrightarrow> index_at s1 x = index_at s x"
    using put_db_indirect_ok [OF assms(1,6) refl jn refl pre assms(7)] unfolding Let_def by blast
  have ok1: "store_ok s1 R1" using r(1) by (simp add: fstep_def)
  have keep: "index_at s1 x = index_at s x" if "index_ok s R x q" "q \<noteq> L2_Of f" "q \<noteq> L3_Of f ?j" for x q
    using r(13) that index_okD(2,5) [OF assms(1) that(1)] by blast
  have n0: "SFS_L0_NBLKS < n" using assms(4) by (simp add: sfs_sizes)
  have old: "length ?old = SFS_BLK_NENTRY" "index_ok s R (?old ! jj) (L3_Of f jj) \<and> ?db \<noteq> 0"
    if "jj \<le> (n - 1 - SFS_L1_NBLKS) div SFS_BLK_NENTRY" "SFS_L1_NBLKS < n" for jj
  proof -
    have lt: "jj < SFS_BLK_NENTRY" using that assms(5) by (auto simp: sfs_sizes)
    have db: "?db \<noteq> 0" "length (index_at s ?db) = SFS_BLK_NENTRY" using fo(8) [OF that(2)] index_okD(1,4) [OF assms(1)] by blast+
    then show "length ?old = SFS_BLK_NENTRY" "index_ok s R (?old ! jj) (L3_Of f jj) \<and> ?db \<noteq> 0"
      using fo(9) [OF that(2) lt] that(1) by simp_all
  qed
  have lold: "length ?old = SFS_BLK_NENTRY"
  proof (cases "SFS_L1_NBLKS < n")
    case True
    then show ?thesis using old(1) [of 0] by simp
  next
    case False
    then show ?thesis using fo(5) by simp
  qed
  have i2j: "index_at s1 i2 ! jj = (if jj = ?j then i1 else ?old ! jj)" for jj
    using r(8) jn lold by (metis nth_list_update_eq nth_list_update_neq)
  have l1: "length (index_at s1 i1) = SFS_BLK_NENTRY" using index_okD(4) [OF ok1 r(5)] .
  have last: "blk s1 f n = ino"
    using assms(4) l1 r(9) by (simp add: blk_def file_block_def r(7) i2j sfs_sizes)
  have blks: "blk s1 f k = blk s f k" if k: "k < n" for k
  proof -
    consider "k < SFS_L0_NBLKS" | "SFS_L0_NBLKS \<le> k" "k < SFS_L1_NBLKS" | "SFS_L1_NBLKS \<le> k" by linarith
    then show ?thesis
    proof cases
      case 1
      then show ?thesis by (simp add: blk_def file_block_def r(7))
    next
      case 2
      then show ?thesis using keep [OF fo(6) [OF n0]] by (simp add: blk_def file_block_def r(7))
    next
      case 3
      let ?jk = "(k - SFS_L1_NBLKS) div SFS_BLK_NENTRY"
      have "SFS_L1_NBLKS < n" "?jk \<le> (n - 1 - SFS_L1_NBLKS) div SFS_BLK_NENTRY"
        using 3 k by (simp, intro div_le_mono) simp
      from old(2) [OF this(2,1)] have o: "index_ok s R (?old ! ?jk) (L3_Of f ?jk)" "?db \<noteq> 0" by blast+
      show ?thesis
      proof (cases "?jk = ?j")
        case True
        then have z: "?old ! ?j \<noteq> 0" using index_okD(1) [OF assms(1) o(1)] by simp
        have "k - SFS_L1_NBLKS \<noteq> ?k" using 3 k by simp
        then have "(k - SFS_L1_NBLKS) mod SFS_BLK_NENTRY \<noteq> ?k mod SFS_BLK_NENTRY"
          using True by (metis div_mult_mod_eq)
        then show ?thesis using 3 r(9,10) z o(2) by (simp add: blk_def file_block_def r(7) i2j True [unfolded sfs_sizes] sfs_sizes)
      next
        case False
        then have "index_at s1 (?old ! ?jk) = index_at s (?old ! ?jk)" using keep [OF o(1)] by simp
        then show ?thesis using 3 False o(2) by (simp add: blk_def file_block_def r(7) i2j sfs_sizes)
      qed
    qed
  qed
  have l3: "if jj \<le> ?j then index_ok s1 R1 (index_at s1 i2 ! jj) (L3_Of f jj) else index_at s1 i2 ! jj = 0"
    if jj: "jj < SFS_BLK_NENTRY" for jj
  proof (cases "jj < ?j")
    case True
    then have "SFS_L1_NBLKS < n" "jj \<le> (n - 1 - SFS_L1_NBLKS) div SFS_BLK_NENTRY" by (auto simp: sfs_sizes)
    from old(2) [OF this(2,1)] show ?thesis
      using True i2j r(1) by (auto simp: fstep_def intro: ext_index_ok)
  next
    case False
    have "?old ! jj = 0" if "jj \<noteq> ?j"
    proof (cases "SFS_L1_NBLKS < n")
      case True
      have "(n - 1 - SFS_L1_NBLKS) div SFS_BLK_NENTRY \<le> ?j" by (intro div_le_mono) simp
      then show ?thesis using fo(9) [OF True jj] False that jj by auto
    qed (use fo(5) jj in simp)
    then show ?thesis using False i2j r(5) by auto
  qed
  have c1: "cached s1 (Some c1) (index_at s1 i2 ! ?j)" using i2j r(6) by simp
  have "index_ok s1 R1 (iindirect ?i) (L1_Of f)" using fo(6) [OF n0] r(1) by (auto simp: fstep_def intro: ext_index_ok)
  then show ?thesis
    using r(1,2,3,12) blks last l3 c1 fo(2,3) assms(4) n0 unfolding stored_def Let_def assms(3) [symmetric]
    by (intro exI [of _ R1]) (simp add: r(7) assms(3) [symmetric])
qed


definition count_block :: "nat \<Rightarrow> cache_inode \<Rightarrow> cache_inode" where
  "count_block len c = c\<lparr>ci_nblks := ci_nblks c + 1,
     cinode := (cinode c)\<lparr>isize := isize (cinode c) + of_nat len, iblocks := iblocks (cinode c) + 1\<rparr>\<rparr>"

lemma count_block_simps [simp]:
  "ci_nblks (count_block len c) = Suc (ci_nblks c)" "ci_l1 (count_block len c) = ci_l1 c" "ci_l2 (count_block len c) = ci_l2 c"
  "ci_ino (count_block len c) = ci_ino c" "ci_real (count_block len c) = ci_real c"
  "idirect (cinode (count_block len c)) = idirect (cinode c)" "iindirect (cinode (count_block len c)) = iindirect (cinode c)"
  "idb_indirect (cinode (count_block len c)) = idb_indirect (cinode c)" "itype (cinode (count_block len c)) = itype (cinode c)"
  "inlinks (cinode (count_block len c)) = inlinks (cinode c)" "isize (cinode (count_block len c)) = isize (cinode c) + of_nat len"
  "iblocks (cinode (count_block len c)) = iblocks (cinode c) + 1"
  by (simp_all add: count_block_def)

lemma append_block_cases:
  assumes "append_block f len ino s = Inr s'" and "n = ci_nblks (cinodes s f)"
  obtains s1 where "n < SFS_LN_NBLKS" and "s' = on_ci f (count_block len) s1"
    and "if n < SFS_L0_NBLKS then s1 = put_direct f n ino s
      else if n < SFS_L1_NBLKS then put_indirect f (n - SFS_L0_NBLKS) ino s = Inr s1
      else put_db_indirect f (n - SFS_L1_NBLKS) ino s = Inr s1"
  using assms by (auto simp: append_block_def Let_def kbind_eq_Inr_iff sfs_sizes on_inode_def on_ci_def count_block_def
      split: if_splits)

text \<open>The change that appending the block \<open>ino\<close> with \<open>len\<close> bytes makes to the file \<open>f\<close> alone.\<close>

definition appended :: "nat \<Rightarrow> nat \<Rightarrow> nat \<Rightarrow> roles \<Rightarrow> sfs_fs \<Rightarrow> roles \<Rightarrow> sfs_fs \<Rightarrow> bool" where
  "appended f len ino R s R' s' \<longleftrightarrow>
     fstep f R s R' s' \<and> wf s' R' \<and> R' ino = Some (Data_Of f (ci_nblks (cinodes s f))) \<and>
     file_blocks s' f = file_blocks s f @ [ino] \<and> (\<forall>g<n_cinodes s. g \<noteq> f \<longrightarrow> file_blocks s' g = file_blocks s g) \<and>
     isize (cinode (cinodes s' f)) = isize (cinode (cinodes s f)) + of_nat len \<and>
     iblocks (cinode (cinodes s' f)) = iblocks (cinode (cinodes s f)) + 1 \<and>
     inlinks (cinode (cinodes s' f)) = inlinks (cinode (cinodes s f)) \<and>
     (\<forall>x<next_ino s. x \<noteq> ino \<longrightarrow> R' x = R x)"

lemma stored_appended:
  assumes "wf s R" and "f < n_cinodes s" and "ci_nblks (cinodes s f) < SFS_LN_NBLKS"
    and "R ino = None" and "first_blk s \<le> ino" and "ino < next_ino s" and "stored f R s ino R1 s1"
  shows "appended f len ino R s (R1(ino \<mapsto> Data_Of f (ci_nblks (cinodes s f)))) (on_ci f (count_block len) s1)"
proof -
  let ?n = "ci_nblks (cinodes s f)" and ?s' = "on_ci f (count_block len) s1"
  let ?R' = "R1(ino \<mapsto> Data_Of f ?n)"
  have ok: "store_ok s R" and files: "\<And>g. g < n_cinodes s \<Longrightarrow> file_ok s R g" using assms(1) by (simp_all add: wf_def)
  have st: "fstep f R s R1 s1" and lo: "\<forall>x<next_ino s. R1 x = R x" and n1: "ci_nblks (cinodes s1 f) = ?n"
    using assms(7) by (simp_all add: stored_def Let_def)
  have ok1: "store_ok s1 R1" using st by (simp add: fstep_def)
  have b: "fstep f R1 s1 R1 ?s'" by (rule fstep_on_ci [OF ok1]) (simp add: same_head_def)
  then have okb: "store_ok ?s' R1" by (simp add: fstep_def)
  have rest: "ninos s1 = ninos s" "next_ino s \<le> next_ino s1" "n_cinodes s1 = n_cinodes s" using st by (simp_all add: fstep_def same_rest_def)
  have fb: "first_blk ?s' = first_blk s" by (rule first_blk_cong) (simp add: rest)
  have c: "fstep f R1 ?s' ?R' ?s'"
    using fstep_role [OF okb, of ino] lo assms(4-6) rest fb by simp
  have all: "fstep f R s ?R' ?s'" by (rule fstep_trans [OF ok st fstep_trans [OF ok1 b c]])
  then have okR: "store_ok ?s' ?R'" and le: "R \<subseteq>\<^sub>m ?R'" and ex: "store_ext f R s ?s'" by (simp_all add: fstep_def)
  have R1le: "R1 \<subseteq>\<^sub>m ?R'" using c by (simp add: fstep_def)
  have others: "file_ok ?s' ?R' g \<and> file_blocks ?s' g = file_blocks s g" if g: "g < n_cinodes s" "g \<noteq> f" for g
  proof -
    have "cinodes ?s' g = cinodes s g" using all g(2) by (simp add: fstep_def)
    then show ?thesis using other_file [OF ok okR ex le g(2) files [OF g(1)]] by simp
  qed
  have blk': "blk ?s' f k = blk s1 f k" for k by (simp add: blk_def file_block_def)
  have old: "blk s1 f k = blk s f k" if "k < ?n" for k using assms(7) that by (simp add: stored_def Let_def)
  have new: "blk s1 f ?n = ino" using assms(7) by (simp add: stored_def Let_def)
  have iok: "index_ok s1 R1 i r \<Longrightarrow> index_ok ?s' ?R' i r" for i r
    using lo assms(4,6) by (auto simp: index_ok_def)
  have data: "\<forall>k<Suc ?n. ?R' (blk ?s' f k) = Some (Data_Of f k)"
  proof (intro allI impI)
    fix k assume k: "k < Suc ?n"
    show "?R' (blk ?s' f k) = Some (Data_Of f k)"
    proof (cases "k = ?n")
      case False
      then have "R (blk s f k) = Some (Data_Of f k)" using file_okD(10) [OF files [OF assms(2)] refl refl] k by simp
      then have "?R' (blk s f k) = Some (Data_Of f k)" by (rule map_le_Some [OF le])
      moreover have "k < ?n" using False k by simp
      ultimately show ?thesis using old by (simp only: blk')
    qed (simp add: blk' new)
  qed
  have arith: "Suc ?n \<le> SFS_L0_NBLKS \<longleftrightarrow> ?n < SFS_L0_NBLKS" "Suc ?n \<le> SFS_L1_NBLKS \<longleftrightarrow> ?n < SFS_L1_NBLKS"
    "Suc ?n - 1 - SFS_L1_NBLKS = ?n - SFS_L1_NBLKS" by auto
  have "file_ok ?s' ?R' f"
    using assms(3,7) data iok unfolding file_ok_def stored_def Let_def
    by (simp add: n1 arith rest)
  then have "wf ?s' ?R'" using okR others rest by (auto simp: wf_def)
  moreover have "file_blocks ?s' f = file_blocks s f @ [ino]"
    by (simp add: file_blocks_def n1 blk' new old)
  moreover have "isize (cinode (cinodes ?s' f)) = isize (cinode (cinodes s f)) + of_nat len"
    "iblocks (cinode (cinodes ?s' f)) = iblocks (cinode (cinodes s f)) + 1"
    "inlinks (cinode (cinodes ?s' f)) = inlinks (cinode (cinodes s f))" using assms(7) by (simp_all add: stored_def Let_def)
  ultimately show ?thesis using all others lo unfolding appended_def by simp
qed

lemma append_block_appended:
  assumes "wf s R" and "f < n_cinodes s" and "R ino = None" and "first_blk s \<le> ino" and "ino < next_ino s"
    and "append_block f len ino s = Inr s'"
  shows "\<exists>R'. appended f len ino R s R' s'"
proof -
  let ?n = "ci_nblks (cinodes s f)"
  obtain s1 where s1: "?n < SFS_LN_NBLKS" "s' = on_ci f (count_block len) s1"
    "if ?n < SFS_L0_NBLKS then s1 = put_direct f ?n ino s
      else if ?n < SFS_L1_NBLKS then put_indirect f (?n - SFS_L0_NBLKS) ino s = Inr s1
      else put_db_indirect f (?n - SFS_L1_NBLKS) ino s = Inr s1"
    using append_block_cases [OF assms(6) refl] by blast
  have ok: "store_ok s R" "file_ok s R f" using assms(1,2) by (simp_all add: wf_def)
  have lt: "ino < ninos s" using assms(5) ok(1) unfolding store_ok_def by linarith
  have "\<exists>R1. stored f R s ino R1 s1"
    using s1(1,3) stored_direct [OF ok _ lt] stored_indirect [OF ok refl _ _ lt] stored_db_indirect [OF ok refl _ s1(1) lt]
    by (auto simp: not_less split: if_splits)
  then show ?thesis using stored_appended [OF assms(1,2) s1(1) assms(3-5)] s1(2) by blast
qed

end
