(* ===== verification/Mksfs_Tree.thy ===== *)
theory Mksfs_Tree
  imports Mksfs_Inv
begin

text \<open>
  What the image builder puts into the image: files with their bytes, directories with their
  entries, first in the caches of the program, then in the blocks that \<open>close_sfs\<close> leaves.
\<close>

subsection \<open>Files and their bytes\<close>

definition file_data :: "sfs_fs \<Rightarrow> nat \<Rightarrow> byte list" where
  "file_data s f = concat (map (img s) (file_blocks s f))"

definition has_data :: "sfs_fs \<Rightarrow> nat \<Rightarrow> byte list \<Rightarrow> bool" where
  "has_data s f bs \<longleftrightarrow> isize (cinode (cinodes s f)) = of_nat (length bs) \<and> take (length bs) (file_data s f) = bs"

definition is_file :: "sfs_fs \<Rightarrow> nat \<Rightarrow> bool" where
  "is_file s f \<longleftrightarrow> itype (cinode (cinodes s f)) = SFS_TYPE_FILE"

text \<open>
  The invariant with the bytes of the files: \<open>T\<close> gives the bytes of the regular file with a
  number on the host. The files in \<open>X\<close> are being written.
\<close>

definition data_ok :: "nat set \<Rightarrow> sfs_fs \<Rightarrow> roles \<Rightarrow> (64 word \<Rightarrow> byte list option) \<Rightarrow> bool" where
  "data_ok X s R T \<longleftrightarrow> wf s R \<and> length (entry_name s) = SFS_MAX_FNAME_LEN + 1 \<and>
     (\<forall>b. length (img s b) = SFS_BLKSIZE) \<and>
     (\<forall>f<n_cinodes s. iblocks (cinode (cinodes s f)) = of_nat (ci_nblks (cinodes s f)) \<and>
        (if is_file s f then f \<in> X \<or> (\<exists>bs. T (ci_real (cinodes s f)) = Some bs \<and> has_data s f bs)
         else T (ci_real (cinodes s f)) = None))"

text \<open>The state grows: only the files in \<open>D\<close> get more blocks, and no block of a file changes.\<close>

definition grow :: "nat set \<Rightarrow> sfs_fs \<Rightarrow> sfs_fs \<Rightarrow> bool" where
  "grow D s s' \<longleftrightarrow> n_cinodes s \<le> n_cinodes s' \<and> ninos s' = ninos s \<and> sfs_root s' = sfs_root s \<and>
     (\<forall>f<n_cinodes s. same_head (cinodes s f) (cinodes s' f) \<and> (\<exists>zs. file_blocks s' f = file_blocks s f @ zs) \<and>
        (\<forall>b\<in>set (file_blocks s f). img s' b = img s b) \<and>
        (f \<notin> D \<longrightarrow> file_blocks s' f = file_blocks s f \<and> isize (cinode (cinodes s' f)) = isize (cinode (cinodes s f))))"

lemma grow_refl [simp]: "grow D s s"
  by (simp add: grow_def same_head_def)

lemma grow_trans:
  assumes "grow D s s1" and "grow D s1 s2"
  shows "grow D s s2"
proof -
  have "same_head (cinodes s f) (cinodes s2 f) \<and> (\<exists>zs. file_blocks s2 f = file_blocks s f @ zs) \<and>
      (\<forall>b\<in>set (file_blocks s f). img s2 b = img s b) \<and>
      (f \<notin> D \<longrightarrow> file_blocks s2 f = file_blocks s f \<and> isize (cinode (cinodes s2 f)) = isize (cinode (cinodes s f)))"
    if f: "f < n_cinodes s" for f
  proof -
    have f1: "f < n_cinodes s1" using assms(1) f by (simp add: grow_def)
    obtain ys where y: "file_blocks s1 f = file_blocks s f @ ys" using assms(1) f unfolding grow_def by blast
    obtain zs where z: "file_blocks s2 f = file_blocks s1 f @ zs" using assms(2) f1 unfolding grow_def by blast
    have h: "same_head (cinodes s f) (cinodes s1 f)" "same_head (cinodes s1 f) (cinodes s2 f)"
      using assms f f1 unfolding grow_def by blast+
    have b: "\<forall>b\<in>set (file_blocks s f). img s1 b = img s b" "\<forall>b\<in>set (file_blocks s1 f). img s2 b = img s1 b"
      using assms f f1 unfolding grow_def by blast+
    have d: "f \<notin> D \<Longrightarrow> file_blocks s1 f = file_blocks s f \<and> isize (cinode (cinodes s1 f)) = isize (cinode (cinodes s f))"
      "f \<notin> D \<Longrightarrow> file_blocks s2 f = file_blocks s1 f \<and> isize (cinode (cinodes s2 f)) = isize (cinode (cinodes s1 f))"
      using assms f f1 unfolding grow_def by blast+
    show ?thesis using h y z b d by (auto simp: same_head_def)
  qed
  then show ?thesis using assms unfolding grow_def by auto
qed

lemma grow_mono: "grow D s s' \<Longrightarrow> D \<subseteq> E \<Longrightarrow> grow E s s'"
  unfolding grow_def by blast

text \<open>Files that came after \<open>s\<close> may grow as well.\<close>

lemma grow_new: "grow (insert f D) s s' \<Longrightarrow> n_cinodes s \<le> f \<Longrightarrow> grow D s s'"
  unfolding grow_def by auto

lemma grow_data:
  assumes "grow D s s'" and "f < n_cinodes s" and "f \<notin> D"
  shows "file_blocks s' f = file_blocks s f" and "file_data s' f = file_data s f" and "has_data s' f bs = has_data s f bs"
proof -
  have e: "file_blocks s' f = file_blocks s f" "isize (cinode (cinodes s' f)) = isize (cinode (cinodes s f))"
    "\<forall>b\<in>set (file_blocks s f). img s' b = img s b"
    using assms unfolding grow_def by blast+
  then have m: "map (img s') (file_blocks s f) = map (img s) (file_blocks s f)" by simp
  show "file_blocks s' f = file_blocks s f" "file_data s' f = file_data s f" "has_data s' f bs = has_data s f bs"
    by (simp_all only: file_data_def has_data_def e(1,2) m)
qed

lemma grow_head: "grow D s s' \<Longrightarrow> f < n_cinodes s \<Longrightarrow> same_head (cinodes s f) (cinodes s' f)"
  unfolding grow_def by blast

lemma grow_is_file: "grow D s s' \<Longrightarrow> f < n_cinodes s \<Longrightarrow> is_file s' f = is_file s f"
  by (auto dest: grow_head simp: is_file_def same_head_def)

text \<open>The invariant is kept by a step that grows the state and keeps \<open>wf\<close>.\<close>

lemma data_ok_grow:
  assumes "data_ok X s R T" and "grow D s s'" and "wf s' R'" and "n_cinodes s' = n_cinodes s"
    and "length (entry_name s') = SFS_MAX_FNAME_LEN + 1 \<and> (\<forall>b. length (img s' b) = SFS_BLKSIZE)"
    and "\<And>f. f < n_cinodes s \<Longrightarrow> iblocks (cinode (cinodes s' f)) = of_nat (ci_nblks (cinodes s' f))"
    and "\<And>f. f \<in> D \<Longrightarrow> f < n_cinodes s \<Longrightarrow> is_file s f \<Longrightarrow> f \<in> X"
  shows "data_ok X s' R' T"
proof -
  have "if is_file s' f then f \<in> X \<or> (\<exists>bs. T (ci_real (cinodes s' f)) = Some bs \<and> has_data s' f bs)
      else T (ci_real (cinodes s' f)) = None" if f: "f < n_cinodes s" for f
  proof -
    have r: "ci_real (cinodes s' f) = ci_real (cinodes s f)" using grow_head [OF assms(2) f] by (simp add: same_head_def)
    have old: "if is_file s f then f \<in> X \<or> (\<exists>bs. T (ci_real (cinodes s f)) = Some bs \<and> has_data s f bs)
      else T (ci_real (cinodes s f)) = None" using assms(1) f unfolding data_ok_def by blast
    show ?thesis
      using old assms(7) [OF _ f] grow_data(3) [OF assms(2) f] unfolding grow_is_file [OF assms(2) f] r
      by (cases "f \<in> D") auto
  qed
  then show ?thesis using assms(3-6) unfolding data_ok_def by simp
qed


subsection \<open>Single steps\<close>

lemma core_cong:
  assumes "cinodes s' = cinodes s" and "cblocks s' = cblocks s" and "n_cblocks s' = n_cblocks s" and "ninos s' = ninos s"
  shows "index_at s' i = index_at s i" and "cached s' co i = cached s co i" and "blk s' f k = blk s f k"
    and "file_blocks s' f = file_blocks s f" and "file_ok s' R f = file_ok s R f"
proof -
  show 1: "index_at s' i = index_at s i" for i by (simp add: index_at_def assms cong: option.case_cong)
  show 2: "cached s' co i = cached s co i" for co i by (simp add: cached_def assms)
  have "index_at s' = index_at s" using 1 by (intro ext)
  then show 3: "blk s' f k = blk s f k" for k by (simp add: blk_def assms)
  show "file_blocks s' f = file_blocks s f" by (simp add: file_blocks_def assms 3)
  show "file_ok s' R f = file_ok s R f" by (simp add: file_ok_def Let_def assms 1 2 3 index_ok_def)
qed

lemma alloc_ino_ok:
  assumes "sfs_alloc_ino s = Inr (i, s1)" and "wf s R"
  shows "s1 = s\<lparr>sb_unused := sb_unused s - 1, next_ino := next_ino s + 1\<rparr>" and "i = next_ino s" and "wf s1 R"
    and "R i = None" and "first_blk s1 \<le> i" and "i < next_ino s1"
proof -
  show s1: "s1 = s\<lparr>sb_unused := sb_unused s - 1, next_ino := next_ino s + 1\<rparr>" and i: "i = next_ino s"
    using assms(1) by (auto simp: sfs_alloc_ino_def split: if_splits)
  have lt: "next_ino s < ninos s" using assms(1) by (simp add: sfs_alloc_ino_def split: if_splits)
  have ok: "store_ok s R" using assms(2) by (simp add: wf_def)
  have fb: "first_blk s1 = first_blk s" by (rule first_blk_cong) (simp add: s1)
  have fl: "first_blk s \<le> next_ino s" using ok by (simp add: store_ok_def)
  have "\<forall>j r. R j = Some r \<longrightarrow> j = SFS_BLKN_ROOT \<and> r = Inode_Of (sfs_root s) \<or> first_blk s \<le> j \<and> j < next_ino s + 1"
    by (auto dest!: store_ok_roles [OF ok])
  then have "store_ok s1 R" using ok lt unfolding store_ok_def fb by (simp add: s1)
  moreover have "file_ok s1 R f = file_ok s R f" for f by (rule core_cong) (simp_all add: s1)
  ultimately show "wf s1 R" using assms(2) by (simp add: wf_def s1)
  show "R i = None" using store_okD(2) [OF ok] by (simp add: i)
  show "first_blk s1 \<le> i" "i < next_ino s1" using fb fl by (simp_all add: i s1)
qed

lemma alloc_grow:
  assumes "sfs_alloc_ino s = Inr (i, s1)" and "data_ok X s R T"
  shows "grow D s s1" and "data_ok X s1 R T" and "file_blocks s1 f = file_blocks s f" and "file_data s1 f = file_data s f"
proof -
  have wf: "wf s R" using assms(2) by (simp add: data_ok_def)
  note a = alloc_ino_ok [OF assms(1) wf]
  show fb: "file_blocks s1 f = file_blocks s f" for f by (rule core_cong) (simp_all add: a(1))
  then show "file_data s1 f = file_data s f" by (simp add: file_data_def a(1))
  show g: "grow D s s1" for D unfolding grow_def fb by (simp add: a(1) same_head_def)
  show "data_ok X s1 R T"
    by (rule data_ok_grow [OF assms(2) g [of "{}"] a(3)]) (use assms(2) in \<open>auto simp: a(1) data_ok_def\<close>)
qed

definition pad_block :: "byte list \<Rightarrow> byte list" where
  "pad_block d = d @ replicate (SFS_BLKSIZE - length d) 0"

lemma write_block_eq:
  "write_block d i s = Inr s1 \<longleftrightarrow> length d \<le> SFS_BLKSIZE \<and> i < ninos s \<and> s1 = s\<lparr>img := (img s)(i := pad_block d)\<rparr>"
  by (auto simp: write_block_def pad_block_def)

lemma blocks_data_role:
  assumes "wf s R" and "f < n_cinodes s" and "b \<in> set (file_blocks s f)"
  shows "\<exists>k<ci_nblks (cinodes s f). b = blk s f k \<and> R b = Some (Data_Of f k)"
  using assms file_okD(10) [of s R f _ _ , OF _ refl refl] by (auto simp: wf_def file_blocks_def)

lemma write_grow:
  assumes "data_ok X s R T" and "R i = None" and "write_block d i s = Inr s1"
  shows "grow D s s1" and "data_ok X s1 R T" and "file_blocks s1 f = file_blocks s f"
    and "f < n_cinodes s \<Longrightarrow> file_data s1 f = file_data s f"
proof -
  have wf: "wf s R" using assms(1) by (simp add: data_ok_def)
  have s1: "s1 = s\<lparr>img := (img s)(i := pad_block d)\<rparr>" using assms(3) by (simp add: write_block_eq)
  show fb: "file_blocks s1 f = file_blocks s f" for f by (rule core_cong) (simp_all add: s1)
  have keep: "img s1 b = img s b" if "f < n_cinodes s" "b \<in> set (file_blocks s f)" for f b
    using blocks_data_role [OF wf that] assms(2) by (auto simp: s1)
  show g: "grow D s s1" for D unfolding grow_def fb using keep by (simp add: s1 same_head_def)
  show "f < n_cinodes s \<Longrightarrow> file_data s1 f = file_data s f" using grow_data(2) [OF g [of "{}"]] by simp
  have "first_blk s1 = first_blk s" by (rule first_blk_cong) (simp add: s1)
  then have "store_ok s1 R" using wf unfolding wf_def store_ok_def by (simp add: s1)
  moreover have "file_ok s1 R f = file_ok s R f" for f by (rule core_cong) (simp_all add: s1)
  ultimately have "wf s1 R" using wf by (simp add: wf_def s1)
  then show "data_ok X s1 R T"
    by (rule data_ok_grow [OF assms(1) g [of "{}"]])
      (use assms(1,3) in \<open>auto simp: s1 data_ok_def pad_block_def write_block_eq\<close>)
qed

lemma append_grow:
  assumes "data_ok X s R T" and "f < n_cinodes s" and "is_file s f \<Longrightarrow> f \<in> X"
    and "R i = None" and "first_blk s \<le> i" and "i < next_ino s" and "append_block f len i s = Inr s1"
  shows "\<exists>R1. appended f len i R s R1 s1 \<and> grow {f} s s1 \<and> data_ok X s1 R1 T"
proof -
  have wf: "wf s R" using assms(1) by (simp add: data_ok_def)
  obtain R1 where R1: "appended f len i R s R1 s1" using append_block_appended [OF wf assms(2,4-7)] by blast
  then have st: "fstep f R s R1 s1" and wf1: "wf s1 R1" by (simp_all add: appended_def)
  have img: "img s1 = img s" and n: "n_cinodes s1 = n_cinodes s" and e: "entry_name s1 = entry_name s"
    using st by (simp_all add: fstep_def same_rest_def)
  have heads: "same_head (cinodes s g) (cinodes s1 g)" for g using st by (cases "g = f") (auto simp: fstep_def same_head_def)
  have g: "grow {f} s s1"
    unfolding grow_def using R1 st heads img n by (auto simp: appended_def fstep_def same_rest_def)
  have "iblocks (cinode (cinodes s1 g)) = of_nat (ci_nblks (cinodes s1 g))" if "g < n_cinodes s" for g
  proof (cases "g = f")
    case True
    have "length (file_blocks s1 f) = Suc (length (file_blocks s f))" using R1 by (simp add: appended_def)
    then have "ci_nblks (cinodes s1 f) = Suc (ci_nblks (cinodes s f))" by (simp add: file_blocks_def)
    then show ?thesis using True R1 assms(1,2) by (simp add: appended_def data_ok_def)
  next
    case False
    then show ?thesis using st assms(1) that by (simp add: fstep_def data_ok_def)
  qed
  moreover have "length (entry_name s1) = SFS_MAX_FNAME_LEN + 1 \<and> (\<forall>b. length (img s1 b) = SFS_BLKSIZE)"
    using assms(1) by (simp add: data_ok_def e img)
  ultimately have "data_ok X s1 R1 T"
    using assms(3) by (intro data_ok_grow [OF assms(1) g wf1 n]) auto
  then show ?thesis using R1 g by blast
qed

text \<open>A block of data: a number, its bytes, and the place in the file.\<close>

lemma put_block_ok:
  assumes "data_ok X s R T" and "f < n_cinodes s" and "is_file s f \<Longrightarrow> f \<in> X"
    and "sfs_alloc_ino s = Inr (i, s1)" and "write_block d i s1 = Inr s2" and "append_block f len i s2 = Inr s3"
  shows "\<exists>R3. data_ok X s3 R3 T \<and> grow {f} s s3 \<and> n_cinodes s3 = n_cinodes s \<and>
    file_blocks s3 f = file_blocks s f @ [i] \<and> img s3 i = pad_block d \<and> file_data s3 f = file_data s f @ pad_block d \<and>
    isize (cinode (cinodes s3 f)) = isize (cinode (cinodes s f)) + of_nat len \<and>
    entry_name s3 = entry_name s \<and> subpaths s3 = subpaths s \<and> ihash s3 = ihash s"
proof -
  have wf: "wf s R" using assms(1) by (simp add: data_ok_def)
  note a = alloc_ino_ok [OF assms(4) wf] and ag = alloc_grow [OF assms(4,1)]
  note wg = write_grow [OF ag(2) a(4) assms(5)]
  have s2: "s2 = s1\<lparr>img := (img s1)(i := pad_block d)\<rparr>" using assms(5) by (simp add: write_block_eq)
  have n: "n_cinodes s2 = n_cinodes s" "f < n_cinodes s2" "first_blk s2 \<le> i" "i < next_ino s2"
    using assms(2) a(5,6) by (simp_all add: s2 a(1) first_blk_def)
  have isf: "is_file s2 f \<Longrightarrow> f \<in> X" using assms(3) by (simp add: is_file_def s2 a(1))
  obtain R3 where R3: "appended f len i R s2 R3 s3" "grow {f} s2 s3" "data_ok X s3 R3 T"
    using append_grow [OF wg(2) n(2) isf a(4) n(3,4) assms(6)] by blast
  have st: "fstep f R s2 R3 s3" using R3(1) by (simp add: appended_def)
  then have rest: "img s3 = img s2" "n_cinodes s3 = n_cinodes s2" "entry_name s3 = entry_name s2" "subpaths s3 = subpaths s2" "ihash s3 = ihash s2"
    by (simp_all add: fstep_def same_rest_def)
  have fb: "file_blocks s3 f = file_blocks s f @ [i]" using R3(1) wg(3) ag(3) by (simp add: appended_def)
  have "file_data s2 f = file_data s f" using wg(4) [of f] ag(4) assms(2) by (simp add: a(1))
  then have "file_data s3 f = file_data s f @ pad_block d"
    using wg(3) ag(3) by (simp add: file_data_def fb rest) (simp add: s2)
  moreover have "grow {f} s s3" using grow_trans [OF ag(1) grow_trans [OF wg(1) R3(2)]] .
  moreover have "isize (cinode (cinodes s3 f)) = isize (cinode (cinodes s f)) + of_nat len"
    using R3(1) by (simp add: appended_def s2 a(1))
  ultimately show ?thesis using R3(3) fb rest n(1) by (intro exI [of _ R3]) (simp add: s2 a(1))
qed


subsection \<open>New inodes and links\<close>

lemma new_file_ok:
  assumes "data_ok X s R T" and "alloc_cache_inode rl 0 type s = Inr (f, s1)" and "type \<noteq> SFS_TYPE_FILE \<Longrightarrow> T rl = None"
  shows "\<exists>R1. data_ok (if type = SFS_TYPE_FILE then insert f X else X) s1 R1 T \<and> grow {} s s1 \<and> f = n_cinodes s \<and>
    n_cinodes s1 = Suc f \<and> itype (cinode (cinodes s1 f)) = type \<and> ci_real (cinodes s1 f) = rl \<and>
    isize (cinode (cinodes s1 f)) = 0 \<and> file_blocks s1 f = [] \<and> subpaths s1 = subpaths s"
proof -
  have wf: "wf s R" using assms(1) by (simp add: data_ok_def)
  obtain i sa where a: "sfs_alloc_ino s = Inr (i, sa)" and f: "f = n_cinodes s"
    and s1: "s1 = sa\<lparr>cinodes := (cinodes sa)(f := \<lparr>cinode = empty_inode type, ci_real = rl, ci_ino = i, ci_nblks = 0, ci_l1 = None, ci_l2 = None\<rparr>),
      n_cinodes := f + 1, ihash := (ihash sa)(hash64 rl := f # ihash sa (hash64 rl))\<rparr>"
    using assms(2) by (auto simp: alloc_cache_inode_def kbind_eq_Inr_iff Let_def sfs_alloc_ino_def split: if_splits)
  note al = alloc_ino_ok [OF a wf] and ag = alloc_grow [OF a assms(1)]
  let ?R1 = "R(i \<mapsto> Inode_Of f)"
  have oka: "store_ok sa R" using al(3) by (simp add: wf_def)
  have na: "n_cinodes sa = f" by (simp add: al(1) f)
  have role: "fstep 0 R sa ?R1 sa" using fstep_role [OF oka al(4-6)] .
  then have oka1: "store_ok sa ?R1" and le: "R \<subseteq>\<^sub>m ?R1" by (simp_all add: fstep_def)
  have core: "index_at s1 x = index_at sa x" "cached s1 co x = cached sa co x" for x co
    by (simp_all add: index_at_def cached_def s1 cong: option.case_cong)
  then have ia: "index_at s1 = index_at sa" by (intro ext)
  have fb: "first_blk s1 = first_blk sa" by (rule first_blk_cong) (simp add: s1)
  have root: "sfs_root sa < f" using oka na unfolding store_ok_def by auto
  have ih: "set (ihash s1 h) = {g. g < n_cinodes s1 \<and> hash64 (ci_real (cinodes s1 g)) = h}" for h
  proof -
    have "set (ihash sa h) = {g. g < f \<and> hash64 (ci_real (cinodes sa g)) = h}" using oka na unfolding store_ok_def by blast
    then have "x \<in> set (ihash sa h) \<longleftrightarrow> x < f \<and> hash64 (ci_real (cinodes sa x)) = h" for x by simp
    then show ?thesis by (intro set_eqI) (simp add: s1 less_Suc_eq, metis less_irrefl)
  qed
  have ci: "?R1 (ci_ino (cinodes s1 g)) = Some (Inode_Of g)" if "g < n_cinodes s1" for g
  proof (cases "g = f")
    case False
    then have "g < n_cinodes sa" using that by (simp add: s1 na)
    then have "?R1 (ci_ino (cinodes sa g)) = Some (Inode_Of g)" using oka1 unfolding store_ok_def by blast
    then show ?thesis using False by (simp only: s1) simp
  qed (simp add: s1)
  have "store_ok s1 ?R1"
    using oka1 ci ih root unfolding store_ok_def fb by (simp add: s1 na)
  moreover have old: "blk s1 g k = blk sa g k" "file_ok s1 ?R1 g" if "g < f" for g k
  proof -
    show b: "blk s1 g k = blk sa g k" for k using that by (simp add: blk_def ia) (simp add: s1)
    have "file_ok sa R g" using al(3) that na by (simp add: wf_def)
    moreover have "cinodes s1 g = cinodes sa g" "ninos s1 = ninos sa" using that by (simp_all add: s1)
    moreover have "index_ok sa R x r \<Longrightarrow> index_ok s1 ?R1 x r" for x r
      using al(4) core(2) by (auto simp: index_ok_def)
    moreover have "R x = Some r \<Longrightarrow> ?R1 x = Some r" for x r using le by (rule map_le_Some)
    ultimately show "file_ok s1 ?R1 g" unfolding file_ok_def Let_def b ia core(2) by auto
  qed
  moreover have "file_ok s1 ?R1 f" by (simp add: file_ok_def Let_def s1 empty_inode_def sfs_sizes) (use oka al(6) in \<open>auto simp: store_ok_def al(1)\<close>)
  ultimately have wf1: "wf s1 ?R1" by (auto simp: wf_def s1 less_Suc_eq)
  have fbl: "file_blocks s1 g = file_blocks sa g" if "g < f" for g
    using old(1) [OF that] that by (simp add: file_blocks_def) (simp add: s1)
  have g1: "grow {} sa s1" unfolding grow_def using fbl by (auto simp: na s1 same_head_def)
  let ?X = "if type = SFS_TYPE_FILE then insert f X else X"
  have isf: "is_file s1 f \<longleftrightarrow> type = SFS_TYPE_FILE" by (simp add: is_file_def s1 empty_inode_def)
  have new: "if is_file s1 f then f \<in> ?X \<or> (\<exists>bs. T (ci_real (cinodes s1 f)) = Some bs \<and> has_data s1 f bs)
      else T (ci_real (cinodes s1 f)) = None" using assms(3) unfolding isf by (simp add: s1)
  have olds: "if is_file s1 g then g \<in> ?X \<or> (\<exists>bs. T (ci_real (cinodes s1 g)) = Some bs \<and> has_data s1 g bs)
      else T (ci_real (cinodes s1 g)) = None" if g: "g < f" for g
  proof -
    have "if is_file sa g then g \<in> X \<or> (\<exists>bs. T (ci_real (cinodes sa g)) = Some bs \<and> has_data sa g bs)
      else T (ci_real (cinodes sa g)) = None" using ag(2) g na unfolding data_ok_def by blast
    moreover have "cinodes s1 g = cinodes sa g" using g by (simp add: s1)
    ultimately show ?thesis using grow_is_file [OF g1, of g] grow_data(3) [OF g1, of g] g na by auto
  qed
  have "iblocks (cinode (cinodes s1 g)) = of_nat (ci_nblks (cinodes s1 g))" if "g < Suc f" for g
    using ag(2) na that by (cases "g = f") (simp_all add: data_ok_def s1 empty_inode_def)
  moreover have "length (entry_name s1) = SFS_MAX_FNAME_LEN + 1" "\<forall>b. length (img s1 b) = SFS_BLKSIZE"
    using ag(2) by (simp_all add: data_ok_def s1)
  moreover have "n_cinodes s1 = Suc f" by (simp add: s1)
  ultimately have "data_ok ?X s1 ?R1 T"
    unfolding data_ok_def using wf1 new olds by (metis less_Suc_eq)
  moreover have "file_blocks s1 f = []" by (simp add: file_blocks_def s1)
  ultimately show ?thesis
    using grow_trans [OF ag(1) g1] f by (intro exI [of _ ?R1]) (simp add: s1 al(1) empty_inode_def)
qed

lemma link_count_ok:
  assumes "data_ok X s R T"
  shows "data_ok X (on_inode f (\<lambda>i. i\<lparr>inlinks := inlinks i + 1\<rparr>) s) R T"
    and "grow D s (on_inode f (\<lambda>i. i\<lparr>inlinks := inlinks i + 1\<rparr>) s)"
    and "file_blocks (on_inode f (\<lambda>i. i\<lparr>inlinks := inlinks i + 1\<rparr>) s) g = file_blocks s g"
proof -
  let ?s = "on_inode f (\<lambda>i. i\<lparr>inlinks := inlinks i + 1\<rparr>) s"
  have wf: "wf s R" using assms by (simp add: data_ok_def)
  have ia: "index_at ?s = index_at s" by (intro ext) (simp add: on_inode_on_ci)
  have b: "blk ?s g k = blk s g k" for g k by (simp add: blk_def ia) (simp add: on_inode_on_ci file_block_def)
  then have b': "blk ?s g = blk s g" for g by (intro ext)
  have "ci_nblks (cinodes ?s g) = ci_nblks (cinodes s g)" for g by (simp add: on_inode_on_ci)
  then show fb: "file_blocks ?s g = file_blocks s g" for g by (simp only: file_blocks_def b')
  show g: "grow D s ?s" for D unfolding grow_def fb by (simp add: on_inode_on_ci same_head_def)
  have "store_ok ?s R" using wf unfolding on_inode_on_ci by (intro on_ci_ok) (simp_all add: wf_def)
  moreover have "file_ok ?s R g = file_ok s R g" for g
    unfolding file_ok_def Let_def b ia index_ok_def by (simp add: on_inode_on_ci)
  ultimately have "wf ?s R" using wf by (simp add: wf_def on_inode_on_ci)
  then show "data_ok X ?s R T"
    by (rule data_ok_grow [OF assms g [of "{}"]]) (use assms in \<open>auto simp: on_inode_on_ci data_ok_def\<close>)
qed

subsection \<open>Bytes of numbers and entries\<close>

definition rd32 :: "byte list \<Rightarrow> nat \<Rightarrow> nat" where
  "rd32 b k = unat (b ! k) + 256 * unat (b ! (k + 1)) + 65536 * unat (b ! (k + 2)) + 16777216 * unat (b ! (k + 3))"

lemma length_le [simp]: "length (le32 w) = 4" "length (le_nat n) = 4" "length (le16 v) = 2"
  by (simp_all add: le32_def le_nat_def le16_def)

lemma rd32_le32:
  "rd32 (xs @ le32 w @ ys) (length xs) = unat w"
proof -
  define n where "n = unat w"
  have n: "n < 4294967296" using unsigned_less [of w] by (simp add: n_def)
  have b: "unat (ucast (drop_bit k w) :: byte) = (n div 2 ^ k) mod 256" for k
    by (simp add: n_def unsigned_ucast_eq take_bit_eq_mod unat_drop_bit_eq) (simp add: drop_bit_eq_div)
  have "rd32 (xs @ le32 w @ ys) (length xs) =
      n mod 256 + 256 * ((n div 256) mod 256) + 65536 * ((n div 65536) mod 256) + 16777216 * ((n div 16777216) mod 256)"
    using b [of 0] b [of 8] b [of 16] b [of 24] by (simp add: rd32_def le32_def nth_append)
  also have "\<dots> = n"
  proof -
    have q: "n div 65536 = n div 256 div 256" "n div 16777216 = n div 256 div 256 div 256"
      by (simp_all add: div_mult2_eq [symmetric])
    have "n div 16777216 mod 256 = n div 16777216" using n by (simp add: less_mult_imp_div_less)
    then show ?thesis
      using div_mult_mod_eq [of n 256] div_mult_mod_eq [of "n div 256" 256] div_mult_mod_eq [of "n div 256 div 256" 256]
      unfolding q by linarith
  qed
  finally show ?thesis by (simp add: n_def)
qed

lemma rd32_le_nat: "n < 2 ^ 32 \<Longrightarrow> rd32 (xs @ le_nat n @ ys) (length xs) = n"
  by (simp add: le_nat_def rd32_le32 unat_of_nat_small)

text \<open>A directory entry, as a reader of the image finds it in its block.\<close>

definition img_entry :: "byte list \<Rightarrow> nat \<times> byte list" where
  "img_entry b = (rd32 b 0, takeWhile (\<lambda>c. c \<noteq> 0) (take (SFS_MAX_FNAME_LEN + 1) (drop 4 b)))"

definition name_ok :: "byte list \<Rightarrow> bool" where
  "name_ok name \<longleftrightarrow> 0 \<notin> set name \<and> length name \<le> 252"

lemma entry_bytes:
  assumes "n < 2 ^ 32" and "0 \<notin> set name" and "length name \<le> 255" and "length rest = 255 - length name"
  shows "img_entry (pad_block (take 256 (le_nat n @ name @ 0 # rest))) = (n, take 252 name)"
proof -
  have 1: "take 256 (le_nat n @ name @ 0 # rest) = le_nat n @ take 252 (name @ 0 # rest)"
    by (simp add: take_append)
  let ?z = "replicate (4096 - 256) 0 :: byte list"
  have len: "length (take 252 (name @ 0 # rest)) = 252" using assms(3,4) by simp
  have p: "pad_block (take 256 (le_nat n @ name @ 0 # rest)) = [] @ le_nat n @ take 252 (name @ 0 # rest) @ ?z"
    unfolding 1 pad_block_def using len by (simp add: sfs_sizes)
  have d: "drop 4 ([] @ le_nat n @ ys) = ys" for ys by simp
  have t: "take 256 (take 252 (name @ 0 # rest) @ ?z) = take 252 (name @ 0 # rest) @ replicate 4 0"
    using len by (simp add: take_append)
  have fl: "SFS_MAX_FNAME_LEN + 1 = 256" by (simp add: sfs_sizes)
  have "takeWhile (\<lambda>c. c \<noteq> 0) (take 252 (name @ 0 # rest) @ replicate 4 0) = take 252 name"
  proof (cases "length name \<le> 251")
    case True
    then have "take 252 (name @ 0 # rest) = name @ 0 # take (251 - length name) rest"
      by (simp add: take_append Suc_diff_le take_Cons')
    then show ?thesis using assms(2) True by (auto simp: takeWhile_append takeWhile_eq_all_conv)
  next
    case False
    then have e: "take 252 (name @ 0 # rest) = take 252 name" by (simp add: take_append)
    have z: "\<forall>c\<in>set (take 252 name). c \<noteq> 0" using assms(2) by (auto dest: in_set_takeD)
    have "replicate 4 (0::byte) = 0 # replicate 3 0" by (simp add: numeral_eq_Suc)
    then show ?thesis unfolding e using z by (simp add: takeWhile_append takeWhile_eq_all_conv)
  qed
  then have "takeWhile (\<lambda>c. c \<noteq> 0) (take (SFS_MAX_FNAME_LEN + 1) (take 252 (name @ 0 # rest) @ ?z)) = take 252 name"
    unfolding fl t .
  moreover have "rd32 ([] @ le_nat n @ take 252 (name @ 0 # rest) @ ?z) 0 = n"
    using rd32_le_nat [OF assms(1), of "[]"] by simp
  ultimately show ?thesis unfolding img_entry_def p d by blast
qed


subsection \<open>Entries, files and links\<close>

definition entries :: "sfs_fs \<Rightarrow> nat \<Rightarrow> (nat \<times> byte list) list" where
  "entries s f = map (\<lambda>b. img_entry (img s b)) (file_blocks s f)"

lemma grow_entries:
  assumes "grow D s s'" and "f < n_cinodes s" and "f \<notin> D"
  shows "entries s' f = entries s f"
proof -
  have "\<forall>b\<in>set (file_blocks s f). img s' b = img s b" using assms(1,2) unfolding grow_def by blast
  then show ?thesis by (simp add: entries_def grow_data(1) [OF assms])
qed

lemma ci_ino_bound: "wf s R \<Longrightarrow> f < n_cinodes s \<Longrightarrow> ci_ino (cinodes s f) < 2 ^ 32"
proof -
  assume wf: "wf s R" and f: "f < n_cinodes s"
  have ok: "store_ok s R" using wf by (simp add: wf_def)
  have "R (ci_ino (cinodes s f)) = Some (Inode_Of f)" using ok f unfolding store_ok_def by blast
  then have "ci_ino (cinodes s f) < next_ino s" using store_okD(1) [OF ok] by blast
  also have "next_ino s \<le> 524288" using ok unfolding store_ok_def by (simp add: sfs_sizes)
  finally show ?thesis by simp
qed

lemma add_entry_cases:
  assumes "add_entry cur f name s = Inr s'"
  obtains e s2 s3 s4 where "itype (cinode (cinodes s cur)) = SFS_TYPE_DIR" and "length name \<le> 255"
    and "sfs_alloc_ino (s\<lparr>entry_name := name @ 0 # drop (length name + 1) (entry_name s)\<rparr>) = Inr (e, s2)"
    and "write_block (take 256 (le_nat (ci_ino (cinodes s2 f)) @ entry_name s2)) e s2 = Inr s3"
    and "append_block cur 256 e s3 = Inr s4" and "s' = on_inode f (\<lambda>i. i\<lparr>inlinks := inlinks i + 1\<rparr>) s4"
proof -
  have n: "SFS_MAX_FNAME_LEN = 255" "(255 :: nat) + 1 = 256" by (simp_all add: sfs_sizes)
  show ?thesis
    using assms that unfolding add_entry_def Let_def n by (auto simp: kbind_eq_Inr_iff)
qed

lemma add_entry_ok:
  assumes "data_ok X s R T" and "cur < n_cinodes s" and "f < n_cinodes s" and "0 \<notin> set name"
    and "add_entry cur f name s = Inr s'"
  shows "\<exists>R'. data_ok X s' R' T \<and> grow {cur} s s' \<and> n_cinodes s' = n_cinodes s \<and> subpaths s' = subpaths s \<and>
    itype (cinode (cinodes s cur)) = SFS_TYPE_DIR \<and>
    entries s' cur = entries s cur @ [(ci_ino (cinodes s f), take 252 name)] \<and>
    isize (cinode (cinodes s' cur)) = isize (cinode (cinodes s cur)) + 256"
proof -
  let ?rest = "drop (length name + 1) (entry_name s)"
  let ?s1 = "s\<lparr>entry_name := name @ 0 # ?rest\<rparr>"
  obtain e s2 s3 s4 where dir: "itype (cinode (cinodes s cur)) = SFS_TYPE_DIR" and len: "length name \<le> 255"
    and a: "sfs_alloc_ino ?s1 = Inr (e, s2)"
    and w: "write_block (take 256 (le_nat (ci_ino (cinodes s2 f)) @ entry_name s2)) e s2 = Inr s3"
    and ap: "append_block cur 256 e s3 = Inr s4" and s': "s' = on_inode f (\<lambda>i. i\<lparr>inlinks := inlinks i + 1\<rparr>) s4"
    using add_entry_cases [OF assms(5)] by blast
  have wf: "wf s R" and en: "length (entry_name s) = 256" using assms(1) by (simp_all add: data_ok_def sfs_sizes)
  have fb1: "file_blocks ?s1 g = file_blocks s g" for g by (rule core_cong) simp_all
  have g1: "grow {} s ?s1" unfolding grow_def fb1 by (simp add: same_head_def)
  have "store_ok ?s1 R" using wf unfolding wf_def store_ok_def by (simp add: first_blk_def)
  moreover have "file_ok ?s1 R g = file_ok s R g" for g by (rule core_cong) simp_all
  ultimately have "wf ?s1 R" using wf by (simp add: wf_def)
  then have d1: "data_ok X ?s1 R T"
    by (rule data_ok_grow [OF assms(1) g1]) (use assms(1) len en in \<open>auto simp: data_ok_def sfs_sizes\<close>)
  have n: "cur < n_cinodes ?s1" using assms(2) by simp
  have nf: "is_file ?s1 cur \<Longrightarrow> cur \<in> X" using dir by (simp add: is_file_def SFS_TYPE_FILE_def SFS_TYPE_DIR_def)
  obtain R4 where R4: "data_ok X s4 R4 T" "grow {cur} ?s1 s4" "n_cinodes s4 = n_cinodes ?s1"
    "file_blocks s4 cur = file_blocks ?s1 cur @ [e]" "img s4 e = pad_block (take 256 (le_nat (ci_ino (cinodes s2 f)) @ entry_name s2))"
    "isize (cinode (cinodes s4 cur)) = isize (cinode (cinodes ?s1 cur)) + of_nat 256" "subpaths s4 = subpaths ?s1"
    using put_block_ok [OF d1 n nf a w ap] by blast
  have s2: "cinodes s2 = cinodes s" "entry_name s2 = name @ 0 # ?rest"
    using a by (auto simp: sfs_alloc_ino_def split: if_splits)
  have "img_entry (img s4 e) = (ci_ino (cinodes s f), take 252 name)"
    unfolding R4(5) s2 by (rule entry_bytes [OF ci_ino_bound [OF wf assms(3)] assms(4) len]) (use en in simp)
  moreover have "\<forall>b\<in>set (file_blocks s cur). img s4 b = img s b"
    using R4(2) assms(2) fb1 [of cur] unfolding grow_def by auto
  ultimately have e4: "entries s4 cur = entries s cur @ [(ci_ino (cinodes s f), take 252 name)]"
    using R4(4) fb1 [of cur] by (simp add: entries_def)
  note lk = link_count_ok [OF R4(1)]
  have "entries s' cur = entries s4 cur" unfolding entries_def s' lk(3) by (simp add: on_inode_on_ci)
  moreover have "grow {cur} s s'"
    unfolding s' using grow_trans [OF grow_mono [OF g1] grow_trans [OF R4(2) lk(2)]] by simp
  moreover have "isize (cinode (cinodes s' cur)) = isize (cinode (cinodes s cur)) + 256" "n_cinodes s' = n_cinodes s" "subpaths s' = subpaths s"
    using R4(3,6,7) by (cases "cur = f"; simp add: s' on_inode_on_ci)+
  moreover have "data_ok X s' R4 T" unfolding s' by (rule lk(1))
  ultimately show ?thesis using e4 dir by (intro exI [of _ R4]) simp
qed

lemma file_loop_ok:
  assumes "data_ok X s R T" and "f < n_cinodes s" and "f \<in> X" and "file_loop f chunks fails last_len s = Inr s'"
    and "isize (cinode (cinodes s f)) = of_nat (length bs)" and "take (length bs) (file_data s f) = bs"
    and "last_len = SFS_BLKSIZE \<Longrightarrow> file_data s f = bs"
  shows "\<exists>R'. data_ok X s' R' T \<and> grow {f} s s' \<and> n_cinodes s' = n_cinodes s \<and> subpaths s' = subpaths s \<and>
    has_data s' f (bs @ concat chunks)"
  using assms
proof (induction chunks arbitrary: s R last_len bs)
  case Nil
  then have "s' = s" by (auto simp: kbind_eq_Inr_iff split: if_splits)
  then show ?case using Nil.prems by (intro exI [of _ R]) (simp add: has_data_def)
next
  case (Cons chunk chunks)
  obtain i s1 s2 s3 where l: "last_len = SFS_BLKSIZE" and a: "sfs_alloc_ino s = Inr (i, s1)" and w: "write_block chunk i s1 = Inr s2"
    and ap: "append_block f (length chunk) i s2 = Inr s3" and r: "file_loop f chunks fails (length chunk) s3 = Inr s'"
    using Cons.prems(4) by (auto simp: kbind_eq_Inr_iff)
  obtain R3 where R3: "data_ok X s3 R3 T" "grow {f} s s3" "n_cinodes s3 = n_cinodes s" "file_data s3 f = file_data s f @ pad_block chunk"
    "isize (cinode (cinodes s3 f)) = isize (cinode (cinodes s f)) + of_nat (length chunk)" "subpaths s3 = subpaths s"
    using put_block_ok [OF Cons.prems(1,2) _ a w ap] Cons.prems(3) by blast
  have fd: "file_data s3 f = (bs @ chunk) @ replicate (SFS_BLKSIZE - length chunk) 0"
    using R3(4) Cons.prems(7) [OF l] by (simp add: pad_block_def)
  have "isize (cinode (cinodes s3 f)) = of_nat (length (bs @ chunk))" using R3(5) Cons.prems(5) by simp
  moreover have "take (length (bs @ chunk)) (file_data s3 f) = bs @ chunk" unfolding fd by simp
  moreover have "length chunk = SFS_BLKSIZE \<Longrightarrow> file_data s3 f = bs @ chunk" unfolding fd by simp
  ultimately obtain R' where "data_ok X s' R' T" "grow {f} s3 s'" "n_cinodes s' = n_cinodes s3" "subpaths s' = subpaths s3"
    "has_data s' f ((bs @ chunk) @ concat chunks)"
    using Cons.IH [OF R3(1) _ Cons.prems(3) r] Cons.prems(2) R3(3) by metis
  then show ?case using R3 grow_trans [OF R3(2)] by auto
qed

lemma finish_file: 
  assumes "data_ok (insert f X) s R T" and "T (ci_real (cinodes s f)) = Some bs" and "has_data s f bs"
  shows "data_ok X s R T"
  using assms unfolding data_ok_def by (metis insertE)

lemma search_inode:
  assumes "wf s R"
  shows "search_cache_inode rl s = Some f \<Longrightarrow> f < n_cinodes s \<and> ci_real (cinodes s f) = rl"
proof -
  assume "search_cache_inode rl s = Some f"
  then have "f \<in> set (ihash s (hash64 rl))" "ci_real (cinodes s f) = rl"
    by (auto simp: search_cache_inode_def find_Some_iff)
  then show "f < n_cinodes s \<and> ci_real (cinodes s f) = rl" using assms unfolding wf_def store_ok_def by auto
qed

lemma add_file_ok:
  assumes "data_ok {} s R T" and "cur < n_cinodes s" and "0 \<notin> set name" and "T rl = Some (concat chunks)"
    and "add_file cur name rl chunks fails s = Inr s'"
  shows "\<exists>R' f. data_ok {} s' R' T \<and> grow {cur} s s' \<and> subpaths s' = subpaths s \<and> f < n_cinodes s' \<and> is_file s' f \<and>
    has_data s' f (concat chunks) \<and> entries s' cur = entries s cur @ [(ci_ino (cinodes s' f), take 252 name)] \<and>
    isize (cinode (cinodes s' cur)) = isize (cinode (cinodes s cur)) + 256"
proof -
  have wf: "wf s R" using assms(1) by (simp add: data_ok_def)
  obtain f s3 where c: "(case search_cache_inode rl s of Some f \<Rightarrow> Inr (f, s)
            | None \<Rightarrow> kbind (alloc_cache_inode rl 0 SFS_TYPE_FILE s) (\<lambda>(f, s1).
                kbind (open_file f chunks fails s1) (\<lambda>s2. Inr (f, s2)))) = Inr (f, s3)"
    and e: "add_entry cur f name s3 = Inr s'"
    using assms(5) unfolding add_file_def by (auto simp: kbind_eq_Inr_iff)
  have "\<exists>R3. data_ok {} s3 R3 T \<and> grow {} s s3 \<and> subpaths s3 = subpaths s \<and> f < n_cinodes s3 \<and> is_file s3 f \<and> has_data s3 f (concat chunks)"
  proof (cases "search_cache_inode rl s")
    case (Some g)
    then have gf: "g = f" "s3 = s" using c by simp_all
    have f: "f < n_cinodes s" "ci_real (cinodes s f) = rl" using search_inode [OF wf Some] gf by simp_all
    have "if is_file s f then f \<in> {} \<or> (\<exists>bs. T (ci_real (cinodes s f)) = Some bs \<and> has_data s f bs)
        else T (ci_real (cinodes s f)) = None" using assms(1) f(1) unfolding data_ok_def by blast
    then have "is_file s f" "has_data s f (concat chunks)" using f(2) assms(4) by (auto split: if_splits)
    then show ?thesis using assms(1) f(1) unfolding gf by (intro exI [of _ R]) simp
  next
    case None
    then obtain s1 where n: "alloc_cache_inode rl 0 SFS_TYPE_FILE s = Inr (f, s1)" and o: "file_loop f chunks fails SFS_BLKSIZE s1 = Inr s3"
      using c by (auto simp: kbind_eq_Inr_iff open_file_def)
    obtain R1 where R1: "data_ok {f} s1 R1 T" "grow {} s s1" "f = n_cinodes s" "n_cinodes s1 = Suc f"
      "itype (cinode (cinodes s1 f)) = SFS_TYPE_FILE" "ci_real (cinodes s1 f) = rl" "isize (cinode (cinodes s1 f)) = 0" "file_blocks s1 f = []"
      "subpaths s1 = subpaths s"
      using new_file_ok [OF assms(1) n] by auto
    have "file_data s1 f = []" by (simp add: file_data_def R1(8))
    then obtain R3 where R3: "data_ok {f} s3 R3 T" "grow {f} s1 s3" "n_cinodes s3 = n_cinodes s1" "subpaths s3 = subpaths s1" "has_data s3 f (concat chunks)"
      using file_loop_ok [OF R1(1) _ _ o, of "[]"] R1(4,7) by auto
    have h: "same_head (cinodes s1 f) (cinodes s3 f)" using grow_head [OF R3(2)] R1(4) by simp
    have "data_ok {} s3 R3 T" by (rule finish_file [OF R3(1) _ R3(5)]) (use h R1(6) assms(4) in \<open>simp add: same_head_def\<close>)
    moreover have "grow {} s s3"
      using grow_trans [OF grow_mono [OF R1(2), of "{f}"] R3(2)] R1(3) by (simp add: grow_new)
    ultimately show ?thesis using R1(4,5,9) R3(3-5) h by (auto simp: is_file_def same_head_def)
  qed
  then obtain R3 where R3: "data_ok {} s3 R3 T" "grow {} s s3" "subpaths s3 = subpaths s" "f < n_cinodes s3" "is_file s3 f" "has_data s3 f (concat chunks)"
    by blast
  have cur3: "cur < n_cinodes s3" using R3(2) assms(2) by (simp add: grow_def)
  obtain R' where R': "data_ok {} s' R' T" "grow {cur} s3 s'" "n_cinodes s' = n_cinodes s3" "subpaths s' = subpaths s3"
    "itype (cinode (cinodes s3 cur)) = SFS_TYPE_DIR" "entries s' cur = entries s3 cur @ [(ci_ino (cinodes s3 f), take 252 name)]"
    "isize (cinode (cinodes s' cur)) = isize (cinode (cinodes s3 cur)) + 256"
    using add_entry_ok [OF R3(1) cur3 R3(4) assms(3) e] by blast
  have ne: "f \<noteq> cur" using R3(5) R'(5) by (auto simp: is_file_def SFS_TYPE_FILE_def SFS_TYPE_DIR_def)
  have "ci_ino (cinodes s' f) = ci_ino (cinodes s3 f)" using grow_head [OF R'(2) R3(4)] by (simp add: same_head_def)
  moreover have "entries s3 cur = entries s cur" "isize (cinode (cinodes s3 cur)) = isize (cinode (cinodes s cur))"
    using grow_entries [OF R3(2) assms(2)] R3(2) assms(2) unfolding grow_def by auto
  moreover have "has_data s' f (concat chunks)" using grow_data(3) [OF R'(2) R3(4)] ne R3(6) by simp
  moreover have "is_file s' f" using grow_is_file [OF R'(2) R3(4)] R3(5) by simp
  ultimately show ?thesis
    using R' R3(3,4) grow_trans [OF grow_mono [OF R3(2), of "{cur}"] R'(2)] by (intro exI [of _ R'] exI [of _ f]) simp
qed

lemma add_link_ok:
  assumes "data_ok {} s R T" and "cur < n_cinodes s" and "0 \<notin> set name" and "T rl = None"
    and "add_link cur name rl target s = Inr s'"
  shows "\<exists>R' f t. data_ok {} s' R' T \<and> grow {cur} s s' \<and> subpaths s' = subpaths s \<and> f < n_cinodes s' \<and> target = Some t \<and>
    itype (cinode (cinodes s' f)) = SFS_TYPE_LINK \<and>
    has_data s' f t \<and> entries s' cur = entries s cur @ [(ci_ino (cinodes s' f), take 252 name)] \<and>
    isize (cinode (cinodes s' cur)) = isize (cinode (cinodes s cur)) + 256"
proof -
  obtain f s1 s2 where n: "alloc_cache_inode rl 0 SFS_TYPE_LINK s = Inr (f, s1)" and o: "open_link f target s1 = Inr s2"
    and e: "add_entry cur f name s2 = Inr s'"
    using assms(5) unfolding add_link_def by (auto simp: kbind_eq_Inr_iff)
  obtain i sa sb t where a: "sfs_alloc_ino s1 = Inr (i, sa)" and t: "target = Some t" and w: "write_block t i sa = Inr sb"
    and ap: "append_block f (length t) i sb = Inr s2"
    using o by (auto simp: open_link_def kbind_eq_Inr_iff split: option.splits if_splits)
  have ty: "SFS_TYPE_LINK \<noteq> SFS_TYPE_FILE" "SFS_TYPE_LINK \<noteq> SFS_TYPE_DIR" by (simp_all add: SFS_TYPE_FILE_def SFS_TYPE_LINK_def SFS_TYPE_DIR_def)
  obtain R1 where R1: "data_ok {} s1 R1 T" "grow {} s s1" "f = n_cinodes s" "n_cinodes s1 = Suc f"
    "itype (cinode (cinodes s1 f)) = SFS_TYPE_LINK" "isize (cinode (cinodes s1 f)) = 0" "file_blocks s1 f = []" "subpaths s1 = subpaths s"
    using new_file_ok [OF assms(1) n] assms(4) ty by auto
  have f1: "f < n_cinodes s1" and nf: "is_file s1 f \<Longrightarrow> f \<in> {}" using R1(4,5) ty by (simp_all add: is_file_def)
  obtain R2 where R2: "data_ok {} s2 R2 T" "grow {f} s1 s2" "n_cinodes s2 = n_cinodes s1" "file_data s2 f = file_data s1 f @ pad_block t"
    "isize (cinode (cinodes s2 f)) = isize (cinode (cinodes s1 f)) + of_nat (length t)" "subpaths s2 = subpaths s1"
    using put_block_ok [OF R1(1) f1 nf a w ap] by blast
  have hd2: "has_data s2 f t" using R2(4,5) R1(6,7) by (simp add: has_data_def file_data_def pad_block_def)
  have g2: "grow {} s s2"
    using grow_trans [OF grow_mono [OF R1(2), of "{f}"] R2(2)] R1(3) by (simp add: grow_new)
  have n2: "cur < n_cinodes s2" "f < n_cinodes s2" using R1(3,4) R2(3) assms(2) by simp_all
  obtain R' where R': "data_ok {} s' R' T" "grow {cur} s2 s'" "n_cinodes s' = n_cinodes s2" "subpaths s' = subpaths s2"
    "entries s' cur = entries s2 cur @ [(ci_ino (cinodes s2 f), take 252 name)]"
    "isize (cinode (cinodes s' cur)) = isize (cinode (cinodes s2 cur)) + 256"
    using add_entry_ok [OF R2(1) n2 assms(3) e] by blast
  have ne: "f \<noteq> cur" using R1(3) assms(2) by simp
  have "ci_ino (cinodes s' f) = ci_ino (cinodes s2 f)" "itype (cinode (cinodes s' f)) = SFS_TYPE_LINK"
    using grow_head [OF R'(2) n2(2)] grow_head [OF R2(2) f1] R1(5) by (simp_all add: same_head_def)
  moreover have "entries s2 cur = entries s cur" "isize (cinode (cinodes s2 cur)) = isize (cinode (cinodes s cur))"
    using grow_entries [OF g2 assms(2)] g2 assms(2) unfolding grow_def by auto
  moreover have "has_data s' f t" using grow_data(3) [OF R'(2) n2(2)] ne hd2 by simp
  ultimately show ?thesis
    using R' R1(8) R2(6) t n2(2) grow_trans [OF grow_mono [OF g2, of "{cur}"] R'(2)]
    by (intro exI [of _ R'] exI [of _ f] exI [of _ t]) simp
qed


subsection \<open>Directories\<close>

definition kept :: "(byte list \<times> host) list \<Rightarrow> (byte list \<times> host) list" where
  "kept es = filter (\<lambda>(name, h). \<not> skipped name \<and> h \<noteq> Host_Other) es"

text \<open>
  The caches of the program hold a node of the host in the file \<open>f\<close>, with the parent \<open>p\<close>;
  directories are numbered from \<open>m\<close> on.
\<close>

inductive holds :: "sfs_fs \<Rightarrow> nat \<Rightarrow> nat \<Rightarrow> nat \<Rightarrow> host \<Rightarrow> bool" for s where
  holds_file: "f < n_cinodes s \<Longrightarrow> is_file s f \<Longrightarrow> has_data s f (concat chunks) \<Longrightarrow>
    holds s m p f (Host_File rl chunks fails)"
| holds_link: "f < n_cinodes s \<Longrightarrow> itype (cinode (cinodes s f)) = SFS_TYPE_LINK \<Longrightarrow> has_data s f t \<Longrightarrow>
    holds s m p f (Host_Link rl (Some t))"
| holds_dir: "f < n_cinodes s \<Longrightarrow> p < n_cinodes s \<Longrightarrow> m \<le> f \<Longrightarrow> itype (cinode (cinodes s f)) = SFS_TYPE_DIR \<Longrightarrow>
    length cs = length (kept es) \<Longrightarrow>
    entries s f = (ci_ino (cinodes s f), [46]) # (ci_ino (cinodes s p), [46, 46]) #
      zip (map (\<lambda>c. ci_ino (cinodes s c)) cs) (map fst (kept es)) \<Longrightarrow>
    isize (cinode (cinodes s f)) = of_nat (256 * (length (kept es) + 2)) \<Longrightarrow>
    (\<And>k. k < length cs \<Longrightarrow> holds s (Suc f) f (cs ! k) (snd (kept es ! k))) \<Longrightarrow>
    holds s m p f (Host_Dir rl es)"

lemma holds_in: "holds s m p f h \<Longrightarrow> f < n_cinodes s"
  by (induction rule: holds.induct) auto

lemma holds_grow:
  assumes "holds s m p f h" and "grow D s s'"
    and "\<And>d. d \<in> D \<Longrightarrow> d < m \<and> itype (cinode (cinodes s d)) = SFS_TYPE_DIR"
  shows "holds s' m p f h"
  using assms
proof (induction rule: holds.induct)
  case (holds_file f chunks m p rl fails)
  have "f \<notin> D" using holds_file by (auto simp: is_file_def SFS_TYPE_FILE_def SFS_TYPE_DIR_def)
  then show ?case
    using holds_file grow_data(3) [OF holds_file.prems(1)] grow_is_file [OF holds_file.prems(1)]
    by (intro holds.holds_file) (auto simp: grow_def)
next
  case (holds_link f t m p rl)
  have "f \<notin> D" using holds_link by (auto simp: SFS_TYPE_LINK_def SFS_TYPE_DIR_def)
  then show ?case
    using holds_link grow_data(3) [OF holds_link.prems(1)] grow_head [OF holds_link.prems(1)]
    by (intro holds.holds_link) (auto simp: grow_def same_head_def)
next
  case (holds_dir f p m cs es rl)
  have nd: "f \<notin> D" using holds_dir.prems(2) [of f] holds_dir.hyps(3) by auto
  have n: "n_cinodes s \<le> n_cinodes s'" using holds_dir.prems(1) by (simp add: grow_def)
  have h: "ci_ino (cinodes s' g) = ci_ino (cinodes s g)" "itype (cinode (cinodes s' g)) = itype (cinode (cinodes s g))"
    if "g < n_cinodes s" for g using grow_head [OF holds_dir.prems(1) that] by (simp_all add: same_head_def)
  have sub: "holds s' (Suc f) f (cs ! k) (snd (kept es ! k))" if "k < length cs" for k
  proof -
    have "d < Suc f \<and> itype (cinode (cinodes s d)) = SFS_TYPE_DIR" if "d \<in> D" for d
      using holds_dir.prems(2) [OF that] holds_dir.hyps(3) by simp
    then show ?thesis using holds_dir.IH [OF that] holds_dir.prems(1) by blast
  qed
  have "c < n_cinodes s" if "c \<in> set cs" for c
  proof -
    obtain k where "k < length cs" "c = cs ! k" using \<open>c \<in> set cs\<close> by (metis in_set_conv_nth)
    then show ?thesis using holds_in [OF holds_dir.hyps(8)] by simp
  qed
  then have m: "map (\<lambda>c. ci_ino (cinodes s' c)) cs = map (\<lambda>c. ci_ino (cinodes s c)) cs" using h by simp
  have "zip (map (\<lambda>c. ci_ino (cinodes s' c)) cs) ns = zip (map (\<lambda>c. ci_ino (cinodes s c)) cs) ns" for ns :: "byte list list"
    by (simp only: m)
  moreover have "isize (cinode (cinodes s' f)) = isize (cinode (cinodes s f))"
    using holds_dir.prems(1) holds_dir.hyps(1) nd unfolding grow_def by blast
  ultimately show ?case
    using holds_dir.hyps(1-7) h n grow_entries [OF holds_dir.prems(1) holds_dir.hyps(1) nd] sub
    by (intro holds.holds_dir [of f _ p m cs]) simp_all
qed

lemma holds_mono: "holds s m p f h \<Longrightarrow> m' \<le> m \<Longrightarrow> holds s m' p f h"
  by (cases s m p f h rule: holds.cases) (auto intro: holds.intros)

text \<open>
  What is asked of the host: \<open>T\<close> gives the bytes of a regular file by its number, so that two
  names of one file agree; directories and links have numbers of their own; names have no NUL
  and at most 252 characters.
\<close>

fun host_ok :: "(64 word \<Rightarrow> byte list option) \<Rightarrow> (byte list \<times> host) list \<Rightarrow> bool" where
  "host_ok T [] = True"
| "host_ok T ((name, h) # es) =
     ((skipped name \<or> name_ok name \<and> (case h of
         Host_File rl chunks fails \<Rightarrow> T rl = Some (concat chunks)
       | Host_Link rl target \<Rightarrow> T rl = None
       | Host_Dir rl es' \<Rightarrow> T rl = None \<and> host_ok T es'
       | Host_Other \<Rightarrow> True
       | Host_Closed \<Rightarrow> True)) \<and> host_ok T es)"

text \<open>The entries that a part of the loop adds to the directory \<open>cur\<close>.\<close>

definition adds :: "nat \<Rightarrow> (byte list \<times> host) list \<Rightarrow> sfs_fs \<Rightarrow> sfs_fs \<Rightarrow> nat list \<Rightarrow> bool" where
  "adds cur xs s s' cs \<longleftrightarrow> length cs = length xs \<and>
     entries s' cur = entries s cur @ zip (map (\<lambda>c. ci_ino (cinodes s' c)) cs) (map fst xs) \<and>
     isize (cinode (cinodes s' cur)) = isize (cinode (cinodes s cur)) + of_nat (256 * length xs) \<and>
     (\<forall>k<length cs. holds s' (Suc cur) cur (cs ! k) (snd (xs ! k)))"

lemma adds_nil: "adds cur [] s s []"
  by (simp add: adds_def)

lemma adds_cons:
  assumes "adds cur [x] s s1 [c]" and "adds cur xs s1 s2 cs" and "grow {cur} s1 s2"
    and "cur < n_cinodes s1" and "itype (cinode (cinodes s1 cur)) = SFS_TYPE_DIR"
  shows "adds cur (x # xs) s s2 (c # cs)"
proof -
  have h: "holds s1 (Suc cur) cur c (snd x)" using assms(1) by (simp add: adds_def)
  have "holds s2 (Suc cur) cur c (snd x)" by (rule holds_grow [OF h assms(3)]) (simp add: assms(5))
  moreover have "ci_ino (cinodes s2 c) = ci_ino (cinodes s1 c)"
    using grow_head [OF assms(3) holds_in [OF h]] by (simp add: same_head_def)
  ultimately show ?thesis using assms(1,2) by (auto simp: adds_def nth_Cons split: nat.splits)
qed

lemma dir_head_ok:
  assumes "data_ok {} s R T" and "cur < n_cinodes s" and "p < n_cinodes s" and "dir_head cur p s = Inr s'"
  shows "\<exists>R'. data_ok {} s' R' T \<and> grow {cur} s s' \<and> subpaths s' = subpaths s \<and> n_cinodes s' = n_cinodes s \<and>
    itype (cinode (cinodes s' cur)) = SFS_TYPE_DIR \<and>
    entries s' cur = entries s cur @ [(ci_ino (cinodes s cur), [46]), (ci_ino (cinodes s p), [46, 46])] \<and>
    isize (cinode (cinodes s' cur)) = isize (cinode (cinodes s cur)) + 512"
proof -
  obtain s1 where a: "add_entry cur cur [46] s = Inr s1" and b: "add_entry cur p [46, 46] s1 = Inr s'"
    using assms(4) by (auto simp: dir_head_def kbind_eq_Inr_iff)
  obtain R1 where R1: "data_ok {} s1 R1 T" "grow {cur} s s1" "n_cinodes s1 = n_cinodes s" "subpaths s1 = subpaths s"
    "itype (cinode (cinodes s cur)) = SFS_TYPE_DIR" "entries s1 cur = entries s cur @ [(ci_ino (cinodes s cur), [46])]"
    "isize (cinode (cinodes s1 cur)) = isize (cinode (cinodes s cur)) + 256"
    using add_entry_ok [OF assms(1,2,2) _ a] by auto
  have n1: "cur < n_cinodes s1" "p < n_cinodes s1" using R1(3) assms(2,3) by simp_all
  obtain R2 where R2: "data_ok {} s' R2 T" "grow {cur} s1 s'" "n_cinodes s' = n_cinodes s1" "subpaths s' = subpaths s1"
    "entries s' cur = entries s1 cur @ [(ci_ino (cinodes s1 p), [46, 46])]"
    "isize (cinode (cinodes s' cur)) = isize (cinode (cinodes s1 cur)) + 256"
    using add_entry_ok [OF R1(1) n1 _ b] by auto
  have "ci_ino (cinodes s1 p) = ci_ino (cinodes s p)" using grow_head [OF R1(2) assms(3)] by (simp add: same_head_def)
  moreover have "itype (cinode (cinodes s' cur)) = SFS_TYPE_DIR"
    using grow_head [OF R1(2) assms(2)] grow_head [OF R2(2) n1(1)] R1(5) by (simp add: same_head_def)
  ultimately show ?thesis using R1 R2 grow_trans [OF R1(2) R2(2)] by (intro exI [of _ R2]) simp
qed


lemma grow_type: "grow D s s' \<Longrightarrow> f < n_cinodes s \<Longrightarrow> itype (cinode (cinodes s' f)) = itype (cinode (cinodes s f))"
  by (auto dest: grow_head simp: same_head_def)

lemma grow_isize:
  "grow D s s' \<Longrightarrow> f < n_cinodes s \<Longrightarrow> f \<notin> D \<Longrightarrow> isize (cinode (cinodes s' f)) = isize (cinode (cinodes s f))"
  unfolding grow_def by blast

lemma take_name: "name_ok name \<Longrightarrow> take 252 name = name \<and> 0 \<notin> set name"
  by (simp add: name_ok_def)

lemma adds_file:
  assumes "data_ok {} s R T" and "cur < n_cinodes s" and "name_ok name" and "T rl = Some (concat chunks)"
    and "add_file cur name rl chunks fails s = Inr s'"
  shows "\<exists>R' c. data_ok {} s' R' T \<and> grow {cur} s s' \<and> subpaths s' = subpaths s \<and>
    adds cur [(name, Host_File rl chunks fails)] s s' [c]"
proof -
  note nm = take_name [OF assms(3)]
  obtain R' f where r: "data_ok {} s' R' T" "grow {cur} s s'" "subpaths s' = subpaths s" "f < n_cinodes s'" "is_file s' f"
    "has_data s' f (concat chunks)" "entries s' cur = entries s cur @ [(ci_ino (cinodes s' f), take 252 name)]"
    "isize (cinode (cinodes s' cur)) = isize (cinode (cinodes s cur)) + 256"
    using add_file_ok [OF assms(1,2) _ assms(4,5)] nm by blast
  then show ?thesis using nm by (intro exI [of _ R'] exI [of _ f]) (auto simp: adds_def intro: holds_file)
qed

lemma adds_link:
  assumes "data_ok {} s R T" and "cur < n_cinodes s" and "name_ok name" and "T rl = None"
    and "add_link cur name rl target s = Inr s'"
  shows "\<exists>R' c. data_ok {} s' R' T \<and> grow {cur} s s' \<and> subpaths s' = subpaths s \<and>
    adds cur [(name, Host_Link rl target)] s s' [c]"
proof -
  note nm = take_name [OF assms(3)]
  obtain R' f t where r: "data_ok {} s' R' T" "grow {cur} s s'" "subpaths s' = subpaths s" "f < n_cinodes s'" "target = Some t"
    "itype (cinode (cinodes s' f)) = SFS_TYPE_LINK" "has_data s' f t"
    "entries s' cur = entries s cur @ [(ci_ino (cinodes s' f), take 252 name)]"
    "isize (cinode (cinodes s' cur)) = isize (cinode (cinodes s cur)) + 256"
    using add_link_ok [OF assms(1,2) _ assms(4,5)] nm by blast
  then show ?thesis using nm by (intro exI [of _ R'] exI [of _ f]) (auto simp: adds_def intro: holds_link)
qed

text \<open>A directory between its start and its end, for what its own loop does.\<close>

lemma adds_dir:
  assumes "data_ok {} s R T" and "cur < n_cinodes s" and "name_ok name" and "T rl = None"
    and "add_dir_enter name rl s = Inr (d, s1)" and "dir_head d cur s1 = Inr s2" and "dir_loop d es s2 = Inr s3"
    and "add_dir_leave cur d name s3 = Inr s'"
    and step: "\<And>R2. data_ok {} s2 R2 T \<Longrightarrow> d < n_cinodes s2 \<Longrightarrow> itype (cinode (cinodes s2 d)) = SFS_TYPE_DIR \<Longrightarrow>
      \<exists>R3 cs. data_ok {} s3 R3 T \<and> grow {d} s2 s3 \<and> subpaths s3 = subpaths s2 \<and> adds d (kept es) s2 s3 cs"
  shows "\<exists>R' c. data_ok {} s' R' T \<and> grow {cur} s s' \<and> subpaths s' = subpaths s \<and>
    adds cur [(name, Host_Dir rl es)] s s' [c]"
proof -
  note nm = take_name [OF assms(3)]
  obtain sa where n: "alloc_cache_inode rl 0 SFS_TYPE_DIR s = Inr (d, sa)" and s1: "s1 = subpath_push name sa"
    using assms(5) by (auto simp: add_dir_enter_def kbind_eq_Inr_iff)
  have ty: "SFS_TYPE_DIR \<noteq> SFS_TYPE_FILE" by (simp add: SFS_TYPE_FILE_def SFS_TYPE_DIR_def)
  obtain Ra where Ra: "data_ok {} sa Ra T" "grow {} s sa" "d = n_cinodes s" "n_cinodes sa = Suc d"
    "itype (cinode (cinodes sa d)) = SFS_TYPE_DIR" "isize (cinode (cinodes sa d)) = 0" "file_blocks sa d = []" "subpaths sa = subpaths s"
    using new_file_ok [OF assms(1) n] assms(4) ty by auto
  have fb1: "file_blocks s1 g = file_blocks sa g" for g unfolding s1 subpath_push_def by (rule core_cong) simp_all
  have g1: "grow {} sa s1" unfolding grow_def fb1 by (simp add: s1 subpath_push_def same_head_def)
  have "wf sa Ra" using Ra(1) by (simp add: data_ok_def)
  moreover have "file_ok s1 R g = file_ok sa R g" for R g unfolding s1 subpath_push_def by (rule core_cong) simp_all
  ultimately have "wf s1 Ra" unfolding wf_def store_ok_def by (simp add: s1 subpath_push_def first_blk_def)
  then have d1: "data_ok {} s1 Ra T"
    by (rule data_ok_grow [OF Ra(1) g1]) (use Ra(1) in \<open>auto simp: data_ok_def s1 subpath_push_def\<close>)
  have n1: "d < n_cinodes s1" "cur < n_cinodes s1" using Ra(3,4) assms(2) by (simp_all add: s1 subpath_push_def)
  obtain R2 where R2: "data_ok {} s2 R2 T" "grow {d} s1 s2" "subpaths s2 = subpaths s1" "n_cinodes s2 = n_cinodes s1"
    "itype (cinode (cinodes s2 d)) = SFS_TYPE_DIR"
    "entries s2 d = entries s1 d @ [(ci_ino (cinodes s1 d), [46]), (ci_ino (cinodes s1 cur), [46, 46])]"
    "isize (cinode (cinodes s2 d)) = isize (cinode (cinodes s1 d)) + 512"
    using dir_head_ok [OF d1 n1 assms(6)] by blast
  have d2: "d < n_cinodes s2" "cur < n_cinodes s2" using R2(4) n1 by simp_all
  obtain R3 cs where R3: "data_ok {} s3 R3 T" "grow {d} s2 s3" "subpaths s3 = subpaths s2" "adds d (kept es) s2 s3 cs"
    using step [OF R2(1) d2(1) R2(5)] by blast
  have n3: "d < n_cinodes s3" "cur < n_cinodes s3" using R3(2) d2 by (auto simp: grow_def)
  have "entries s1 d = []" by (simp add: entries_def fb1 Ra(7))
  moreover have "ci_ino (cinodes s1 d) = ci_ino (cinodes s3 d)" "ci_ino (cinodes s1 cur) = ci_ino (cinodes s3 cur)"
    using grow_head [OF R2(2) n1(1)] grow_head [OF R3(2) d2(1)] grow_head [OF R2(2) n1(2)] grow_head [OF R3(2) d2(2)]
    by (simp_all add: same_head_def)
  moreover have "isize (cinode (cinodes s1 d)) = 0" using Ra(6) by (simp add: s1 subpath_push_def)
  moreover have "itype (cinode (cinodes s3 d)) = SFS_TYPE_DIR" using grow_type [OF R3(2) d2(1)] R2(5) by simp
  ultimately have dir: "holds s3 (Suc cur) cur d (Host_Dir rl es)"
    using R2(6,7) R3(4) n3 Ra(3) assms(2)
    by (intro holds_dir [of d s3 cur _ cs]) (auto simp: adds_def)
  have gs3: "grow {} s s3"
    using grow_trans [OF Ra(2) g1] grow_trans [OF R2(2) R3(2)] grow_trans [OF grow_mono [of "{}" s s1 "{d}"] ] Ra(3)
    by (metis empty_subsetI grow_new order_refl)
  obtain sb where pop: "subpath_pop s3 = Inr sb" and ae: "add_entry cur d name sb = Inr s'"
    using assms(8) by (auto simp: add_dir_leave_def kbind_eq_Inr_iff)
  have sb: "sb = s3\<lparr>subpaths := butlast (subpaths s3)\<rparr>" using pop by (auto simp: subpath_pop_def)
  have fbb: "file_blocks sb g = file_blocks s3 g" for g unfolding sb by (rule core_cong) simp_all
  have gb: "grow {} s3 sb" unfolding grow_def fbb by (simp add: sb same_head_def)
  have "wf s3 R3" using R3(1) by (simp add: data_ok_def)
  moreover have "file_ok sb R g = file_ok s3 R g" for R g unfolding sb by (rule core_cong) simp_all
  ultimately have "wf sb R3" unfolding wf_def store_ok_def by (simp add: sb first_blk_def)
  then have db: "data_ok {} sb R3 T"
    by (rule data_ok_grow [OF R3(1) gb]) (use R3(1) in \<open>auto simp: data_ok_def sb\<close>)
  have nb: "cur < n_cinodes sb" "d < n_cinodes sb" using n3 by (simp_all add: sb)
  obtain R' where R': "data_ok {} s' R' T" "grow {cur} sb s'" "n_cinodes s' = n_cinodes sb" "subpaths s' = subpaths sb"
    "itype (cinode (cinodes sb cur)) = SFS_TYPE_DIR" "entries s' cur = entries sb cur @ [(ci_ino (cinodes sb d), take 252 name)]"
    "isize (cinode (cinodes s' cur)) = isize (cinode (cinodes sb cur)) + 256"
    using add_entry_ok [OF db nb _ ae] nm by blast
  have gsb: "grow {} s sb" using grow_trans [OF gs3 gb] .
  have "holds sb (Suc cur) cur d (Host_Dir rl es)" by (rule holds_grow [OF dir gb]) simp
  then have "holds s' (Suc cur) cur d (Host_Dir rl es)" by (rule holds_grow [OF _ R'(2)]) (simp add: R'(5))
  moreover have "ci_ino (cinodes s' d) = ci_ino (cinodes sb d)" using grow_head [OF R'(2) nb(2)] by (simp add: same_head_def)
  ultimately have "adds cur [(name, Host_Dir rl es)] s s' [d]"
    using R'(6,7) nm grow_entries [OF gsb assms(2)] grow_isize [OF gsb assms(2)] by (simp add: adds_def)
  moreover have "subpaths s' = subpaths s" using R'(4) R3(3) R2(3) Ra(8) by (simp add: sb s1 subpath_push_def)
  moreover have "grow {cur} s s'" using grow_trans [OF grow_mono [OF gsb] R'(2)] by simp
  ultimately show ?thesis using R'(1) by blast
qed

lemma dir_loop_ok:
  assumes "dir_loop cur es s = Inr s'" and "data_ok {} s R T" and "cur < n_cinodes s"
    and "itype (cinode (cinodes s cur)) = SFS_TYPE_DIR" and "host_ok T es"
  shows "\<exists>R' cs. data_ok {} s' R' T \<and> grow {cur} s s' \<and> subpaths s' = subpaths s \<and> adds cur (kept es) s s' cs"
  using assms
proof (induction cur es s arbitrary: s' R rule: dir_loop.induct)
  case (1 cur s)
  then show ?case by (intro exI [of _ R] exI [of _ "[]"]) (auto simp: kept_def adds_nil)
next
  case (2 cur name h es s)
  obtain s1 where s1: "(if skipped name then Inr s
        else if length name > SFS_MAX_FNAME_LEN then Inl Panicked
        else case h of
          Host_Link rl target \<Rightarrow> add_link cur name rl target s
        | Host_Closed \<Rightarrow> Inl Panicked
        | Host_Dir rl es' \<Rightarrow>
            kbind (add_dir_enter name rl s) (\<lambda>(d, s1).
            kbind (dir_head d cur s1) (\<lambda>s2.
            kbind (dir_loop d es' s2) (add_dir_leave cur d name)))
        | Host_File rl chunks fails \<Rightarrow> add_file cur name rl chunks fails s
        | Host_Other \<Rightarrow> Inr s) = Inr s1" and rest: "dir_loop cur es s1 = Inr s'"
    using "2.prems"(1) by (auto simp: kbind_eq_Inr_iff)
  have hes: "host_ok T es" using "2.prems"(5) by simp
  have tail: "\<exists>R' cs. data_ok {} s' R' T \<and> grow {cur} s1 s' \<and> subpaths s' = subpaths s1 \<and> adds cur (kept es) s1 s' cs"
    if "data_ok {} s1 R1 T" "grow {cur} s s1" for R1
    using "2.IH"(2) [OF rest that(1) _ _ hes] grow_type [OF that(2) "2.prems"(3)] "2.prems"(3,4) that(2) by (auto simp: grow_def)
  show ?case
  proof (cases "skipped name \<or> h = Host_Other")
    case True
    then have "s1 = s" using s1 by (auto split: if_splits)
    moreover have "kept ((name, h) # es) = kept es" using True by (auto simp: kept_def)
    ultimately show ?thesis using tail [of R] "2.prems"(2) by simp
  next
    case False
    then have ns: "\<not> skipped name" and k: "kept ((name, h) # es) = (name, h) # kept es" by (auto simp: kept_def)
    have nm: "name_ok name" using "2.prems"(5) ns by simp
    have "\<exists>R1 c. data_ok {} s1 R1 T \<and> grow {cur} s s1 \<and> subpaths s1 = subpaths s \<and> adds cur [(name, h)] s s1 [c]"
    proof (cases h)
      case (Host_File rl chunks fails)
      then show ?thesis
        using adds_file [OF "2.prems"(2,3) nm, of rl chunks fails s1] s1 ns "2.prems"(5) by (auto split: if_splits)
    next
      case (Host_Link rl target)
      then show ?thesis
        using adds_link [OF "2.prems"(2,3) nm, of rl target s1] s1 ns "2.prems"(5) by (auto split: if_splits)
    next
      case (Host_Dir rl es')
      obtain d sa sb sc where c: "add_dir_enter name rl s = Inr (d, sa)" "dir_head d cur sa = Inr sb" "dir_loop d es' sb = Inr sc"
        "add_dir_leave cur d name sc = Inr s1"
        using s1 ns Host_Dir by (auto simp: kbind_eq_Inr_iff split: if_splits)
      have len: "\<not> SFS_MAX_FNAME_LEN < length name" using nm by (simp add: name_ok_def sfs_sizes)
      have he: "T rl = None" "host_ok T es'" using "2.prems"(5) ns Host_Dir by simp_all
      have "\<exists>R3 cs. data_ok {} sc R3 T \<and> grow {d} sb sc \<and> subpaths sc = subpaths sb \<and> adds d (kept es') sb sc cs"
        if "data_ok {} sb R2 T" "d < n_cinodes sb" "itype (cinode (cinodes sb d)) = SFS_TYPE_DIR" for R2
        using "2.IH"(1) [OF ns len Host_Dir c(3) that he(2)] .
      then show ?thesis unfolding Host_Dir by (rule adds_dir [OF "2.prems"(2,3) nm he(1) c])
    qed (use s1 ns False in \<open>auto split: if_splits\<close>)
    then obtain R1 c where R1: "data_ok {} s1 R1 T" "grow {cur} s s1" "subpaths s1 = subpaths s" "adds cur [(name, h)] s s1 [c]"
      by blast
    obtain R' cs where r: "data_ok {} s' R' T" "grow {cur} s1 s'" "subpaths s' = subpaths s1" "adds cur (kept es) s1 s' cs"
      using tail [OF R1(1,2)] by blast
    have "cur < n_cinodes s1" "itype (cinode (cinodes s1 cur)) = SFS_TYPE_DIR"
      using R1(2) "2.prems"(3,4) grow_type [OF R1(2) "2.prems"(3)] by (auto simp: grow_def)
    from adds_cons [OF R1(4) r(4,2) this] show ?thesis unfolding k using r R1(3) grow_trans [OF R1(2) r(2)] by auto
  qed
qed

end
