(* ===== verification/Mksfs_Image.thy ===== *)
theory Mksfs_Image
  imports Mksfs_Tree
begin

text \<open>
  The image that \<open>close_sfs\<close> leaves, and a reader of it that knows nothing of the program: what
  the reader finds in the image is the directory of the host.
\<close>

subsection \<open>Numbers in blocks\<close>

definition rd16 :: "byte list \<Rightarrow> nat \<Rightarrow> nat" where
  "rd16 b k = unat (b ! k) + 256 * unat (b ! (k + 1))"

lemma rd16_le16: "rd16 (xs @ le16 w @ ys) (length xs) = unat w"
proof -
  have n: "unat w < 65536" using unsigned_less [of w] by simp
  have b: "unat (ucast (drop_bit k w) :: byte) = (unat w div 2 ^ k) mod 256" for k
    by (simp add: unsigned_ucast_eq take_bit_eq_mod unat_drop_bit_eq) (simp add: drop_bit_eq_div)
  have "rd16 (xs @ le16 w @ ys) (length xs) = unat w mod 256 + 256 * ((unat w div 256) mod 256)"
    using b [of 0] b [of 8] by (simp add: rd16_def le16_def nth_append)
  also have "(unat w div 256) mod 256 = unat w div 256" using n by (simp add: less_mult_imp_div_less)
  finally show ?thesis by simp
qed

lemma rd32_words:
  "k < length ws \<Longrightarrow> rd32 (xs @ concat (map le32 ws) @ ys) (length xs + 4 * k) = unat (ws ! k)"
proof (induction ws arbitrary: xs k)
  case (Cons w ws)
  show ?case
  proof (cases k)
    case 0
    then show ?thesis using rd32_le32 [of xs w "concat (map le32 ws) @ ys"] by simp
  next
    case (Suc j)
    then show ?thesis using Cons.IH [of j "xs @ le32 w"] Cons.prems by (simp add: algebra_simps)
  qed
qed simp

lemma rd32_nats:
  assumes "k < length ns" and "\<forall>n\<in>set ns. n < 2 ^ 32"
  shows "rd32 (xs @ concat (map le_nat ns) @ ys) (length xs + 4 * k) = ns ! k"
proof -
  have m: "concat (map le_nat ns) = concat (map le32 (map of_nat ns))" by (simp add: le_nat_def [abs_def] comp_def)
  have "ns ! k < 2 ^ 32" using assms by simp
  then show ?thesis using rd32_words [of k "map of_nat ns" xs ys] assms(1) unfolding m by (simp add: unat_of_nat_small)
qed

lemma length_concat_le [simp]:
  "length (concat (map le32 ws)) = 4 * length ws" "length (concat (map le_nat ns)) = 4 * length ns"
  by (induction ws) (simp_all, induction ns, simp_all)

subsection \<open>The reader\<close>

definition img_inode :: "byte list \<Rightarrow> sfs_inode" where
  "img_inode b = \<lparr>isize = of_nat (rd32 b 0), itype = of_nat (rd16 b 4), inlinks = of_nat (rd16 b 6), iblocks = of_nat (rd32 b 8),
     idirect = map (\<lambda>k. rd32 b (12 + 4 * k)) [0..<SFS_NDIRECT], iindirect = rd32 b 60, idb_indirect = rd32 b 64\<rparr>"

definition img_index :: "byte list \<Rightarrow> nat list" where
  "img_index b = map (\<lambda>k. rd32 b (4 * k)) [0..<SFS_BLK_NENTRY]"

definition img_blocks :: "(nat \<Rightarrow> byte list) \<Rightarrow> nat \<Rightarrow> nat list" where
  "img_blocks im i = (let nd = img_inode (im i) in
     map (file_block (\<lambda>j. img_index (im j)) nd) [0..<unat (iblocks nd)])"

definition img_data :: "(nat \<Rightarrow> byte list) \<Rightarrow> nat \<Rightarrow> byte list" where
  "img_data im i = take (unat (isize (img_inode (im i)))) (concat (map im (img_blocks im i)))"

text \<open>The bit of block \<open>x\<close> in the free map.\<close>

definition img_free :: "(nat \<Rightarrow> byte list) \<Rightarrow> nat \<Rightarrow> bool" where
  "img_free im x = bit (of_nat (rd32 (im (SFS_BLKN_FREEMAP + x div SFS_BLKBITS)) (4 * ((x mod SFS_BLKBITS) div 32))) :: 32 word)
     (x mod 32)"

text \<open>The inode \<open>i\<close> of the image, in the directory \<open>p\<close>, is this node of the host.\<close>

inductive img_holds :: "(nat \<Rightarrow> byte list) \<Rightarrow> nat \<Rightarrow> nat \<Rightarrow> host \<Rightarrow> bool" for im where
  img_file: "itype (img_inode (im i)) = SFS_TYPE_FILE \<Longrightarrow> img_data im i = concat chunks \<Longrightarrow>
    img_holds im p i (Host_File rl chunks fails)"
| img_link: "itype (img_inode (im i)) = SFS_TYPE_LINK \<Longrightarrow> img_data im i = t \<Longrightarrow>
    img_holds im p i (Host_Link rl (Some t))"
| img_dir: "itype (img_inode (im i)) = SFS_TYPE_DIR \<Longrightarrow> length inos = length (kept es) \<Longrightarrow>
    map (\<lambda>b. img_entry (im b)) (img_blocks im i) = (i, [46]) # (p, [46, 46]) # zip inos (map fst (kept es)) \<Longrightarrow>
    (\<And>k. k < length inos \<Longrightarrow> img_holds im i (inos ! k) (snd (kept es ! k))) \<Longrightarrow>
    img_holds im p i (Host_Dir rl es)"

lemma img_inode_bytes:
  assumes "length (idirect i) = SFS_NDIRECT" and "\<forall>v\<in>set (idirect i). v < 2 ^ 32" and "iindirect i < 2 ^ 32" and "idb_indirect i < 2 ^ 32"
  shows "img_inode (inode_bytes i @ ys) = i"
proof -
  let ?d = "concat (map le_nat (idirect i))"
  let ?a = "le32 (isize i)" and ?b = "le16 (itype i)" and ?c = "le16 (inlinks i)" and ?e = "le32 (iblocks i)"
  have l: "length ?d = 48" using assms(1) by (simp add: sfs_sizes)
  have v: "inode_bytes i @ ys = ?a @ ?b @ ?c @ ?e @ ?d @ le_nat (iindirect i) @ le_nat (idb_indirect i) @ ys"
    by (simp add: inode_bytes_def)
  have 1: "rd32 (inode_bytes i @ ys) 0 = unat (isize i)" using rd32_le32 [of "[]"] by (simp add: v)
  have 2: "rd16 (inode_bytes i @ ys) 4 = unat (itype i)" using rd16_le16 [of ?a] by (simp add: v)
  have 3: "rd16 (inode_bytes i @ ys) 6 = unat (inlinks i)" using rd16_le16 [of "?a @ ?b"] by (simp add: v)
  have 4: "rd32 (inode_bytes i @ ys) 8 = unat (iblocks i)" using rd32_le32 [of "?a @ ?b @ ?c"] by (simp add: v)
  have 5: "rd32 (inode_bytes i @ ys) (12 + 4 * k) = idirect i ! k" if "k < 12" for k
    using rd32_nats [of k "idirect i" "?a @ ?b @ ?c @ ?e"] that assms(1,2) by (simp add: v sfs_sizes)
  have 6: "rd32 (inode_bytes i @ ys) 60 = iindirect i"
    using rd32_le_nat [OF assms(3), of "?a @ ?b @ ?c @ ?e @ ?d"] l by (simp add: v)
  have 7: "rd32 (inode_bytes i @ ys) 64 = idb_indirect i"
    using rd32_le_nat [OF assms(4), of "?a @ ?b @ ?c @ ?e @ ?d @ le_nat (iindirect i)"] l by (simp add: v)
  have "map (\<lambda>k. rd32 (inode_bytes i @ ys) (12 + 4 * k)) [0..<SFS_NDIRECT] = idirect i"
    by (rule nth_equalityI) (use assms(1) 5 in \<open>auto simp: sfs_sizes\<close>)
  then show ?thesis by (simp add: img_inode_def 1 2 3 4 6 7)
qed

lemma img_index_bytes:
  assumes "length ns = SFS_BLK_NENTRY" and "\<forall>n\<in>set ns. n < 2 ^ 32"
  shows "img_index (concat (map le_nat ns)) = ns"
  unfolding img_index_def
  by (rule nth_equalityI) (use assms rd32_nats [of _ ns "[]" "[]"] in auto)

subsection \<open>The free map\<close>

lemma set_bits_length [simp]: "length (set_bits j n data) = length data"
  by (induction j n data rule: set_bits.induct) simp_all

lemma set_bits_bit:
  assumes "j + n \<le> 32 * length data" and "w < length data" and "b < 32"
  shows "bit (set_bits j n data ! w) b \<longleftrightarrow> bit (data ! w) b \<or> j \<le> 32 * w + b \<and> 32 * w + b < j + n"
  using assms
proof (induction j n data rule: set_bits.induct)
  case (2 j n data)
  let ?d = "data[j div 32 := data ! (j div 32) OR push_bit (j mod 32) 1]"
  have jl: "j div 32 < length data" using "2.prems"(1) by (simp add: less_mult_imp_div_less)
  have "bit (?d ! w) b \<longleftrightarrow> bit (data ! w) b \<or> j = 32 * w + b"
  proof (cases "w = j div 32")
    case True
    have "bit (push_bit (j mod 32) 1 :: 32 word) b \<longleftrightarrow> b = j mod 32"
      using "2.prems"(3) by (auto simp: bit_exp_iff)
    moreover have "j = 32 * w + b \<longleftrightarrow> b = j mod 32" using True "2.prems"(3) by presburger
    ultimately show ?thesis using True jl by (auto simp: bit_or_iff simp del: push_bit_of_1)
  next
    case False
    then have "j \<noteq> 32 * w + b" using "2.prems"(3) by auto
    then show ?thesis using False by simp
  qed
  then show ?case using "2.IH" "2.prems" by (auto simp: less_Suc_eq_le)
qed auto

lemma freemap_words_bit:
  assumes "y < SFS_BLKBITS" and "i < n"
  shows "bit (freemap_words n nxt i ! (y div 32)) (y mod 32) \<longleftrightarrow> nxt \<le> i + y \<and> i + y < n"
proof -
  have y: "y div 32 < 1024" "32 * (y div 32) + y mod 32 = y" using assms(1) by (auto simp: sfs_sizes)
  have z: "\<not> bit (replicate 1024 (0 :: 32 word) ! (y div 32)) (y mod 32)" using y(1) by simp
  note b = set_bits_bit [of _ _ "replicate 1024 0" "y div 32" "y mod 32", unfolded y(2)]
  show ?thesis
    using assms y(1) z by (auto simp: freemap_words_def Let_def sfs_sizes b)
qed

lemma freemap_words_length: "length (freemap_words n nxt i) = 1024"
  by (simp add: freemap_words_def Let_def sfs_sizes)

definition fm_block :: "nat \<Rightarrow> nat \<Rightarrow> nat \<Rightarrow> byte list" where
  "fm_block n nxt i = concat (map le32 (freemap_words n nxt i))"

lemma write_block_full:
  "length d = SFS_BLKSIZE \<Longrightarrow> i < ninos s \<Longrightarrow> write_block d i s = Inr (s\<lparr>img := (img s)(i := d)\<rparr>)"
  by (simp add: write_block_def)

lemma freemap_loop_ok:
  assumes "\<forall>k. i + k * SFS_BLKBITS < ninos s \<longrightarrow> ino + k < ninos s"
  shows "\<exists>im. freemap_loop i ino s = Inr (s\<lparr>img := im\<rparr>) \<and>
    (\<forall>x. im x = (if ino \<le> x \<and> i + (x - ino) * SFS_BLKBITS < ninos s
       then fm_block (ninos s) (next_ino s) (i + (x - ino) * SFS_BLKBITS) else img s x))"
  using assms
proof (induction i ino s rule: freemap_loop.induct)
  case (1 i ino s)
  show ?case
  proof (cases "i < ninos s")
    case False
    then show ?thesis by (intro exI [of _ "img s"]) (simp add: freemap_loop.simps [of i ino s])
  next
    case True
    let ?d = "fm_block (ninos s) (next_ino s) i"
    let ?s1 = "s\<lparr>img := (img s)(ino := ?d)\<rparr>"
    have "ino < ninos s" using "1.prems" [rule_format, of 0] True by simp
    then have w: "write_block (concat (map le32 (freemap_words (ninos s) (next_ino s) i))) ino s = Inr ?s1"
      using write_block_full [of ?d ino s] freemap_words_length by (simp add: fm_block_def sfs_sizes)
    have "\<forall>k. i + SFS_BLKBITS + k * SFS_BLKBITS < ninos ?s1 \<longrightarrow> ino + 1 + k < ninos ?s1"
      using "1.prems" [rule_format, of "Suc _"] by (simp add: add.assoc)
    then obtain im where im: "freemap_loop (i + SFS_BLKBITS) (ino + 1) ?s1 = Inr (?s1\<lparr>img := im\<rparr>)"
      "\<forall>x. im x = (if ino + 1 \<le> x \<and> i + SFS_BLKBITS + (x - (ino + 1)) * SFS_BLKBITS < ninos s
         then fm_block (ninos s) (next_ino s) (i + SFS_BLKBITS + (x - (ino + 1)) * SFS_BLKBITS) else img ?s1 x)"
      using "1.IH" [OF True w] by auto
    have step: "i + SFS_BLKBITS + (x - (ino + 1)) * SFS_BLKBITS = i + (x - ino) * SFS_BLKBITS" if "ino + 1 \<le> x" for x
    proof -
      have "x - ino = Suc (x - (ino + 1))" using that by simp
      then show ?thesis by simp
    qed
    have "im x = (if ino \<le> x \<and> i + (x - ino) * SFS_BLKBITS < ninos s
       then fm_block (ninos s) (next_ino s) (i + (x - ino) * SFS_BLKBITS) else img s x)" for x
    proof (cases "ino + 1 \<le> x")
      case c: True
      then have "ino \<le> x" "x \<noteq> ino" by simp_all
      then show ?thesis using im(2) [rule_format, of x, unfolded step [OF c]] c by simp
    next
      case False
      then show ?thesis using im(2) [rule_format, of x] True by (cases "x = ino") auto
    qed
    moreover have "freemap_loop i ino s = Inr (s\<lparr>img := im\<rparr>)"
      using im(1) w True by (simp add: freemap_loop.simps [of i ino s])
    ultimately show ?thesis by blast
  qed
qed


subsection \<open>Flushing the caches\<close>

text \<open>What is written to the block \<open>x\<close>, by its role.\<close>

definition flushed :: "sfs_fs \<Rightarrow> roles \<Rightarrow> nat \<Rightarrow> byte list" where
  "flushed s R x = (case R x of Some (Inode_Of f) \<Rightarrow> pad_block (inode_bytes (cinode (cinodes s f)))
     | _ \<Rightarrow> pad_block (concat (map le_nat (index_at s x))))"

lemma flush_blocks_ok:
  assumes "\<forall>c\<in>set cs. length (cache (cblocks s c)) = SFS_BLK_NENTRY \<and> cb_ino (cblocks s c) < ninos s \<and>
      pad_block (concat (map le_nat (cache (cblocks s c)))) = W (cb_ino (cblocks s c))"
  shows "flush_blocks cs s = Inr (s\<lparr>img := (\<lambda>x. if x \<in> (\<lambda>c. cb_ino (cblocks s c)) ` set cs then W x else img s x)\<rparr>)"
  using assms
proof (induction cs arbitrary: s)
  case (Cons c cs)
  let ?i = "cb_ino (cblocks s c)"
  let ?s1 = "s\<lparr>img := (img s)(?i := W ?i)\<rparr>"
  have "length (cache (cblocks s c)) = SFS_BLK_NENTRY" "?i < ninos s" "pad_block (concat (map le_nat (cache (cblocks s c)))) = W ?i"
    using Cons.prems by simp_all
  then have 1: "flush_cache_block c s = Inr ?s1" by (simp add: flush_cache_block_def write_block_eq sfs_sizes)
  have "flush_blocks cs ?s1 = Inr (?s1\<lparr>img := (\<lambda>x. if x \<in> (\<lambda>c. cb_ino (cblocks ?s1 c)) ` set cs then W x else img ?s1 x)\<rparr>)"
    by (rule Cons.IH) (use Cons.prems in simp)
  moreover have "(\<lambda>x. if x \<in> (\<lambda>c. cb_ino (cblocks ?s1 c)) ` set cs then W x else img ?s1 x) =
      (\<lambda>x. if x \<in> (\<lambda>c. cb_ino (cblocks s c)) ` set (c # cs) then W x else img s x)" by (intro ext) auto
  ultimately show ?case by (simp add: 1)
qed simp

lemma length_inode_bytes: "length (idirect i) = SFS_NDIRECT \<Longrightarrow> length (inode_bytes i) = 68"
  by (simp add: inode_bytes_def sfs_sizes)

lemma flush_inodes_ok:
  assumes "\<forall>f\<in>set fs. length (idirect (cinode (cinodes s f))) = SFS_NDIRECT \<and> ci_ino (cinodes s f) < ninos s \<and>
      pad_block (inode_bytes (cinode (cinodes s f))) = W (ci_ino (cinodes s f))"
  shows "flush_inodes fs s = Inr (s\<lparr>img := (\<lambda>x. if x \<in> (\<lambda>f. ci_ino (cinodes s f)) ` set fs then W x else img s x)\<rparr>)"
  using assms
proof (induction fs arbitrary: s)
  case (Cons f fs)
  let ?i = "ci_ino (cinodes s f)"
  let ?s1 = "s\<lparr>img := (img s)(?i := W ?i)\<rparr>"
  have "length (inode_bytes (cinode (cinodes s f))) = 68" "?i < ninos s" "pad_block (inode_bytes (cinode (cinodes s f))) = W ?i"
    using Cons.prems by (simp_all add: length_inode_bytes)
  then have 1: "flush_cache_inode f s = Inr ?s1" by (simp add: flush_cache_inode_def write_block_eq sfs_sizes)
  have "flush_inodes fs ?s1 = Inr (?s1\<lparr>img := (\<lambda>x. if x \<in> (\<lambda>f. ci_ino (cinodes ?s1 f)) ` set fs then W x else img ?s1 x)\<rparr>)"
    by (rule Cons.IH) (use Cons.prems in simp)
  moreover have "(\<lambda>x. if x \<in> (\<lambda>f. ci_ino (cinodes ?s1 f)) ` set fs then W x else img ?s1 x) =
      (\<lambda>x. if x \<in> (\<lambda>f. ci_ino (cinodes s f)) ` set (f # fs) then W x else img s x)" by (intro ext) auto
  ultimately show ?case by (simp add: 1)
qed simp

text \<open>What the chains \<open>i\<close> to \<open>i + n - 1\<close> hold.\<close>

definition chained :: "sfs_fs \<Rightarrow> nat \<Rightarrow> nat \<Rightarrow> nat set" where
  "chained s i n = (\<Union>h\<in>{i..<i + n}. (\<lambda>c. cb_ino (cblocks s c)) ` set (bhash s h) \<union> (\<lambda>f. ci_ino (cinodes s f)) ` set (ihash s h))"

lemma chained_Suc:
  "chained s i (Suc n) = (\<lambda>c. cb_ino (cblocks s c)) ` set (bhash s i) \<union> (\<lambda>f. ci_ino (cinodes s f)) ` set (ihash s i) \<union> chained s (Suc i) n"
proof -
  have "{i..<i + Suc n} = insert i {Suc i..<Suc i + n}" by auto
  then show ?thesis by (simp add: chained_def)
qed

lemma flush_chains_ok:
  assumes "\<And>h c. c \<in> set (bhash s h) \<Longrightarrow> length (cache (cblocks s c)) = SFS_BLK_NENTRY \<and> cb_ino (cblocks s c) < ninos s \<and>
      pad_block (concat (map le_nat (cache (cblocks s c)))) = W (cb_ino (cblocks s c))"
    and "\<And>h f. f \<in> set (ihash s h) \<Longrightarrow> length (idirect (cinode (cinodes s f))) = SFS_NDIRECT \<and> ci_ino (cinodes s f) < ninos s \<and>
      pad_block (inode_bytes (cinode (cinodes s f))) = W (ci_ino (cinodes s f))"
  shows "flush_chains i n s = Inr (s\<lparr>img := (\<lambda>x. if x \<in> chained s i n then W x else img s x)\<rparr>)"
  using assms
proof (induction n arbitrary: i s)
  case 0
  then show ?case by (simp add: chained_def)
next
  case (Suc n)
  let ?A = "(\<lambda>c. cb_ino (cblocks s c)) ` set (bhash s i)" and ?B = "(\<lambda>f. ci_ino (cinodes s f)) ` set (ihash s i)"
  let ?s1 = "s\<lparr>img := (\<lambda>x. if x \<in> ?A then W x else img s x)\<rparr>"
  let ?s2 = "?s1\<lparr>img := (\<lambda>x. if x \<in> ?B then W x else img ?s1 x)\<rparr>"
  have 1: "flush_blocks (bhash s i) s = Inr ?s1" by (rule flush_blocks_ok) (use Suc.prems(1) in blast)
  have "flush_inodes (ihash s i) ?s1 = Inr (?s1\<lparr>img := (\<lambda>x. if x \<in> (\<lambda>f. ci_ino (cinodes ?s1 f)) ` set (ihash s i) then W x else img ?s1 x)\<rparr>)"
    by (rule flush_inodes_ok) (use Suc.prems(2) in simp)
  then have 2: "flush_inodes (ihash ?s1 i) ?s1 = Inr ?s2" by simp
  have "flush_chains (Suc i) n ?s2 = Inr (?s2\<lparr>img := (\<lambda>x. if x \<in> chained ?s2 (Suc i) n then W x else img ?s2 x)\<rparr>)"
    by (rule Suc.IH) (use Suc.prems in simp_all)
  moreover have "(\<lambda>x. if x \<in> chained ?s2 (Suc i) n then W x else img ?s2 x) = (\<lambda>x. if x \<in> chained s i (Suc n) then W x else img s x)"
    unfolding chained_Suc by (intro ext) (simp add: chained_def)
  ultimately show ?case using 1 2 by simp
qed


lemma hash64_less: "hash64 rl < HASH_LIST_SIZE"
proof -
  have "unat (drop_bit 22 w) < 1024" for w :: "32 word"
  proof -
    have "unat w < 1024 * 2 ^ 22" using unsigned_less [of w] by simp
    then have "unat w div 2 ^ 22 < 1024" by (rule less_mult_imp_div_less)
    then show ?thesis unfolding unat_drop_bit_eq unfolding drop_bit_eq_div .
  qed
  then show ?thesis by (simp add: hash64_def hash32_bits_def HASH_SHIFT_def HASH_LIST_SIZE_def)
qed

text \<open>The blocks of the caches.\<close>

definition cache_blocks :: "sfs_fs \<Rightarrow> nat set" where
  "cache_blocks s = (\<lambda>c. cb_ino (cblocks s c)) ` {..<n_cblocks s} \<union> (\<lambda>f. ci_ino (cinodes s f)) ` {..<n_cinodes s}"

lemma chained_all:
  assumes "store_ok s R"
  shows "chained s 0 HASH_LIST_SIZE = cache_blocks s"
proof -
  have b: "set (bhash s h) = (if h = 0 then {..<n_cblocks s} else {})"
    and i: "set (ihash s h) = {f. f < n_cinodes s \<and> hash64 (ci_real (cinodes s f)) = h}" for h
    using assms unfolding store_ok_def by blast+
  have z: "0 < HASH_LIST_SIZE" by (simp add: HASH_LIST_SIZE_def)
  show ?thesis
    unfolding chained_def cache_blocks_def
  proof (intro equalityI subsetI)
    fix x assume "x \<in> (\<lambda>c. cb_ino (cblocks s c)) ` {..<n_cblocks s} \<union> (\<lambda>f. ci_ino (cinodes s f)) ` {..<n_cinodes s}"
    then consider "x \<in> (\<lambda>c. cb_ino (cblocks s c)) ` set (bhash s 0)"
      | f where "f \<in> set (ihash s (hash64 (ci_real (cinodes s f))))" "x = ci_ino (cinodes s f)"
      using b [of 0] i by fastforce
    then show "x \<in> (\<Union>h\<in>{0..<0 + HASH_LIST_SIZE}. (\<lambda>c. cb_ino (cblocks s c)) ` set (bhash s h) \<union> (\<lambda>f. ci_ino (cinodes s f)) ` set (ihash s h))"
    proof cases
      case 1
      then show ?thesis using z by (intro UN_I [of 0]) auto
    next
      case (2 f)
      then show ?thesis using hash64_less by (intro UN_I [of "hash64 (ci_real (cinodes s f))"]) auto
    qed
  qed (use b i in \<open>auto split: if_splits\<close>)
qed

lemma flushed_index:
  assumes "store_ok s R" and "c < n_cblocks s"
  shows "flushed s R (cb_ino (cblocks s c)) = pad_block (concat (map le_nat (cache (cblocks s c))))"
    and "length (cache (cblocks s c)) = SFS_BLK_NENTRY" and "cb_ino (cblocks s c) < ninos s"
proof -
  obtain r where r: "R (cb_ino (cblocks s c)) = Some r" "index_role r" using assms unfolding store_ok_def by blast
  show "flushed s R (cb_ino (cblocks s c)) = pad_block (concat (map le_nat (cache (cblocks s c))))"
    using r index_at_cached [OF assms] by (cases r) (simp_all add: flushed_def)
  show "length (cache (cblocks s c)) = SFS_BLK_NENTRY" using assms unfolding store_ok_def by blast
  have "next_ino s \<le> ninos s" using assms(1) by (simp add: store_ok_def)
  then show "cb_ino (cblocks s c) < ninos s" using store_okD(1) [OF assms(1) r(1)] by simp
qed

lemma flushed_inode:
  assumes "wf s R" and "f < n_cinodes s"
  shows "flushed s R (ci_ino (cinodes s f)) = pad_block (inode_bytes (cinode (cinodes s f)))"
    and "length (idirect (cinode (cinodes s f))) = SFS_NDIRECT" and "ci_ino (cinodes s f) < ninos s"
proof -
  have ok: "store_ok s R" using assms(1) by (simp add: wf_def)
  have r: "R (ci_ino (cinodes s f)) = Some (Inode_Of f)" using ok assms(2) unfolding store_ok_def by blast
  then show "flushed s R (ci_ino (cinodes s f)) = pad_block (inode_bytes (cinode (cinodes s f)))" by (simp add: flushed_def)
  have "file_ok s R f" using assms by (simp add: wf_def)
  then show "length (idirect (cinode (cinodes s f))) = SFS_NDIRECT" by (rule file_okD(2) [OF _ refl refl])
  have "next_ino s \<le> ninos s" using ok by (simp add: store_ok_def)
  then show "ci_ino (cinodes s f) < ninos s" using store_okD(1) [OF ok r] by simp
qed

text \<open>The blocks of the image after \<open>close_sfs\<close>.\<close>

definition closed_img :: "sfs_fs \<Rightarrow> roles \<Rightarrow> nat \<Rightarrow> byte list" where
  "closed_img s R x =
     (if x \<in> cache_blocks s then flushed s R x
      else if x = SFS_BLKN_SUPER then pad_block (super_bytes s)
      else if SFS_BLKN_FREEMAP \<le> x \<and> x < first_blk s
      then fm_block (ninos s) (next_ino s) ((x - SFS_BLKN_FREEMAP) * SFS_BLKBITS)
      else img s x)"

lemma super_length: "length (super_bytes s) = 44"
  by (simp add: super_bytes_def sfs_info_def sfs_sizes)

lemma below_first_blk: "2 + k < first_blk s \<longleftrightarrow> k * SFS_BLKBITS < ninos s"
  by (simp add: first_blk_def sfs_sizes) linarith

lemma close_ok:
  assumes "wf s R"
  shows "close_sfs s = Inr (s\<lparr>img := closed_img s R\<rparr>)"
proof -
  have ok: "store_ok s R" using assms by (simp add: wf_def)
  have fn: "first_blk s \<le> ninos s" using ok unfolding store_ok_def by simp
  have fm: "\<forall>k. 0 + k * SFS_BLKBITS < ninos s \<longrightarrow> SFS_BLKN_FREEMAP + k < ninos s"
    using fn below_first_blk [of _ s] by (simp add: sfs_sizes(14)) (metis order_less_le_trans)
  obtain im where im: "freemap_loop 0 SFS_BLKN_FREEMAP s = Inr (s\<lparr>img := im\<rparr>)"
    "\<forall>x. im x = (if SFS_BLKN_FREEMAP \<le> x \<and> 0 + (x - SFS_BLKN_FREEMAP) * SFS_BLKBITS < ninos s
       then fm_block (ninos s) (next_ino s) (0 + (x - SFS_BLKN_FREEMAP) * SFS_BLKBITS) else img s x)"
    using freemap_loop_ok [OF fm] by blast
  let ?s1 = "s\<lparr>img := im\<rparr>"
  let ?s2 = "?s1\<lparr>img := im(SFS_BLKN_SUPER := pad_block (super_bytes ?s1))\<rparr>"
  have "0 < ninos s" using fn by (simp add: first_blk_def sfs_sizes)
  then have 1: "write_block (super_bytes ?s1) SFS_BLKN_SUPER ?s1 = Inr ?s2"
    using super_length [of ?s1] by (simp add: write_block_eq sfs_sizes)
  have fc: "flush_chains 0 HASH_LIST_SIZE ?s2 =
      Inr (?s2\<lparr>img := (\<lambda>x. if x \<in> chained ?s2 0 HASH_LIST_SIZE then flushed s R x else img ?s2 x)\<rparr>)"
  proof (rule flush_chains_ok)
    fix h c assume "c \<in> set (bhash ?s2 h)"
    moreover have "set (bhash s h) = (if h = 0 then {..<n_cblocks s} else {})" using ok unfolding store_ok_def by blast
    ultimately have "c < n_cblocks s" by (simp split: if_splits)
    from flushed_index [OF ok this]
    show "length (cache (cblocks ?s2 c)) = SFS_BLK_NENTRY \<and> cb_ino (cblocks ?s2 c) < ninos ?s2 \<and>
      pad_block (concat (map le_nat (cache (cblocks ?s2 c)))) = flushed s R (cb_ino (cblocks ?s2 c))" by simp
  next
    fix h f assume "f \<in> set (ihash ?s2 h)"
    moreover have "set (ihash s h) = {f. f < n_cinodes s \<and> hash64 (ci_real (cinodes s f)) = h}" using ok unfolding store_ok_def by blast
    ultimately have "f < n_cinodes s" by simp
    from flushed_inode [OF assms this]
    show "length (idirect (cinode (cinodes ?s2 f))) = SFS_NDIRECT \<and> ci_ino (cinodes ?s2 f) < ninos ?s2 \<and>
      pad_block (inode_bytes (cinode (cinodes ?s2 f))) = flushed s R (ci_ino (cinodes ?s2 f))" by simp
  qed
  have ch: "chained ?s2 0 HASH_LIST_SIZE = cache_blocks s"
    using chained_all [OF ok] by (simp add: chained_def)
  have sb: "super_bytes ?s1 = super_bytes s" by (simp add: super_bytes_def)
  have "SFS_BLKN_FREEMAP \<le> x \<Longrightarrow> (x - SFS_BLKN_FREEMAP) * SFS_BLKBITS < ninos s \<longleftrightarrow> x < first_blk s" for x
    using below_first_blk [of "x - 2" s] by (simp add: sfs_sizes(14) le_add_diff_inverse [of 2 x, simplified])
  then have imx: "im x = (if SFS_BLKN_FREEMAP \<le> x \<and> x < first_blk s
       then fm_block (ninos s) (next_ino s) ((x - SFS_BLKN_FREEMAP) * SFS_BLKBITS) else img s x)" for x
    using im(2) by auto
  have "(\<lambda>x. if x \<in> chained ?s2 0 HASH_LIST_SIZE then flushed s R x else img ?s2 x) = closed_img s R"
    unfolding ch by (intro ext) (simp add: closed_img_def imx sb)
  then have "flush_chains 0 HASH_LIST_SIZE ?s2 = Inr (s\<lparr>img := closed_img s R\<rparr>)" unfolding fc by simp
  then show ?thesis unfolding close_sfs_def using im(1) 1 by simp
qed


subsection \<open>Reading the image back\<close>

lemma wf_roots: "wf s R \<Longrightarrow> ninos s \<le> 524288 \<and> next_ino s \<le> ninos s"
  by (simp add: wf_def store_ok_def sfs_sizes)

lemma closed_inode:
  assumes "wf s R" and "f < n_cinodes s"
  shows "img_inode (closed_img s R (ci_ino (cinodes s f))) = cinode (cinodes s f)"
proof -
  let ?i = "cinode (cinodes s f)" and ?n = "ci_nblks (cinodes s f)"
  have ok: "store_ok s R" and fo: "file_ok s R f" using assms by (simp_all add: wf_def)
  note fd = file_okD [OF fo refl refl]
  have n: "ninos s \<le> 524288" "next_ino s \<le> ninos s" using wf_roots [OF assms(1)] by simp_all
  have "\<forall>v\<in>set (idirect ?i). v < 2 ^ 32" using fd(3) n(1) by (auto dest!: bspec)
  moreover have "iindirect ?i < next_ino s \<or> iindirect ?i = 0"
    using fd(4,6) index_okD(3) [OF ok] by (metis linorder_not_le)
  moreover have "idb_indirect ?i < next_ino s \<or> idb_indirect ?i = 0"
    using fd(5,8) index_okD(3) [OF ok] by (metis linorder_not_le)
  ultimately have "img_inode (pad_block (inode_bytes ?i)) = ?i"
    unfolding pad_block_def using n fd(2) by (intro img_inode_bytes) auto
  moreover have "ci_ino (cinodes s f) \<in> cache_blocks s" using assms(2) by (simp add: cache_blocks_def)
  ultimately show ?thesis by (simp add: closed_img_def flushed_inode(1) [OF assms])
qed

lemma closed_index:
  assumes "wf s R" and "index_ok s R i r"
  shows "img_index (closed_img s R i) = index_at s i"
proof -
  have ok: "store_ok s R" using assms(1) by (simp add: wf_def)
  obtain c where c: "c < n_cblocks s" "cb_ino (cblocks s c) = i" using assms(2) by (auto simp: index_ok_def cached_def)
  have "\<forall>v\<in>set (cache (cblocks s c)). v < ninos s" using ok c(1) unfolding store_ok_def by blast
  then have b: "\<forall>v\<in>set (cache (cblocks s c)). v < 2 ^ 32" using wf_roots [OF assms(1)] by (auto dest!: bspec)
  note fl = flushed_index [OF ok c(1), unfolded c(2)]
  have "pad_block (concat (map le_nat (cache (cblocks s c)))) = concat (map le_nat (cache (cblocks s c)))"
    using fl(2) by (simp add: pad_block_def sfs_sizes)
  moreover have "i \<in> cache_blocks s" using c by (auto simp: cache_blocks_def)
  ultimately have "closed_img s R i = concat (map le_nat (cache (cblocks s c)))" by (simp add: closed_img_def fl(1))
  then show ?thesis using img_index_bytes [OF fl(2) b] index_at_cached [OF ok c(1)] c(2) by simp
qed

lemma closed_data:
  assumes "wf s R" and "R b = Some (Data_Of f k)"
  shows "closed_img s R b = img s b"
proof -
  have ok: "store_ok s R" using assms(1) by (simp add: wf_def)
  have 1: "b \<noteq> cb_ino (cblocks s c)" if "c < n_cblocks s" for c
  proof -
    have "\<exists>r. R (cb_ino (cblocks s c)) = Some r \<and> index_role r" using ok that unfolding store_ok_def by blast
    then show ?thesis using assms(2) by auto
  qed
  have 2: "b \<noteq> ci_ino (cinodes s f)" if "f < n_cinodes s" for f
  proof -
    have "R (ci_ino (cinodes s f)) = Some (Inode_Of f)" using ok that unfolding store_ok_def by blast
    then show ?thesis using assms(2) by auto
  qed
  have "b \<notin> cache_blocks s" using 1 2 by (auto simp: cache_blocks_def)
  moreover have "first_blk s \<le> b" using store_ok_roles [OF ok assms(2)] by auto
  moreover have "2 \<le> first_blk s" by (simp add: first_blk_def sfs_sizes)
  ultimately show ?thesis by (auto simp: closed_img_def sfs_sizes)
qed

lemma closed_blk:
  assumes "wf s R" and "f < n_cinodes s" and "k < ci_nblks (cinodes s f)"
  shows "file_block (\<lambda>j. img_index (closed_img s R j)) (cinode (cinodes s f)) k = blk s f k"
proof -
  let ?i = "cinode (cinodes s f)" and ?n = "ci_nblks (cinodes s f)"
  have fo: "file_ok s R f" using assms by (simp add: wf_def)
  note fd = file_okD [OF fo refl refl] and ci = closed_index [OF assms(1)]
  consider "k < SFS_L0_NBLKS" | "SFS_L0_NBLKS \<le> k" "k < SFS_L1_NBLKS" | "SFS_L1_NBLKS \<le> k" by linarith
  then show ?thesis
  proof cases
    case 1
    then show ?thesis by (simp add: blk_def file_block_def)
  next
    case 2
    then have "index_ok s R (iindirect ?i) (L1_Of f)" using fd(6) assms(3) by simp
    then show ?thesis using 2 by (simp add: blk_def file_block_def ci)
  next
    case 3
    let ?j = "(k - SFS_L1_NBLKS) div SFS_BLK_NENTRY"
    have n: "\<not> ?n \<le> SFS_L1_NBLKS" using 3 assms(3) by simp
    have j: "?j \<le> (?n - 1 - SFS_L1_NBLKS) div SFS_BLK_NENTRY" using assms(3) by (intro div_le_mono) simp
    have "?j < SFS_BLK_NENTRY" using fd(1) assms(3) by (auto simp: sfs_sizes)
    then have "index_ok s R (idb_indirect ?i) (L2_Of f)" "index_ok s R (index_at s (idb_indirect ?i) ! ?j) (L3_Of f ?j)"
      using fo n j by (simp_all add: file_ok_def Let_def)
    then show ?thesis using 3 by (simp add: blk_def file_block_def ci sfs_sizes)
  qed
qed

lemma closed_blocks:
  assumes "data_ok X s R T" and "f < n_cinodes s"
  shows "img_blocks (closed_img s R) (ci_ino (cinodes s f)) = file_blocks s f"
proof -
  have wf: "wf s R" and ib: "iblocks (cinode (cinodes s f)) = of_nat (ci_nblks (cinodes s f))"
    using assms by (simp_all add: data_ok_def)
  have "file_ok s R f" using wf assms(2) by (simp add: wf_def)
  then have "ci_nblks (cinodes s f) \<le> 32768" using file_okD(1) [OF _ refl refl] by (simp add: sfs_sizes)
  then have "unat (iblocks (cinode (cinodes s f))) = ci_nblks (cinodes s f)" unfolding ib by (intro unat_of_nat_small) simp
  then show ?thesis
    using closed_blk [OF wf assms(2)] by (simp add: img_blocks_def Let_def closed_inode [OF wf assms(2)] file_blocks_def)
qed

lemma closed_file_data:
  assumes "wf s R" and "f < n_cinodes s"
  shows "map (closed_img s R) (file_blocks s f) = map (img s) (file_blocks s f)"
  using blocks_data_role [OF assms] closed_data [OF assms(1)] by (intro map_cong refl) blast

lemma closed_has_data:
  assumes "data_ok X s R T" and "f < n_cinodes s" and "has_data s f bs"
  shows "img_data (closed_img s R) (ci_ino (cinodes s f)) = bs"
proof -
  have wf: "wf s R" and len: "\<forall>b. length (img s b) = SFS_BLKSIZE" using assms(1) by (simp_all add: data_ok_def)
  have "file_ok s R f" using wf assms(2) by (simp add: wf_def)
  then have n: "length (file_blocks s f) \<le> 32768"
    using file_okD(1) [OF _ refl refl] by (simp add: file_blocks_def sfs_sizes)
  have "length (concat (map (img s) xs)) = 4096 * length xs" for xs using len by (induction xs) (simp_all add: sfs_sizes)
  then have "length (file_data s f) = 4096 * length (file_blocks s f)" by (simp only: file_data_def)
  then have "length bs \<le> 134217728" using assms(3) n by (auto simp: has_data_def dest!: arg_cong [where f = length])
  then have "unat (isize (cinode (cinodes s f))) = length bs"
    using assms(3) by (simp add: has_data_def unat_of_nat_small)
  then show ?thesis
    using assms(3) unfolding img_data_def closed_inode [OF wf assms(2)] closed_blocks [OF assms(1,2)] closed_file_data [OF wf assms(2)]
    by (simp add: has_data_def file_data_def)
qed

lemma closed_holds:
  assumes "holds s m p f h" and "data_ok X s R T"
  shows "img_holds (closed_img s R) (ci_ino (cinodes s p)) (ci_ino (cinodes s f)) h"
  using assms
proof (induction rule: holds.induct)
  case (holds_file f chunks m p rl fails)
  have wf: "wf s R" using assms(2) by (simp add: data_ok_def)
  show ?case
    by (rule img_file) (use holds_file closed_inode [OF wf] closed_has_data [OF assms(2)] in \<open>simp_all add: is_file_def\<close>)
next
  case (holds_link f t m p rl)
  have wf: "wf s R" using assms(2) by (simp add: data_ok_def)
  show ?case by (rule img_link) (use holds_link closed_inode [OF wf] closed_has_data [OF assms(2)] in simp_all)
next
  case (holds_dir f p m cs es rl)
  have wf: "wf s R" using assms(2) by (simp add: data_ok_def)
  have "map (\<lambda>b. img_entry (closed_img s R b)) (file_blocks s f) = map img_entry (map (closed_img s R) (file_blocks s f))" by simp
  also have "\<dots> = entries s f" unfolding closed_file_data [OF wf holds_dir.hyps(1)] by (simp add: entries_def)
  finally have e: "map (\<lambda>b. img_entry (closed_img s R b)) (img_blocks (closed_img s R) (ci_ino (cinodes s f))) = entries s f"
    unfolding closed_blocks [OF assms(2) holds_dir.hyps(1)] .
  show ?case
  proof (rule img_dir [where inos = "map (\<lambda>c. ci_ino (cinodes s c)) cs"])
    show "itype (img_inode (closed_img s R (ci_ino (cinodes s f)))) = SFS_TYPE_DIR"
      using closed_inode [OF wf holds_dir.hyps(1)] holds_dir.hyps(4) by simp
  qed (use holds_dir e in simp_all)
qed


subsection \<open>The whole program\<close>

lemma create_sfs_ok:
  assumes "create_sfs n disk = Inr s" and "\<forall>x. length (disk x) = SFS_BLKSIZE" and "T 0 = None"
  shows "data_ok {} s [SFS_BLKN_ROOT \<mapsto> Inode_Of 0] T" and "sfs_root s = 0" and "n_cinodes s = 1" and "file_blocks s 0 = []"
    and "ci_ino (cinodes s 0) = SFS_BLKN_ROOT" and "itype (cinode (cinodes s 0)) = SFS_TYPE_DIR" and "isize (cinode (cinodes s 0)) = 0"
proof -
  define m where "m = (let n0 = (n div SFS_BLKSIZE) mod 2 ^ 32 in if n0 > SFS_MAX_NBLKS then SFS_MAX_NBLKS else n0)"
  define nxt where "nxt = SFS_BLKN_FREEMAP + (m + SFS_BLKBITS - 1) div SFS_BLKBITS"
  have m: "m \<le> SFS_MAX_NBLKS" by (simp add: m_def Let_def)
  have r: "SFS_BLKN_ROOT \<noteq> 0" by (simp add: sfs_sizes)
  have lt: "nxt < m" using assms(1) unfolding create_sfs_def Let_def m_def nxt_def by (simp split: if_splits)
  have s: "s = \<lparr>sb_blocks = m, sb_unused = m - nxt, subpaths = [], ninos = m, next_ino = nxt, sfs_root = 0,
      cinodes = (\<lambda>_. \<lparr>cinode = empty_inode 0, ci_real = 0, ci_ino = 0, ci_nblks = 0, ci_l1 = None, ci_l2 = None\<rparr>)
        (0 := \<lparr>cinode = empty_inode SFS_TYPE_DIR, ci_real = 0, ci_ino = SFS_BLKN_ROOT, ci_nblks = 0, ci_l1 = None, ci_l2 = None\<rparr>),
      n_cinodes = 1, ihash = (\<lambda>_. [])(hash64 0 := [0]), cblocks = (\<lambda>_. \<lparr>cb_ino = 0, cache = []\<rparr>), n_cblocks = 0, bhash = (\<lambda>_. []),
      entry_name = replicate (SFS_MAX_FNAME_LEN + 1) 0, img = disk\<rparr>"
    using assms(1) lt r unfolding create_sfs_def Let_def m_def nxt_def
    by (simp add: alloc_cache_inode_def Let_def split: if_splits)
  show h: "sfs_root s = 0" "n_cinodes s = 1" "file_blocks s 0 = []" "ci_ino (cinodes s 0) = SFS_BLKN_ROOT"
    "itype (cinode (cinodes s 0)) = SFS_TYPE_DIR" "isize (cinode (cinodes s 0)) = 0"
    by (simp_all add: s file_blocks_def empty_inode_def)
  have fb: "first_blk s = nxt" by (simp add: first_blk_def s nxt_def)
  let ?R = "[SFS_BLKN_ROOT \<mapsto> Inode_Of 0]"
  have "store_ok s ?R" unfolding store_ok_def fb using lt m by (auto simp: s)
  moreover have "file_ok s ?R 0" using lt by (simp add: file_ok_def Let_def s empty_inode_def sfs_sizes)
  ultimately have "wf s ?R" by (simp add: wf_def h(2))
  then show "data_ok {} s ?R T"
    unfolding data_ok_def using assms(2,3)
    by (simp add: h(2)) (simp add: is_file_def s empty_inode_def SFS_TYPE_DIR_def SFS_TYPE_FILE_def)
qed

text \<open>After \<open>open_dir\<close> on the home directory of a new image.\<close>

lemma open_root_ok:
  assumes "create_sfs n disk = Inr s" and "\<forall>x. length (disk x) = SFS_BLKSIZE" and "T 0 = None" and "host_ok T home"
    and "open_dir (sfs_root s) (sfs_root s) home s = Inr s1"
  shows "\<exists>R. data_ok {} s1 R T \<and> n_cinodes s1 > 0 \<and> ci_ino (cinodes s1 0) = SFS_BLKN_ROOT \<and> holds s1 0 0 0 (Host_Dir 0 home)"
proof -
  note c = create_sfs_ok [where T = T, OF assms(1-3)]
  obtain s2 where h: "dir_head 0 0 s = Inr s2" and l: "dir_loop 0 home s2 = Inr s1"
    using assms(5) by (auto simp: open_dir_def c(2) kbind_eq_Inr_iff)
  have n: "0 < n_cinodes s" by (simp add: c(3))
  obtain R2 where R2: "data_ok {} s2 R2 T" "grow {0} s s2" "n_cinodes s2 = n_cinodes s" "itype (cinode (cinodes s2 0)) = SFS_TYPE_DIR"
    "entries s2 0 = entries s 0 @ [(ci_ino (cinodes s 0), [46]), (ci_ino (cinodes s 0), [46, 46])]"
    "isize (cinode (cinodes s2 0)) = isize (cinode (cinodes s 0)) + 512"
    using dir_head_ok [OF c(1) n n h] by auto
  have n2: "0 < n_cinodes s2" using R2(3) n by simp
  obtain R' cs where r: "data_ok {} s1 R' T" "grow {0} s2 s1" "adds 0 (kept home) s2 s1 cs"
    using dir_loop_ok [OF l R2(1) n2 R2(4) assms(4)] by blast
  have i: "ci_ino (cinodes s1 0) = ci_ino (cinodes s 0)"
    using grow_head [OF R2(2) n] grow_head [OF r(2) n2] by (simp add: same_head_def)
  have n1: "0 < n_cinodes s1" using r(2) n2 by (simp add: grow_def)
  have "entries s 0 = []" by (simp add: entries_def c(4))
  then have "holds s1 0 0 0 (Host_Dir 0 home)"
    using n1 r(3) R2(5,6) c(7) i grow_type [OF r(2) n2] R2(4)
    by (intro holds_dir [of 0 s1 0 _ cs]) (auto simp: adds_def)
  then show ?thesis using r(1) n1 i c(5) by auto
qed

lemma create_img_steps:
  assumes "create_img home s = Inr s'"
  obtains s1 where "open_dir (sfs_root s) (sfs_root s) home s = Inr s1" and "close_sfs s1 = Inr s'"
  using assms by (auto simp: create_img_def kbind_eq_Inr_iff)

lemma create_img_ok:
  assumes "create_sfs n disk = Inr s" and "\<forall>x. length (disk x) = SFS_BLKSIZE" and "T 0 = None" and "host_ok T home"
    and "create_img home s = Inr s'"
  obtains s1 R where "data_ok {} s1 R T" and "s' = s1\<lparr>img := closed_img s1 R\<rparr>"
proof -
  obtain s1 where o: "open_dir (sfs_root s) (sfs_root s) home s = Inr s1" and cl: "close_sfs s1 = Inr s'"
    using create_img_steps [OF assms(5)] .
  obtain R where R: "data_ok {} s1 R T" using open_root_ok [OF assms(1-4) o] by blast
  have "close_sfs s1 = Inr (s1\<lparr>img := closed_img s1 R\<rparr>)" by (rule close_ok) (use R in \<open>simp add: data_ok_def\<close>)
  then show ?thesis using that [OF R] cl by simp
qed

subsection \<open>The free map and the superblock\<close>

lemma rd32_block_word:
  assumes "k < length ws"
  shows "of_nat (rd32 (concat (map le32 ws)) (4 * k)) = (ws ! k :: 32 word)"
  using rd32_words [OF assms, of "[]" "[]"] by simp

lemma fm_block_bit:
  assumes "y < SFS_BLKBITS" and "i < n"
  shows "bit (of_nat (rd32 (fm_block n nxt i) (4 * (y div 32))) :: 32 word) (y mod 32) \<longleftrightarrow> nxt \<le> i + y \<and> i + y < n"
proof -
  have "y div 32 < length (freemap_words n nxt i)" using assms(1) by (simp add: freemap_words_length sfs_sizes less_mult_imp_div_less)
  then show ?thesis using freemap_words_bit [OF assms] rd32_block_word by (simp add: fm_block_def)
qed

lemma freemap_not_cached:
  assumes "wf s R" and "x < first_blk s" and "x \<noteq> SFS_BLKN_ROOT"
  shows "x \<notin> cache_blocks s"
proof
  have ok: "store_ok s R" using assms(1) by (simp add: wf_def)
  assume "x \<in> cache_blocks s"
  then obtain r where "R x = Some r" using ok unfolding cache_blocks_def store_ok_def by blast
  then show False using store_ok_roles [OF ok, of x r] assms(2,3) by auto
qed

lemma closed_free:
  assumes "wf s R" and "x < ninos s"
  shows "img_free (closed_img s R) x \<longleftrightarrow> next_ino s \<le> x"
proof -
  let ?b = "SFS_BLKN_FREEMAP + x div SFS_BLKBITS"
  have q: "x div SFS_BLKBITS * SFS_BLKBITS < ninos s" using assms(2) div_times_less_eq_dividend [of x SFS_BLKBITS] by linarith
  have lt: "?b < first_blk s" using q below_first_blk [of "x div SFS_BLKBITS" s] by (simp add: sfs_sizes(14))
  have "?b \<notin> cache_blocks s" by (rule freemap_not_cached [OF assms(1) lt]) (simp add: sfs_sizes)
  then have "closed_img s R ?b = fm_block (ninos s) (next_ino s) (x div SFS_BLKBITS * SFS_BLKBITS)"
    using lt by (simp add: closed_img_def sfs_sizes(12,14))
  moreover have "x mod SFS_BLKBITS < SFS_BLKBITS" "x mod SFS_BLKBITS mod 32 = x mod 32"
    by (simp_all add: sfs_sizes mod_mod_cancel)
  ultimately show ?thesis
    using fm_block_bit [OF _ q, of "x mod SFS_BLKBITS" "next_ino s"] assms(2) by (simp add: img_free_def)
qed

lemma closed_super:
  assumes "wf s R"
  shows "rd32 (closed_img s R SFS_BLKN_SUPER) 4 = ninos s" and "rd32 (closed_img s R SFS_BLKN_SUPER) 8 = ninos s - next_ino s"
proof -
  have ok: "sb_blocks s = ninos s" "sb_unused s = ninos s - next_ino s" using assms by (simp_all add: wf_def store_ok_def)
  have "SFS_BLKN_SUPER \<notin> cache_blocks s" by (rule freemap_not_cached [OF assms]) (simp_all add: first_blk_def sfs_sizes)
  then have e: "closed_img s R SFS_BLKN_SUPER = pad_block (super_bytes s)" by (simp add: closed_img_def)
  have n: "ninos s < 2 ^ 32" "ninos s - next_ino s < 2 ^ 32" using wf_roots [OF assms] by auto
  show "rd32 (closed_img s R SFS_BLKN_SUPER) 4 = ninos s"
    unfolding e pad_block_def super_bytes_def ok using rd32_le_nat [OF n(1), of "le32 SFS_MAGIC"] by simp
  show "rd32 (closed_img s R SFS_BLKN_SUPER) 8 = ninos s - next_ino s"
    unfolding e pad_block_def super_bytes_def ok using rd32_le_nat [OF n(2), of "le32 SFS_MAGIC @ le_nat (ninos s)"] by simp
qed


lemma create_img_closes:
  assumes "create_sfs n disk = Inr s" and "\<forall>x. length (disk x) = SFS_BLKSIZE" and "T 0 = None" and "host_ok T home"
    and "open_dir (sfs_root s) (sfs_root s) home s = Inr s1"
  shows "\<exists>s'. create_img home s = Inr s'"
proof -
  obtain R where R: "data_ok {} s1 R T" using open_root_ok [OF assms] by blast
  have "close_sfs s1 = Inr (s1\<lparr>img := closed_img s1 R\<rparr>)" by (rule close_ok) (use R in \<open>simp add: data_ok_def\<close>)
  then show ?thesis using assms(5) by (simp add: create_img_def)
qed

text \<open>A host with a file of two names, a directory and a link, and an image of 64 blocks.\<close>

definition ex_home :: "(byte list \<times> host) list" where
  "ex_home = [([97], Host_File 5 [[1, 2, 3]] False), ([46, 120], Host_Closed),
     ([98], Host_Dir 7 [([99], Host_Link 8 (Some [97])), ([100], Host_File 5 [[1, 2, 3]] False)])]"

definition ex_bytes :: "64 word \<Rightarrow> byte list option" where
  "ex_bytes rl = (if rl = 5 then Some [1, 2, 3] else None)"

definition ex_disk :: "nat \<Rightarrow> byte list" where
  "ex_disk x = replicate SFS_BLKSIZE 0"

lemma ex_host: "host_ok ex_bytes ex_home" "ex_bytes 0 = None" "\<forall>x. length (ex_disk x) = SFS_BLKSIZE"
  by (simp_all add: ex_home_def ex_bytes_def ex_disk_def name_ok_def skipped_def)

lemma ex_create:
  "create_sfs (64 * SFS_BLKSIZE) ex_disk = Inr
     \<lparr>sb_blocks = 64, sb_unused = 61, subpaths = [], ninos = 64, next_ino = 3, sfs_root = 0,
      cinodes = (\<lambda>_. \<lparr>cinode = empty_inode 0, ci_real = 0, ci_ino = 0, ci_nblks = 0, ci_l1 = None, ci_l2 = None\<rparr>)
        (0 := \<lparr>cinode = empty_inode SFS_TYPE_DIR, ci_real = 0, ci_ino = SFS_BLKN_ROOT, ci_nblks = 0, ci_l1 = None, ci_l2 = None\<rparr>),
      n_cinodes = 1, ihash = (\<lambda>_. [])(0 := [0]), cblocks = (\<lambda>_. \<lparr>cb_ino = 0, cache = []\<rparr>), n_cblocks = 0, bhash = (\<lambda>_. []),
      entry_name = replicate (SFS_MAX_FNAME_LEN + 1) 0, img = ex_disk\<rparr>"
  by (simp add: create_sfs_def Let_def sfs_sizes alloc_cache_inode_def hash64_def hash32_bits_def)

lemma ex_hash: "hash64 5 = 92" "hash64 7 = 334" "hash64 8 = 966"
  by (simp_all add: hash64_def hash32_bits_def HASH_SHIFT_def)

lemma ex_run: "case create_sfs (64 * SFS_BLKSIZE) ex_disk of Inl e \<Rightarrow> False
    | Inr s \<Rightarrow> (case open_dir (sfs_root s) (sfs_root s) ex_home s of Inl e \<Rightarrow> False | Inr s1 \<Rightarrow> True)"
  unfolding ex_create
  by (simp add: open_dir_def dir_head_def add_entry_def sfs_alloc_ino_def write_block_def append_block_def put_direct_def on_inode_def on_ci_def
     sfs_sizes ex_home_def skipped_def SFS_TYPE_DIR_def SFS_TYPE_FILE_def SFS_TYPE_LINK_def empty_inode_def add_file_def add_link_def add_dir_enter_def add_dir_leave_def
     search_cache_inode_def alloc_cache_inode_def Let_def ex_hash open_file_def open_link_def subpath_push_def subpath_pop_def)


subsection \<open>Properties\<close>

definition used_blocks :: "sfs_fs \<Rightarrow> nat list" where
  "used_blocks s = map (\<lambda>f. ci_ino (cinodes s f)) [0..<n_cinodes s] @ map (\<lambda>c. cb_ino (cblocks s c)) [0..<n_cblocks s] @
     concat (map (\<lambda>f. img_blocks (img s) (ci_ino (cinodes s f))) [0..<n_cinodes s])"

lemma roles_distinct:
  assumes "\<And>i. i < length xs \<Longrightarrow> R (xs ! i) = Some (r i)" and "inj r"
  shows "distinct xs"
  unfolding distinct_conv_nth using assms by (metis injD option.inject)

lemma distinct_concat_map:
  assumes "\<And>f. f < n \<Longrightarrow> distinct (g f)" and "\<And>f h x. f < n \<Longrightarrow> h < n \<Longrightarrow> x \<in> set (g f) \<Longrightarrow> x \<in> set (g h) \<Longrightarrow> f = h"
  shows "distinct (concat (map g [0..<n]))"
  using assms
proof (induction n)
  case (Suc n)
  have "x \<notin> set (g n)" if "f < n" "x \<in> set (g f)" for f x using Suc.prems(2) [of f n x] that by auto
  then show ?case using Suc.IH Suc.prems by fastforce
qed simp

lemma uses_distinct:
  assumes "data_ok X s R T"
  shows "distinct (map (\<lambda>f. ci_ino (cinodes s f)) [0..<n_cinodes s] @ map (\<lambda>c. cb_ino (cblocks s c)) [0..<n_cblocks s] @
    concat (map (file_blocks s) [0..<n_cinodes s]))"
proof -
  have wf: "wf s R" and ok: "store_ok s R" using assms by (simp_all add: data_ok_def wf_def)
  have ci: "R (ci_ino (cinodes s f)) = Some (Inode_Of f)" if "f < n_cinodes s" for f using ok that unfolding store_ok_def by blast
  note dr = blocks_data_role [OF wf]
  have cb: "\<exists>r. R (cb_ino (cblocks s c)) = Some r \<and> index_role r" if "c < n_cblocks s" for c using ok that unfolding store_ok_def by blast
  have "inj_on (\<lambda>c. cb_ino (cblocks s c)) {..<n_cblocks s}" using ok by (simp add: store_ok_def)
  then have "distinct (map (\<lambda>c. cb_ino (cblocks s c)) [0..<n_cblocks s])" by (simp add: distinct_map atLeast0LessThan)
  moreover have "cb_ino (cblocks s c) \<noteq> ci_ino (cinodes s f)" if "c < n_cblocks s" "f < n_cinodes s" for c f
    using cb [OF that(1)] ci [OF that(2)] by auto
  moreover have "cb_ino (cblocks s c) \<notin> set (file_blocks s g)" if "c < n_cblocks s" "g < n_cinodes s" for c g
    using cb [OF that(1)] dr [OF that(2)] by fastforce
  moreover have "distinct (map (\<lambda>f. ci_ino (cinodes s f)) [0..<n_cinodes s])"
    by (rule roles_distinct [where R = R and r = Inode_Of]) (simp_all add: ci inj_def)
  moreover have "distinct (concat (map (file_blocks s) [0..<n_cinodes s]))"
  proof (rule distinct_concat_map)
    fix f assume f: "f < n_cinodes s"
    have fo: "file_ok s R f" using wf f by (simp add: wf_def)
    show "distinct (file_blocks s f)"
      by (rule roles_distinct [where R = R and r = "Data_Of f"])
        (use file_okD(10) [OF fo refl refl] in \<open>simp_all add: file_blocks_def inj_def\<close>)
  next
    fix f h x assume "f < n_cinodes s" "h < n_cinodes s" "x \<in> set (file_blocks s f)" "x \<in> set (file_blocks s h)"
    then show "f = h" using dr [of f x] dr [of h x] by auto
  qed
  moreover have "ci_ino (cinodes s f) \<notin> set (file_blocks s g)" if "f < n_cinodes s" "g < n_cinodes s" for f g
    using ci [OF that(1)] dr [OF that(2)] by fastforce
  ultimately show ?thesis by (simp add: Ball_def) (auto, metis+)
qed

text \<open>
  C10. Roundtrip of the image: when \<open>open_dir\<close> has put the home directory of the host into a new
  image, the program closes the image, and a reader who starts at the inode in block 1 and knows
  the layout only finds the directory of the host: every file and link with its bytes, every
  directory with \<open>.\<close>, \<open>..\<close> and the entries of the host in their order, down to the leaves.
\<close>

theorem mksfs_tree:
  assumes "create_sfs n disk = Inr s" and "\<forall>x. length (disk x) = SFS_BLKSIZE" and "T 0 = None" and "host_ok T home"
    and "open_dir (sfs_root s) (sfs_root s) home s = Inr s1"
  shows "\<exists>s'. create_img home s = Inr s' \<and> img_holds (img s') SFS_BLKN_ROOT SFS_BLKN_ROOT (Host_Dir 0 home)"
proof -
  obtain R where R: "data_ok {} s1 R T" "ci_ino (cinodes s1 0) = SFS_BLKN_ROOT" "holds s1 0 0 0 (Host_Dir 0 home)"
    using open_root_ok [OF assms] by blast
  have "close_sfs s1 = Inr (s1\<lparr>img := closed_img s1 R\<rparr>)" by (rule close_ok) (use R(1) in \<open>simp add: data_ok_def\<close>)
  then have "create_img home s = Inr (s1\<lparr>img := closed_img s1 R\<rparr>)" using assms(5) by (simp add: create_img_def)
  then show ?thesis using closed_holds [OF R(3,1)] R(2) by simp
qed

lemma ex_steps: "\<exists>s s1. create_sfs (64 * SFS_BLKSIZE) ex_disk = Inr s \<and> open_dir (sfs_root s) (sfs_root s) ex_home s = Inr s1"
  using ex_run by (auto split: sum.splits)

theorem mksfs_tree_witness:
  "\<exists>s s'. create_sfs (64 * SFS_BLKSIZE) ex_disk = Inr s \<and> create_img ex_home s = Inr s' \<and>
    img_holds (img s') SFS_BLKN_ROOT SFS_BLKN_ROOT (Host_Dir 0 ex_home)"
proof -
  obtain s s1 where s: "create_sfs (64 * SFS_BLKSIZE) ex_disk = Inr s" "open_dir (sfs_root s) (sfs_root s) ex_home s = Inr s1"
    using ex_steps by blast
  then show ?thesis using mksfs_tree [OF s(1) ex_host(3,2,1) s(2)] by blast
qed

text \<open>
  C13. Invariant of the image: the number of unused blocks in the superblock is the number of
  blocks that the free map has as free.
\<close>

theorem mksfs_free_count:
  assumes "create_sfs n disk = Inr s" and "\<forall>x. length (disk x) = SFS_BLKSIZE" and "T 0 = None" and "host_ok T home"
    and "create_img home s = Inr s'"
  shows "rd32 (img s' SFS_BLKN_SUPER) 8 = card {x. x < rd32 (img s' SFS_BLKN_SUPER) 4 \<and> img_free (img s') x}"
proof -
  obtain s1 R where R: "data_ok {} s1 R T" and s': "s' = s1\<lparr>img := closed_img s1 R\<rparr>"
    using create_img_ok [OF assms] by blast
  then have wf: "wf s1 R" by (simp add: data_ok_def)
  have "{x. x < ninos s1 \<and> img_free (closed_img s1 R) x} = {next_ino s1..<ninos s1}"
    using closed_free [OF wf] by auto
  then show ?thesis by (simp add: s' closed_super [OF wf])
qed

lemma ex_done: "\<exists>s s'. create_sfs (64 * SFS_BLKSIZE) ex_disk = Inr s \<and> create_img ex_home s = Inr s'"
  using ex_steps create_img_closes [OF _ ex_host(3,2,1)] by blast

theorem mksfs_free_count_witness:
  "\<exists>s s'. create_sfs (64 * SFS_BLKSIZE) ex_disk = Inr s \<and> create_img ex_home s = Inr s' \<and>
    rd32 (img s' SFS_BLKN_SUPER) 8 = card {x. x < rd32 (img s' SFS_BLKN_SUPER) 4 \<and> img_free (img s') x}"
  using ex_done mksfs_free_count [OF _ ex_host(3,2,1)] by blast

text \<open>
  C11. Safety of the image: no block has two uses (as an inode, an index block, or at a place
  of the data of a file), and no block in use is free in the free map.
\<close>

theorem mksfs_no_sharing:
  assumes "create_sfs n disk = Inr s" and "\<forall>x. length (disk x) = SFS_BLKSIZE" and "T 0 = None" and "host_ok T home"
    and "create_img home s = Inr s'"
  shows "distinct (used_blocks s') \<and> list_all (\<lambda>x. \<not> img_free (img s') x) (used_blocks s')"
proof -
  obtain s1 R where R: "data_ok {} s1 R T" and s': "s' = s1\<lparr>img := closed_img s1 R\<rparr>"
    using create_img_ok [OF assms] by blast
  then have wf: "wf s1 R" and ok: "store_ok s1 R" by (simp_all add: data_ok_def wf_def)
  have m: "map (\<lambda>f. img_blocks (closed_img s1 R) (ci_ino (cinodes s1 f))) [0..<n_cinodes s1] = map (file_blocks s1) [0..<n_cinodes s1]"
    using closed_blocks [OF R] by (intro map_cong refl) simp
  have "used_blocks s' = map (\<lambda>f. ci_ino (cinodes s1 f)) [0..<n_cinodes s1] @ map (\<lambda>c. cb_ino (cblocks s1 c)) [0..<n_cblocks s1] @
      concat (map (\<lambda>f. img_blocks (closed_img s1 R) (ci_ino (cinodes s1 f))) [0..<n_cinodes s1])"
    by (simp add: used_blocks_def s')
  then have u: "used_blocks s' = map (\<lambda>f. ci_ino (cinodes s1 f)) [0..<n_cinodes s1] @
      map (\<lambda>c. cb_ino (cblocks s1 c)) [0..<n_cblocks s1] @ concat (map (file_blocks s1) [0..<n_cinodes s1])"
    unfolding m .
  have "\<not> img_free (img s') x" if "x \<in> set (used_blocks s')" for x
  proof -
    have "\<exists>r. R x = Some r"
      using that blocks_data_role [OF wf] ok unfolding u store_ok_def by auto blast+
    then have "x < next_ino s1" using store_okD(1) [OF ok] by blast
    then show ?thesis using closed_free [OF wf, of x] wf_roots [OF wf] by (simp add: s')
  qed
  then show ?thesis using uses_distinct [OF R] unfolding list_all_iff by (simp add: u)
qed

theorem mksfs_no_sharing_witness:
  "\<exists>s s'. create_sfs (64 * SFS_BLKSIZE) ex_disk = Inr s \<and> create_img ex_home s = Inr s' \<and>
    distinct (used_blocks s') \<and> list_all (\<lambda>x. \<not> img_free (img s') x) (used_blocks s')"
  using ex_done mksfs_no_sharing [OF _ ex_host(3,2,1)] by blast



end
