(* ===== verification/Spec2Isabelle.thy ===== *)
theory Spec2Isabelle
  imports Pmm_Manager Printfmt Hash_Rand Vfs Sched Proc_Props Vm_Laws Kheap Buddy Exec_Props Devices Mksfs_Image
begin

text \<open>
  A verification library for ucore, the teaching kernel of this repository, whose labs each hold
  one stage of it. Every subsystem is modelled from the lab that holds its most complete version.

  \<^bold>\<open>Parts of the kernel and how they interact.\<close> Page frames are handed out by a physical
  memory manager behind \<open>struct pmm_manager\<close> (lab2). Above it stand the page tables, the list of
  virtual memory areas of each address space, and swapping behind \<open>struct swap_manager\<close> (lab3): a
  page fault looks up the area, walks the table, and takes a page from the allocator, which may
  swap another page out. Processes (Lab5) live in one list of all processes, a family tree and a
  hash table by number; they are created, scheduled, killed, and waited for. The scheduler of lab8
  runs behind \<open>struct sched_class\<close> with a timer list. The virtual file system of lab8 names
  devices and mounted file systems and opens files on them. The kernel library (lab8) has lists,
  skew heaps, strings, formatted output, hashes and random numbers.

  \<^bold>\<open>Conventions.\<close> \<open>Prelude\<close> has the type of results: \<open>Inr\<close> is a normal return, \<open>Inl\<close> says that an
  assertion failed, that \<open>panic\<close> was called, that the program made an access that C does not
  allow, or that a loop ran out of fuel. C structures are records, pointers to them are numbers,
  \<open>NULL\<close> is \<open>None\<close>; an intrusive list is a pair of maps (\<open>KList\<close>) whose entries name the structure
  and the link field. Machine integers are words. Sections with interrupts disabled are single
  steps. Loops whose termination depends on the state have fuel, and the theorems that use them
  give fuel that is enough (the length of the list, the size of the table), so that they state that
  the code returns; routines over text that may not be terminated return \<open>None\<close> when they do not
  return. Output to the console is left out.

  \<^bold>\<open>Memory (lab2/kern/mm, lab2/libs).\<close> \<open>KList\<close>: \<open>libs/list.h\<close>, the effect of every operation on a
  ring. \<open>Pmm_Page\<close>: \<open>struct Page\<close> and its flag bits, the frame array. \<open>First_Fit\<close>, \<open>Best_Fit\<close>:
  \<open>default_pmm.c\<close>, \<open>best_fit_pmm.c\<close>; the lemmas show that each routine implements an operation on the
  sorted list of free blocks, that allocation never hands a page out twice, and what the missing
  \<open>break\<close> of the insertion loop does. \<open>Pmm_Manager\<close>: the interface as a record and as the locale
  \<open>page_allocator\<close>, with both managers as interpretations, the wrappers of \<open>pmm.c\<close>, and the
  properties. \<open>Buddy\<close>: \<open>buddy_system_pmm.c\<close>; its lists stand for sets of disjoint blocks, which
  initialisation sets up and allocation preserves, while freeing breaks them, so that the manager is
  no interpretation of \<open>page_allocator\<close>. Sixteen rounds are enough fuel for fifteen orders.

  \<^bold>\<open>Virtual memory (lab3/kern/mm, lab3/kern/fs, lab3/kern/driver).\<close> \<open>Vm_State\<close>: \<open>mmu.h\<close>, the
  conversions of \<open>pmm.h\<close>, and the state. \<open>Paging\<close>: \<open>get_pte\<close>, what it does to the map that a
  directory represents, and the locale \<open>frame_source\<close> for the allocation it makes. \<open>Swap\<close>:
  \<open>swap.h\<close>, both managers, the swap disk, \<open>swap_out\<close>, \<open>alloc_pages\<close>. \<open>Swap_Policy\<close>: the locale
  \<open>swap_policy\<close> with both managers, the order of the clock, and the first fit allocator as a
  \<open>frame_source\<close>. \<open>Vm_Map\<close>: mapping and unmapping, \<open>kmalloc\<close>. \<open>Vma\<close>: \<open>vmm.c\<close>. \<open>Vm_Props\<close>,
  \<open>Vm_Laws\<close>: their behaviour together. A page table is a tree of pages (\<open>node\<close>), abstracted to the
  entry of each address (\<open>entry\<close>); \<open>pt_ok\<close> says that it is a tree and uses no free page. The search
  of the clock has fuel for two rounds over all pages; allocation with swapping switched off needs
  one attempt.

  \<^bold>\<open>Processes (Lab5/kern/process, Lab5/kern/schedule).\<close> \<open>Proc_Const\<close>, \<open>Proc\<close>: the process
  structure, the three tables and \<open>get_pid\<close>. \<open>Proc_Life\<close>: switching, scheduling, fork, exit, wait,
  kill. The memory manager of Lab5 is not in the repository and is the record \<open>env\<close> of parameters.
  \<open>Proc_Inv\<close>, \<open>Proc_Wait\<close>: the invariant \<open>tables\<close> (the list, the family tree and the hash table hold
  the same processes) and its preservation. \<open>Proc_Props\<close>: the properties. \<open>pid_fuel\<close> is enough for
  the restarts of \<open>get_pid\<close>. \<open>Exec\<close>: loading an ELF image, \<open>do_execve\<close>, \<open>init_main\<close>, with the bytes of
  the frames in the state. \<open>Exec_Props\<close>: the image a program sees, and that a failed load leaves
  nothing behind; the promises of the memory manager are the hypotheses \<open>page_source\<close> and
  \<open>mm_ledger\<close>. The fuel of a segment is one more than its pages.

  \<^bold>\<open>Kernel heap (Lab5/kern/mm/kmalloc.c).\<close> \<open>Slob\<close>: the SLOB allocator and \<open>kmalloc\<close>. \<open>Slob_Inv\<close>: the
  circular free list refines the operations on sorted block lists of \<open>First_Fit\<close>. \<open>Kheap\<close>: the blocks in
  use, the free blocks and the free pages stay disjoint, above any \<open>page_allocator\<close>. The fuel counts
  the list entries looked at; twice the units between the arena and the end of memory is enough.

  \<^bold>\<open>Scheduling (lab8/kern/schedule, lab8/libs/skew_heap.h).\<close> \<open>Skew_Heap\<close>: the pointer routines,
  refined by the merge of trees. \<open>Sched_Class\<close>: the interface as a record and a locale, round robin
  and stride scheduling as its interpretations. \<open>Sched\<close>: \<open>sched.c\<close> with its timers.

  \<^bold>\<open>Files (lab8/kern/fs).\<close> \<open>Vfs_Inode\<close>: reference counts and dispatch of inodes, devices.
  \<open>Vfs\<close>: the device table, names, working directory, open and close. The file systems behind the
  table are parameters. \<open>Devices\<close>: the drivers of standard input, standard output and the disk, and
  \<open>dev_init\<close>. The buffer of standard input is an interpretation of the locale \<open>char_queue\<close>; a sleeping
  reader takes the events that wake it from a list. The loop of \<open>disk0_io\<close> ends because its assertions
  make every pass shorten the request; wait queues, \<open>iobuf_move\<close> and the IDE routines, which lab8 does
  not contain, are parameters with the laws \<open>ide_laws\<close> and \<open>move_laws\<close>.

  \<^bold>\<open>Image builder (lab8/tools/mksfs.c).\<close> \<open>Mksfs\<close>: the program that writes a directory of the host
  into the image of the simple file system. \<open>Mksfs_Inv\<close>: every block number has one role, a ghost map
  that only grows, and appending a block to a file appends its number to that file alone, through
  the index blocks of both levels. \<open>Mksfs_Tree\<close>: the bytes of files and the entries of directories.
  \<open>Mksfs_Image\<close>: the blocks that \<open>close_sfs\<close> leaves, and a reader of the image that finds the
  directory of the host in it; the free map; no block has two uses. The recursion follows the host,
  whose directory is a finite tree; names are of at most 252 characters, since \<open>add_entry\<close> writes no more.

  \<^bold>\<open>Library (lab8/libs).\<close> \<open>CString\<close>, \<open>Printfmt\<close>, \<open>Hash_Rand\<close>, \<open>Errno\<close>.

  \<^bold>\<open>Not modelled.\<close> Self tests (\<open>check_*\<close>), console output, assembly and control registers, the
  translation cache, boot code, symbol tables for debugging, user programs, and build tools. The
  labs hold several versions of the same files; one of them is modelled.
\<close>

end
